(* ===== verification/Net_Prelude.thy ===== *)
theory Net_Prelude
  imports Main "HOL-Library.Word"
begin

text \<open>
  Shared vocabulary of the development: bytes and machine words, the faults a C program can
  run into, a bind for computations that may fault, the memory image of 16-bit and 32-bit
  integers on the little-endian host the repository is built for, and buffers whose tail was
  never written.
\<close>

unbundle bit_operations_syntax

named_theorems wire_simps \<open>byte order and memory images\<close>
named_theorems fault_simps \<open>binding computations that may fault\<close>

section \<open>Words\<close>

type_synonym byte = "8 word"
type_synonym u16 = "16 word"
type_synonym u32 = "32 word"
type_synonym u64 = "64 word"

section \<open>Faults\<close>

text \<open>
  What ends a C computation early: a failed \<open>assert\<close>, an operation without defined
  behaviour (NULL dereference, use after free, double free, signed overflow), a call of
  \<open>exit\<close> with its status, or a blocking call for which no input is left.
\<close>

datatype fault = Assertion | Undefined | Exit int | Blocked

fun bind_res :: "'e + 'a \<Rightarrow> ('a \<Rightarrow> 'e + 'b) \<Rightarrow> 'e + 'b" where
  "bind_res (Inl e) f = Inl e"
| "bind_res (Inr a) f = f a"

definition assert_c :: "bool \<Rightarrow> fault + unit" where
  "assert_c b = (if b then Inr () else Inl Assertion)"

lemma bind_res_Inr [fault_simps]:
  "bind_res m f = Inr b \<longleftrightarrow> (\<exists>a. m = Inr a \<and> f a = Inr b)"
  by (cases m) auto

lemma bind_res_Inl [fault_simps]:
  "bind_res m f = Inl e \<longleftrightarrow> m = Inl e \<or> (\<exists>a. m = Inr a \<and> f a = Inl e)"
  by (cases m) auto

lemma bind_res_assoc: "bind_res (bind_res m f) g = bind_res m (\<lambda>a. bind_res (f a) g)"
  by (cases m) auto

lemma assert_c_simps [simp]:
  "assert_c True = Inr ()" "assert_c False = Inl Assertion"
  by (simp_all add: assert_c_def)

lemma assert_c_Inr [fault_simps]: "assert_c b = Inr u \<longleftrightarrow> b"
  by (auto simp: assert_c_def)

lemma assert_c_Inl [fault_simps]: "assert_c b = Inl e \<longleftrightarrow> \<not> b \<and> e = Assertion"
  by (auto simp: assert_c_def)

section \<open>Byte order and memory images\<close>

text \<open>
  \<open>htons\<close> and \<open>ntohs\<close> swap the two bytes on a little-endian host; \<open>mem16\<close> is what
  \<open>memcpy\<close> reads from a \<open>uint16_t\<close>, \<open>of_mem16\<close> what it writes into one.
\<close>

definition htons :: "u16 \<Rightarrow> u16" where
  "htons w = push_bit 8 w OR drop_bit 8 w"

definition ntohs :: "u16 \<Rightarrow> u16" where
  "ntohs w = push_bit 8 w OR drop_bit 8 w"

definition mem16 :: "u16 \<Rightarrow> byte list" where
  "mem16 w = [ucast w, ucast (drop_bit 8 w)]"

definition of_mem16 :: "byte \<Rightarrow> byte \<Rightarrow> u16" where
  "of_mem16 a b = ucast a OR push_bit 8 (ucast b)"

definition mem32 :: "u32 \<Rightarrow> byte list" where
  "mem32 w = [ucast w, ucast (drop_bit 8 w), ucast (drop_bit 16 w), ucast (drop_bit 24 w)]"

definition of_mem32 :: "byte \<Rightarrow> byte \<Rightarrow> byte \<Rightarrow> byte \<Rightarrow> u32" where
  "of_mem32 a b c d =
     ucast a OR push_bit 8 (ucast b) OR push_bit 16 (ucast c) OR push_bit 24 (ucast d)"

lemma ntohs_htons [simp, wire_simps]: "ntohs (htons w) = w"
  by (rule bit_word_eqI) (auto simp: ntohs_def htons_def bit_simps)

lemma htons_ntohs [simp, wire_simps]: "htons (ntohs w) = w"
  by (rule bit_word_eqI) (auto simp: ntohs_def htons_def bit_simps)

lemma ntohs_inject [simp]: "ntohs a = ntohs b \<longleftrightarrow> a = b"
  by (metis htons_ntohs)

lemma length_mem16 [simp]: "length (mem16 w) = 2"
  by (simp add: mem16_def)

lemma length_mem32 [simp]: "length (mem32 w) = 4"
  by (simp add: mem32_def)

lemma of_mem16_mem16 [simp, wire_simps]: "of_mem16 (ucast w) (ucast (drop_bit 8 w)) = w"
  by (rule bit_word_eqI) (auto simp: of_mem16_def bit_simps)

lemma of_mem32_mem32 [simp, wire_simps]:
  "of_mem32 (ucast w) (ucast (drop_bit 8 w)) (ucast (drop_bit 16 w)) (ucast (drop_bit 24 w)) = w"
proof (rule bit_word_eqI)
  fix n
  assume "n < LENGTH(32)"
  then consider "n < 8" | "8 \<le> n" "n < 16" | "16 \<le> n" "n < 24" | "24 \<le> n" "n < 32"
    by force
  then show "bit (of_mem32 (ucast w) (ucast (drop_bit 8 w)) (ucast (drop_bit 16 w))
      (ucast (drop_bit 24 w))) n = bit w n"
    by cases (auto simp: of_mem32_def bit_simps)
qed

text \<open>A number sent with \<open>htons\<close> and \<open>memcpy\<close>: the big-endian pair of bytes.\<close>

definition put16 :: "u16 \<Rightarrow> byte list" where
  "put16 n = mem16 (htons n)"

definition get16 :: "byte list \<Rightarrow> nat \<Rightarrow> u16" where
  "get16 bs i = ntohs (of_mem16 (bs ! i) (bs ! Suc i))"

lemma length_put16 [simp]: "length (put16 n) = 2"
  by (simp add: put16_def)

lemma get16_put16 [simp, wire_simps]:
  "length pre = i \<Longrightarrow> get16 (pre @ put16 n @ post) i = n"
  by (simp add: get16_def put16_def mem16_def nth_append)

section \<open>Buffers\<close>

text \<open>
  \<open>fill_buf junk n d\<close> is a buffer of \<open>n\<close> bytes after \<open>recvfrom\<close> wrote the datagram
  \<open>d\<close> into it: bytes past the end of \<open>d\<close> keep whatever the allocation held, which the
  model takes as an argument.
\<close>

definition fill_buf :: "(nat \<Rightarrow> byte) \<Rightarrow> nat \<Rightarrow> byte list \<Rightarrow> byte list" where
  "fill_buf junk n d = take n d @ map junk [length (take n d)..<n]"

lemma length_fill_buf [simp]: "length (fill_buf junk n d) = n"
  by (simp add: fill_buf_def)

lemma fill_buf_exact [simp]: "length d = n \<Longrightarrow> fill_buf junk n d = d"
  by (simp add: fill_buf_def)

lemma fill_buf_long: "n \<le> length d \<Longrightarrow> fill_buf junk n d = take n d"
  by (simp add: fill_buf_def min_def)

lemma take_fill_buf: "m \<le> n \<Longrightarrow> m \<le> length d \<Longrightarrow> take m (fill_buf junk n d) = take m d"
  by (simp add: fill_buf_def min_def)

section \<open>Lists\<close>

lemma concat_update_split:
  assumes "i < length xss"
  shows "concat (xss[i := ys]) = concat (take i xss) @ ys @ concat (drop (Suc i) xss)"
  using assms by (simp add: upd_conv_take_nth_drop)

lemma concat_split:
  assumes "i < length xss"
  shows "concat xss = concat (take i xss) @ xss ! i @ concat (drop (Suc i) xss)"
  using assms by (metis concat.simps(2) concat_append id_take_nth_drop)

end
