(* ===== verification/Kv_Store.thy ===== *)
theory Kv_Store
  imports Net_Prelude
begin

text \<open>
  The interface the servers and clients of the repository rely on: a store of key/value pairs
  with lookup, insertion and deletion. \<open>content\<close> is the finite map a store stands for,
  \<open>room n\<close> says that \<open>n\<close> more insertions fit. What follows from the laws alone is proved
  here once: sequences of operations, idempotence, the independence of different keys.
\<close>

datatype ('k, 'v) kv_op = Put 'k 'v | Remove 'k

fun run_ops :: "('s \<Rightarrow> 'k \<Rightarrow> 'v \<Rightarrow> 's) \<Rightarrow> ('s \<Rightarrow> 'k \<Rightarrow> 's) \<Rightarrow> 's \<Rightarrow> ('k, 'v) kv_op list \<Rightarrow> 's" where
  "run_ops put del s [] = s"
| "run_ops put del s (Put k v # ops) = run_ops put del (put s k v) ops"
| "run_ops put del s (Remove k # ops) = run_ops put del (del s k) ops"

fun spec_ops :: "('k \<rightharpoonup> 'v) \<Rightarrow> ('k, 'v) kv_op list \<Rightarrow> 'k \<rightharpoonup> 'v" where
  "spec_ops m [] = m"
| "spec_ops m (Put k v # ops) = spec_ops (m(k \<mapsto> v)) ops"
| "spec_ops m (Remove k # ops) = spec_ops (m(k := None)) ops"

locale kv_store =
  fixes lookup :: "'s \<Rightarrow> 'k \<Rightarrow> 'v option"
    and put :: "'s \<Rightarrow> 'k \<Rightarrow> 'v \<Rightarrow> 's"
    and del :: "'s \<Rightarrow> 'k \<Rightarrow> 's"
    and inv :: "'s \<Rightarrow> bool"
    and room :: "nat \<Rightarrow> 's \<Rightarrow> bool"
    and content :: "'s \<Rightarrow> 'k \<rightharpoonup> 'v"
  assumes lookup_content: "inv s \<Longrightarrow> lookup s k = content s k"
    and put_content: "inv s \<Longrightarrow> room (Suc n) s \<Longrightarrow> content (put s k v) = (content s)(k \<mapsto> v)"
    and put_inv: "inv s \<Longrightarrow> room (Suc n) s \<Longrightarrow> inv (put s k v)"
    and put_room: "inv s \<Longrightarrow> room (Suc n) s \<Longrightarrow> room n (put s k v)"
    and del_content: "inv s \<Longrightarrow> content (del s k) = (content s)(k := None)"
    and del_inv: "inv s \<Longrightarrow> inv (del s k)"
    and del_room: "inv s \<Longrightarrow> room n s \<Longrightarrow> room n (del s k)"
    and room_mono: "room (Suc n) s \<Longrightarrow> room n s"
begin

lemma run_ops_refines:
  "inv s \<Longrightarrow> room (length ops) s \<Longrightarrow>
     inv (run_ops put del s ops) \<and> content (run_ops put del s ops) = spec_ops (content s) ops"
proof (induction ops arbitrary: s)
  case (Cons x ops)
  show ?case
  proof (cases x)
    case (Put k v)
    from Cons.prems have r: "room (Suc (length ops)) s" by simp
    note p = put_content [OF Cons.prems(1) r, of k v] put_inv [OF Cons.prems(1) r, of k v]
      put_room [OF Cons.prems(1) r, of k v]
    from Cons.IH [OF p(2,3)] show ?thesis
      by (simp only: Put run_ops.simps spec_ops.simps p(1))
  next
    case (Remove k)
    from Cons.prems have r: "room (length ops) s" by (simp add: room_mono)
    note p = del_content [OF Cons.prems(1), of k] del_inv [OF Cons.prems(1), of k]
      del_room [OF Cons.prems(1) r, of k]
    from Cons.IH [OF p(2,3)] show ?thesis
      by (simp only: Remove run_ops.simps spec_ops.simps p(1))
  qed
qed simp

lemma lookup_after_put:
  "inv s \<Longrightarrow> room (Suc n) s \<Longrightarrow> lookup (put s k v) j = (if j = k then Some v else lookup s j)"
  by (simp add: lookup_content put_content put_inv)

lemma lookup_after_del:
  "inv s \<Longrightarrow> lookup (del s k) j = (if j = k then None else lookup s j)"
  by (simp add: lookup_content del_content del_inv)

lemma put_idempotent:
  assumes "inv s" and "room (Suc (Suc n)) s"
  shows "content (put (put s k v) k v) = content (put s k v)"
  using assms put_inv put_room by (metis fun_upd_upd put_content)

lemma del_idempotent: "inv s \<Longrightarrow> content (del (del s k) k) = content (del s k)"
  by (simp add: del_content del_inv)

lemma put_commute:
  assumes "inv s" and "room (Suc (Suc n)) s" and "j \<noteq> k"
  shows "content (put (put s k v) j w) = content (put (put s j w) k v)"
proof -
  have "content (put (put s k v) j w) = (content s)(k \<mapsto> v, j \<mapsto> w)"
    using assms put_inv put_room by (metis put_content)
  moreover have "content (put (put s j w) k v) = (content s)(j \<mapsto> w, k \<mapsto> v)"
    using assms put_inv put_room by (metis put_content)
  ultimately show ?thesis using assms(3) by (simp add: fun_upd_twist)
qed

end

end
