(* ===== verification/Hash_Table.thy ===== *)
theory Hash_Table
  imports Kv_Store "HOL-Library.Multiset"
begin

text \<open>
  The chained hash table of \<open>hash_table.c\<close>. The file exists in two variants that differ in
  \<open>string_hash\<close> only: \<open>uint16_t\<close> in \<open>Hash Table\<close> and \<open>Simple Hash Table Client Server\<close>,
  \<open>size_t\<close> in \<open>Distributed Hash Table\<close> and \<open>Onion Movie Hash Table Databse\<close>. The operations
  take the hash function as their argument \<open>h\<close>. A chain of \<open>next\<close> pointers is the list of
  its elements; \<open>key_len\<close> and \<open>value_len\<close> are the lengths of the byte lists. Sizes are
  \<open>size_t\<close>: natural numbers with the reduction modulo \<open>2 ^ 64\<close> written out. Allocation is
  taken to succeed, as the source does.
\<close>

section \<open>The hash functions\<close>

text \<open>\<open>char\<close> is signed on the host, so the cast of \<open>str[i]\<close> extends its sign.\<close>

fun string_hash16_loop :: "u16 \<Rightarrow> byte list \<Rightarrow> u16" where
  "string_hash16_loop hash [] = hash"
| "string_hash16_loop hash (c # str) =
     string_hash16_loop ((push_bit 5 hash + hash) + scast c) str"

definition string_hash16 :: "byte list \<Rightarrow> u16" where
  "string_hash16 str = string_hash16_loop 5381 str"

fun string_hash64_loop :: "u64 \<Rightarrow> byte list \<Rightarrow> u64" where
  "string_hash64_loop hash [] = hash"
| "string_hash64_loop hash (c # str) =
     string_hash64_loop ((push_bit 5 hash + hash) + scast c) str"

definition string_hash64 :: "byte list \<Rightarrow> u64" where
  "string_hash64 str = string_hash64_loop 5381 str"

type_synonym hash_fun = "byte list \<Rightarrow> nat"

definition hash16 :: hash_fun where
  "hash16 k = unat (string_hash16 k)"

definition hash64 :: hash_fun where
  "hash64 k = unat (string_hash64 k)"

section \<open>Data\<close>

record hash_table_elem =
  elem_key :: "byte list"
  elem_val :: "byte list"

record hash_table =
  tbl_size :: nat
  n_elems :: nat
  elems :: "hash_table_elem list list"

definition INITIAL_SIZE :: nat where
  "INITIAL_SIZE = 3"

definition ht_create :: hash_table where
  "ht_create = \<lparr>tbl_size = INITIAL_SIZE, n_elems = 0, elems = replicate INITIAL_SIZE []\<rparr>"

section \<open>Operations\<close>

definition get_hash :: "hash_fun \<Rightarrow> hash_table \<Rightarrow> byte list \<Rightarrow> nat" where
  "get_hash h tbl k = h k mod tbl_size tbl"

fun find_elem :: "byte list \<Rightarrow> hash_table_elem list \<Rightarrow> hash_table_elem option" where
  "find_elem k [] = None"
| "find_elem k (e # list) = (if elem_key e = k then Some e else find_elem k list)"

text \<open>The status and what \<open>*res\<close> points to: \<open>None\<close> for NULL.\<close>

definition ht_get_value ::
  "hash_fun \<Rightarrow> hash_table \<Rightarrow> byte list \<Rightarrow> int \<times> byte list option" where
  "ht_get_value h tbl k =
     (case find_elem k (elems tbl ! get_hash h tbl k) of
        Some e \<Rightarrow> (0, Some (elem_val e))
      | None \<Rightarrow> (-1, None))"

text \<open>The inner loop of \<open>resize\<close>: each element moves to the front of its new chain.\<close>

fun move_chain ::
  "hash_fun \<Rightarrow> hash_table \<Rightarrow> hash_table_elem list \<Rightarrow> hash_table_elem list list
     \<Rightarrow> hash_table_elem list list" where
  "move_chain h tbl [] new_elems = new_elems"
| "move_chain h tbl (list # next) new_elems =
     (let hash = get_hash h tbl (elem_key list)
      in move_chain h tbl next (new_elems[hash := list # new_elems ! hash]))"

fun move_chains ::
  "hash_fun \<Rightarrow> hash_table \<Rightarrow> hash_table_elem list list \<Rightarrow> hash_table_elem list list
     \<Rightarrow> hash_table_elem list list" where
  "move_chains h tbl [] new_elems = new_elems"
| "move_chains h tbl (c # cs) new_elems = move_chains h tbl cs (move_chain h tbl c new_elems)"

definition resize :: "hash_fun \<Rightarrow> hash_table \<Rightarrow> hash_table" where
  "resize h tbl =
     (let prev_elems = elems tbl;
          tbl = tbl\<lparr>tbl_size := (2 * tbl_size tbl) mod 2 ^ 64\<rparr>;
          new_elems = replicate (tbl_size tbl) []
      in tbl\<lparr>elems := move_chains h tbl prev_elems new_elems\<rparr>)"

text \<open>The walk of \<open>ht_set_value\<close>: \<open>None\<close> when the key is not in the chain.\<close>

fun overwrite :: "byte list \<Rightarrow> byte list \<Rightarrow> hash_table_elem list \<Rightarrow> hash_table_elem list option" where
  "overwrite k v [] = None"
| "overwrite k v (e # list) =
     (if elem_key e = k then Some (e\<lparr>elem_val := v\<rparr> # list)
      else map_option ((#) e) (overwrite k v list))"

definition ht_set_value ::
  "hash_fun \<Rightarrow> hash_table \<Rightarrow> byte list \<Rightarrow> byte list \<Rightarrow> int \<times> hash_table" where
  "ht_set_value h tbl k v =
     (let tbl = (if (4 * n_elems tbl) mod 2 ^ 64 > (3 * tbl_size tbl) mod 2 ^ 64
                 then resize h tbl else tbl);
          hash = get_hash h tbl k
      in case overwrite k v (elems tbl ! hash) of
           Some list \<Rightarrow> (0, tbl\<lparr>elems := (elems tbl)[hash := list]\<rparr>)
         | None \<Rightarrow>
             (0, tbl\<lparr>elems := (elems tbl)[hash := \<lparr>elem_key = k, elem_val = v\<rparr> # elems tbl ! hash],
                    n_elems := (n_elems tbl + 1) mod 2 ^ 64\<rparr>))"

text \<open>The walk of \<open>ht_delete_key\<close>: the chain without the first element of that key.\<close>

fun unlink :: "byte list \<Rightarrow> hash_table_elem list \<Rightarrow> hash_table_elem list option" where
  "unlink k [] = None"
| "unlink k (e # list) = (if elem_key e = k then Some list else map_option ((#) e) (unlink k list))"

definition ht_delete_key :: "hash_fun \<Rightarrow> hash_table \<Rightarrow> byte list \<Rightarrow> int \<times> hash_table" where
  "ht_delete_key h tbl k =
     (let hash = get_hash h tbl k
      in case unlink k (elems tbl ! hash) of
           Some list \<Rightarrow>
             (0, tbl\<lparr>elems := (elems tbl)[hash := list],
                    n_elems := (n_elems tbl + 2 ^ 64 - 1) mod 2 ^ 64\<rparr>)
         | None \<Rightarrow> (-1, tbl))"

text \<open>\<open>ht_destroy\<close> as the sequence of blocks it frees.\<close>

datatype block =
  KeyBlock hash_table_elem | ValueBlock hash_table_elem | ElemBlock hash_table_elem
| ElemsArray | TableBlock

fun free_chain :: "hash_table_elem list \<Rightarrow> block list" where
  "free_chain [] = []"
| "free_chain (e # list) = KeyBlock e # ValueBlock e # ElemBlock e # free_chain list"

fun free_chains :: "hash_table_elem list list \<Rightarrow> nat \<Rightarrow> nat \<Rightarrow> block list" where
  "free_chains cs i 0 = []"
| "free_chains cs i (Suc n) = free_chain (cs ! i) @ free_chains cs (Suc i) n"

definition ht_destroy :: "hash_table \<Rightarrow> block list" where
  "ht_destroy tbl = free_chains (elems tbl) 0 (tbl_size tbl) @ [ElemsArray, TableBlock]"

section \<open>Well-formed tables and the map they represent\<close>

text \<open>
  \<open>ht_wf\<close> is what every operation keeps: each element is in the chain its hash selects, keys
  are distinct, \<open>n_elems\<close> counts the elements and the load stays near 3/4. \<open>ht_room\<close>
  says that the array of pointers a doubled table needs is still addressable, so that no
  \<open>size_t\<close> expression of the file wraps.
\<close>

abbreviation entry :: "hash_table_elem \<Rightarrow> byte list \<times> byte list" where
  "entry e \<equiv> (elem_key e, elem_val e)"

definition ht_map :: "hash_table \<Rightarrow> byte list \<rightharpoonup> byte list" where
  "ht_map tbl = map_of (map entry (concat (elems tbl)))"

definition buckets_ok :: "hash_fun \<Rightarrow> nat \<Rightarrow> hash_table_elem list list \<Rightarrow> bool" where
  "buckets_ok h n xss \<longleftrightarrow>
     (\<forall>i < length xss. \<forall>e \<in> set (xss ! i). h (elem_key e) mod n = i)"

definition ht_wf :: "hash_fun \<Rightarrow> hash_table \<Rightarrow> bool" where
  "ht_wf h tbl \<longleftrightarrow>
     3 \<le> tbl_size tbl \<and> length (elems tbl) = tbl_size tbl \<and>
     buckets_ok h (tbl_size tbl) (elems tbl) \<and>
     distinct (map elem_key (concat (elems tbl))) \<and>
     n_elems tbl = length (concat (elems tbl)) \<and> n_elems tbl < 2 ^ 64 \<and>
     4 * n_elems tbl \<le> 3 * tbl_size tbl + 4"

definition ht_room :: "nat \<Rightarrow> hash_table \<Rightarrow> bool" where
  "ht_room m tbl \<longleftrightarrow> tbl_size tbl < 2 ^ 60 \<and> n_elems tbl + m < 2 ^ 58"

named_theorems chain_simps \<open>walks along one chain\<close>

lemma find_elem_map_of [chain_simps]:
  "map_option elem_val (find_elem k c) = map_of (map entry c) k"
  by (induction c) auto

lemma overwrite_None [chain_simps]:
  "overwrite k v c = None \<longleftrightarrow> k \<notin> elem_key ` set c"
  by (induction c) auto

lemma overwrite_keys: "overwrite k v c = Some c' \<Longrightarrow> map elem_key c' = map elem_key c"
  by (induction c arbitrary: c') (auto split: if_splits)

lemma overwrite_map_of:
  "overwrite k v c = Some c' \<Longrightarrow> map_of (map entry c') = (map_of (map entry c))(k \<mapsto> v)"
  by (induction c arbitrary: c') (auto split: if_splits)

lemma unlink_None [chain_simps]: "unlink k c = None \<longleftrightarrow> k \<notin> elem_key ` set c"
  by (induction c) auto

lemma unlink_split:
  "unlink k c = Some c' \<Longrightarrow> \<exists>xs e ys. c = xs @ e # ys \<and> c' = xs @ ys \<and> elem_key e = k"
proof (induction c arbitrary: c')
  case (Cons e c)
  show ?case
  proof (cases "elem_key e = k")
    case True
    with Cons.prems show ?thesis by (intro exI [of _ "[]"]) auto
  next
    case False
    with Cons.prems obtain d where d: "unlink k c = Some d" and c': "c' = e # d" by auto
    from Cons.IH [OF d] obtain xs f ys
      where "c = xs @ f # ys \<and> d = xs @ ys \<and> elem_key f = k" by blast
    with c' show ?thesis by (intro exI [of _ "e # xs"]) auto
  qed
qed simp

subsection \<open>Replacing one chain\<close>

text \<open>
  Every operation but \<open>resize\<close> replaces the chain of one hash value. The three facts below
  reduce what it does to the table to what it does to that chain.
\<close>

lemma buckets_ok_update:
  assumes "buckets_ok h n xss" and "\<forall>e \<in> set c. h (elem_key e) mod n = i"
  shows "buckets_ok h n (xss[i := c])"
  unfolding buckets_ok_def
proof (intro allI impI ballI)
  fix j e
  assume "j < length (xss[i := c])" and "e \<in> set (xss[i := c] ! j)"
  with assms show "h (elem_key e) mod n = j"
    by (cases "j = i") (auto simp: buckets_ok_def)
qed

lemma buckets_okD:
  "buckets_ok h n xss \<Longrightarrow> j < length xss \<Longrightarrow> e \<in> set (xss ! j) \<Longrightarrow> h (elem_key e) mod n = j"
  by (auto simp: buckets_ok_def)

lemma foreign_chain:
  assumes "buckets_ok h n xss" and "i < length xss" and "h k mod n = i"
  shows "k \<notin> elem_key ` set (concat (take i xss))"
    and "k \<notin> elem_key ` set (concat (drop (Suc i) xss))"
proof -
  have other: "k \<notin> elem_key ` set (xss ! j)" if "j < length xss" and "j \<noteq> i" for j
    using buckets_okD [OF assms(1) that(1)] assms(3) that(2) by blast
  have ne: "k \<notin> elem_key ` set c" if "c \<in> set (take i xss) \<or> c \<in> set (drop (Suc i) xss)" for c
  proof -
    from that show ?thesis
    proof
      assume "c \<in> set (take i xss)"
      then obtain j where "j < i" "c = xss ! j"
        by (auto simp: in_set_conv_nth)
      with other [of j] assms(2) show ?thesis by simp
    next
      assume "c \<in> set (drop (Suc i) xss)"
      then obtain j where "j < length (drop (Suc i) xss)" "c = drop (Suc i) xss ! j"
        unfolding in_set_conv_nth by blast
      with other [of "Suc (i + j)"] show ?thesis by simp
    qed
  qed
  then show "k \<notin> elem_key ` set (concat (take i xss))"
    and "k \<notin> elem_key ` set (concat (drop (Suc i) xss))"
    by auto
qed

lemma map_of_chain:
  assumes "buckets_ok h n xss" and "i < length xss" and "h k mod n = i"
  shows "map_of (map entry (concat xss)) k = map_of (map entry (xss ! i)) k"
proof -
  have none: "map_of (map entry zs) k = None" if "k \<notin> elem_key ` set zs" for zs
    using that by (auto simp: map_of_eq_None_iff)
  show ?thesis
    using foreign_chain [OF assms]
    by (subst concat_split [OF assms(2)])
      (auto simp: map_add_def none split: option.splits)
qed

lemma map_of_concat_update:
  assumes ok: "buckets_ok h n xss" and i: "i < length xss" and k: "h k mod n = i"
    and c: "map_of (map entry c) = (map_of (map entry (xss ! i)))(k := r)"
  shows "map_of (map entry (concat (xss[i := c]))) = (map_of (map entry (concat xss)))(k := r)"
proof
  fix x
  have none: "map_of (map entry zs) k = None" if "k \<notin> elem_key ` set zs" for zs
    using that by (auto simp: map_of_eq_None_iff)
  show "map_of (map entry (concat (xss[i := c]))) x = ((map_of (map entry (concat xss)))(k := r)) x"
    using foreign_chain [OF ok i k]
    by (simp add: concat_update_split [OF i] concat_split [OF i] c map_add_def none
        split: option.splits)
qed

subsection \<open>Well-formedness\<close>

lemma ht_wfD:
  assumes "ht_wf h tbl"
  shows "0 < tbl_size tbl" and "length (elems tbl) = tbl_size tbl"
    and "buckets_ok h (tbl_size tbl) (elems tbl)"
    and "distinct (map elem_key (concat (elems tbl)))"
    and "get_hash h tbl k < length (elems tbl)"
  using assms by (auto simp: ht_wf_def get_hash_def)

lemma ht_get_value_map:
  assumes "ht_wf h tbl"
  shows "ht_get_value h tbl k =
    (case ht_map tbl k of Some v \<Rightarrow> (0, Some v) | None \<Rightarrow> (-1, None))"
proof -
  have "ht_map tbl k = map_option elem_val (find_elem k (elems tbl ! get_hash h tbl k))"
    using ht_wfD [OF assms] unfolding ht_map_def find_elem_map_of
    by (intro map_of_chain) (auto simp: get_hash_def)
  then show ?thesis
    by (cases "find_elem k (elems tbl ! get_hash h tbl k)") (auto simp: ht_get_value_def)
qed

lemma ht_wf_create: "ht_wf h ht_create"
  by (simp add: ht_wf_def ht_create_def INITIAL_SIZE_def buckets_ok_def)

lemma ht_map_create: "ht_map ht_create = Map.empty"
  by (simp add: ht_map_def ht_create_def)

subsection \<open>Resizing\<close>

lemma move_chain_length [simp]: "length (move_chain h tbl c new) = length new"
  by (induction c arbitrary: new) (auto simp: Let_def)

lemma move_chains_length [simp]: "length (move_chains h tbl cs new) = length new"
  by (induction cs arbitrary: new) auto

lemma mset_concat_push:
  "i < length xss \<Longrightarrow> mset (concat (xss[i := e # xss ! i])) = add_mset e (mset (concat xss))"
  by (simp add: concat_update_split concat_split [of i xss])

lemma move_chain_mset:
  assumes "0 < tbl_size tbl" and "length new = tbl_size tbl"
  shows "mset (concat (move_chain h tbl c new)) = mset c + mset (concat new)"
  using assms(2)
proof (induction c arbitrary: new)
  case (Cons e c)
  have "get_hash h tbl (elem_key e) < length new"
    using assms(1) Cons.prems by (simp add: get_hash_def)
  then show ?case
    using Cons.IH Cons.prems by (simp add: Let_def mset_concat_push)
qed simp

lemma move_chains_mset:
  assumes "0 < tbl_size tbl" and "length new = tbl_size tbl"
  shows "mset (concat (move_chains h tbl cs new)) = mset (concat cs) + mset (concat new)"
  using assms(2)
  by (induction cs arbitrary: new) (auto simp: move_chain_mset [OF assms(1)])

lemma move_chain_buckets:
  assumes "0 < tbl_size tbl" and "length new = tbl_size tbl" and "buckets_ok h (tbl_size tbl) new"
  shows "buckets_ok h (tbl_size tbl) (move_chain h tbl c new)"
  using assms(2,3)
proof (induction c arbitrary: new)
  case (Cons e c)
  let ?i = "get_hash h tbl (elem_key e)"
  have "?i < length new" using assms(1) Cons.prems(1) by (simp add: get_hash_def)
  then have "buckets_ok h (tbl_size tbl) (new[?i := e # new ! ?i])"
    using Cons.prems(2) by (intro buckets_ok_update) (auto simp: get_hash_def buckets_okD)
  with Cons show ?case by (simp add: Let_def)
qed simp

lemma move_chains_buckets:
  assumes "0 < tbl_size tbl" and "length new = tbl_size tbl" and "buckets_ok h (tbl_size tbl) new"
  shows "buckets_ok h (tbl_size tbl) (move_chains h tbl cs new)"
  using assms(2,3)
  by (induction cs arbitrary: new) (auto simp: move_chain_buckets [OF assms(1)])

lemma map_of_mset_eq:
  assumes "mset xs = mset ys" and "distinct (map elem_key ys)"
  shows "map_of (map entry xs) = map_of (map entry ys)"
proof -
  have "mset (map elem_key xs) = mset (map elem_key ys)"
    using assms(1) by simp
  then have "distinct (map elem_key xs)"
    using assms(2) mset_eq_imp_distinct_iff by blast
  moreover have "set (map entry xs) = set (map entry ys)"
    using mset_eq_setD [OF assms(1)] by simp
  ultimately show ?thesis
    using assms(2) by (simp add: map_of_inject_set comp_def)
qed

lemma resize_elems:
  assumes wf: "ht_wf h tbl" and room: "ht_room m tbl"
  shows "tbl_size (resize h tbl) = 2 * tbl_size tbl"
    and "n_elems (resize h tbl) = n_elems tbl"
    and "length (elems (resize h tbl)) = 2 * tbl_size tbl"
    and "mset (concat (elems (resize h tbl))) = mset (concat (elems tbl))"
    and "buckets_ok h (2 * tbl_size tbl) (elems (resize h tbl))"
proof -
  have sz: "(2 * tbl_size tbl) mod 18446744073709551616 = 2 * tbl_size tbl" and pos: "0 < 2 * tbl_size tbl"
    using room ht_wfD(1) [OF wf] by (simp_all add: ht_room_def)
  let ?tbl = "tbl\<lparr>tbl_size := 2 * tbl_size tbl\<rparr>"
  let ?new = "replicate (2 * tbl_size tbl) [] :: hash_table_elem list list"
  have eq: "resize h tbl = ?tbl\<lparr>elems := move_chains h ?tbl (elems tbl) ?new\<rparr>"
    by (simp add: resize_def Let_def sz)
  show "tbl_size (resize h tbl) = 2 * tbl_size tbl" "n_elems (resize h tbl) = n_elems tbl"
    "length (elems (resize h tbl)) = 2 * tbl_size tbl"
    by (simp_all add: eq)
  show "mset (concat (elems (resize h tbl))) = mset (concat (elems tbl))"
    using move_chains_mset [of ?tbl ?new h "elems tbl"] pos by (simp add: eq)
  have "buckets_ok h (2 * tbl_size tbl) ?new"
    by (auto simp: buckets_ok_def)
  then show "buckets_ok h (2 * tbl_size tbl) (elems (resize h tbl))"
    using move_chains_buckets [of ?tbl ?new h "elems tbl"] pos by (simp add: eq)
qed

lemma resize_wf:
  assumes wf: "ht_wf h tbl" and room: "ht_room m tbl"
  shows "ht_wf h (resize h tbl)" and "ht_map (resize h tbl) = ht_map tbl"
proof -
  note r = resize_elems [OF wf room]
  have keys: "mset (map elem_key (concat (elems (resize h tbl)))) = mset (map elem_key (concat (elems tbl)))"
    using r(4) by (metis mset_map)
  show "ht_wf h (resize h tbl)"
    using wf r(1,2,3,5) mset_eq_length [OF r(4)] mset_eq_imp_distinct_iff [OF keys]
    by (simp add: ht_wf_def)
  show "ht_map (resize h tbl) = ht_map tbl"
    using map_of_mset_eq [OF r(4)] ht_wfD(4) [OF wf] by (simp add: ht_map_def)
qed

subsection \<open>Insertion\<close>

text \<open>The table \<open>ht_set_value\<close> works on after its load check.\<close>

definition grown :: "hash_fun \<Rightarrow> hash_table \<Rightarrow> hash_table" where
  "grown h tbl = (if 4 * n_elems tbl > 3 * tbl_size tbl then resize h tbl else tbl)"

lemma grown_eq:
  assumes "ht_room m tbl"
  shows "(if (4 * n_elems tbl) mod 2 ^ 64 > (3 * tbl_size tbl) mod 2 ^ 64
    then resize h tbl else tbl) = grown h tbl"
  using assms by (simp add: grown_def ht_room_def)

lemma grown_wf:
  assumes wf: "ht_wf h tbl" and room: "ht_room m tbl"
  shows "ht_wf h (grown h tbl)" and "ht_map (grown h tbl) = ht_map tbl"
    and "n_elems (grown h tbl) = n_elems tbl"
    and "4 * n_elems tbl \<le> 3 * tbl_size (grown h tbl)"
    and "tbl_size (grown h tbl) < 2 ^ 60"
  using resize_wf [OF wf room] resize_elems [OF wf room] wf room
  by (auto simp: grown_def ht_wf_def ht_room_def)

lemma ht_set_value_eq:
  assumes wf: "ht_wf h tbl" and room: "ht_room (Suc m) tbl"
  shows "ht_set_value h tbl k v =
    (let tbl = grown h tbl; hash = get_hash h tbl k
     in case overwrite k v (elems tbl ! hash) of
          Some list \<Rightarrow> (0, tbl\<lparr>elems := (elems tbl)[hash := list]\<rparr>)
        | None \<Rightarrow> (0, tbl\<lparr>elems := (elems tbl)[hash := \<lparr>elem_key = k, elem_val = v\<rparr> # elems tbl ! hash],
                          n_elems := n_elems tbl + 1\<rparr>))"
proof -
  have "(n_elems (grown h tbl) + 1) mod 2 ^ 64 = n_elems (grown h tbl) + 1"
    using grown_wf(3) [OF wf room] room by (simp add: ht_room_def)
  then show ?thesis
    unfolding ht_set_value_def grown_eq [OF room] by (simp only: Let_def)
qed

lemma ht_set_value_correct:
  assumes wf: "ht_wf h tbl" and room: "ht_room (Suc m) tbl"
  shows "fst (ht_set_value h tbl k v) = 0"
    and "ht_map (snd (ht_set_value h tbl k v)) = (ht_map tbl)(k \<mapsto> v)"
    and "ht_wf h (snd (ht_set_value h tbl k v))"
    and "ht_room m (snd (ht_set_value h tbl k v))"
proof -
  let ?g = "grown h tbl"
  note g = grown_wf [OF wf room]
  let ?i = "get_hash h ?g k"
  let ?c = "elems ?g ! ?i"
  note d = ht_wfD [OF g(1)]
  have i: "?i < length (elems ?g)" by (rule d(5))
  have hk: "h k mod tbl_size ?g = ?i" by (simp add: get_hash_def)
  have bucket: "\<forall>e \<in> set ?c. h (elem_key e) mod tbl_size ?g = ?i"
    using buckets_okD [OF d(3) i] by blast
  have small: "n_elems ?g + m < 2 ^ 58" "Suc (n_elems ?g) + m < 2 ^ 58" "Suc (n_elems ?g) < 2 ^ 64"
    using room g(3) by (simp_all add: ht_room_def)
  show "fst (ht_set_value h tbl k v) = 0"
    by (simp add: ht_set_value_eq [OF wf room] Let_def split: option.splits)
  have "ht_map t = (ht_map tbl)(k \<mapsto> v) \<and> ht_wf h t \<and> ht_room m t"
    if t: "t = snd (ht_set_value h tbl k v)" for t
  proof (cases "overwrite k v ?c")
    case (Some c)
    have t: "t = ?g\<lparr>elems := (elems ?g)[?i := c]\<rparr>"
      using t Some by (simp add: ht_set_value_eq [OF wf room] Let_def)
    have mc: "map_of (map entry c) = (map_of (map entry ?c))(k := Some v)"
      using overwrite_map_of [OF Some] .
    have keys: "map elem_key (concat ((elems ?g)[?i := c])) = map elem_key (concat (elems ?g))"
      using overwrite_keys [OF Some] by (simp add: concat_update_split [OF i] concat_split [OF i])
    have len: "length (concat ((elems ?g)[?i := c])) = length (concat (elems ?g))"
      using keys by (metis length_map)
    have bc: "\<forall>e \<in> set c. h (elem_key e) mod tbl_size ?g = ?i"
      using bucket overwrite_keys [OF Some] by (metis (no_types, lifting) image_iff list.set_map)
    have "ht_map t = (ht_map tbl)(k \<mapsto> v)"
      using map_of_concat_update [OF d(3) i hk mc] g(2) by (simp add: t ht_map_def)
    moreover have "ht_wf h t"
      using g(1) keys len buckets_ok_update [OF d(3) bc] by (simp add: t ht_wf_def)
    moreover have "ht_room m t"
      using g(5) small by (simp add: t ht_room_def)
    ultimately show ?thesis by blast
  next
    case None
    let ?e = "\<lparr>elem_key = k, elem_val = v\<rparr>"
    have t: "t = ?g\<lparr>elems := (elems ?g)[?i := ?e # ?c], n_elems := n_elems ?g + 1\<rparr>"
      using t None by (simp add: ht_set_value_eq [OF wf room] Let_def)
    have mc: "map_of (map entry (?e # ?c)) = (map_of (map entry ?c))(k := Some v)" by simp
    have m: "mset (concat ((elems ?g)[?i := ?e # ?c])) = add_mset ?e (mset (concat (elems ?g)))"
      by (rule mset_concat_push [OF i])
    have "k \<notin> elem_key ` set (concat (elems ?g))"
    proof -
      have "k \<notin> elem_key ` set ?c" using None by (simp add: chain_simps)
      then have "map_of (map entry (concat (elems ?g))) k = None"
        by (subst map_of_chain [OF d(3) i hk]) (auto simp: map_of_eq_None_iff)
      then show ?thesis by (auto simp: map_of_eq_None_iff image_image)
    qed
    then have "distinct (map elem_key (?e # concat (elems ?g)))"
      using d(4) by simp
    moreover have "mset (map elem_key (concat ((elems ?g)[?i := ?e # ?c]))) = mset (map elem_key (?e # concat (elems ?g)))"
      using m by (metis mset.simps(2) mset_map)
    ultimately have dist: "distinct (map elem_key (concat ((elems ?g)[?i := ?e # ?c])))"
      using mset_eq_imp_distinct_iff by blast
    have len: "length (concat ((elems ?g)[?i := ?e # ?c])) = Suc (length (concat (elems ?g)))"
      using m by (metis size_add_mset size_mset)
    have bc: "\<forall>e \<in> set (?e # ?c). h (elem_key e) mod tbl_size ?g = ?i"
      using bucket hk by simp
    have "ht_map t = (ht_map tbl)(k \<mapsto> v)"
      using map_of_concat_update [OF d(3) i hk mc] g(2) by (simp add: t ht_map_def)
    moreover have "ht_wf h t"
      using g(1,3,4) dist len small buckets_ok_update [OF d(3) bc] by (simp add: t ht_wf_def)
    moreover have "ht_room m t"
      using g(5) small by (simp add: t ht_room_def)
    ultimately show ?thesis by blast
  qed
  then show "ht_map (snd (ht_set_value h tbl k v)) = (ht_map tbl)(k \<mapsto> v)"
    and "ht_wf h (snd (ht_set_value h tbl k v))" and "ht_room m (snd (ht_set_value h tbl k v))"
    by blast+
qed

subsection \<open>Deletion and destruction\<close>

lemma ht_delete_key_correct:
  assumes wf: "ht_wf h tbl"
  shows "fst (ht_delete_key h tbl k) = (if k \<in> dom (ht_map tbl) then 0 else -1)"
    and "ht_map (snd (ht_delete_key h tbl k)) = (ht_map tbl)(k := None)"
    and "ht_wf h (snd (ht_delete_key h tbl k))"
    and "ht_room m tbl \<Longrightarrow> ht_room m (snd (ht_delete_key h tbl k))"
proof -
  let ?i = "get_hash h tbl k"
  let ?c = "elems tbl ! ?i"
  let ?r = "ht_delete_key h tbl k"
  note d = ht_wfD [OF wf]
  have i: "?i < length (elems tbl)" by (rule d(5))
  have hk: "h k mod tbl_size tbl = ?i" by (simp add: get_hash_def)
  have here: "ht_map tbl k = map_of (map entry ?c) k"
    unfolding ht_map_def by (rule map_of_chain [OF d(3) i hk])
  have "fst ?r = (if k \<in> dom (ht_map tbl) then 0 else -1) \<and>
    ht_map (snd ?r) = (ht_map tbl)(k := None) \<and> ht_wf h (snd ?r) \<and>
    (ht_room m tbl \<longrightarrow> ht_room m (snd ?r))"
  proof (cases "unlink k ?c")
    case None
    then have r: "?r = (-1, tbl)" and "k \<notin> elem_key ` set ?c"
      by (simp add: ht_delete_key_def Let_def, simp add: chain_simps)
    then have "ht_map tbl k = None"
      unfolding here by (auto simp: map_of_eq_None_iff)
    with r wf show ?thesis by (auto simp: fun_upd_idem)
  next
    case (Some c)
    obtain xs e ys where c: "?c = xs @ e # ys" "c = xs @ ys" "elem_key e = k"
      using unlink_split [OF Some] by blast
    have m: "mset (concat (elems tbl)) = add_mset e (mset (concat ((elems tbl)[?i := c])))"
      by (simp add: concat_update_split [OF i] concat_split [OF i] c)
    then have "mset (map elem_key (concat (elems tbl))) = mset (k # map elem_key (concat ((elems tbl)[?i := c])))"
      using c(3) by (metis image_mset_add_mset mset.simps(2) mset_map)
    then have dist: "distinct (k # map elem_key (concat ((elems tbl)[?i := c])))"
      using d(4) mset_eq_imp_distinct_iff by blast
    have len: "length (concat (elems tbl)) = Suc (length (concat ((elems tbl)[?i := c])))"
      using m by (metis size_add_mset size_mset)
    have "k \<notin> elem_key ` set c"
      using dist i by (auto simp: concat_update_split [OF i])
    then have "k \<notin> elem_key ` set xs" and "k \<notin> elem_key ` set ys" using c(2) by auto
    then have "map_of (map entry xs) k = None" "map_of (map entry ys) k = None"
      by (auto simp: map_of_eq_None_iff)
    then have mc: "map_of (map entry c) = (map_of (map entry ?c))(k := None)"
      by (auto simp: c map_add_def fun_eq_iff split: option.splits)
    have n: "(n_elems tbl + 2 ^ 64 - 1) mod 2 ^ 64 = n_elems tbl - 1"
      using wf len by (simp add: ht_wf_def mod_if)
    have r: "?r = (0, tbl\<lparr>elems := (elems tbl)[?i := c], n_elems := n_elems tbl - 1\<rparr>)"
      using Some by (simp only: ht_delete_key_def Let_def option.case n)
    have "ht_map tbl k \<noteq> None"
      unfolding here by (simp add: c map_of_eq_None_iff)
    moreover have "ht_map (snd ?r) = (ht_map tbl)(k := None)"
      using map_of_concat_update [OF d(3) i hk mc] by (simp add: r ht_map_def)
    moreover have "buckets_ok h (tbl_size tbl) ((elems tbl)[?i := c])"
      using buckets_okD [OF d(3) i] by (intro buckets_ok_update [OF d(3)]) (simp add: c)
    then have "ht_wf h (snd ?r)"
      using wf dist len by (simp add: r ht_wf_def)
    moreover have "ht_room m tbl \<longrightarrow> ht_room m (snd ?r)"
      by (auto simp: r ht_room_def)
    ultimately show ?thesis by (auto simp: r)
  qed
  then show "fst ?r = (if k \<in> dom (ht_map tbl) then 0 else -1)"
    and "ht_map (snd ?r) = (ht_map tbl)(k := None)"
    and "ht_wf h (snd ?r)" and "ht_room m tbl \<Longrightarrow> ht_room m (snd ?r)"
    by blast+
qed

lemma length_free_chain: "length (free_chain c) = 3 * length c"
  by (induction c) auto

lemma length_free_chains:
  "i + n = length cs \<Longrightarrow> length (free_chains cs i n) = 3 * length (concat (drop i cs))"
proof (induction n arbitrary: i)
  case (Suc n)
  then have "drop i cs = cs ! i # drop (Suc i) cs" by (simp add: Cons_nth_drop_Suc)
  with Suc show ?case by (simp add: length_free_chain)
qed simp

lemma free_chains_eq:
  "i + n = length cs \<Longrightarrow> free_chains cs i n = concat (map free_chain (drop i cs))"
proof (induction n arbitrary: i)
  case (Suc n)
  then have "drop i cs = cs ! i # drop (Suc i) cs" by (simp add: Cons_nth_drop_Suc)
  with Suc show ?case by simp
qed simp

section \<open>The table as a store\<close>

definition ht_lookup :: "hash_fun \<Rightarrow> hash_table \<Rightarrow> byte list \<Rightarrow> byte list option" where
  "ht_lookup h tbl k = snd (ht_get_value h tbl k)"

definition ht_put :: "hash_fun \<Rightarrow> hash_table \<Rightarrow> byte list \<Rightarrow> byte list \<Rightarrow> hash_table" where
  "ht_put h tbl k v = snd (ht_set_value h tbl k v)"

definition ht_del :: "hash_fun \<Rightarrow> hash_table \<Rightarrow> byte list \<Rightarrow> hash_table" where
  "ht_del h tbl k = snd (ht_delete_key h tbl k)"

lemma ht_store: "kv_store (ht_lookup h) (ht_put h) (ht_del h) (ht_wf h) ht_room ht_map"
proof
  fix s k v n
  assume wf: "ht_wf h s"
  show "ht_lookup h s k = ht_map s k"
    by (simp add: ht_lookup_def ht_get_value_map [OF wf] split: option.splits)
  show "ht_map (ht_del h s k) = (ht_map s)(k := None)" "ht_wf h (ht_del h s k)"
    by (simp_all add: ht_del_def ht_delete_key_correct [OF wf])
  show "ht_room n s \<Longrightarrow> ht_room n (ht_del h s k)"
    by (simp add: ht_del_def ht_delete_key_correct [OF wf])
  assume room: "ht_room (Suc n) s"
  show "ht_map (ht_put h s k v) = (ht_map s)(k \<mapsto> v)" "ht_wf h (ht_put h s k v)"
    "ht_room n (ht_put h s k v)"
    by (simp_all add: ht_put_def ht_set_value_correct [OF wf room])
qed (simp add: ht_room_def)

interpretation ht: kv_store "ht_lookup h" "ht_put h" "ht_del h" "ht_wf h" ht_room ht_map for h
  by (rule ht_store)

lemma ht_room_create: "m < 2 ^ 58 \<Longrightarrow> ht_room m ht_create"
  by (simp add: ht_room_def ht_create_def INITIAL_SIZE_def)

abbreviation ht_run ::
  "hash_fun \<Rightarrow> hash_table \<Rightarrow> (byte list, byte list) kv_op list \<Rightarrow> hash_table" where
  "ht_run h \<equiv> run_ops (ht_put h) (ht_del h)"

section \<open>Properties\<close>

text \<open>
  C1: after any sequence of insertions and deletions on a fresh table, \<open>ht_get_value\<close> returns
  status 0 and the value the finite map after the same operations holds, and status -1 and NULL
  for every other key; for both hash functions, through every resize.
\<close>

theorem ht_sequence_refines_map:
  assumes "length ops < 2 ^ 58"
  shows "ht_wf h (ht_run h ht_create ops) \<and>
    ht_get_value h (ht_run h ht_create ops) k =
      (case spec_ops Map.empty ops k of Some v \<Rightarrow> (0, Some v) | None \<Rightarrow> (-1, None))"
proof -
  have "ht_wf h (ht_run h ht_create ops) \<and> ht_map (ht_run h ht_create ops) = spec_ops Map.empty ops"
    using ht.run_ops_refines [OF ht_wf_create ht_room_create [OF assms]] by (simp add: ht_map_create)
  then show ?thesis by (simp add: ht_get_value_map)
qed

theorem ht_sequence_refines_map_witness:
  "ht_get_value hash16 (ht_run hash16 ht_create [Put [97] [49], Put [98] [50], Remove [98]]) [97]
     = (0, Some [49])"
  using ht_sequence_refines_map [of "[Put [97] [49], Put [98] [50], Remove [98]]" hash16 "[97]"]
  by simp

text \<open>
  \<open>ht_set_value\<close> always returns 0, makes the key map to the value and nothing else,
  and keeps the table well-formed: chains by hash, distinct keys, \<open>n_elems\<close> the number of
  elements, load at most 3/4 plus one element.
\<close>

theorem ht_set_value_updates:
  assumes "ht_wf h tbl" and "ht_room (Suc m) tbl"
  shows "fst (ht_set_value h tbl k v) = 0 \<and>
    ht_map (snd (ht_set_value h tbl k v)) = (ht_map tbl)(k \<mapsto> v) \<and>
    ht_wf h (snd (ht_set_value h tbl k v))"
  using ht_set_value_correct [OF assms] by simp

theorem ht_set_value_updates_witness:
  "ht_map (snd (ht_set_value hash64 ht_create [1] [2])) = [[1] \<mapsto> [2]]"
  using ht_set_value_updates [OF ht_wf_create ht_room_create, of 0 hash64 "[1]" "[2]"]
  by (simp add: ht_map_create)

text \<open>
  \<open>ht_delete_key\<close> returns 0 exactly when the key was present and -1 otherwise, removes
  that key and no other, and keeps the table well-formed; a second deletion returns -1.
\<close>

theorem ht_delete_key_removes:
  assumes "ht_wf h tbl"
  shows "fst (ht_delete_key h tbl k) = (if k \<in> dom (ht_map tbl) then 0 else -1) \<and>
    ht_map (snd (ht_delete_key h tbl k)) = (ht_map tbl)(k := None) \<and>
    ht_wf h (snd (ht_delete_key h tbl k)) \<and>
    fst (ht_delete_key h (snd (ht_delete_key h tbl k)) k) = -1"
  using ht_delete_key_correct [OF assms] ht_delete_key_correct(1) [OF ht_delete_key_correct(3) [OF assms]]
  by simp

theorem ht_delete_key_removes_witness:
  "fst (ht_delete_key hash16 ht_create [7]) = -1"
  using ht_delete_key_removes [OF ht_wf_create, of hash16 "[7]"] by (simp add: ht_map_create)

text \<open>
  \<open>resize\<close> doubles the array, moves every element to the chain of its new hash and
  neither loses nor duplicates one: the multiset of elements and the map are unchanged.
\<close>

theorem resize_preserves:
  assumes "ht_wf h tbl" and "ht_room m tbl"
  shows "tbl_size (resize h tbl) = 2 * tbl_size tbl \<and>
    mset (concat (elems (resize h tbl))) = mset (concat (elems tbl)) \<and>
    ht_map (resize h tbl) = ht_map tbl \<and> ht_wf h (resize h tbl)"
  using resize_elems [OF assms] resize_wf [OF assms] by simp

theorem resize_preserves_witness:
  "tbl_size (resize hash16 ht_create) = 6 \<and> ht_map (resize hash16 ht_create) = Map.empty"
  using resize_preserves [OF ht_wf_create ht_room_create, of 0 hash16]
  by (simp add: ht_map_create) (simp add: ht_create_def INITIAL_SIZE_def)

text \<open>
  C10: \<open>ht_destroy\<close> frees three blocks for each element of a well-formed table, then the
  array and the table, each block exactly once.
\<close>

theorem ht_destroy_frees_once:
  assumes "ht_wf h tbl"
  shows "distinct (ht_destroy tbl) \<and> length (ht_destroy tbl) = 3 * n_elems tbl + 2 \<and>
    set (ht_destroy tbl) = {ElemsArray, TableBlock} \<union>
      (\<Union>e \<in> set (concat (elems tbl)). {KeyBlock e, ValueBlock e, ElemBlock e})"
proof -
  have eq: "ht_destroy tbl = free_chain (concat (elems tbl)) @ [ElemsArray, TableBlock]"
  proof -
    have app: "free_chain (xs @ ys) = free_chain xs @ free_chain ys" for xs ys
      by (induction xs) auto
    have "concat (map free_chain cs) = free_chain (concat cs)" for cs
      by (induction cs) (auto simp: app)
    then show ?thesis
      using free_chains_eq [of 0 "tbl_size tbl" "elems tbl"] ht_wfD(2) [OF assms]
      by (simp add: ht_destroy_def)
  qed
  have set: "set (free_chain c) = (\<Union>e \<in> set c. {KeyBlock e, ValueBlock e, ElemBlock e})" for c
    by (induction c) auto
  have "distinct (free_chain c)" if "distinct c" for c
    using that by (induction c) (auto simp: set)
  then show ?thesis
    using ht_wfD(4) [OF assms] assms
    by (simp add: eq set length_free_chain distinct_map ht_wf_def)
qed

theorem ht_destroy_frees_once_witness:
  "length (ht_destroy ht_create) = 2"
  using ht_destroy_frees_once [OF ht_wf_create [where h = hash16]] by (simp add: ht_create_def)

end
