(* ===== verification/Dht_Node.thy ===== *)
theory Dht_Node
  imports Hash_Table
begin

text \<open>
  The ring of \<open>Hash Table/server.c\<close>: identifiers on a circle of \<open>2 ^ 16\<close> positions, the
  state of one node (itself, its predecessor, its successor), the nine-byte internal messages
  and the handlers of JOIN, NOTIFY and STABILIZE. Identifiers, addresses and ports are kept in
  network byte order, as the structs of the source keep them. A handler returns the new node
  and the datagrams it hands to \<open>sendto\<close>, in order.
\<close>

section \<open>Constants and data\<close>

definition internal_mask :: byte where "internal_mask = 0x80"
definition join_mask :: byte where "join_mask = 1"
definition notify_mask :: byte where "notify_mask = 2"
definition stabilize_mask :: byte where "stabilize_mask = 4"

definition INTL_MSG_LEN :: nat where "INTL_MSG_LEN = 1 + 4 + 2 + 2"

lemmas mask_defs = internal_mask_def join_mask_def notify_mask_def stabilize_mask_def

type_synonym sockaddr = "u32 \<times> u16"
type_synonym datagram = "sockaddr \<times> byte list"

record server_info =
  sin_addr :: u32
  sin_port :: u16
  srv_id :: u16

record dht_node =
  node_self :: server_info
  node_prev :: "server_info option"
  node_next :: "server_info option"

definition address :: "server_info \<Rightarrow> sockaddr" where
  "address srv = (sin_addr srv, sin_port srv)"

text \<open>The node \<open>main\<close> sets up before its first message.\<close>

definition init_node :: "server_info \<Rightarrow> dht_node" where
  "init_node self = \<lparr>node_self = self, node_prev = None, node_next = None\<rparr>"

section \<open>Positions on the ring\<close>

definition is_key_in_range :: "dht_node \<Rightarrow> byte list \<Rightarrow> bool" where
  "is_key_in_range node k =
     (case node_next node of
        None \<Rightarrow> True
      | Some nxt \<Rightarrow>
          (let start_id = ntohs (srv_id (node_self node));
               end_id = ntohs (srv_id nxt);
               hash_val = string_hash16 k;
               end_offset = end_id - start_id;
               val_offset = hash_val - start_id
           in val_offset < end_offset))"

definition is_in_range :: "server_info \<Rightarrow> server_info \<Rightarrow> server_info \<Rightarrow> bool" where
  "is_in_range start stop srv =
     (let start_id = ntohs (srv_id start);
          end_id = ntohs (srv_id stop);
          val_id = ntohs (srv_id srv);
          end_offset = end_id - start_id;
          val_offset = val_id - start_id
      in val_offset < end_offset)"

section \<open>Messages\<close>

definition fill_intl_msg :: "byte \<Rightarrow> server_info \<Rightarrow> byte list" where
  "fill_intl_msg action srv =
     (0 OR internal_mask OR action) # mem32 (sin_addr srv) @ mem16 (sin_port srv) @ mem16 (srv_id srv)"

definition parse_msg :: "byte list \<Rightarrow> fault + server_info" where
  "parse_msg msg =
     (if msg = [] then Inl Undefined
      else bind_res (assert_c (msg ! 0 AND internal_mask \<noteq> 0)) (\<lambda>_.
           bind_res (assert_c (length msg = INTL_MSG_LEN)) (\<lambda>_.
           Inr \<lparr>sin_addr = of_mem32 (msg ! 1) (msg ! 2) (msg ! 3) (msg ! 4),
                sin_port = of_mem16 (msg ! 5) (msg ! 6),
                srv_id = of_mem16 (msg ! 7) (msg ! 8)\<rparr>)))"

definition send_intl_msg :: "byte list \<Rightarrow> server_info \<Rightarrow> fault + datagram list" where
  "send_intl_msg msg dest =
     bind_res (assert_c (length msg = INTL_MSG_LEN)) (\<lambda>_.
     bind_res (parse_msg msg) (\<lambda>_.
     Inr [(address dest, msg)]))"

definition join_msg :: "dht_node \<Rightarrow> sockaddr \<Rightarrow> datagram list" where
  "join_msg node registration = [(registration, fill_intl_msg join_mask (node_self node))]"

definition notify :: "server_info \<Rightarrow> server_info \<Rightarrow> fault + datagram list" where
  "notify dest srv = send_intl_msg (fill_intl_msg notify_mask srv) dest"

definition stabilize :: "dht_node \<Rightarrow> server_info \<Rightarrow> fault + datagram list" where
  "stabilize node dest = send_intl_msg (fill_intl_msg stabilize_mask (node_self node)) dest"

section \<open>Handlers\<close>

type_synonym node_result = "fault + dht_node \<times> datagram list"

definition set_next :: "dht_node \<Rightarrow> server_info \<Rightarrow> node_result" where
  "set_next node nxt =
     (let node = node\<lparr>node_next := Some nxt\<rparr>
      in bind_res (stabilize node nxt) (\<lambda>out. Inr (node, out)))"

definition handle_join :: "dht_node \<Rightarrow> byte list \<Rightarrow> node_result" where
  "handle_join node msg =
     bind_res (assert_c (msg ! 0 AND join_mask \<noteq> 0 \<and> msg ! 0 AND internal_mask \<noteq> 0)) (\<lambda>_.
     bind_res (assert_c (length msg = INTL_MSG_LEN)) (\<lambda>_.
     bind_res (parse_msg msg) (\<lambda>srv.
     case node_next node of
       None \<Rightarrow>
         bind_res (notify srv (node_self node)) (\<lambda>out1.
         bind_res (set_next node srv) (\<lambda>(node, out2). Inr (node, out1 @ out2)))
     | Some nxt \<Rightarrow>
         (if is_in_range (node_self node) nxt srv \<or> srv_id nxt = srv_id (node_self node) then
            bind_res (notify srv nxt) (\<lambda>out1.
            bind_res (set_next node srv) (\<lambda>(node, out2). Inr (node, out1 @ out2)))
          else
            bind_res (send_intl_msg msg nxt) (\<lambda>out. Inr (node, out))))))"

definition handle_notify :: "dht_node \<Rightarrow> byte list \<Rightarrow> node_result" where
  "handle_notify node msg =
     bind_res (assert_c (msg ! 0 AND notify_mask \<noteq> 0 \<and> msg ! 0 AND internal_mask \<noteq> 0)) (\<lambda>_.
     bind_res (assert_c (length msg = INTL_MSG_LEN)) (\<lambda>_.
     bind_res (parse_msg msg) (\<lambda>srv.
     if (case node_next node of
           None \<Rightarrow> True
         | Some nxt \<Rightarrow> is_in_range (node_self node) nxt srv \<and> srv_id srv \<noteq> srv_id (node_self node))
     then set_next node srv
     else Inr (node, []))))"

definition handle_stabilize :: "dht_node \<Rightarrow> byte list \<Rightarrow> node_result" where
  "handle_stabilize node msg =
     bind_res (assert_c (msg ! 0 AND stabilize_mask \<noteq> 0 \<and> msg ! 0 AND internal_mask \<noteq> 0)) (\<lambda>_.
     bind_res (assert_c (length msg = INTL_MSG_LEN)) (\<lambda>_.
     bind_res (parse_msg msg) (\<lambda>src.
     let node =
       (if (case node_prev node of None \<Rightarrow> True | Some prv \<Rightarrow> is_in_range prv (node_self node) src)
        then node\<lparr>node_prev := Some src\<rparr> else node)
     in case node_prev node of
          None \<Rightarrow> Inl Assertion
        | Some prv \<Rightarrow> bind_res (notify src prv) (\<lambda>out. Inr (node, out)))))"

text \<open>
  \<open>handle_intl_msg\<close> receives at most nine bytes into a zeroed buffer, so a shorter datagram is
  padded with zeros and a longer one is cut.
\<close>

definition recv_intl :: "byte list \<Rightarrow> byte list" where
  "recv_intl d = take INTL_MSG_LEN d @ replicate (INTL_MSG_LEN - length d) 0"

definition handle_intl_msg :: "dht_node \<Rightarrow> byte list \<Rightarrow> node_result" where
  "handle_intl_msg node d =
     (let msg = recv_intl d
      in bind_res (assert_c (msg ! 0 AND internal_mask \<noteq> 0)) (\<lambda>_.
         bind_res (parse_msg msg) (\<lambda>_.
         if join_mask AND msg ! 0 \<noteq> 0 then handle_join node msg
         else if notify_mask AND msg ! 0 \<noteq> 0 then handle_notify node msg
         else if stabilize_mask AND msg ! 0 \<noteq> 0 then handle_stabilize node msg
         else Inl Assertion)))"

section \<open>Messages round-trip\<close>

lemma length_fill_intl_msg [simp]: "length (fill_intl_msg action srv) = INTL_MSG_LEN"
  by (simp add: fill_intl_msg_def INTL_MSG_LEN_def)

lemma fill_intl_msg_0 [simp]: "fill_intl_msg action srv ! 0 = internal_mask OR action"
  by (simp add: fill_intl_msg_def)

lemma internal_bit [simp]: "(internal_mask OR action) AND internal_mask = internal_mask"
  by (rule bit_word_eqI) (auto simp: bit_simps)

lemma internal_mask_nz [simp]: "internal_mask \<noteq> 0"
  by (simp add: internal_mask_def)

lemma fill_intl_msg_ne [simp]: "fill_intl_msg action srv \<noteq> []"
  by (simp add: fill_intl_msg_def)

lemma parse_fill [simp]: "parse_msg (fill_intl_msg action srv) = Inr srv"
proof -
  have "fill_intl_msg action srv =
    [internal_mask OR action, ucast (sin_addr srv), ucast (drop_bit 8 (sin_addr srv)),
     ucast (drop_bit 16 (sin_addr srv)), ucast (drop_bit 24 (sin_addr srv)),
     ucast (sin_port srv), ucast (drop_bit 8 (sin_port srv)),
     ucast (srv_id srv), ucast (drop_bit 8 (srv_id srv))]"
    by (simp add: fill_intl_msg_def mem32_def mem16_def)
  then show ?thesis
    by (simp add: parse_msg_def INTL_MSG_LEN_def)
qed

lemma send_fill [simp]:
  "send_intl_msg (fill_intl_msg action srv) dest = Inr [(address dest, fill_intl_msg action srv)]"
  by (simp add: send_intl_msg_def)

lemma recv_intl_fill [simp]: "recv_intl (fill_intl_msg action srv) = fill_intl_msg action srv"
  by (simp add: recv_intl_def)

lemma notify_eq [simp]: "notify dest srv = Inr [(address dest, fill_intl_msg notify_mask srv)]"
  by (simp add: notify_def)

lemma stabilize_eq [simp]:
  "stabilize node dest = Inr [(address dest, fill_intl_msg stabilize_mask (node_self node))]"
  by (simp add: stabilize_def)

lemma set_next_eq [simp]:
  "set_next node nxt =
     Inr (node\<lparr>node_next := Some nxt\<rparr>, [(address nxt, fill_intl_msg stabilize_mask (node_self node))])"
  by (simp add: set_next_def Let_def)

section \<open>What the handlers do with well-formed messages\<close>

lemma action_bits [simp]:
  "join_mask \<noteq> 0" "notify_mask \<noteq> 0" "stabilize_mask \<noteq> 0"
  "join_mask AND internal_mask = 0" "internal_mask AND join_mask = 0"
  "notify_mask AND internal_mask = 0" "internal_mask AND notify_mask = 0"
  "stabilize_mask AND internal_mask = 0" "internal_mask AND stabilize_mask = 0"
  "join_mask AND notify_mask = 0" "join_mask AND stabilize_mask = 0"
  "notify_mask AND stabilize_mask = 0"
  "join_mask AND (internal_mask OR notify_mask) = 0"
  "join_mask AND (internal_mask OR stabilize_mask) = 0"
  "notify_mask AND (internal_mask OR stabilize_mask) = 0"
  by (simp_all add: mask_defs)

named_theorems handler_simps \<open>handlers on messages that fill_intl_msg built\<close>

lemma handle_join_fill [handler_simps]:
  "handle_intl_msg node (fill_intl_msg join_mask srv) =
     (case node_next node of
        None \<Rightarrow> Inr (node\<lparr>node_next := Some srv\<rparr>,
          [(address srv, fill_intl_msg notify_mask (node_self node)),
           (address srv, fill_intl_msg stabilize_mask (node_self node))])
      | Some nxt \<Rightarrow>
          (if is_in_range (node_self node) nxt srv \<or> srv_id nxt = srv_id (node_self node)
           then Inr (node\<lparr>node_next := Some srv\<rparr>,
             [(address srv, fill_intl_msg notify_mask nxt),
              (address srv, fill_intl_msg stabilize_mask (node_self node))])
           else Inr (node, [(address nxt, fill_intl_msg join_mask srv)])))"
  by (simp add: handle_intl_msg_def handle_join_def Let_def split: option.splits)

lemma handle_notify_fill [handler_simps]:
  "handle_intl_msg node (fill_intl_msg notify_mask srv) =
     (if (case node_next node of None \<Rightarrow> True
          | Some nxt \<Rightarrow> is_in_range (node_self node) nxt srv \<and> srv_id srv \<noteq> srv_id (node_self node))
      then Inr (node\<lparr>node_next := Some srv\<rparr>,
        [(address srv, fill_intl_msg stabilize_mask (node_self node))])
      else Inr (node, []))"
  by (simp add: handle_intl_msg_def handle_notify_def Let_def)

text \<open>The predecessor after \<open>handle_stabilize\<close> looked at a candidate.\<close>

definition better_prev :: "dht_node \<Rightarrow> server_info \<Rightarrow> server_info" where
  "better_prev node src =
     (case node_prev node of
        None \<Rightarrow> src
      | Some prv \<Rightarrow> if is_in_range prv (node_self node) src then src else prv)"

lemma handle_stabilize_fill [handler_simps]:
  "handle_intl_msg node (fill_intl_msg stabilize_mask src) =
     Inr (node\<lparr>node_prev := Some (better_prev node src)\<rparr>,
       [(address src, fill_intl_msg notify_mask (better_prev node src))])"
  by (auto simp: handle_intl_msg_def handle_stabilize_def Let_def better_prev_def
      split: option.splits)

section \<open>Arcs of the ring\<close>

text \<open>
  The test of \<open>is_key_in_range\<close> and \<open>is_in_range\<close> on plain positions: \<open>v\<close> is on the arc that
  starts at \<open>a\<close> (included) and stops before \<open>b\<close>, going upwards and around.
\<close>

definition on_arc :: "u16 \<Rightarrow> u16 \<Rightarrow> u16 \<Rightarrow> bool" where
  "on_arc a b v \<longleftrightarrow> v - a < b - a"

definition pos :: "server_info \<Rightarrow> u16" where
  "pos srv = ntohs (srv_id srv)"

lemma is_in_range_arc: "is_in_range a b v \<longleftrightarrow> on_arc (pos a) (pos b) (pos v)"
  by (simp add: is_in_range_def on_arc_def pos_def Let_def)

lemma is_key_in_range_arc:
  "is_key_in_range node k \<longleftrightarrow>
     (case node_next node of None \<Rightarrow> True
      | Some nxt \<Rightarrow> on_arc (pos (node_self node)) (pos nxt) (string_hash16 k))"
  by (simp add: is_key_in_range_def on_arc_def pos_def Let_def cong: option.case_cong)

lemma on_arc_up: "a \<le> b \<Longrightarrow> on_arc a b v \<longleftrightarrow> a \<le> v \<and> v < b"
  unfolding on_arc_def by unat_arith

lemma on_arc_wrap: "b < a \<Longrightarrow> on_arc a b v \<longleftrightarrow> a \<le> v \<or> v < b"
  unfolding on_arc_def by unat_arith

lemma on_arc_empty [simp]: "\<not> on_arc a a v"
  by (simp add: on_arc_def)

lemma on_arc_start [simp]: "on_arc a b a \<longleftrightarrow> a \<noteq> b"
  by (auto simp: on_arc_def word_greater_zero_iff)

lemma on_arc_end [simp]: "\<not> on_arc a b b"
  by (simp add: on_arc_def)

text \<open>A point of an arc splits it: the two parts are disjoint and make up the whole.\<close>

lemma on_arc_split:
  assumes "on_arc a c b"
  shows "on_arc a c v \<longleftrightarrow> on_arc a b v \<or> on_arc b c v"
    and "\<not> (on_arc a b v \<and> on_arc b c v)"
proof -
  have "(on_arc a c v \<longleftrightarrow> on_arc a b v \<or> on_arc b c v) \<and> \<not> (on_arc a b v \<and> on_arc b c v)"
  proof (cases "a \<le> c")
    case True
    with assms have "a \<le> b" "b < c" by (simp_all add: on_arc_up)
    with True show ?thesis by (auto simp: on_arc_up)
  next
    case False
    with assms consider "a \<le> b" | "b < c" by (auto simp: on_arc_wrap)
    then show ?thesis
    proof cases
      case 1
      with False show ?thesis by (auto simp: on_arc_up on_arc_wrap)
    next
      case 2
      with False show ?thesis by (auto simp: on_arc_up on_arc_wrap)
    qed
  qed
  then show "on_arc a c v \<longleftrightarrow> on_arc a b v \<or> on_arc b c v"
    and "\<not> (on_arc a b v \<and> on_arc b c v)"
    by blast+
qed

section \<open>Properties\<close>

lemma mem16_of_mem16 [simp, wire_simps]: "mem16 (of_mem16 a b) = [a, b]"
proof -
  have "ucast (of_mem16 a b) = a" "ucast (drop_bit 8 (of_mem16 a b)) = b"
    by (rule bit_word_eqI; auto simp: of_mem16_def bit_simps dest: bit_imp_le_length)+
  then show ?thesis by (simp add: mem16_def)
qed

lemma mem32_of_mem32 [simp, wire_simps]: "mem32 (of_mem32 a b c d) = [a, b, c, d]"
proof -
  have "ucast (of_mem32 a b c d) = a" "ucast (drop_bit 8 (of_mem32 a b c d)) = b"
    "ucast (drop_bit 16 (of_mem32 a b c d)) = c" "ucast (drop_bit 24 (of_mem32 a b c d)) = d"
    by (rule bit_word_eqI; auto simp: of_mem32_def bit_simps dest: bit_imp_le_length)+
  then show ?thesis by (simp add: mem32_def)
qed

lemma list_9:
  "length xs = 9 \<Longrightarrow>
    xs = [xs ! 0, xs ! 1, xs ! 2, xs ! 3, xs ! 4, xs ! 5, xs ! 6, xs ! 7, xs ! 8]"
  by (rule nth_equalityI) (auto simp: less_Suc_eq numeral_eq_Suc)

text \<open>
  The internal message is exactly nine bytes and \<open>parse_msg\<close> recovers the address, port
  and id that \<open>fill_intl_msg\<close> wrote; conversely every message \<open>parse_msg\<close> accepts is, but for its
  first byte, the one \<open>fill_intl_msg\<close> writes for the parsed server.
\<close>

theorem intl_msg_roundtrip:
  "length (fill_intl_msg action srv) = INTL_MSG_LEN \<and>
   parse_msg (fill_intl_msg action srv) = Inr srv \<and>
   (\<forall>msg. parse_msg msg = Inr srv \<longrightarrow> msg = msg ! 0 # tl (fill_intl_msg action srv))"
proof -
  have "msg = msg ! 0 # tl (fill_intl_msg action srv)" if p: "parse_msg msg = Inr srv" for msg
  proof -
    from p have len: "length msg = 9"
      by (auto simp: parse_msg_def INTL_MSG_LEN_def fault_simps split: if_splits)
    from p have srv: "srv = \<lparr>sin_addr = of_mem32 (msg ! 1) (msg ! 2) (msg ! 3) (msg ! 4),
        sin_port = of_mem16 (msg ! 5) (msg ! 6), srv_id = of_mem16 (msg ! 7) (msg ! 8)\<rparr>"
      by (auto simp: parse_msg_def fault_simps split: if_splits)
    show ?thesis
      by (subst list_9 [OF len]) (simp add: srv fill_intl_msg_def)
  qed
  then show ?thesis by simp
qed

theorem intl_msg_roundtrip_witness:
  "parse_msg [0x81, 127, 0, 0, 1, 0x12, 0x67, 0, 5] =
     Inr \<lparr>sin_addr = 0x0100007F, sin_port = 0x6712, srv_id = 0x0500\<rparr> \<and>
   [0x81, 127, 0, 0, 1, 0x12, 0x67, 0, 5] =
     0x81 # tl (fill_intl_msg join_mask \<lparr>sin_addr = 0x0100007F, sin_port = 0x6712, srv_id = 0x0500\<rparr>)"
proof -
  let ?srv = "\<lparr>sin_addr = 0x0100007F, sin_port = 0x6712, srv_id = 0x0500\<rparr>"
  have p: "parse_msg [0x81, 127, 0, 0, 1, 0x12, 0x67, 0, 5] = Inr ?srv"
    by (simp add: parse_msg_def internal_mask_def INTL_MSG_LEN_def of_mem32_def of_mem16_def)
  with intl_msg_roundtrip [of join_mask ?srv] show ?thesis
    by (metis nth_Cons_0)
qed

end
