(* ===== verification/Dht_Ring.thy ===== *)
theory Dht_Ring
  imports Dht_Node
begin

text \<open>
  Nodes of \<open>Hash Table/server.c\<close> together. A ring is a set of nodes whose successor pointers
  close it; in a ring the arcs of the nodes partition the positions, so \<open>is_key_in_range\<close> holds
  at exactly one node and forwarding to the successor finds it; a join keeps the ring. The
  network is the set of all datagrams ever sent, any of which may be delivered at any time and
  any number of times, so loss, duplication and reordering are included.
\<close>

section \<open>Rings\<close>

abbreviation ring_pos :: "dht_node \<Rightarrow> u16" where
  "ring_pos n \<equiv> pos (node_self n)"

definition ring :: "dht_node set \<Rightarrow> bool" where
  "ring S \<longleftrightarrow> finite S \<and> inj_on ring_pos S \<and> S \<noteq> {} \<and>
     (\<forall>n \<in> S. \<exists>m \<in> S. m \<noteq> n \<and> node_next n = Some (node_self m) \<and>
        (\<forall>x \<in> S. on_arc (ring_pos n) (ring_pos m) (ring_pos x) \<longrightarrow> x = n))"

lemma ring_succE:
  assumes "ring S" and "n \<in> S"
  obtains m where "m \<in> S" and "m \<noteq> n" and "ring_pos m \<noteq> ring_pos n" and "node_next n = Some (node_self m)"
    and "\<And>x. x \<in> S \<Longrightarrow> on_arc (ring_pos n) (ring_pos m) (ring_pos x) \<Longrightarrow> x = n"
proof -
  obtain m where m: "m \<in> S" "m \<noteq> n" "node_next n = Some (node_self m)"
      "\<forall>x \<in> S. on_arc (ring_pos n) (ring_pos m) (ring_pos x) \<longrightarrow> x = n"
    using assms unfolding ring_def by blast
  moreover have "ring_pos m \<noteq> ring_pos n"
    using assms m(1,2) unfolding ring_def by (auto dest: inj_onD)
  ultimately show thesis using that by blast
qed

text \<open>Going to the successor of a node that is not responsible gets closer to the position.\<close>

lemma closer:
  assumes "\<not> on_arc a b v" and "a \<noteq> b"
  shows "v - b < v - a"
  using assms unfolding on_arc_def by unat_arith

lemma two_arcs:
  assumes "on_arc a b v" and "on_arc c d v" and "\<not> on_arc a b c" and "\<not> on_arc c d a"
  shows False
proof -
  have *: "p < q \<Longrightarrow> - q \<le> p - q" for p q :: u16
    using unat_sub_if' [of p q] unat_sub_if' [of 0 q]
    by (auto simp: word_le_nat_alt word_less_nat_alt)
  have "v - a < c - a"
    using assms(1,3) by (simp add: on_arc_def)
  then have "- (c - a) \<le> (v - a) - (c - a)" by (rule *)
  then have "a - c \<le> v - c" by simp
  also have "v - c < d - c" using assms(2) by (simp add: on_arc_def)
  finally show False using assms(4) by (simp add: on_arc_def)
qed

lemma responsible_in_ring:
  assumes "ring S" and "n \<in> S"
  shows "is_key_in_range n k \<longleftrightarrow>
    (\<exists>m \<in> S. node_next n = Some (node_self m) \<and> on_arc (ring_pos n) (ring_pos m) (string_hash16 k))"
  using assms by (elim ring_succE) (auto simp: is_key_in_range_arc)

lemma ring_unique:
  assumes "ring S" and "n \<in> S" and "m \<in> S" and "is_key_in_range n k" and "is_key_in_range m k"
  shows "n = m"
proof (rule ccontr)
  assume ne: "n \<noteq> m"
  obtain n' where n': "node_next n = Some (node_self n')"
      "\<And>x. x \<in> S \<Longrightarrow> on_arc (ring_pos n) (ring_pos n') (ring_pos x) \<Longrightarrow> x = n"
    using ring_succE [OF assms(1,2)] by metis
  obtain m' where m': "node_next m = Some (node_self m')"
      "\<And>x. x \<in> S \<Longrightarrow> on_arc (ring_pos m) (ring_pos m') (ring_pos x) \<Longrightarrow> x = m"
    using ring_succE [OF assms(1,3)] by metis
  have "on_arc (ring_pos n) (ring_pos n') (string_hash16 k)" "on_arc (ring_pos m) (ring_pos m') (string_hash16 k)"
    using assms(4,5) n'(1) m'(1) by (simp_all add: is_key_in_range_arc)
  then show False
    using two_arcs n'(2) [OF assms(3)] m'(2) [OF assms(2)] ne by blast
qed

section \<open>Forwarding\<close>

text \<open>
  What \<open>handle_ext_msg\<close> does with a key it is not responsible for: it sends the request to
  \<open>node.next\<close>. The route of a key, with at most \<open>fuel\<close> nodes visited.
\<close>

fun route :: "dht_node list \<Rightarrow> nat \<Rightarrow> dht_node \<Rightarrow> byte list \<Rightarrow> dht_node option" where
  "route ns 0 node k = None"
| "route ns (Suc fuel) node k =
     (if is_key_in_range node k then Some node
      else case node_next node of
             None \<Rightarrow> None
           | Some nxt \<Rightarrow>
               (case find (\<lambda>m. node_self m = nxt) ns of
                  None \<Rightarrow> None
                | Some m \<Rightarrow> route ns fuel m k))"

lemma find_self:
  assumes "inj_on ring_pos (set ns)" and "m \<in> set ns"
  shows "find (\<lambda>x. node_self x = node_self m) ns = Some m"
proof -
  have "find (\<lambda>x. node_self x = node_self m) ns \<noteq> None"
    using assms(2) by (auto simp: find_None_iff)
  then obtain y where y: "find (\<lambda>x. node_self x = node_self m) ns = Some y" by blast
  then have "y \<in> set ns" and "node_self y = node_self m"
    by (auto simp: find_Some_iff)
  with assms have "y = m" by (auto simp: inj_on_def)
  with y show ?thesis by simp
qed

lemma route_found:
  assumes ring: "ring (set ns)"
  shows "n \<in> set ns \<Longrightarrow>
    card {x \<in> set ns. string_hash16 k - ring_pos x < string_hash16 k - ring_pos n} < fuel \<Longrightarrow>
    \<exists>m \<in> set ns. route ns fuel n k = Some m \<and> is_key_in_range m k"
proof (induction fuel arbitrary: n)
  case (Suc fuel)
  show ?case
  proof (cases "is_key_in_range n k")
    case True
    with Suc.prems show ?thesis by auto
  next
    case False
    obtain m where m: "m \<in> set ns" "ring_pos m \<noteq> ring_pos n" "node_next n = Some (node_self m)"
      using ring_succE [OF ring Suc.prems(1)] by metis
    let ?d = "\<lambda>x. string_hash16 k - ring_pos x"
    have lt: "?d m < ?d n"
      using False m by (intro closer) (auto simp: is_key_in_range_arc)
    have "{x \<in> set ns. ?d x < ?d m} \<subset> {x \<in> set ns. ?d x < ?d n}"
      using lt m(1) by (auto dest: less_trans)
    then have "card {x \<in> set ns. ?d x < ?d m} < card {x \<in> set ns. ?d x < ?d n}"
      by (intro psubset_card_mono) auto
    then have "card {x \<in> set ns. ?d x < ?d m} < fuel"
      using Suc.prems(2) by simp
    from Suc.IH [OF m(1) this] show ?thesis
      using False m find_self [of ns m] ring by (simp add: ring_def)
  qed
qed simp

text \<open>
  C4: in a ring every key belongs to exactly one node, and a request that enters at any node
  reaches it after at most as many nodes as the ring has.
\<close>

theorem ring_lookup:
  assumes "ring (set ns)" and "n \<in> set ns"
  shows "(\<exists>!m. m \<in> set ns \<and> is_key_in_range m k) \<and>
    (\<exists>m. route ns (card (set ns)) n k = Some m \<and> m \<in> set ns \<and> is_key_in_range m k)"
proof -
  have "{x \<in> set ns. string_hash16 k - ring_pos x < string_hash16 k - ring_pos n} \<subset> set ns"
    using assms(2) by auto
  then have "card {x \<in> set ns. string_hash16 k - ring_pos x < string_hash16 k - ring_pos n} < card (set ns)"
    by (intro psubset_card_mono) auto
  from route_found [OF assms this] obtain m
    where m: "m \<in> set ns" "route ns (card (set ns)) n k = Some m" "is_key_in_range m k" by blast
  then show ?thesis
    using ring_unique [OF assms(1)] by blast
qed

theorem ring_lookup_witness:
  "\<exists>m. route
      [\<lparr>node_self = \<lparr>sin_addr = 1, sin_port = 1, srv_id = 0x0100\<rparr>, node_prev = None,
        node_next = Some \<lparr>sin_addr = 2, sin_port = 1, srv_id = 0x0080\<rparr>\<rparr>,
       \<lparr>node_self = \<lparr>sin_addr = 2, sin_port = 1, srv_id = 0x0080\<rparr>, node_prev = None,
        node_next = Some \<lparr>sin_addr = 1, sin_port = 1, srv_id = 0x0100\<rparr>\<rparr>]
      2
      \<lparr>node_self = \<lparr>sin_addr = 1, sin_port = 1, srv_id = 0x0100\<rparr>, node_prev = None,
        node_next = Some \<lparr>sin_addr = 2, sin_port = 1, srv_id = 0x0080\<rparr>\<rparr>
      [97] = Some m \<and> is_key_in_range m [97]"
proof -
  let ?a = "\<lparr>sin_addr = 1, sin_port = 1, srv_id = 0x0100\<rparr>"
  let ?b = "\<lparr>sin_addr = 2, sin_port = 1, srv_id = 0x0080\<rparr>"
  let ?n = "\<lparr>node_self = ?a, node_prev = None, node_next = Some ?b\<rparr>"
  let ?m = "\<lparr>node_self = ?b, node_prev = None, node_next = Some ?a\<rparr>"
  have "ring (set [?n, ?m])"
    by (simp add: ring_def pos_def ntohs_def inj_on_def)
  then have "\<exists>m. route [?n, ?m] (card (set [?n, ?m])) ?n [97] = Some m \<and> m \<in> set [?n, ?m] \<and>
      is_key_in_range m [97]"
    by (rule conjunct2 [OF ring_lookup]) simp
  moreover have "card (set [?n, ?m]) = 2" by simp
  ultimately show ?thesis by metis
qed

section \<open>Joining\<close>

text \<open>A newcomer \<open>b\<close> on the arc between a node and its successor \<open>m\<close>; \<open>n'\<close> is the node with the newcomer for its successor.\<close>

lemma insert_other:
  assumes ring: "ring S" and n: "n \<in> S" and x: "x \<in> S" "x \<noteq> n"
    and only: "\<And>x. x \<in> S \<Longrightarrow> on_arc (ring_pos n) (ring_pos m) (ring_pos x) \<Longrightarrow> x = n" and arc: "on_arc (ring_pos n) (ring_pos m) (ring_pos b)"
    and n': "ring_pos n' = ring_pos n" "node_self n' = node_self n" and ne: "x \<noteq> n'"
  shows "\<exists>y \<in> S - {n} \<union> {n', b}. y \<noteq> x \<and> node_next x = Some (node_self y) \<and>
    (\<forall>z \<in> S - {n} \<union> {n', b}. on_arc (ring_pos x) (ring_pos y) (ring_pos z) \<longrightarrow> z = x)"
proof -
  obtain y where y: "y \<in> S" "y \<noteq> x" "node_next x = Some (node_self y)"
      "\<And>z. z \<in> S \<Longrightarrow> on_arc (ring_pos x) (ring_pos y) (ring_pos z) \<Longrightarrow> z = x"
    using ring_succE [OF ring x(1)] by metis
  have no_b: "\<not> on_arc (ring_pos x) (ring_pos y) (ring_pos b)"
    using two_arcs [OF _ arc] y(4) [OF n] only [OF x(1)] x(2) by blast
  have no_n: "\<not> on_arc (ring_pos x) (ring_pos y) (ring_pos n)"
    using y(4) [OF n] x(2) by blast
  show ?thesis
  proof (cases "y = n")
    case True
    then show ?thesis using y no_b no_n ne n' by (intro bexI [of _ n']) auto
  next
    case False
    then show ?thesis using y no_b no_n n' by (intro bexI [of _ y]) auto
  qed
qed

lemma inj_on_ring_pos_insert:
  assumes inj: "inj_on ring_pos S" and n: "n \<in> S" and n': "ring_pos n' = ring_pos n"
    and free: "\<And>x. x \<in> S \<Longrightarrow> ring_pos x \<noteq> ring_pos b"
  shows "inj_on ring_pos (S - {n} \<union> {n', b})"
proof -
  have "inj_on ring_pos (S - {n})" using inj by (rule inj_on_subset) auto
  moreover have "ring_pos n' \<notin> ring_pos ` (S - {n})" using inj n n' by (auto simp: inj_on_def)
  moreover have "ring_pos b \<notin> ring_pos ` insert n' (S - {n})" using free free [OF n] n' by (force simp: image_iff)
  ultimately show ?thesis using inj_on_insert by fastforce
qed

lemma ring_insert:
  assumes ring: "ring S" and n: "n \<in> S" and m: "m \<in> S" "m \<noteq> n"
    and only: "\<And>x. x \<in> S \<Longrightarrow> on_arc (ring_pos n) (ring_pos m) (ring_pos x) \<Longrightarrow> x = n"
    and arc: "on_arc (ring_pos n) (ring_pos m) (ring_pos b)" and fresh: "ring_pos b \<noteq> ring_pos n"
    and n': "ring_pos n' = ring_pos n" "node_self n' = node_self n" "node_next n' = Some (node_self b)"
    and b: "node_next b = Some (node_self m)"
  shows "ring (S - {n} \<union> {n', b})"
proof -
  have free: "ring_pos x \<noteq> ring_pos b" if "x \<in> S" for x using only [OF that] arc fresh by auto
  note split = on_arc_split [OF arc]
  have "\<exists>y \<in> S - {n} \<union> {n', b}. y \<noteq> x \<and> node_next x = Some (node_self y) \<and>
      (\<forall>z \<in> S - {n} \<union> {n', b}. on_arc (ring_pos x) (ring_pos y) (ring_pos z) \<longrightarrow> z = x)"
    if x: "x \<in> S - {n} \<union> {n', b}" for x
  proof -
    consider "x = n'" | "x = b" | "x \<in> S" "x \<noteq> n" "x \<noteq> n'" using x by blast
    then show ?thesis
    proof cases
      case 1
      have "z = n'" if "z \<in> S - {n} \<union> {n', b}" "on_arc (ring_pos n) (ring_pos b) (ring_pos z)" for z
        using that only [of z] split [of "ring_pos z"] by auto
      moreover have "b \<noteq> n'" using n'(1) fresh by auto
      ultimately show ?thesis using 1 n' by (intro bexI [of _ b]) auto
    next
      case 2
      have "\<not> on_arc (ring_pos b) (ring_pos m) (ring_pos n)" using split(2) [of "ring_pos n"] fresh by simp
      then have "z = b" if "z \<in> S - {n} \<union> {n', b}" "on_arc (ring_pos b) (ring_pos m) (ring_pos z)" for z
        using that only [of z] split(1) [of "ring_pos z"] n'(1) by auto
      moreover have "m \<noteq> b" using free [OF m(1)] by auto
      ultimately show ?thesis using 2 m b by (intro bexI [of _ m]) auto
    next
      case 3
      then show ?thesis using insert_other [OF ring n _ _ only arc n'(1,2)] by blast
    qed
  qed
  moreover have "inj_on ring_pos (S - {n} \<union> {n', b})"
    using inj_on_ring_pos_insert [OF _ n n'(1) free] ring by (simp add: ring_def)
  ultimately show ?thesis using ring by (simp add: ring_def)
qed

text \<open>
  C5: when a node of a ring is responsible for a joining server, its JOIN handler makes the
  newcomer its successor and hands it the old successor with a NOTIFY, which the newcomer handles
  first. The keys of the old node are split between the two, and the nodes and the newcomer form a
  ring again exactly if the newcomer's identifier differs from that of the node. The handler
  accepts an equal identifier (0 when none is given) as well; the newcomer then takes over all keys
  of the node, which is left with none, and two members share a position.
\<close>

theorem join_keeps_ring:
  assumes ring: "ring S" and n: "n \<in> S" and next_n: "node_next n = Some nxt"
    and in_range: "is_in_range (node_self n) nxt srv"
    and join: "handle_intl_msg n (fill_intl_msg join_mask srv) = Inr (n', out)"
    and told: "out = (address srv, msg) # rest"
    and newcomer: "handle_intl_msg (init_node srv) msg = Inr (b, out')"
  shows "(ring (S - {n} \<union> {n', b}) \<longleftrightarrow> pos srv \<noteq> ring_pos n) \<and>
    node_next n' = Some srv \<and> node_next b = Some nxt \<and>
    (is_key_in_range n k \<longleftrightarrow> is_key_in_range n' k \<or> is_key_in_range b k) \<and>
    \<not> (is_key_in_range n' k \<and> is_key_in_range b k) \<and>
    (pos srv = ring_pos n \<longrightarrow> \<not> is_key_in_range n' k)"
proof -
  obtain m where m: "m \<in> S" "m \<noteq> n" "ring_pos m \<noteq> ring_pos n" "nxt = node_self m"
      "\<And>x. x \<in> S \<Longrightarrow> on_arc (ring_pos n) (ring_pos m) (ring_pos x) \<Longrightarrow> x = n"
    using ring_succE [OF ring n] next_n by (metis option.inject)
  have n': "n' = n\<lparr>node_next := Some srv\<rparr>" and msg: "msg = fill_intl_msg notify_mask nxt"
    using join told next_n in_range by (auto simp: handler_simps)
  have b: "b = \<lparr>node_self = srv, node_prev = None, node_next = Some nxt\<rparr>"
    using newcomer by (simp add: msg handler_simps init_node_def)
  have arc: "on_arc (ring_pos n) (ring_pos m) (ring_pos b)" using in_range by (simp add: is_in_range_arc m(4) b)
  have "ring (S - {n} \<union> {n', b})" if fresh: "pos srv \<noteq> ring_pos n"
    using fresh by (intro ring_insert [OF ring n m(1,2,5) arc]) (simp_all add: n' b m(4))
  moreover have "\<not> ring (S - {n} \<union> {n', b})" if same: "pos srv = ring_pos n"
  proof -
    have "ring_pos n' = ring_pos b" using same by (simp add: n' b)
    moreover have "node_next n' \<noteq> node_next b" using m(3,4) same by (auto simp: n' b)
    then have "n' \<noteq> b" by auto
    ultimately show ?thesis by (auto simp: ring_def inj_on_def)
  qed
  ultimately have "ring (S - {n} \<union> {n', b}) \<longleftrightarrow> pos srv \<noteq> ring_pos n" by blast
  moreover have "node_next n' = Some srv" "node_next b = Some nxt" by (simp_all add: n' b)
  moreover have "is_key_in_range n k \<longleftrightarrow> is_key_in_range n' k \<or> is_key_in_range b k"
    "\<not> (is_key_in_range n' k \<and> is_key_in_range b k)"
    using on_arc_split [OF arc, of "string_hash16 k"] by (simp_all add: is_key_in_range_arc next_n n' b m(4))
  moreover have "\<not> is_key_in_range n' k" if "pos srv = ring_pos n"
    using that by (simp add: is_key_in_range_arc n')
  ultimately show ?thesis by blast
qed

theorem join_keeps_ring_witness:
  "\<exists>n' out.
    handle_intl_msg
      \<lparr>node_self = \<lparr>sin_addr = 1, sin_port = 1, srv_id = 0x0100\<rparr>, node_prev = None,
        node_next = Some \<lparr>sin_addr = 2, sin_port = 1, srv_id = 0x0080\<rparr>\<rparr>
      (fill_intl_msg join_mask \<lparr>sin_addr = 3, sin_port = 1, srv_id = 0x0500\<rparr>) = Inr (n', out) \<and>
    node_next n' = Some \<lparr>sin_addr = 3, sin_port = 1, srv_id = 0x0500\<rparr>"
proof -
  let ?a = "\<lparr>sin_addr = 1, sin_port = 1, srv_id = 0x0100\<rparr>"
  let ?c = "\<lparr>sin_addr = 2, sin_port = 1, srv_id = 0x0080\<rparr>"
  let ?s = "\<lparr>sin_addr = 3, sin_port = 1, srv_id = 0x0500\<rparr>"
  let ?n = "\<lparr>node_self = ?a, node_prev = None, node_next = Some ?c\<rparr>"
  let ?m = "\<lparr>node_self = ?c, node_prev = None, node_next = Some ?a\<rparr>"
  let ?n' = "?n\<lparr>node_next := Some ?s\<rparr>"
  let ?rest = "[(address ?s, fill_intl_msg stabilize_mask ?a)]"
  let ?out = "(address ?s, fill_intl_msg notify_mask ?c)"
  have ring: "ring {?n, ?m}"
    by (simp add: ring_def pos_def ntohs_def inj_on_def)
  have range: "is_in_range (node_self ?n) ?c ?s"
    by (simp add: is_in_range_def ntohs_def)
  have join: "handle_intl_msg ?n (fill_intl_msg join_mask ?s) = Inr (?n', ?out # ?rest)"
    using range by (simp add: handler_simps)
  have new: "handle_intl_msg (init_node ?s) (fill_intl_msg notify_mask ?c) =
      Inr ((init_node ?s)\<lparr>node_next := Some ?c\<rparr>, [(address ?c, fill_intl_msg stabilize_mask ?s)])"
    by (simp add: handler_simps init_node_def)
  let ?b = "(init_node ?s)\<lparr>node_next := Some ?c\<rparr>"
  have "node_next ?n' = Some ?s"
    using join_keeps_ring [OF ring _ _ range join refl new] by simp
  with join show ?thesis by blast
qed

section \<open>The network\<close>

text \<open>
  A network is a map from addresses to nodes and the set of all datagrams sent so far. A node
  may at any time send its JOIN to any member; any datagram may be delivered, again and again.
\<close>

type_synonym members = "sockaddr \<rightharpoonup> dht_node"

definition fresh_members :: "members \<Rightarrow> bool" where
  "fresh_members init \<longleftrightarrow>
     (\<forall>a n. init a = Some n \<longrightarrow> n = init_node (node_self n) \<and> address (node_self n) = a)"

inductive reach :: "members \<Rightarrow> members \<Rightarrow> datagram set \<Rightarrow> bool" for init where
  start: "reach init init {}"
| join: "reach init N soup \<Longrightarrow> N a = Some n \<Longrightarrow> r \<in> dom N \<Longrightarrow>
    reach init N (soup \<union> set (join_msg n r))"
| deliver: "reach init N soup \<Longrightarrow> (a, msg) \<in> soup \<Longrightarrow> N a = Some n \<Longrightarrow>
    handle_intl_msg n msg = Inr (n', out) \<Longrightarrow> reach init (N(a \<mapsto> n')) (soup \<union> set out)"

inductive_cases reach_cases: "reach init N soup"

definition known :: "members \<Rightarrow> server_info \<Rightarrow> bool" where
  "known init srv \<longleftrightarrow> init (address srv) = Some (init_node srv)"

definition node_ok :: "members \<Rightarrow> sockaddr \<Rightarrow> dht_node \<Rightarrow> bool" where
  "node_ok init a n \<longleftrightarrow> known init (node_self n) \<and> address (node_self n) = a \<and>
     (\<forall>p. node_prev n = Some p \<longrightarrow> known init p) \<and> (\<forall>p. node_next n = Some p \<longrightarrow> known init p)"

definition msg_ok :: "members \<Rightarrow> datagram \<Rightarrow> bool" where
  "msg_ok init d \<longleftrightarrow> fst d \<in> dom init \<and>
     (\<exists>srv. known init srv \<and>
        (\<exists>action \<in> {join_mask, notify_mask, stabilize_mask}. snd d = fill_intl_msg action srv))"

lemma known_dom [intro]: "known init p \<Longrightarrow> address p \<in> dom init"
  by (auto simp: known_def)

lemma msg_okI:
  assumes "known init p" and "a \<in> dom init"
  shows "msg_ok init (a, fill_intl_msg join_mask p)"
    and "msg_ok init (a, fill_intl_msg notify_mask p)"
    and "msg_ok init (a, fill_intl_msg stabilize_mask p)"
  using assms by (auto simp: msg_ok_def)

lemmas msg_ok_known [intro] = msg_okI [OF _ known_dom]

lemma handler_keeps_ok:
  assumes "node_ok init a n" and "msg_ok init (a, msg)"
  obtains n' out where "handle_intl_msg n msg = Inr (n', out)" and "node_ok init a n'"
    and "\<forall>d \<in> set out. msg_ok init d" and "node_self n' = node_self n"
proof -
  obtain srv where srv: "known init srv"
    and act: "msg = fill_intl_msg join_mask srv \<or> msg = fill_intl_msg notify_mask srv \<or>
      msg = fill_intl_msg stabilize_mask srv"
    using assms(2) by (auto simp: msg_ok_def)
  have self: "known init (node_self n)" using assms(1) by (simp add: node_ok_def)
  have "\<exists>n' out. handle_intl_msg n msg = Inr (n', out) \<and> node_ok init a n' \<and>
    (\<forall>d \<in> set out. msg_ok init d) \<and> node_self n' = node_self n"
    using act
  proof (elim disjE)
    assume "msg = fill_intl_msg join_mask srv"
    then show ?thesis
      using assms(1) srv self
      by (cases "node_next n") (auto simp: handler_simps node_ok_def)
  next
    assume "msg = fill_intl_msg notify_mask srv"
    then show ?thesis
      using assms(1) srv self by (auto simp: handler_simps node_ok_def)
  next
    assume msg: "msg = fill_intl_msg stabilize_mask srv"
    have "known init (better_prev n srv)"
      using assms(1) srv by (auto simp: better_prev_def node_ok_def split: option.splits)
    with msg show ?thesis
      using assms(1) srv by (auto simp: handler_simps node_ok_def)
  qed
  then show thesis using that by blast
qed

lemma reach_ok:
  assumes "reach init N soup" and "fresh_members init"
  shows "dom N = dom init \<and> (\<forall>a n. N a = Some n \<longrightarrow> node_ok init a n) \<and> (\<forall>d \<in> soup. msg_ok init d)"
  using assms
proof (induction rule: reach.induct)
  case start
  then show ?case
    by (auto simp: fresh_members_def node_ok_def known_def)
      (metis init_node_def dht_node.select_convs option.distinct(1))+
next
  case (join N soup a n r)
  have n: "node_ok init a n" and r: "r \<in> dom init"
    using join.IH [OF join.prems] join.hyps(2,3) by blast+
  then have "msg_ok init (r, fill_intl_msg join_mask (node_self n))"
    by (intro msg_okI(1)) (auto simp: node_ok_def)
  with join show ?case by (auto simp: join_msg_def)
next
  case (deliver N soup a msg n n' out)
  have "node_ok init a n" and "msg_ok init (a, msg)"
    using deliver.IH [OF deliver.prems] deliver.hyps(2,3) by blast+
  then obtain m out' where "handle_intl_msg n msg = Inr (m, out')" and "node_ok init a m"
    and "\<forall>d \<in> set out'. msg_ok init d"
    by (rule handler_keeps_ok)
  then have "node_ok init a n'" and "\<forall>d \<in> set out. msg_ok init d"
    using deliver.hyps(4) by simp_all
  moreover have "dom (N(a \<mapsto> n')) = dom init"
    using deliver.IH [OF deliver.prems] deliver.hyps(3) by auto
  moreover have "\<forall>b m. (N(a \<mapsto> n')) b = Some m \<longrightarrow> node_ok init b m"
    using deliver.IH [OF deliver.prems] \<open>node_ok init a n'\<close> by simp
  ultimately show ?case
    using deliver.IH [OF deliver.prems] by blast
qed

text \<open>
  C6: in every network state that nodes started by \<open>main\<close> can reach, whatever datagrams are
  lost, repeated or reordered, no delivery trips an assertion of the handlers, a node never
  changes its own identity, and every predecessor and successor is a member of the network
  under its own address.
\<close>

theorem network_safe:
  assumes "reach init N soup" and "fresh_members init"
  shows "(\<forall>(a, msg) \<in> soup. \<exists>n n' out. N a = Some n \<and> handle_intl_msg n msg = Inr (n', out)) \<and>
    (\<forall>a n. N a = Some n \<longrightarrow> init a = Some (init_node (node_self n)) \<and>
       (\<forall>p. node_prev n = Some p \<or> node_next n = Some p \<longrightarrow> init (address p) = Some (init_node p)))"
proof -
  note ok = reach_ok [OF assms]
  have "\<exists>n n' out. N a = Some n \<and> handle_intl_msg n msg = Inr (n', out)" if "(a, msg) \<in> soup" for a msg
  proof -
    have m: "msg_ok init (a, msg)" using that ok by blast
    then obtain n where n: "N a = Some n"
      using ok by (force simp: msg_ok_def)
    with ok have "node_ok init a n" by blast
    from handler_keeps_ok [OF this m] n show ?thesis by metis
  qed
  moreover have "init a = Some (init_node (node_self n)) \<and>
      (\<forall>p. node_prev n = Some p \<or> node_next n = Some p \<longrightarrow> init (address p) = Some (init_node p))"
    if "N a = Some n" for a n
  proof -
    from that ok have "node_ok init a n" by blast
    then show ?thesis by (auto simp: node_ok_def known_def)
  qed
  ultimately show ?thesis by blast
qed

theorem network_safe_witness:
  "init_node \<lparr>sin_addr = 1, sin_port = 1, srv_id = 0\<rparr> = init_node \<lparr>sin_addr = 1, sin_port = 1, srv_id = 0\<rparr> \<and>
   (\<exists>n' out. handle_intl_msg (init_node \<lparr>sin_addr = 1, sin_port = 1, srv_id = 0\<rparr>)
      (fill_intl_msg join_mask \<lparr>sin_addr = 2, sin_port = 1, srv_id = 0x0080\<rparr>) = Inr (n', out))"
proof -
  let ?a = "\<lparr>sin_addr = 1, sin_port = 1, srv_id = 0\<rparr>"
  let ?b = "\<lparr>sin_addr = 2, sin_port = 1, srv_id = 0x0080\<rparr>"
  let ?I = "[(1, 1) \<mapsto> init_node ?a, (2, 1) \<mapsto> init_node ?b] :: members"
  have fresh: "fresh_members ?I"
    by (auto simp: fresh_members_def address_def init_node_def split: if_splits)
  have "reach ?I ?I ({} \<union> set (join_msg (init_node ?b) (1, 1)))"
    by (rule reach.join [OF reach.start, where a = "(2, 1)"]) auto
  then have "reach ?I ?I {((1, 1), fill_intl_msg join_mask ?b)}"
    by (simp add: join_msg_def init_node_def)
  from network_safe [OF this fresh] show ?thesis by auto
qed

end
