(* ===== verification/Kv_Protocol.thy ===== *)
theory Kv_Protocol
  imports Hash_Table
begin

text \<open>
  The request protocol the UDP and the TCP server of the repository share: a six-byte header
  (action bits, transaction id, two lengths), a key and a value. Both servers process the action
  bits in the same order with the same code, written here once over the hash function; what a
  request means for the finite map the table stands for is \<open>spec_request\<close>.
\<close>

section \<open>Constants and requests\<close>

definition delete_mask :: byte where "delete_mask = 1"
definition set_mask :: byte where "set_mask = 2"
definition get_mask :: byte where "get_mask = 4"
definition acknowledgment_mask :: byte where "acknowledgment_mask = 8"

lemmas ext_mask_defs = delete_mask_def set_mask_def get_mask_def acknowledgment_mask_def

definition EXT_HEADER_LEN :: nat where "EXT_HEADER_LEN = 6"

record request =
  req_action :: byte
  req_tid :: byte
  req_key :: "byte list"
  req_value :: "byte list"
  req_raw :: "byte list"

section \<open>Answering from the table\<close>

definition process_delete :: "hash_fun \<Rightarrow> request \<Rightarrow> byte \<times> hash_table \<Rightarrow> byte \<times> hash_table" where
  "process_delete h req = (\<lambda>(action, tbl).
     if action AND delete_mask \<noteq> 0 then
       (let (status, tbl) = ht_delete_key h tbl (req_key req)
        in (if status = -1 then action XOR delete_mask else action, tbl))
     else (action, tbl))"

definition process_set :: "hash_fun \<Rightarrow> request \<Rightarrow> byte \<times> hash_table \<Rightarrow> byte \<times> hash_table" where
  "process_set h req = (\<lambda>(action, tbl).
     if action AND set_mask \<noteq> 0 then
       (let (status, tbl) = ht_set_value h tbl (req_key req) (req_value req)
        in (if status = -1 then action XOR set_mask else action, tbl))
     else (action, tbl))"

text \<open>The action byte, and the key and value the response carries.\<close>

definition process_get :: "hash_fun \<Rightarrow> request \<Rightarrow> byte \<times> hash_table \<Rightarrow> byte \<times> byte list \<times> byte list" where
  "process_get h req = (\<lambda>(action, tbl).
     if action AND get_mask \<noteq> 0 then
       (let (status, res) = ht_get_value h tbl (req_key req)
        in if status = -1 then (action XOR get_mask, [], [])
           else (action, req_key req, case res of None \<Rightarrow> [] | Some v \<Rightarrow> v))
     else (action, [], []))"

definition build_response :: "byte \<Rightarrow> byte \<Rightarrow> byte list \<Rightarrow> byte list \<Rightarrow> byte list" where
  "build_response action transaction_id send_key send_value =
     [action, transaction_id] @ put16 (of_nat (length send_key)) @ put16 (of_nat (length send_value))
       @ send_key @ send_value"

definition answer :: "hash_fun \<Rightarrow> request \<Rightarrow> hash_table \<Rightarrow> byte list \<times> hash_table" where
  "answer h req tbl =
     (let (action, tbl) = process_set h req (process_delete h req (req_action req, tbl));
          (action, send_key, send_value) = process_get h req (action, tbl);
          action = action XOR acknowledgment_mask
      in (build_response action (req_tid req) send_key send_value, tbl))"

section \<open>The specification of a request\<close>

text \<open>
  What a request does to the finite map: delete, then set, then get, each if its bit is set.
  In the reply the bits of the operations that failed are cleared and the acknowledgement bit is
  flipped; a successful get carries the key and its value.
\<close>

definition spec_request ::
  "byte \<Rightarrow> byte list \<Rightarrow> byte list \<Rightarrow> (byte list \<rightharpoonup> byte list)
     \<Rightarrow> (byte list \<rightharpoonup> byte list) \<times> byte \<times> byte list \<times> byte list" where
  "spec_request action k v m =
     (let deleted = (if bit action 0 then m(k := None) else m);
          stored = (if bit action 1 then deleted(k \<mapsto> v) else deleted);
          a1 = (if k \<notin> dom m then unset_bit 0 action else action);
          a2 = (if stored k = None then unset_bit 2 a1 else a1);
          found = (if bit action 2 then stored k else None)
      in (stored, flip_bit 3 a2, if found = None then [] else k, case found of None \<Rightarrow> [] | Some w \<Rightarrow> w))"

section \<open>Action bits and the wire format\<close>

lemma ext_bits [simp]:
  "a AND delete_mask \<noteq> 0 \<longleftrightarrow> bit a 0" "a AND set_mask \<noteq> 0 \<longleftrightarrow> bit a 1"
  "a AND get_mask \<noteq> 0 \<longleftrightarrow> bit a 2"
  "a AND delete_mask = 0 \<longleftrightarrow> \<not> bit a 0" "a AND set_mask = 0 \<longleftrightarrow> \<not> bit a 1"
  "a AND get_mask = 0 \<longleftrightarrow> \<not> bit a 2"
  using and_exp_eq_0_iff_not_bit [of a 0] and_exp_eq_0_iff_not_bit [of a 1]
    and_exp_eq_0_iff_not_bit [of a 2]
  by (simp_all add: ext_mask_defs)

lemma ext_flips:
  "a XOR delete_mask = flip_bit 0 a" "a XOR set_mask = flip_bit 1 a"
  "a XOR get_mask = flip_bit 2 a" "a XOR acknowledgment_mask = flip_bit 3 a"
  by (simp_all add: flip_bit_eq_xor ext_mask_defs)

lemma flip_set_bit: "bit a n \<Longrightarrow> flip_bit n a = unset_bit n (a :: byte)"
  by (rule bit_word_eqI) (auto simp: bit_simps)

lemma unset_unset_bit: "\<not> bit a n \<Longrightarrow> unset_bit n a = (a :: byte)"
  by (rule bit_word_eqI) (auto simp: bit_simps)

lemma length_build_response [simp]:
  "length (build_response a t k v) = EXT_HEADER_LEN + length k + length v"
  by (simp add: build_response_def EXT_HEADER_LEN_def)

lemma build_response_nth [simp]:
  "build_response a t k v ! 0 = a" "build_response a t k v ! Suc 0 = t"
  by (simp_all add: build_response_def)

lemma build_response_lens [simp]:
  "get16 (build_response a t k v @ xs) 2 = of_nat (length k)"
  "get16 (build_response a t k v @ xs) 4 = of_nat (length v)"
  using get16_put16 [of "[a, t]" 2 "of_nat (length k)" "put16 (of_nat (length v)) @ k @ v @ xs"]
    get16_put16 [of "[a, t] @ put16 (of_nat (length k))" 4 "of_nat (length v)" "k @ v @ xs"]
  by (simp_all add: build_response_def)

lemmas build_response_lens0 [simp] = build_response_lens [of _ _ _ _ "[]", simplified]

lemma build_response_key [simp]:
  "take (length k) (drop EXT_HEADER_LEN (build_response a t k v)) = k"
  "drop (EXT_HEADER_LEN + length k) (build_response a t k v) = v"
  by (simp_all add: build_response_def EXT_HEADER_LEN_def put16_def mem16_def numeral_eq_Suc)

lemma unat_len [simp]: "n < 2 ^ 16 \<Longrightarrow> unat (of_nat n :: u16) = n"
  by (simp add: unat_of_nat)

section \<open>The answer against the specification\<close>

definition small_values :: "hash_table \<Rightarrow> bool" where
  "small_values tbl \<longleftrightarrow> (\<forall>v \<in> ran (ht_map tbl). length v < 2 ^ 16)"

lemma answer_spec:
  assumes wf: "ht_wf h tbl" and room: "ht_room (Suc m) tbl"
    and req: "spec_request (req_action req) (req_key req) (req_value req) (ht_map tbl) = (m', a, k, v)"
  shows "fst (answer h req tbl) = build_response a (req_tid req) k v"
    and "ht_map (snd (answer h req tbl)) = m'" and "ht_wf h (snd (answer h req tbl))"
    and "ht_room m (snd (answer h req tbl))"
proof -
  let ?act = "req_action req" and ?k = "req_key req" and ?v = "req_value req"
  obtain a1 t1 where 1: "process_delete h req (?act, tbl) = (a1, t1)" by fastforce
  obtain a2 t2 where 2: "process_set h req (a1, t1) = (a2, t2)" by fastforce
  note del = ht_delete_key_correct [OF wf, where k = ?k]
  have del1: "a1 = (if ?k \<notin> dom (ht_map tbl) then unset_bit 0 ?act else ?act)"
    "ht_map t1 = (if bit ?act 0 then (ht_map tbl)(?k := None) else ht_map tbl)"
    "ht_wf h t1" "ht_room (Suc m) t1"
    using 1 del wf room
    by (auto simp: process_delete_def ext_flips flip_set_bit unset_unset_bit
        split: prod.splits if_splits)
  note set = ht_set_value_correct [OF del1(3,4), where k = ?k and v = ?v]
  have same: "bit a1 1 = bit ?act 1" "bit a1 2 = bit ?act 2"
    by (simp_all add: del1(1) bit_simps)
  have set1: "a2 = a1" "ht_map t2 = (if bit ?act 1 then (ht_map t1)(?k \<mapsto> ?v) else ht_map t1)"
    "ht_wf h t2" "ht_room m t2"
    using 2 set del1(3,4) same ht.room_mono
    by (auto simp: process_set_def split: prod.splits if_splits)
  have get: "process_get h req (a2, t2) =
    (if ht_map t2 ?k = None then unset_bit 2 a1 else a1,
     if bit ?act 2 \<and> ht_map t2 ?k \<noteq> None then ?k else [],
     case (if bit ?act 2 then ht_map t2 ?k else None) of None \<Rightarrow> [] | Some w \<Rightarrow> w)"
    by (auto simp: process_get_def ht_get_value_map [OF set1(3)] set1(1) same ext_flips
        flip_set_bit unset_unset_bit split: option.splits)
  have m': "ht_map t2 = m'" and a: "a = flip_bit 3 (fst (process_get h req (a2, t2)))"
    and k: "k = fst (snd (process_get h req (a2, t2)))" and v: "v = snd (snd (process_get h req (a2, t2)))"
    using req unfolding get spec_request_def Let_def del1(1) set1(2) del1(2) by auto
  have eq: "answer h req tbl = (build_response a (req_tid req) k v, t2)"
    by (simp add: answer_def 1 2 a k v ext_flips split: prod.split)
  show "fst (answer h req tbl) = build_response a (req_tid req) k v"
    "ht_map (snd (answer h req tbl)) = m'" "ht_wf h (snd (answer h req tbl))"
    "ht_room m (snd (answer h req tbl))"
    using set1 m' by (simp_all add: eq)
qed

lemma small_values_update:
  assumes "spec_request a k v m = (m', a', k', v')" and "\<forall>w \<in> ran m. length w < 2 ^ 16"
    and "length v < 2 ^ 16"
  shows "(\<forall>w \<in> ran m'. length w < 2 ^ 16) \<and> length v' < 2 ^ 16"
proof -
  have "ran m' \<subseteq> insert v (ran m)"
    using assms(1) by (auto simp: spec_request_def Let_def ran_def split: if_splits)
  then have m': "\<forall>w \<in> ran m'. length w < 2 ^ 16"
    using assms(2,3) by blast
  moreover have "v' = [] \<or> v' \<in> ran m'"
    using assms(1) by (auto simp: spec_request_def Let_def ran_def split: if_splits option.splits)
  ultimately show ?thesis by auto
qed

section \<open>Sequences of requests\<close>

text \<open>A client request: sender, action, transaction id, key and value.\<close>

type_synonym 'src client_request = "'src \<times> byte \<times> byte \<times> byte list \<times> byte list"

fun wire :: "'src client_request \<Rightarrow> 'src \<times> byte list" where
  "wire (src, action, tid, k, v) = (src, build_response action tid k v)"

fun request_ok :: "'src client_request \<Rightarrow> bool" where
  "request_ok (src, action, tid, k, v) \<longleftrightarrow> \<not> bit action 7 \<and> length k < 2 ^ 16 \<and> length v < 2 ^ 16"

fun spec_run :: "'src client_request list \<Rightarrow> (byte list \<rightharpoonup> byte list) \<Rightarrow>
    (byte list \<rightharpoonup> byte list) \<times> ('src \<times> byte list) list" where
  "spec_run [] m = (m, [])"
| "spec_run ((src, action, tid, k, v) # rs) m =
     (let (m, action, k, v) = spec_request action k v m;
          (m, out) = spec_run rs m
      in (m, (src, build_response action tid k v) # out))"

end
