(* ===== verification/Tcp_Server.thy ===== *)
theory Tcp_Server
  imports Kv_Protocol
begin

text \<open>
  The TCP server of \<open>Distributed Hash Table/server.c\<close>: one request per connection, the table
  with \<open>size_t\<close> hashes. A connection is the bytes the client sends before it closes or stalls,
  and whether a \<open>recv\<close> that finds no byte left fails (time-out, reset) or reports the end of the
  stream. The buffers of \<open>serve\<close> are never initialised; their contents are arguments.
\<close>

section \<open>Receiving\<close>

record connection =
  conn_data :: "byte list"
  conn_fails :: bool

text \<open>
  \<open>recv\<close> with \<open>MSG_WAITALL\<close>: all \<open>n\<close> bytes, or fewer when the stream stops early, or
  \<open>None\<close> for the status -1.
\<close>

definition recv_waitall :: "nat \<Rightarrow> connection \<Rightarrow> (byte list \<times> connection) option" where
  "recv_waitall n c =
     (if conn_data c = [] \<and> 0 < n \<and> conn_fails c then None
      else Some (take n (conn_data c), c\<lparr>conn_data := drop n (conn_data c)\<rparr>))"

text \<open>A buffer after \<open>recv\<close> stored \<open>d\<close> and \<open>serve\<close> wrote the NUL byte behind it.\<close>

definition recv_buf :: "(nat \<Rightarrow> byte) \<Rightarrow> byte list \<Rightarrow> nat \<Rightarrow> byte" where
  "recv_buf junk d i = (if i < length d then d ! i else if i = length d then 0 else junk i)"

section \<open>serve\<close>

text \<open>
  Key and value as the operations on the table see them: the announced number of bytes of each
  buffer. The value is only received when the key is not empty.
\<close>

definition recv_body ::
  "(nat \<Rightarrow> byte) \<Rightarrow> (nat \<Rightarrow> byte) \<Rightarrow> nat \<Rightarrow> nat \<Rightarrow> connection
     \<Rightarrow> ((nat \<Rightarrow> byte) \<times> (nat \<Rightarrow> byte)) option" where
  "recv_body kjunk vjunk key_len value_len c =
     (if 0 < key_len then
        (case recv_waitall key_len c of
           None \<Rightarrow> None
         | Some (kd, c) \<Rightarrow>
             if 0 < value_len then
               (case recv_waitall value_len c of
                  None \<Rightarrow> None
                | Some (vd, c) \<Rightarrow> Some (recv_buf kjunk kd, recv_buf vjunk vd))
             else Some (recv_buf kjunk kd, vjunk))
      else Some (kjunk, vjunk))"

text \<open>
  The new table and the bytes sent back, if any. \<open>None\<close> for the connection is a failed
  \<open>accept\<close>.
\<close>

definition serve ::
  "(nat \<Rightarrow> byte) \<Rightarrow> (nat \<Rightarrow> byte) \<Rightarrow> connection option \<Rightarrow> hash_table \<Rightarrow> hash_table \<times> byte list option"
  where
  "serve kjunk vjunk conn tbl =
     (case conn of
        None \<Rightarrow> (tbl, None)
      | Some c \<Rightarrow>
          (case recv_waitall EXT_HEADER_LEN c of
             None \<Rightarrow> (tbl, None)
           | Some (header, c) \<Rightarrow>
               if length header \<noteq> EXT_HEADER_LEN then (tbl, None)
               else
                 let key_len = unat (get16 header 2);
                     value_len = unat (get16 header 4)
                 in case recv_body kjunk vjunk key_len value_len c of
                      None \<Rightarrow> (tbl, None)
                    | Some (kbuf, vbuf) \<Rightarrow>
                        let req = \<lparr>req_action = header ! 0, req_tid = header ! 1,
                                   req_key = map kbuf [0..<key_len],
                                   req_value = map vbuf [0..<value_len], req_raw = header\<rparr>;
                            (response, tbl) = answer hash64 req tbl
                        in (tbl, Some response)))"

text \<open>
  The loop of \<open>run_server\<close> on the connections it accepts; the buffers hold \<open>kjunk i\<close> and \<open>vjunk i\<close> when the
  \<open>i\<close>-th one is served.
\<close>

fun run_server ::
  "(nat \<Rightarrow> nat \<Rightarrow> byte) \<Rightarrow> (nat \<Rightarrow> nat \<Rightarrow> byte) \<Rightarrow> connection option list \<Rightarrow> hash_table
     \<Rightarrow> hash_table \<times> byte list option list" where
  "run_server kjunk vjunk [] tbl = (tbl, [])"
| "run_server kjunk vjunk (c # cs) tbl =
     (let (tbl, response) = serve (kjunk 0) (vjunk 0) c tbl;
          (tbl, responses) = run_server (\<lambda>i. kjunk (Suc i)) (\<lambda>i. vjunk (Suc i)) cs tbl
      in (tbl, response # responses))"

section \<open>Complete requests\<close>

lemma map_recv_buf [simp]: "n \<le> length d \<Longrightarrow> map (recv_buf junk d) [0..<n] = take n d"
  by (rule nth_equalityI) (auto simp: recv_buf_def)

definition header_of :: "byte \<Rightarrow> byte \<Rightarrow> nat \<Rightarrow> nat \<Rightarrow> byte list" where
  "header_of action tid n m = [action, tid] @ put16 (of_nat n) @ put16 (of_nat m)"

lemma length_header_of [simp]: "length (header_of a t n m) = EXT_HEADER_LEN"
  by (simp add: header_of_def EXT_HEADER_LEN_def)

lemma header_of_nth [simp]:
  "header_of a t n m ! 0 = a" "header_of a t n m ! Suc 0 = t"
  "get16 (header_of a t n m) 2 = of_nat n" "get16 (header_of a t n m) 4 = of_nat m"
  using get16_put16 [of "[a, t]" 2 "of_nat n" "put16 (of_nat m)"]
    get16_put16 [of "[a, t] @ put16 (of_nat n)" 4 "of_nat m" "[]"]
  by (simp_all add: header_of_def)

lemma build_response_header:
  "build_response a t k v = header_of a t (length k) (length v) @ k @ v"
  by (simp add: build_response_def header_of_def)

text \<open>\<open>serve\<close> on a header and whatever follows it.\<close>

lemma serve_header:
  assumes "n < 2 ^ 16" and "m < 2 ^ 16"
  shows "serve kjunk vjunk (Some \<lparr>conn_data = header_of a t n m @ body, conn_fails = f\<rparr>) tbl =
    (case recv_body kjunk vjunk n m \<lparr>conn_data = body, conn_fails = f\<rparr> of
       None \<Rightarrow> (tbl, None)
     | Some (kbuf, vbuf) \<Rightarrow>
         (let (response, tbl) = answer hash64
            \<lparr>req_action = a, req_tid = t, req_key = map kbuf [0..<n], req_value = map vbuf [0..<m],
             req_raw = header_of a t n m\<rparr> tbl
          in (tbl, Some response)))"
proof -
  have ne: "header_of a t n m \<noteq> []" by (simp add: header_of_def)
  then show ?thesis
    using assms by (simp add: serve_def recv_waitall_def Let_def split: option.splits prod.splits)
qed

lemma recv_body_complete:
  assumes "k \<noteq> []"
  obtains kbuf vbuf where
    "recv_body kjunk vjunk (length k) (length v) \<lparr>conn_data = k @ v, conn_fails = f\<rparr> = Some (kbuf, vbuf)"
    and "map kbuf [0..<length k] = k" and "map vbuf [0..<length v] = v"
  using assms by (cases "v = []") (auto simp: recv_body_def recv_waitall_def)

lemma serve_complete:
  assumes wf: "ht_wf hash64 tbl" and room: "ht_room (Suc n) tbl" and k: "k \<noteq> []"
    and len: "length k < 2 ^ 16" "length v < 2 ^ 16"
    and spec: "spec_request action k v (ht_map tbl) = (m', action', k', v')"
  obtains tbl' where "serve kjunk vjunk (Some \<lparr>conn_data = build_response action tid k v, conn_fails = f\<rparr>) tbl
      = (tbl', Some (build_response action' tid k' v'))"
    and "ht_map tbl' = m'" and "ht_wf hash64 tbl'" and "ht_room n tbl'"
proof -
  obtain kbuf vbuf where buf: "recv_body kjunk vjunk (length k) (length v)
      \<lparr>conn_data = k @ v, conn_fails = f\<rparr> = Some (kbuf, vbuf)"
      "map kbuf [0..<length k] = k" "map vbuf [0..<length v] = v"
    by (rule recv_body_complete [OF k])
  define req where "req = \<lparr>req_action = action, req_tid = tid, req_key = k, req_value = v,
    req_raw = header_of action tid (length k) (length v)\<rparr>"
  have "serve kjunk vjunk (Some \<lparr>conn_data = build_response action tid k v, conn_fails = f\<rparr>) tbl =
      (snd (answer hash64 req tbl), Some (fst (answer hash64 req tbl)))"
    unfolding build_response_header serve_header [OF len] buf(1) req_def
    by (simp add: buf(2,3) case_prod_beta Let_def)
  moreover have "spec_request (req_action req) (req_key req) (req_value req) (ht_map tbl) =
      (m', action', k', v')"
    using spec by (simp add: req_def)
  note answer_spec [OF wf room this]
  moreover have "req_tid req = tid" by (simp add: req_def)
  ultimately show thesis using that by metis
qed

fun tcp_request_ok :: "'src client_request \<Rightarrow> bool" where
  "tcp_request_ok (src, action, tid, k, v) \<longleftrightarrow> k \<noteq> [] \<and> length k < 2 ^ 16 \<and> length v < 2 ^ 16"

fun connect_with :: "bool \<Rightarrow> 'src client_request \<Rightarrow> connection option" where
  "connect_with f (src, action, tid, k, v) =
     Some \<lparr>conn_data = build_response action tid k v, conn_fails = f\<rparr>"

lemma run_server_serves:
  assumes "list_all tcp_request_ok rs" and "ht_wf hash64 tbl" and "ht_room (length rs) tbl"
  shows "\<exists>tbl'. run_server kjunk vjunk (map (connect_with f) rs) tbl =
      (tbl', map (\<lambda>d. Some (snd d)) (snd (spec_run rs (ht_map tbl)))) \<and>
    ht_map tbl' = fst (spec_run rs (ht_map tbl)) \<and> ht_wf hash64 tbl'"
  using assms
proof (induction rs arbitrary: tbl kjunk vjunk)
  case (Cons r rs)
  obtain src action tid k v where r: "r = (src, action, tid, k, v)" by (cases r)
  obtain m' action' k' v'
    where spec: "spec_request action k v (ht_map tbl) = (m', action', k', v')"
    by (metis prod_cases4)
  have ok: "k \<noteq> []" "length k < 2 ^ 16" "length v < 2 ^ 16"
    using Cons.prems(1) by (simp_all add: r)
  have room: "ht_room (Suc (length rs)) tbl" using Cons.prems(3) by simp
  obtain t where t: "serve (kjunk 0) (vjunk 0) (connect_with f r) tbl =
      (t, Some (build_response action' tid k' v'))"
      "ht_map t = m'" "ht_wf hash64 t" "ht_room (length rs) t"
    using serve_complete [OF Cons.prems(2) room ok spec] unfolding r connect_with.simps by metis
  have "list_all tcp_request_ok rs" using Cons.prems(1) by simp
  from Cons.IH [OF this t(3,4), of "\<lambda>i. kjunk (Suc i)" "\<lambda>i. vjunk (Suc i)"] show ?case
    by (auto simp: t(1) [unfolded r connect_with.simps] t(2) spec Let_def case_prod_beta r)
qed simp

section \<open>Properties\<close>

text \<open>
  C3: whatever the uninitialised buffers of \<open>serve\<close> hold for each connection, a server started on an empty table
  answers every sequence of connections that each carry one complete request with a non-empty
  key as a finite map would, and ends with the table of that map.
\<close>

theorem tcp_server_refines_map:
  assumes "list_all tcp_request_ok rs" and "length rs < 2 ^ 58"
  shows "\<exists>tbl. run_server kjunk vjunk (map (connect_with f) rs) ht_create =
      (tbl, map (\<lambda>d. Some (snd d)) (snd (spec_run rs Map.empty))) \<and>
    ht_map tbl = fst (spec_run rs Map.empty) \<and> ht_wf hash64 tbl"
  using run_server_serves [OF assms(1) ht_wf_create ht_room_create [OF assms(2)]]
  by (simp add: ht_map_create)

text \<open>The exchange of \<open>test_response\<close> in \<open>test_server.c\<close>, its first, second, seventh and last step.\<close>

theorem tcp_server_refines_map_witness:
  "snd (run_server (\<lambda>_ _. 170) (\<lambda>_ _. 170)
     [Some \<lparr>conn_data = [2, 2, 0, 1, 0, 1, 97, 49], conn_fails = True\<rparr>,
      Some \<lparr>conn_data = [4, 3, 0, 1, 0, 0, 97], conn_fails = True\<rparr>,
      Some \<lparr>conn_data = [1, 8, 0, 1, 0, 0, 97], conn_fails = True\<rparr>,
      Some \<lparr>conn_data = [4, 9, 0, 1, 0, 0, 97], conn_fails = True\<rparr>] ht_create) =
   [Some [10, 2, 0, 0, 0, 0], Some [12, 3, 0, 1, 0, 1, 97, 49],
    Some [9, 8, 0, 0, 0, 0], Some [8, 9, 0, 0, 0, 0]]"
proof -
  let ?rs = "[((), 2, 2, [97], [49]), ((), 4, 3, [97], []), ((), 1, 8, [97], []), ((), 4, 9, [97], [])]
    :: unit client_request list"
  have bits: "flip_bit 3 (unset_bit 2 (unset_bit 0 4)) = (8 :: byte)"
    "flip_bit 3 (unset_bit 2 1) = (9 :: byte)"
    by (simp_all add: flip_bit_eq_xor unset_bit_eq_and_not)
  have "map (\<lambda>d. Some (snd d)) (snd (spec_run ?rs Map.empty)) =
    [Some [10, 2, 0, 0, 0, 0], Some [12, 3, 0, 1, 0, 1, 97, 49],
     Some [9, 8, 0, 0, 0, 0], Some [8, 9, 0, 0, 0, 0]]"
    by (simp add: spec_request_def Let_def bits build_response_def put16_def mem16_def htons_def)
  moreover have "map (connect_with True) ?rs =
     [Some \<lparr>conn_data = [2, 2, 0, 1, 0, 1, 97, 49], conn_fails = True\<rparr>,
      Some \<lparr>conn_data = [4, 3, 0, 1, 0, 0, 97], conn_fails = True\<rparr>,
      Some \<lparr>conn_data = [1, 8, 0, 1, 0, 0, 97], conn_fails = True\<rparr>,
      Some \<lparr>conn_data = [4, 9, 0, 1, 0, 0, 97], conn_fails = True\<rparr>]"
    by (simp add: build_response_def put16_def mem16_def htons_def)
  moreover have "list_all tcp_request_ok ?rs" and "length ?rs < 2 ^ 58" by simp_all
  ultimately show ?thesis
    using tcp_server_refines_map [of ?rs "\<lambda>_ _. 170" "\<lambda>_ _. 170" True] by fastforce
qed

text \<open>
  C11: \<open>serve\<close> discards a request (no answer, table untouched) exactly when fewer than six bytes
  arrive, or when a \<open>recv\<close> of the key or of the value fails without having got a single byte.
  Every other malformed request, in particular one whose key or value stops early because the
  client closed the connection, is processed and answered.
\<close>

theorem tcp_discards_exactly:
  assumes "n < 2 ^ 16" and "m < 2 ^ 16"
  shows "(length d < EXT_HEADER_LEN \<longrightarrow>
      serve kjunk vjunk (Some \<lparr>conn_data = d, conn_fails = f\<rparr>) tbl = (tbl, None)) \<and>
    (let r = serve kjunk vjunk (Some \<lparr>conn_data = header_of a t n m @ body, conn_fails = f\<rparr>) tbl;
         failed = f \<and> 0 < n \<and> (body = [] \<or> 0 < m \<and> length body \<le> n)
     in (snd r = None \<longleftrightarrow> failed) \<and> (failed \<longrightarrow> fst r = tbl))"
proof -
  have "(recv_body kjunk vjunk n m \<lparr>conn_data = body, conn_fails = f\<rparr> = None) =
      (f \<and> 0 < n \<and> (body = [] \<or> 0 < m \<and> length body \<le> n))"
    by (auto simp: recv_body_def recv_waitall_def)
  then show ?thesis
    unfolding serve_header [OF assms] Let_def
    by (auto simp: serve_def recv_waitall_def split: option.splits prod.splits)
qed

theorem tcp_discards_exactly_witness:
  "snd (serve (\<lambda>_. 0) (\<lambda>_. 0) (Some \<lparr>conn_data = header_of 4 1 1 2 @ [97, 98], conn_fails = True\<rparr>) ht_create) \<noteq> None \<and>
   serve (\<lambda>_. 0) (\<lambda>_. 0) (Some \<lparr>conn_data = [0], conn_fails = True\<rparr>) ht_create = (ht_create, None)"
  using tcp_discards_exactly [of 1 2 "[0]" "\<lambda>_. 0" "\<lambda>_. 0" True ht_create 4 1 "[97, 98]"]
  by (simp add: EXT_HEADER_LEN_def Let_def)

text \<open>
  A set that announces a value but no key never receives the value: \<open>serve\<close> stores, under the
  empty key, as many bytes of its uninitialised stack buffer as the header announces, and
  acknowledges the set. A later get of the empty key sends that memory to the client.
\<close>

lemma tcp_set_without_key_stores_junk:
  assumes "ht_wf hash64 tbl" and "ht_room (Suc n) tbl" and "0 < m" and "m < 2 ^ 16"
  shows "\<exists>tbl'. serve kjunk vjunk
      (Some \<lparr>conn_data = header_of set_mask tid 0 m @ value, conn_fails = f\<rparr>) tbl =
      (tbl', Some (build_response (set_mask XOR acknowledgment_mask) tid [] [])) \<and>
    ht_map tbl' = (ht_map tbl)([] \<mapsto> map vjunk [0..<m])"
proof -
  define req where "req = \<lparr>req_action = set_mask, req_tid = tid, req_key = [],
    req_value = map vjunk [0..<m], req_raw = header_of set_mask tid 0 m\<rparr>"
  have bits: "bit set_mask 0 = False" "bit set_mask (Suc 0) = True" "bit set_mask 2 = False"
    by (simp_all add: set_mask_def bit_simps)
  then have "unset_bit 0 set_mask = set_mask"
    by (simp add: unset_unset_bit)
  then have spec: "spec_request (req_action req) (req_key req) (req_value req) (ht_map tbl) =
      ((ht_map tbl)([] \<mapsto> map vjunk [0..<m]), set_mask XOR acknowledgment_mask, [], [])"
    by (simp add: req_def spec_request_def bits Let_def ext_flips)
  have "serve kjunk vjunk (Some \<lparr>conn_data = header_of set_mask tid 0 m @ value, conn_fails = f\<rparr>) tbl =
      (snd (answer hash64 req tbl), Some (fst (answer hash64 req tbl)))"
    using assms(4)
    by (simp add: serve_header recv_body_def req_def case_prod_beta Let_def del: ext_bits)
  then show ?thesis
    using answer_spec [OF assms(1,2) spec] by (simp add: req_def)
qed

theorem tcp_set_without_key_stores_junk_witness:
  "\<exists>tbl'. serve (\<lambda>_. 1) (\<lambda>_. 170)
      (Some \<lparr>conn_data = header_of set_mask 6 0 2 @ [97, 98], conn_fails = False\<rparr>) ht_create =
      (tbl', Some (build_response (set_mask XOR acknowledgment_mask) 6 [] [])) \<and>
    ht_map tbl' = [[] \<mapsto> [170, 170]]"
proof -
  have "ht_room (Suc 0) ht_create" by (rule ht_room_create) simp
  moreover have "map (\<lambda>_. 170) [0..<2] = ([170, 170] :: byte list)" by (simp add: upt_conv_Cons)
  ultimately show ?thesis
    using tcp_set_without_key_stores_junk [OF ht_wf_create, of 0 2 "\<lambda>_. 1" "\<lambda>_. 170" 6 "[97, 98]" False]
    by (simp add: ht_map_create)
qed

end
