(* ===== verification/Dht_Ext.thy ===== *)
theory Dht_Ext
  imports Dht_Node Kv_Protocol
begin

text \<open>
  Client requests at the UDP server of \<open>Hash Table/server.c\<close>: \<open>handle_ext_msg\<close> with its
  three branches (datagram too short, answered from the table, forwarded to the successor), the
  dispatch of \<open>handle_msg\<close> and the loop of \<open>main\<close>. The socket is the list of datagrams still
  to be received, each with its sender; \<open>MSG_PEEK\<close> reads the head and leaves it there.
  \<open>realloc\<close> does not clear the buffers it returns: their contents are arguments of the model.
\<close>

section \<open>Reading a request\<close>

text \<open>
  The part of \<open>handle_ext_msg\<close> that reads a datagram of at least six bytes: the lengths come
  from the header, the buffer has the announced size and what the datagram does not fill is junk.
\<close>

definition read_request :: "(nat \<Rightarrow> byte) \<Rightarrow> byte list \<Rightarrow> request" where
  "read_request junk d =
     (let recv_key_len = unat (get16 d 2);
          recv_value_len = unat (get16 d 4);
          msg_len = EXT_HEADER_LEN + recv_key_len + recv_value_len;
          msg = fill_buf junk msg_len d
      in \<lparr>req_action = d ! 0, req_tid = msg ! 1,
          req_key = take recv_key_len (drop EXT_HEADER_LEN msg),
          req_value = take recv_value_len (drop (EXT_HEADER_LEN + recv_key_len) msg),
          req_raw = msg\<rparr>)"

section \<open>Forwarding\<close>

text \<open>
  What the forward branch makes of the answer \<open>r\<close> of the successor. The response buffer holds six
  zeros before the first \<open>recvfrom\<close>; its final size is computed from the \<^emph>\<open>request\<close>.
\<close>

definition relay :: "(nat \<Rightarrow> byte) \<Rightarrow> request \<Rightarrow> byte list \<Rightarrow> fault + byte list" where
  "relay junk req r =
     (let response = take EXT_HEADER_LEN r @ replicate (EXT_HEADER_LEN - length r) 0
      in bind_res (assert_c (response ! 0 AND internal_mask = 0)) (\<lambda>_.
         bind_res (assert_c (response ! 1 = req_tid req)) (\<lambda>_.
         let key_len = unat (get16 (req_raw req) 2);
             value_len = unat (get16 (req_raw req) 4);
             response_len = EXT_HEADER_LEN + key_len + value_len
         in Inr (fill_buf junk response_len (r @ replicate (EXT_HEADER_LEN - length r) 0)))))"

text \<open>
  The table, the datagrams left and those sent. \<open>junk\<close> is the request buffer before it is
  filled, \<open>junk'\<close> the response buffer of the forward branch.
\<close>

type_synonym ext_result = "fault + hash_table \<times> datagram list \<times> datagram list"

definition handle_ext_msg ::
  "(nat \<Rightarrow> byte) \<Rightarrow> (nat \<Rightarrow> byte) \<Rightarrow> dht_node \<Rightarrow> hash_table \<Rightarrow> datagram list \<Rightarrow> ext_result" where
  "handle_ext_msg junk junk' node tbl inbox =
     (case inbox of
        [] \<Rightarrow> Inl Blocked
      | (their_addr, d) # rest \<Rightarrow>
          if length d < EXT_HEADER_LEN then Inr (tbl, inbox, [])
          else
            let req = read_request junk d
            in if is_key_in_range node (req_key req) then
                 let (response, tbl) = answer hash16 req tbl in Inr (tbl, rest, [(their_addr, response)])
               else
                 case node_next node of
                   None \<Rightarrow> Inl Undefined
                 | Some nxt \<Rightarrow>
                     (case rest of
                        [] \<Rightarrow> Inl Blocked
                      | (peer_addr, r) # rest \<Rightarrow>
                          bind_res (relay junk' req r) (\<lambda>response.
                          Inr (tbl, rest, [(address nxt, req_raw req), (their_addr, response)]))))"

section \<open>Dispatch and the main loop\<close>

record udp_server =
  srv_node :: dht_node
  srv_tbl :: hash_table
  srv_inbox :: "datagram list"
  srv_outbox :: "datagram list"

definition handle_msg ::
  "(nat \<Rightarrow> byte) \<Rightarrow> (nat \<Rightarrow> byte) \<Rightarrow> udp_server \<Rightarrow> fault + udp_server" where
  "handle_msg junk junk' s =
     (case srv_inbox s of
        [] \<Rightarrow> Inl Blocked
      | (their_addr, d) # rest \<Rightarrow>
          if internal_mask AND (d @ [0]) ! 0 \<noteq> 0 then
            bind_res (handle_intl_msg (srv_node s) d) (\<lambda>(node, out).
            Inr (s\<lparr>srv_node := node, srv_inbox := rest, srv_outbox := srv_outbox s @ out\<rparr>))
          else
            bind_res (handle_ext_msg junk junk' (srv_node s) (srv_tbl s) (srv_inbox s))
              (\<lambda>(tbl, inbox, out).
            Inr (s\<lparr>srv_tbl := tbl, srv_inbox := inbox, srv_outbox := srv_outbox s @ out\<rparr>)))"

definition start_server :: "server_info \<Rightarrow> datagram list \<Rightarrow> udp_server" where
  "start_server self inbox =
     \<lparr>srv_node = init_node self, srv_tbl = ht_create, srv_inbox = inbox, srv_outbox = []\<rparr>"

text \<open>The \<open>while (1)\<close> of \<open>main\<close>, \<open>n\<close> rounds of it.\<close>

fun main_loop ::
  "(nat \<Rightarrow> nat \<Rightarrow> byte) \<Rightarrow> (nat \<Rightarrow> nat \<Rightarrow> byte) \<Rightarrow> nat \<Rightarrow> udp_server \<Rightarrow> fault + udp_server" where
  "main_loop junk junk' 0 s = Inr s"
| "main_loop junk junk' (Suc n) s =
     bind_res (handle_msg (junk n) (junk' n) s) (\<lambda>s. main_loop junk junk' n s)"

lemma read_request_build [simp]:
  assumes "length k < 2 ^ 16" and "length v < 2 ^ 16"
  shows "read_request junk (build_response a t k v) =
    \<lparr>req_action = a, req_tid = t, req_key = k, req_value = v, req_raw = build_response a t k v\<rparr>"
  using assms by (simp add: read_request_def Let_def)

lemma handle_ext_in_range:
  assumes "length k < 2 ^ 16" and "length v < 2 ^ 16" and "is_key_in_range node k"
  shows "handle_ext_msg junk junk' node tbl ((src, build_response action tid k v) # rest) =
    (let (response, tbl) = answer hash16 (read_request junk (build_response action tid k v)) tbl
     in Inr (tbl, rest, [(src, response)]))"
  using assms by (simp add: handle_ext_msg_def Let_def)

lemma ext_in_range_step:
  assumes "ht_wf hash16 tbl" and "ht_room (Suc m) tbl" and "small_values tbl"
    and "length k < 2 ^ 16" and "length v < 2 ^ 16" and "is_key_in_range node k"
    and "spec_request action k v (ht_map tbl) = (m', action', k', v')"
  obtains tbl' where "handle_ext_msg junk junk' node tbl ((src, build_response action tid k v) # rest) =
      Inr (tbl', rest, [(src, build_response action' tid k' v')])"
    and "ht_map tbl' = m'" and "ht_wf hash16 tbl'" and "ht_room m tbl'" and "small_values tbl'"
    and "length v' < 2 ^ 16"
proof -
  define req where "req = read_request junk (build_response action tid k v)"
  have eq: "req_action req = action" "req_tid req = tid" "req_key req = k" "req_value req = v"
    using read_request_build [OF assms(4,5)] by (simp_all add: req_def)
  note a = answer_spec [OF assms(1,2), of req, unfolded eq, OF assms(7)]
  have "handle_ext_msg junk junk' node tbl ((src, build_response action tid k v) # rest) =
      Inr (snd (answer hash16 req tbl), rest, [(src, fst (answer hash16 req tbl))])"
    unfolding handle_ext_in_range [OF assms(4-6)] req_def by (simp add: case_prod_beta Let_def)
  moreover have "small_values (snd (answer hash16 req tbl))" and "length v' < 2 ^ 16"
    using small_values_update [OF assms(7)] assms(3,5) unfolding small_values_def a(2) by blast+
  ultimately show thesis using that a by metis
qed

subsection \<open>Sequences of requests\<close>

lemma external_bit: "internal_mask AND a = 0 \<longleftrightarrow> \<not> bit a 7"
  using and_exp_eq_0_iff_not_bit [of a 7] by (simp add: internal_mask_def and.commute)

lemma main_loop_serves:
  assumes "list_all request_ok rs" and "ht_wf hash16 (srv_tbl s)"
    and "ht_room (length rs) (srv_tbl s)" and "small_values (srv_tbl s)"
    and "node_next (srv_node s) = None" and "srv_inbox s = map wire rs"
  shows "\<exists>tbl. main_loop junk junk' (length rs) s =
      Inr (s\<lparr>srv_tbl := tbl, srv_inbox := [],
             srv_outbox := srv_outbox s @ snd (spec_run rs (ht_map (srv_tbl s)))\<rparr>) \<and>
    ht_map tbl = fst (spec_run rs (ht_map (srv_tbl s))) \<and> ht_wf hash16 tbl"
  using assms
proof (induction rs arbitrary: s)
  case Nil
  then show ?case by (intro exI [of _ "srv_tbl s"]) simp
next
  case (Cons r rs)
  obtain src action tid k v where r: "r = (src, action, tid, k, v)" by (cases r)
  obtain m' action' k' v'
    where spec: "spec_request action k v (ht_map (srv_tbl s)) = (m', action', k', v')"
    by (metis prod_cases4)
  have len: "length k < 2 ^ 16" "length v < 2 ^ 16" and ext: "\<not> bit action 7"
    using Cons.prems(1) by (simp_all add: r)
  have range: "is_key_in_range (srv_node s) k"
    using Cons.prems(5) by (simp add: is_key_in_range_def)
  have room: "ht_room (Suc (length rs)) (srv_tbl s)" using Cons.prems(3) by simp
  let ?d = "(src, build_response action tid k v)"
  obtain tbl where tbl: "handle_ext_msg (junk (length rs)) (junk' (length rs)) (srv_node s) (srv_tbl s)
        (?d # map wire rs) = Inr (tbl, map wire rs, [(src, build_response action' tid k' v')])"
      "ht_map tbl = m'" "ht_wf hash16 tbl" "ht_room (length rs) tbl" "small_values tbl"
    using ext_in_range_step [OF Cons.prems(2) room Cons.prems(4) len range spec] by metis
  let ?s = "s\<lparr>srv_tbl := tbl, srv_inbox := map wire rs,
    srv_outbox := srv_outbox s @ [(src, build_response action' tid k' v')]\<rparr>"
  have step: "handle_msg (junk (length rs)) (junk' (length rs)) s = Inr ?s"
    using tbl(1) ext Cons.prems(6) by (simp add: handle_msg_def r external_bit nth_append)
  have "\<exists>tbl'. main_loop junk junk' (length rs) ?s =
      Inr (?s\<lparr>srv_tbl := tbl', srv_inbox := [],
             srv_outbox := srv_outbox ?s @ snd (spec_run rs (ht_map (srv_tbl ?s)))\<rparr>) \<and>
    ht_map tbl' = fst (spec_run rs (ht_map (srv_tbl ?s))) \<and> ht_wf hash16 tbl'"
    by (rule Cons.IH) (use Cons.prems tbl in simp_all)
  then show ?case
    using step by (auto simp: r spec tbl(2) Let_def case_prod_beta)
qed

section \<open>Properties\<close>

text \<open>
  A complete request whose key the node is responsible for is consumed and answered to its
  sender with one datagram. The table afterwards stands for the map the specification gives,
  and the reply carries exactly the action byte, key and value of the specification, with the
  transaction id of the request.
\<close>

theorem ext_request_refines_map:
  assumes "ht_wf hash16 tbl" and "ht_room (Suc m) tbl" and "small_values tbl"
    and "length k < 2 ^ 16" and "length v < 2 ^ 16" and "is_key_in_range node k"
    and "spec_request action k v (ht_map tbl) = (m', action', k', v')"
  shows "\<exists>tbl'. handle_ext_msg junk junk' node tbl ((src, build_response action tid k v) # rest) =
      Inr (tbl', rest, [(src, build_response action' tid k' v')]) \<and>
    ht_map tbl' = m' \<and> ht_wf hash16 tbl' \<and> small_values tbl' \<and> length v' < 2 ^ 16"
  using ext_in_range_step [OF assms] by metis

theorem ext_request_refines_map_witness:
  "\<exists>tbl'. handle_ext_msg (\<lambda>_. 0) (\<lambda>_. 0) (init_node \<lparr>sin_addr = 1, sin_port = 1, srv_id = 0\<rparr>)
      ht_create [((9, 9), build_response 6 77 [97] [98])] =
    Inr (tbl', [], [((9, 9), build_response 14 77 [97] [98])]) \<and> ht_map tbl' = [[97] \<mapsto> [98]]"
proof -
  have spec: "spec_request 6 [97] [98] (ht_map ht_create) = ([[97] \<mapsto> [98]], 14, [97], [98])"
    by (simp add: spec_request_def Let_def ht_map_create)
  have "small_values ht_create"
    by (simp add: small_values_def ht_map_create)
  moreover have "is_key_in_range (init_node \<lparr>sin_addr = 1, sin_port = 1, srv_id = 0\<rparr>) [97]"
    by (simp add: is_key_in_range_def init_node_def)
  moreover have "ht_room (Suc 0) ht_create"
    by (rule ht_room_create) simp
  ultimately show ?thesis
    using ext_request_refines_map [OF ht_wf_create _ _ _ _ _ spec, of 0 _ "\<lambda>_. 0" "\<lambda>_. 0" "(9, 9)" 77 "[]"]
    by fastforce
qed

text \<open>
  C8: an external datagram of fewer than six bytes is only peeked at: \<open>handle_ext_msg\<close> returns
  and leaves it at the head of the queue, so every later round of the loop finds it again. The
  server neither answers nor reaches any datagram behind it, however long it runs.
\<close>

theorem short_datagram_blocks_server:
  assumes "srv_inbox s = (src, d) # rest" and "length d < EXT_HEADER_LEN"
    and "d = [] \<or> \<not> bit (d ! 0) 7"
  shows "main_loop junk junk' n s = Inr s"
proof -
  have "internal_mask AND (d @ [0]) ! 0 = 0"
  proof (cases d)
    case (Cons x xs)
    then have "\<not> bit x 7" using assms(3) by simp
    then show ?thesis
      using and_exp_eq_0_iff_not_bit [of x 7]
      by (simp add: Cons internal_mask_def and.commute)
  qed simp
  then have "handle_msg j j' s = Inr s" for j j'
    using assms(1,2) by (simp add: handle_msg_def handle_ext_msg_def)
  then show ?thesis by (induction n) auto
qed

theorem short_datagram_blocks_server_witness:
  "main_loop (\<lambda>_ _. 0) (\<lambda>_ _. 0) 1000
     (start_server \<lparr>sin_addr = 1, sin_port = 1, srv_id = 0\<rparr>
        [((9, 9), [4, 0]), ((9, 9), build_response 4 0 [97] [])]) =
   Inr (start_server \<lparr>sin_addr = 1, sin_port = 1, srv_id = 0\<rparr>
        [((9, 9), [4, 0]), ((9, 9), build_response 4 0 [97] [])])"
  by (rule short_datagram_blocks_server [of _ "(9, 9)" "[4, 0]" "[((9, 9), build_response 4 0 [97] [])]"])
    (simp_all add: start_server_def EXT_HEADER_LEN_def bit_simps)

text \<open>
  C7: a request for a foreign key is sent unchanged to the successor; the datagram relayed to the
  client has the length of the \<^emph>\<open>request\<close>, not of the answer. A get (no value in the request)
  loses the value: the client receives the header, which announces it, and the key only. The
  six-byte acknowledgement of a set is padded with uninitialised memory of the server.
\<close>

theorem forward_uses_request_length:
  assumes "length k < 2 ^ 16" and "length v < 2 ^ 16" and "\<not> is_key_in_range node k"
    and "node_next node = Some nxt" and "\<not> bit reply_action 7"
  shows "handle_ext_msg junk junk' node tbl
      [(src, build_response action tid k v), (peer, build_response reply_action tid k' v')] =
    Inr (tbl, [], [(address nxt, build_response action tid k v),
      (src, fill_buf junk' (EXT_HEADER_LEN + length k + length v) (build_response reply_action tid k' v'))]) \<and>
   (k' = k \<and> v = [] \<longrightarrow>
      fill_buf junk' (EXT_HEADER_LEN + length k + length v) (build_response reply_action tid k' v') =
        take (EXT_HEADER_LEN + length k) (build_response reply_action tid k' v')) \<and>
   (k' = [] \<and> v' = [] \<longrightarrow>
      fill_buf junk' (EXT_HEADER_LEN + length k + length v) (build_response reply_action tid k' v') =
        build_response reply_action tid [] [] @
          map junk' [EXT_HEADER_LEN..<EXT_HEADER_LEN + length k + length v])"
proof -
  let ?r = "build_response reply_action tid k' v'"
  have "reply_action AND internal_mask = 0"
    using assms(5) and_exp_eq_0_iff_not_bit [of reply_action 7] by (simp add: internal_mask_def)
  then have "relay junk' (read_request junk (build_response action tid k v)) ?r =
      Inr (fill_buf junk' (EXT_HEADER_LEN + length k + length v) ?r)"
    using assms(1,2) by (simp add: relay_def Let_def nth_append EXT_HEADER_LEN_def)
  moreover have "fill_buf junk' (EXT_HEADER_LEN + length k) ?r = take (EXT_HEADER_LEN + length k) ?r"
    if "k' = k" using that by (intro fill_buf_long) simp
  moreover have "fill_buf junk' (EXT_HEADER_LEN + length k + length v) ?r =
      ?r @ map junk' [EXT_HEADER_LEN..<EXT_HEADER_LEN + length k + length v]"
    if "k' = [] \<and> v' = []"
    using that by (simp add: fill_buf_def)
  ultimately show ?thesis
    using assms by (simp add: handle_ext_msg_def)
qed

theorem forward_uses_request_length_witness:
  "\<exists>out. handle_ext_msg (\<lambda>_. 0) (\<lambda>_. 0)
      \<lparr>node_self = \<lparr>sin_addr = 1, sin_port = 1, srv_id = 0\<rparr>, node_prev = None,
        node_next = Some \<lparr>sin_addr = 2, sin_port = 1, srv_id = 0x0100\<rparr>\<rparr> ht_create
      [((9, 9), build_response 4 7 [97] []), ((2, 1), build_response 12 7 [97] [98, 99])] =
    Inr (ht_create, [], [out, ((9, 9), take 7 (build_response 12 7 [97] [98, 99]))])"
proof -
  let ?n = "\<lparr>node_self = \<lparr>sin_addr = 1, sin_port = 1, srv_id = 0\<rparr>, node_prev = None,
    node_next = Some \<lparr>sin_addr = 2, sin_port = 1, srv_id = 0x0100\<rparr>\<rparr>"
  have "\<not> is_key_in_range ?n [97]"
    by (simp add: is_key_in_range_def Let_def ntohs_def string_hash16_def)
  from forward_uses_request_length [of "[97]" "[]" ?n _ 12 "\<lambda>_. 0" "\<lambda>_. 0" ht_create "(9, 9)" 4 7
      "(2, 1)" "[97]" "[98, 99]", OF _ _ this]
  show ?thesis by (simp add: bit_simps EXT_HEADER_LEN_def)
qed

text \<open>
  C2: a server that is alone in its ring, started with an empty table, answers any sequence of
  client requests in order, each to its sender, with the replies a finite map would give, and
  never stops: as many rounds of its loop as there are requests consume all of them.
\<close>

theorem server_serves_requests:
  assumes "list_all request_ok rs" and "length rs < 2 ^ 58"
  shows "\<exists>s. main_loop junk junk' (length rs) (start_server self (map wire rs)) = Inr s \<and>
    srv_inbox s = [] \<and> srv_outbox s = snd (spec_run rs Map.empty) \<and>
    ht_map (srv_tbl s) = fst (spec_run rs Map.empty)"
  using main_loop_serves [of rs "start_server self (map wire rs)" junk junk'] assms
    ht_wf_create ht_room_create [OF assms(2)]
  by (fastforce simp: start_server_def init_node_def small_values_def ht_map_create)

theorem server_serves_requests_witness:
  "\<exists>s. main_loop (\<lambda>_ _. 0) (\<lambda>_ _. 0) 3
      (start_server \<lparr>sin_addr = 1, sin_port = 1, srv_id = 0\<rparr>
        [((8, 8), build_response 2 1 [97] [98]), ((9, 9), build_response 4 2 [97] []),
         ((9, 9), build_response 1 3 [99] [])]) = Inr s \<and>
    srv_outbox s =
      [((8, 8), build_response 10 1 [] []), ((9, 9), build_response 12 2 [97] [98]),
       ((9, 9), build_response 8 3 [] [])]"
proof -
  let ?rs = "[((8, 8), 2, 1, [97], [98]), ((9, 9), 4, 2, [97], []), ((9, 9), 1, 3, [99], [])]
    :: sockaddr client_request list"
  have "flip_bit 3 (unset_bit 2 (unset_bit 0 1)) = (8 :: byte)"
    by (simp add: flip_bit_eq_xor unset_bit_eq_and_not)
  then have "snd (spec_run ?rs Map.empty) = [((8, 8), build_response 10 1 [] []),
      ((9, 9), build_response 12 2 [97] [98]), ((9, 9), build_response 8 3 [] [])]"
    by (simp add: spec_request_def Let_def)
  moreover have "list_all request_ok ?rs" by (simp add: bit_simps)
  moreover have "length ?rs = 3" and "length ?rs < 2 ^ 58" by simp_all
  moreover have "map wire ?rs = [((8, 8), build_response 2 1 [97] [98]),
      ((9, 9), build_response 4 2 [97] []), ((9, 9), build_response 1 3 [99] [])]" by simp
  ultimately show ?thesis
    using server_serves_requests [of ?rs] by metis
qed

end
