(* ===== verification/Udp_Client.thy ===== *)
theory Udp_Client
  imports Dht_Ext "HOL-Library.Signed_Division"
begin

text \<open>
  The UDP client of \<open>Hash Table/client.c\<close> and \<open>Simple Hash Table Client Server/client.c\<close>,
  and the time differences the clients of the repository print. A C string is the list of its
  characters before the NUL byte.
\<close>

section \<open>The client\<close>

text \<open>
  The datagram \<open>send_msg\<close> hands to \<open>sendto\<close> and the global \<open>transaction_id\<close> afterwards. The
  lengths are \<open>uint16_t\<close>; only so many bytes of key and value are copied.
\<close>

definition send_msg :: "byte \<Rightarrow> byte \<Rightarrow> byte list \<Rightarrow> byte list \<Rightarrow> byte list \<times> byte" where
  "send_msg transaction_id action k v =
     (let key_len = of_nat (length k) :: u16;
          val_len = of_nat (length v) :: u16
      in ([0 OR action, transaction_id] @ put16 key_len @ put16 val_len
            @ take (unat key_len) k @ take (unat val_len) v,
          transaction_id + 1))"

record printed =
  prt_action :: byte
  prt_tid :: byte
  prt_key :: "byte list"
  prt_val :: "byte list"

text \<open>
  What \<open>recv_msg\<close> prints for the datagram \<open>d\<close>; the reallocated buffer starts as junk. The key and
  the value are copied to zeroed buffers one byte longer and printed with \<open>%s\<close>, which stops at
  the first NUL.
\<close>

definition printf_s :: "byte list \<Rightarrow> byte list" where
  "printf_s s = takeWhile (\<lambda>c. c \<noteq> 0) s"

definition recv_msg :: "(nat \<Rightarrow> byte) \<Rightarrow> byte list \<Rightarrow> printed" where
  "recv_msg junk d =
     (let header = take 6 d @ replicate (6 - length d) 0;
          key_len = unat (get16 header 2);
          val_len = unat (get16 header 4);
          msg = fill_buf junk (6 + key_len + val_len) (d @ replicate (6 - length d) 0)
      in \<lparr>prt_action = msg ! 0, prt_tid = msg ! 1,
          prt_key = printf_s (take key_len (drop 6 msg)),
          prt_val = printf_s (take val_len (drop (6 + key_len) msg))\<rparr>)"

definition request_action :: "string \<Rightarrow> byte" where
  "request_action action =
     (if action = ''del'' then delete_mask else if action = ''get'' then get_mask else set_mask)"

text \<open>\<open>main\<close>: the request sent first, with transaction id 0.\<close>

definition client_main :: "string \<Rightarrow> byte list \<Rightarrow> byte list \<Rightarrow> byte list" where
  "client_main action k v = fst (send_msg 0 (request_action action) k v)"

section \<open>Time differences\<close>

text \<open>\<open>struct timespec\<close>; C divides towards zero. The values stay far from the bounds of \<open>long\<close>.\<close>

record timespec =
  tv_sec :: int
  tv_nsec :: int

text \<open>\<open>timediff\<close> of the hash table client, documented to return nanoseconds.\<close>

definition timediff_ns :: "timespec \<Rightarrow> timespec \<Rightarrow> int" where
  "timediff_ns start stop =
     (let sec_diff = tv_sec stop - tv_sec start;
          nsec_diff = tv_nsec stop - tv_nsec start
      in sec_diff sdiv 1000000000 + nsec_diff)"

text \<open>\<open>timediff\<close> of \<open>ex6_stream.c\<close> and \<open>ex6_dgram.c\<close>, documented to return milliseconds.\<close>

definition timediff_ms :: "timespec \<Rightarrow> timespec \<Rightarrow> int" where
  "timediff_ms start stop =
     (let sec_diff = tv_sec stop - tv_sec start;
          nsec_diff = tv_nsec stop - tv_nsec start
      in 1000 * sec_diff + nsec_diff sdiv 1000000)"

definition elapsed_ns :: "timespec \<Rightarrow> timespec \<Rightarrow> int" where
  "elapsed_ns start stop = 1000000000 * (tv_sec stop - tv_sec start) + (tv_nsec stop - tv_nsec start)"

definition timespec_ok :: "timespec \<Rightarrow> bool" where
  "timespec_ok t \<longleftrightarrow> 0 \<le> tv_nsec t \<and> tv_nsec t < 1000000000"

section \<open>Lemmas\<close>

lemma send_msg_build:
  assumes "length k < 2 ^ 16" and "length v < 2 ^ 16"
  shows "send_msg tid action k v = (build_response action tid k v, tid + 1)"
  using assms by (simp add: send_msg_def build_response_def Let_def)

lemma recv_msg_build:
  assumes "length k < 2 ^ 16" and "length v < 2 ^ 16"
  shows "recv_msg junk (build_response action tid k v) =
    \<lparr>prt_action = action, prt_tid = tid, prt_key = printf_s k, prt_val = printf_s v\<rparr>"
proof -
  let ?d = "build_response action tid k v"
  have "take 6 ?d @ replicate (6 - length ?d) 0 = take 6 ?d" "6 - length ?d = 0"
    by (simp_all add: EXT_HEADER_LEN_def)
  moreover have "get16 (take 6 ?d) 2 = of_nat (length k)" "get16 (take 6 ?d) 4 = of_nat (length v)"
    using build_response_lens0 [of action tid k v] by (simp_all add: get16_def)
  moreover have "drop 6 ?d = k @ v"
    by (simp add: build_response_def put16_def mem16_def numeral_eq_Suc)
  moreover have "drop (6 + length k) ?d = v"
    using build_response_key(2) [of k action tid v] by (simp only: EXT_HEADER_LEN_def)
  moreover have "length ?d = 6 + length k + length v" by (simp add: EXT_HEADER_LEN_def)
  ultimately show ?thesis
    using assms by (simp add: recv_msg_def Let_def del: drop_drop)
qed

lemma sdiv_small: "\<bar>a :: int\<bar> < b \<Longrightarrow> a sdiv b = 0"
  by (auto simp: signed_divide_int_def sgn_if)

section \<open>Properties\<close>

text \<open>
  C9: one exchange of the client with a server alone in its ring. The server answers the client's
  request with a datagram from which \<open>recv_msg\<close> prints exactly the action byte, transaction id,
  key and value that the finite map specification gives for the request, the key and the value up
  to their first NUL byte. They are printed whole exactly if they contain none.
\<close>

theorem client_prints_reply:
  assumes "ht_wf hash16 (srv_tbl s)" and "ht_room 1 (srv_tbl s)" and "small_values (srv_tbl s)"
    and "node_next (srv_node s) = None" and "length k < 2 ^ 16" and "length v < 2 ^ 16"
    and "srv_inbox s = [(client, client_main action k v)]"
    and "spec_request (request_action action) k v (ht_map (srv_tbl s)) = (m', action', k', v')"
  shows "\<exists>s' reply. handle_msg junk junk' s = Inr s' \<and>
    srv_outbox s' = srv_outbox s @ [(client, reply)] \<and> ht_map (srv_tbl s') = m' \<and>
    recv_msg junk'' reply = \<lparr>prt_action = action', prt_tid = 0,
      prt_key = takeWhile (\<lambda>c. c \<noteq> 0) k', prt_val = takeWhile (\<lambda>c. c \<noteq> 0) v'\<rparr> \<and>
    (prt_val (recv_msg junk'' reply) = v' \<longleftrightarrow> 0 \<notin> set v')"
proof -
  have d: "client_main action k v = build_response (request_action action) 0 k v"
    using assms(5,6) by (simp add: client_main_def send_msg_build)
  have ext: "internal_mask AND request_action action = 0"
    by (simp add: request_action_def internal_mask_def ext_mask_defs)
  have range: "is_key_in_range (srv_node s) k"
    using assms(4) by (simp add: is_key_in_range_def)
  have room: "ht_room (Suc 0) (srv_tbl s)" using assms(2) by simp
  obtain tbl where tbl: "handle_ext_msg junk junk' (srv_node s) (srv_tbl s)
      [(client, build_response (request_action action) 0 k v)] =
      Inr (tbl, [], [(client, build_response action' 0 k' v')])"
      "ht_map tbl = m'" "length v' < 2 ^ 16"
    by (rule ext_in_range_step [OF assms(1) room assms(3,5,6) range assms(8)])
  have "length k' < 2 ^ 16"
    using assms(5,8) by (auto simp: spec_request_def Let_def split: if_splits)
  then have "recv_msg junk'' (build_response action' 0 k' v') =
      \<lparr>prt_action = action', prt_tid = 0,
        prt_key = takeWhile (\<lambda>c. c \<noteq> 0) k', prt_val = takeWhile (\<lambda>c. c \<noteq> 0) v'\<rparr>"
    unfolding printf_s_def [symmetric] using tbl(3) by (rule recv_msg_build)
  moreover have "takeWhile (\<lambda>c. c \<noteq> 0) v' = v' \<longleftrightarrow> 0 \<notin> set v'"
    by (metis (mono_tags, lifting) takeWhile_eq_all_conv)
  moreover have "handle_msg junk junk' s = Inr (s\<lparr>srv_tbl := tbl, srv_inbox := [],
      srv_outbox := srv_outbox s @ [(client, build_response action' 0 k' v')]\<rparr>)"
    using tbl(1) ext assms(7) d by (simp add: handle_msg_def nth_append)
  ultimately show ?thesis using tbl(2) by auto
qed

theorem client_prints_reply_witness:
  "\<exists>s' reply. handle_msg (\<lambda>_. 0) (\<lambda>_. 0)
      (start_server \<lparr>sin_addr = 1, sin_port = 1, srv_id = 0\<rparr> [((9, 9), client_main ''get'' [97] [])])
      = Inr s' \<and> srv_outbox s' = [((9, 9), reply)] \<and>
    recv_msg (\<lambda>_. 0) reply = \<lparr>prt_action = 8, prt_tid = 0, prt_key = [], prt_val = []\<rparr>"
proof -
  let ?s = "start_server \<lparr>sin_addr = 1, sin_port = 1, srv_id = 0\<rparr> [((9, 9), client_main ''get'' [97] [])]"
  have "flip_bit 3 (unset_bit 2 (unset_bit 0 4)) = (8 :: byte)"
    by (simp add: flip_bit_eq_xor unset_bit_eq_and_not)
  then have spec: "spec_request (request_action ''get'') [97] [] (ht_map (srv_tbl ?s)) =
      (Map.empty, 8, [], [])"
    by (simp add: spec_request_def start_server_def ht_map_create request_action_def get_mask_def Let_def)
  have "ht_wf hash16 (srv_tbl ?s)" "small_values (srv_tbl ?s)" "node_next (srv_node ?s) = None"
    "ht_room 1 (srv_tbl ?s)"
    by (simp_all add: start_server_def ht_wf_create small_values_def ht_map_create init_node_def
        ht_room_create)
  then show ?thesis
    using client_prints_reply [of ?s "[97]" "[]" "(9, 9)" "''get''" Map.empty 8 "[]" "[]"
        "\<lambda>_. 0" "\<lambda>_. 0" "\<lambda>_. 0"] spec
    by (fastforce simp: start_server_def)
qed

text \<open>
  The nanosecond \<open>timediff\<close> divides the seconds by \<open>10 ^ 9\<close> where it should multiply: for
  any request shorter than thirty years it returns the difference of the nanosecond fields
  alone, so it is right only within one second of the clock and negative whenever the fraction
  wraps. The millisecond version of the datagram exercise is right up to rounding.
\<close>

theorem timediff_units:
  assumes "timespec_ok start" and "timespec_ok stop"
    and "\<bar>tv_sec stop - tv_sec start\<bar> < 1000000000"
  shows "timediff_ns start stop = tv_nsec stop - tv_nsec start \<and>
    (timediff_ns start stop = elapsed_ns start stop \<longleftrightarrow> tv_sec stop = tv_sec start) \<and>
    \<bar>1000000 * timediff_ms start stop - elapsed_ns start stop\<bar> < 1000000"
proof -
  have ns: "timediff_ns start stop = tv_nsec stop - tv_nsec start"
    using assms(3) by (simp add: timediff_ns_def Let_def sdiv_small)
  have "\<bar>1000000 * (d sdiv 1000000) - d\<bar> < 1000000" for d :: int
    by (cases "0 \<le> d") (auto simp: signed_divide_int_def sgn_if; presburger)+
  from this [of "tv_nsec stop - tv_nsec start"]
  have "\<bar>1000000 * timediff_ms start stop - elapsed_ns start stop\<bar> < 1000000"
    by (simp add: timediff_ms_def elapsed_ns_def Let_def algebra_simps)
  with ns show ?thesis by (auto simp: elapsed_ns_def)
qed

theorem timediff_units_witness:
  "timediff_ns \<lparr>tv_sec = 5, tv_nsec = 900000000\<rparr> \<lparr>tv_sec = 6, tv_nsec = 100000000\<rparr> = -800000000"
  using timediff_units [of "\<lparr>tv_sec = 5, tv_nsec = 900000000\<rparr>" "\<lparr>tv_sec = 6, tv_nsec = 100000000\<rparr>"]
  by (simp add: timespec_ok_def)

end
