(* ===== verification/Movie_Client.thy ===== *)
theory Movie_Client
  imports Tcp_Server
begin

text \<open>
  The film client of \<open>Movie Parser/client.c\<close>: remote calls on the TCP hash table with
  at-least-once semantics. \<open>build_request\<close> marshals the five fields of a film,
  \<open>perform_action\<close> sends a request up to five times, each time on a new connection, until the
  acknowledgement contains the wanted action bit, and unmarshals the reply. The network and the
  server are one step function of a state, an argument of the model. The second part is the
  marshaller of \<open>client_malte.c\<close>, which takes its fields from a line of semicolons.
\<close>

section \<open>Data\<close>

definition RETRIES :: nat where "RETRIES = 5"
definition N_FIELDS :: nat where "N_FIELDS = 5"
definition HEADER_LEN :: nat where "HEADER_LEN = 6"
definition MAX_FILMS :: nat where "MAX_FILMS = 1000"
definition N_FILMS :: nat where "N_FILMS = 25"

definition DEL :: byte where "DEL = 1"
definition SET :: byte where "SET = 2"
definition GET :: byte where "GET = 4"

text \<open>\<open>MAX_LEN\<close> is \<open>1 << 16\<close> without parentheses, so this is \<open>(6 + 2 * 1) << 16\<close>.\<close>

definition MAX_REQUEST_LEN :: nat where "MAX_REQUEST_LEN = (6 + 2 * 1) * 2 ^ 16"

record film =
  film_title :: "byte list"
  film_fields :: "byte list list"

section \<open>Marshalling\<close>

text \<open>
  The loop over the fields: \<open>field_len\<close> is an \<open>int\<close>, its low 16 bits are sent, all the bytes
  are copied, and \<open>value_len\<close> wraps modulo \<open>2 ^ 16\<close>; writing at a wrapped offset overwrites.
  The accumulator is what has been written behind the key.
\<close>

definition write_at :: "nat \<Rightarrow> byte list \<Rightarrow> byte list \<Rightarrow> byte list" where
  "write_at i bs buf =
     take i (buf @ replicate (i - length buf) 0) @ bs @ drop (i + length bs) buf"

fun marshal_fields :: "byte list list \<Rightarrow> u16 \<Rightarrow> byte list \<Rightarrow> u16 \<times> byte list" where
  "marshal_fields [] value_len buf = (value_len, buf)"
| "marshal_fields (v # vs) value_len buf =
     (let buf = write_at (unat value_len) (put16 (of_nat (length v))) buf;
          value_len = value_len + 2;
          buf = write_at (unat value_len) v buf;
          value_len = value_len + of_nat (length v)
      in marshal_fields vs value_len buf)"

text \<open>The request and its length; the buffer is zeroed and longer than any request.\<close>

definition build_request :: "byte \<Rightarrow> byte \<Rightarrow> byte list \<Rightarrow> byte list list option \<Rightarrow> byte list" where
  "build_request transaction_id action key val =
     (let key_len = of_nat (length key) :: u16;
          header = [action, transaction_id] @ put16 key_len
      in case val of
           None \<Rightarrow> header @ put16 0 @ take (unat key_len) key
         | Some fs \<Rightarrow>
             (let (value_len, buf) = marshal_fields (take N_FIELDS fs) 0 []
              in header @ put16 value_len @ take (unat key_len) key @ take (unat value_len) buf))"

text \<open>
  The unmarshalling loop of \<open>perform_action\<close>: \<open>n\<close> fields from the value buffer. Reading past the
  end of the buffer has no defined behaviour.
\<close>

fun unmarshal_fields :: "nat \<Rightarrow> byte list \<Rightarrow> fault + byte list list" where
  "unmarshal_fields 0 buf = Inr []"
| "unmarshal_fields (Suc n) buf =
     (if length buf < 2 then Inl Undefined
      else let field_len = unat (get16 buf 0); cur_val = drop 2 buf
           in if length cur_val < field_len then Inl Undefined
              else bind_res (unmarshal_fields n (drop field_len cur_val)) (\<lambda>fs.
                   Inr (take field_len cur_val # fs)))"

section \<open>Remote calls\<close>

text \<open>
  What an attempt can meet: \<open>connect\<close> or \<open>send\<close> fails, or the server's answer can be received.
\<close>

datatype attempt = ConnectFailed | SendFailed | Answer connection

text \<open>
  One pass of the retry loop after the answer arrived: \<open>None\<close> means \<open>goto retry\<close>. The header
  buffer is not initialised: \<open>junk\<close> stands behind a short header, and the buffers of key and value
  are zeroed by \<open>calloc\<close>.
\<close>

definition read_answer ::
  "(nat \<Rightarrow> byte) \<Rightarrow> byte \<Rightarrow> connection \<Rightarrow> fault + film option option" where
  "read_answer junk action c =
     (case recv_waitall HEADER_LEN c of
        None \<Rightarrow> Inr None
      | Some (d, c) \<Rightarrow>
          let msg_buffer = fill_buf junk HEADER_LEN d
          in if msg_buffer ! 0 AND action = 0 then Inr None
             else
               let key_len = unat (get16 msg_buffer 2); val_len = unat (get16 msg_buffer 4)
               in case recv_waitall key_len c of
                    None \<Rightarrow> Inr None
                  | Some (kd, c) \<Rightarrow>
                      (case recv_waitall val_len c of
                         None \<Rightarrow> Inr None
                       | Some (vd, c) \<Rightarrow>
                           let key_buffer = fill_buf (\<lambda>_. 0) key_len kd;
                               val_buffer = fill_buf (\<lambda>_. 0) val_len vd
                           in if action AND GET \<noteq> 0 \<and> 0 < val_len then
                                bind_res (unmarshal_fields N_FIELDS val_buffer) (\<lambda>fs.
                                Inr (Some (Some \<lparr>film_title = key_buffer, film_fields = fs\<rparr>)))
                              else Inr (Some None)))"

text \<open>
  The retry loop with \<open>n\<close> attempts left: the status and the film, with the state of the network.
\<close>

type_synonym 's network_step = "'s \<Rightarrow> byte list \<Rightarrow> 's \<times> attempt"

fun retry_loop ::
  "'s network_step \<Rightarrow> (nat \<Rightarrow> byte) \<Rightarrow> byte \<Rightarrow> byte list \<Rightarrow> nat \<Rightarrow> 's
     \<Rightarrow> fault + 's \<times> int \<times> film option" where
  "retry_loop net junk action request 0 s = Inr (s, -1, None)"
| "retry_loop net junk action request (Suc n) s =
     (case net s request of
        (s, Answer c) \<Rightarrow>
          bind_res (read_answer junk action c) (\<lambda>r.
          case r of
            None \<Rightarrow> retry_loop net junk action request n s
          | Some f \<Rightarrow> Inr (s, 0, f))
      | (s, _) \<Rightarrow> retry_loop net junk action request n s)"

text \<open>The client's state is its transaction id, incremented only when all attempts failed.\<close>

definition perform_action ::
  "'s network_step \<Rightarrow> (nat \<Rightarrow> byte) \<Rightarrow> byte \<Rightarrow> byte list \<Rightarrow> byte list list option
     \<Rightarrow> byte \<times> 's \<Rightarrow> fault + (byte \<times> 's) \<times> int \<times> film option" where
  "perform_action net junk action key val = (\<lambda>(tid, s).
     bind_res (assert_c (action AND SET \<noteq> 0 \<longrightarrow> val \<noteq> None)) (\<lambda>_.
     bind_res (retry_loop net junk action (build_request tid action key val) RETRIES s)
       (\<lambda>(s, status, f).
     Inr ((if status = -1 then tid + 1 else tid, s), status, f))))"

definition ht_get ::
  "'s network_step \<Rightarrow> (nat \<Rightarrow> byte) \<Rightarrow> byte list \<Rightarrow> byte \<times> 's \<Rightarrow> fault + (byte \<times> 's) \<times> int \<times> film option"
  where
  "ht_get net junk key st =
     bind_res (perform_action net junk GET key None st) (\<lambda>(st, status, f).
     bind_res (assert_c (status < 0 \<longrightarrow> f = None)) (\<lambda>_.
     Inr (st, status, f)))"

definition ht_set ::
  "'s network_step \<Rightarrow> (nat \<Rightarrow> byte) \<Rightarrow> byte list \<Rightarrow> byte list list \<Rightarrow> byte \<times> 's
     \<Rightarrow> fault + (byte \<times> 's) \<times> int" where
  "ht_set net junk key val st =
     bind_res (perform_action net junk SET key (Some val) st) (\<lambda>(st, status, f).
     bind_res (assert_c (f = None)) (\<lambda>_.
     Inr (st, status)))"

definition ht_delete ::
  "'s network_step \<Rightarrow> (nat \<Rightarrow> byte) \<Rightarrow> byte list \<Rightarrow> byte \<times> 's \<Rightarrow> fault + (byte \<times> 's) \<times> int" where
  "ht_delete net junk key st =
     bind_res (perform_action net junk DEL key None st) (\<lambda>(st, status, f).
     bind_res (assert_c (f = None)) (\<lambda>_.
     Inr (st, status)))"

text \<open>The four calls \<open>main\<close> makes for one film, with the statuses and the films it prints.\<close>

definition exercise_film ::
  "'s network_step \<Rightarrow> (nat \<Rightarrow> byte) \<Rightarrow> film \<Rightarrow> byte \<times> 's
     \<Rightarrow> fault + (byte \<times> 's) \<times> int \<times> (int \<times> film option) \<times> int \<times> (int \<times> film option)" where
  "exercise_film net junk f st =
     bind_res (ht_set net junk (film_title f) (film_fields f) st) (\<lambda>(st, status1).
     bind_res (ht_get net junk (film_title f) st) (\<lambda>(st, remote1).
     bind_res (ht_delete net junk (film_title f) st) (\<lambda>(st, status2).
     bind_res (ht_get net junk (film_title f) st) (\<lambda>(st, remote2).
     Inr (st, status1, remote1, status2, remote2)))))"

section \<open>Marshalling round-trips\<close>

definition field_bytes :: "byte list \<Rightarrow> byte list" where
  "field_bytes v = put16 (of_nat (length v)) @ v"

definition value_bytes :: "byte list list \<Rightarrow> byte list" where
  "value_bytes fs = concat (map field_bytes fs)"

lemma length_field_bytes [simp]: "length (field_bytes v) = 2 + length v"
  by (simp add: field_bytes_def)

lemma value_bytes_simps [simp]:
  "value_bytes [] = []" "value_bytes (v # vs) = field_bytes v @ value_bytes vs"
  by (simp_all add: value_bytes_def)

lemma write_at_end [simp]: "i = length buf \<Longrightarrow> write_at i bs buf = buf @ bs"
  by (simp add: write_at_def)

lemma unat_add_of_nat:
  "unat (w :: u16) + n < 2 ^ 16 \<Longrightarrow> unat (w + of_nat n) = unat w + n"
  by (simp add: unat_word_ariths unat_of_nat)

lemma marshal_fields_eq:
  "unat value_len = length buf \<Longrightarrow> length (buf @ value_bytes fs) < 2 ^ 16 \<Longrightarrow>
    marshal_fields fs value_len buf = (of_nat (length (buf @ value_bytes fs)), buf @ value_bytes fs)"
proof (induction fs arbitrary: value_len buf)
  case Nil
  have "of_nat (unat value_len) = value_len" by simp
  with Nil show ?case by simp
next
  case (Cons v vs)
  have len: "length buf + 2 + length v + length (value_bytes vs) < 2 ^ 16"
    using Cons.prems(2) by simp
  have two: "unat (value_len + 2) = length buf + 2"
    using unat_add_of_nat [of value_len 2] Cons.prems(1) len by simp
  have off: "unat (value_len + 2 + of_nat (length v)) = length (buf @ field_bytes v)"
    using unat_add_of_nat [of "value_len + 2" "length v"] two len by simp
  have "marshal_fields (v # vs) value_len buf =
      marshal_fields vs (value_len + 2 + of_nat (length v)) (buf @ field_bytes v)"
    using two Cons.prems(1) by (simp add: Let_def field_bytes_def)
  with Cons.IH [OF off] len show ?case by simp
qed

lemma build_request_value:
  assumes "length key < 2 ^ 16" and "length fs = N_FIELDS" and "length (value_bytes fs) < 2 ^ 16"
  shows "build_request tid action key (Some fs) = build_response action tid key (value_bytes fs)"
  using marshal_fields_eq [of 0 "[]" fs] assms
  by (simp add: build_request_def build_response_def Let_def)

lemma build_request_no_value:
  assumes "length key < 2 ^ 16"
  shows "build_request tid action key None = build_response action tid key []"
  using assms by (simp add: build_request_def build_response_def Let_def)

lemma get16_field [simp]: "get16 (field_bytes v @ xs) 0 = of_nat (length v)"
  using get16_put16 [of "[]" 0 "of_nat (length v)" "v @ xs"] by (simp add: field_bytes_def)

lemma drop_field [simp]: "drop 2 (field_bytes v @ xs) = v @ xs" "drop 2 (field_bytes v) = v"
  by (simp_all add: field_bytes_def)

lemma unmarshal_value_bytes:
  "length (value_bytes fs) < 2 ^ 16 \<Longrightarrow> unmarshal_fields (length fs) (value_bytes fs @ rest) = Inr fs"
  by (induction fs) (simp_all add: Let_def)

section \<open>The server behind a lossy network\<close>

text \<open>
  The TCP server as the other end of every connection. \<open>plan\<close> says which of the next answers
  are lost: the server has processed the request, the client's \<open>recv\<close> times out.
\<close>

fun lossy_net ::
  "(nat \<Rightarrow> byte) \<Rightarrow> (nat \<Rightarrow> byte) \<Rightarrow> (bool list \<times> hash_table) network_step" where
  "lossy_net kjunk vjunk (plan, tbl) request =
     (let (tbl, response) = serve kjunk vjunk (Some \<lparr>conn_data = request, conn_fails = False\<rparr>) tbl;
          lost = (plan \<noteq> [] \<and> hd plan)
      in ((tl plan, tbl),
          Answer (if lost then \<lparr>conn_data = [], conn_fails = True\<rparr>
                  else \<lparr>conn_data = (case response of None \<Rightarrow> [] | Some d \<Rightarrow> d), conn_fails = False\<rparr>)))"

declare lossy_net.simps [simp del]

definition lost :: "bool list \<Rightarrow> nat \<Rightarrow> bool" where
  "lost plan i \<longleftrightarrow> i < length plan \<and> plan ! i"

lemma lost_0 [simp]: "lost plan 0 \<longleftrightarrow> plan \<noteq> [] \<and> hd plan"
  by (cases plan) (auto simp: lost_def)

lemma lost_Suc [simp]: "lost plan (Suc i) \<longleftrightarrow> lost (tl plan) i"
  by (cases plan) (auto simp: lost_def)

lemma all_lost_Suc: "(\<forall>i < Suc n. lost plan i) \<longleftrightarrow> lost plan 0 \<and> (\<forall>i < n. lost (tl plan) i)"
  by (simp only: All_less_Suc2 lost_Suc)

lemma set_tl_subset: "set (tl xs) \<subseteq> set xs"
  by (cases xs) auto

lemma lost_mem: "lost plan i \<Longrightarrow> True \<in> set plan"
  by (auto simp: lost_def in_set_conv_nth)

lemma spec_actions:
  "spec_request SET k v m = (m(k \<mapsto> v), 10, [], [])"
  "spec_request DEL k [] m = (m(k := None), if k \<in> dom m then 9 else 8, [], [])"
  "spec_request GET k [] m =
     (m, if k \<in> dom m then 12 else 8, if k \<in> dom m then k else [], case m k of None \<Rightarrow> [] | Some w \<Rightarrow> w)"
  by (auto simp: spec_request_def SET_def DEL_def GET_def Let_def flip_bit_eq_xor unset_bit_eq_and_not
      split: option.splits)

lemma read_answer_lost [simp]:
  "read_answer junk action \<lparr>conn_data = [], conn_fails = True\<rparr> = Inr None"
  by (simp add: read_answer_def recv_waitall_def HEADER_LEN_def)

lemma read_answer_build:
  assumes "length k < 2 ^ 16" and "length v < 2 ^ 16"
  shows "read_answer junk action \<lparr>conn_data = build_response a t k v, conn_fails = False\<rparr> =
    (if a AND action = 0 then Inr None
     else if action AND GET \<noteq> 0 \<and> v \<noteq> [] then
       bind_res (unmarshal_fields N_FIELDS v) (\<lambda>fs.
       Inr (Some (Some \<lparr>film_title = k, film_fields = fs\<rparr>)))
     else Inr (Some None))"
proof -
  have h: "take HEADER_LEN (build_response a t k v) = header_of a t (length k) (length v)"
    "drop HEADER_LEN (build_response a t k v) = k @ v"
    using length_header_of [of a t "length k" "length v"]
    by (simp_all add: build_response_header EXT_HEADER_LEN_def HEADER_LEN_def)
  have l: "fill_buf junk HEADER_LEN (header_of a t n m) = header_of a t n m" for n m
    by (rule fill_buf_exact) (simp add: EXT_HEADER_LEN_def HEADER_LEN_def)
  show ?thesis
    using assms by (simp add: read_answer_def recv_waitall_def h l Let_def)
qed

lemma lossy_step:
  assumes "ht_wf hash64 tbl" and "ht_room (Suc n) tbl" and "k \<noteq> []"
    and "length k < 2 ^ 16" and "length v < 2 ^ 16"
    and "spec_request action k v (ht_map tbl) = (m', action', k', v')"
  obtains tbl' where "lossy_net kjunk vjunk (plan, tbl) (build_response action tid k v) =
      ((tl plan, tbl'),
       Answer (if lost plan 0 then \<lparr>conn_data = [], conn_fails = True\<rparr>
               else \<lparr>conn_data = build_response action' tid k' v', conn_fails = False\<rparr>))"
    and "ht_map tbl' = m'" and "ht_wf hash64 tbl'" and "ht_room n tbl'"
proof -
  obtain tbl' where t: "serve kjunk vjunk
      (Some \<lparr>conn_data = build_response action tid k v, conn_fails = False\<rparr>) tbl
      = (tbl', Some (build_response action' tid k' v'))"
    "ht_map tbl' = m'" "ht_wf hash64 tbl'" "ht_room n tbl'"
    by (rule serve_complete [OF assms])
  show thesis by (rule that [OF _ t(2-4)]) (simp add: t(1) lossy_net.simps Let_def)
qed

section \<open>The retry loop\<close>

text \<open>
  Attempts at a request that no longer changes the map: the first answer that is not lost
  decides, and it decides for all.
\<close>

lemma retry_stable:
  assumes req: "k \<noteq> []" "length k < 2 ^ 16" "length v < 2 ^ 16"
    and spec: "spec_request action k v m = (m, action', k', v')"
    and ans: "read_answer junk action
      \<lparr>conn_data = build_response action' tid k' v', conn_fails = False\<rparr> = Inr r"
  shows "ht_wf hash64 tbl \<Longrightarrow> ht_room (n + x) tbl \<Longrightarrow> ht_map tbl = m \<Longrightarrow>
    \<exists>plan' tbl'. retry_loop (lossy_net kjunk vjunk) junk action (build_response action tid k v) n (plan, tbl)
      = Inr ((plan', tbl'), if r = None \<or> (\<forall>i < n. lost plan i) then (-1, None) else (0, the r)) \<and>
    ht_map tbl' = m \<and> ht_wf hash64 tbl' \<and> ht_room x tbl' \<and> set plan' \<subseteq> set plan"
proof (induction n arbitrary: plan tbl)
  case (Suc n)
  have room: "ht_room (Suc (n + x)) tbl" using Suc.prems(2) by simp
  obtain t where t: "lossy_net kjunk vjunk (plan, tbl) (build_response action tid k v) =
      ((tl plan, t),
       Answer (if lost plan 0 then \<lparr>conn_data = [], conn_fails = True\<rparr>
               else \<lparr>conn_data = build_response action' tid k' v', conn_fails = False\<rparr>))"
    "ht_map t = m" "ht_wf hash64 t" "ht_room (n + x) t"
    by (rule lossy_step [OF Suc.prems(1) room req]) (use spec Suc.prems(3) in auto)
  note IH = Suc.IH [OF t(3,4,2), of "tl plan"]
  have x: "ht_room x t" using t(4) by (simp add: ht_room_def)
  show ?case
  proof (cases "lost plan 0 \<or> r = None")
    case True
    then have "retry_loop (lossy_net kjunk vjunk) junk action (build_response action tid k v) (Suc n) (plan, tbl)
      = retry_loop (lossy_net kjunk vjunk) junk action (build_response action tid k v) n (tl plan, t)"
      using ans t(1) by auto
    moreover have "(r = None \<or> (\<forall>i < Suc n. lost plan i)) = (r = None \<or> (\<forall>i < n. lost (tl plan) i))"
      using True by (auto simp only: all_lost_Suc)
    moreover have "set p \<subseteq> set (tl plan) \<Longrightarrow> set p \<subseteq> set plan" for p
      by (rule subset_trans [OF _ set_tl_subset])
    ultimately show ?thesis using IH by (simp only:) blast
  next
    case False
    then obtain f where f: "r = Some f" by auto
    have "retry_loop (lossy_net kjunk vjunk) junk action (build_response action tid k v) (Suc n) (plan, tbl)
      = Inr ((tl plan, t), 0, f)"
      using ans t(1) False f by auto
    moreover have "\<not> (r = None \<or> (\<forall>i < Suc n. lost plan i))"
      using False by (auto simp only: all_lost_Suc)
    ultimately show ?thesis using t x f set_tl_subset [of plan] by auto
  qed
qed simp

text \<open>The first attempt may change the map; the rest see the result.\<close>

lemma retry_first:
  assumes req: "k \<noteq> []" "length k < 2 ^ 16" "length v < 2 ^ 16"
    and wf: "ht_wf hash64 tbl" and room: "ht_room (Suc n + x) tbl"
    and spec: "spec_request action k v (ht_map tbl) = (m, a1, k1, v1)"
    and ans1: "read_answer junk action
      \<lparr>conn_data = build_response a1 tid k1 v1, conn_fails = False\<rparr> = Inr (Some f1)"
    and again: "spec_request action k v m = (m, a2, k2, v2)"
    and ans2: "read_answer junk action
      \<lparr>conn_data = build_response a2 tid k2 v2, conn_fails = False\<rparr> = Inr r"
  shows "\<exists>plan' tbl'. retry_loop (lossy_net kjunk vjunk) junk action (build_response action tid k v)
      (Suc n) (plan, tbl) = Inr ((plan', tbl'),
        if \<not> lost plan 0 then (0, f1)
        else if r = None \<or> (\<forall>i < n. lost (tl plan) i) then (-1, None) else (0, the r)) \<and>
    ht_map tbl' = m \<and> ht_wf hash64 tbl' \<and> ht_room x tbl' \<and> set plan' \<subseteq> set plan"
proof -
  have room': "ht_room (Suc (n + x)) tbl" using room by simp
  obtain t where t: "lossy_net kjunk vjunk (plan, tbl) (build_response action tid k v) =
      ((tl plan, t),
       Answer (if lost plan 0 then \<lparr>conn_data = [], conn_fails = True\<rparr>
               else \<lparr>conn_data = build_response a1 tid k1 v1, conn_fails = False\<rparr>))"
    "ht_map t = m" "ht_wf hash64 t" "ht_room (n + x) t"
    by (rule lossy_step [OF wf room' req spec])
  have x: "ht_room x t" using t(4) by (simp add: ht_room_def)
  show ?thesis
  proof (cases "lost plan 0")
    case True
    then have "retry_loop (lossy_net kjunk vjunk) junk action (build_response action tid k v) (Suc n) (plan, tbl)
      = retry_loop (lossy_net kjunk vjunk) junk action (build_response action tid k v) n (tl plan, t)"
      using t(1) by auto
    moreover have "set p \<subseteq> set (tl plan) \<Longrightarrow> set p \<subseteq> set plan" for p
      by (rule subset_trans [OF _ set_tl_subset])
    moreover note retry_stable [OF req again ans2 t(3,4,2), of kjunk vjunk "tl plan"]
    ultimately show ?thesis using True by (simp only: simp_thms if_False) blast
  next
    case False
    then have "retry_loop (lossy_net kjunk vjunk) junk action (build_response action tid k v) (Suc n) (plan, tbl)
      = Inr ((tl plan, t), 0, f1)"
      using t(1) ans1 by auto
    then show ?thesis
      using False t x set_tl_subset [of plan] by (simp only: simp_thms if_True) blast
  qed
qed

section \<open>Properties\<close>

text \<open>A film whose title and marshalled fields fit the 16-bit lengths of a request.\<close>

definition film_ok :: "film \<Rightarrow> bool" where
  "film_ok f \<longleftrightarrow> film_title f \<noteq> [] \<and> length (film_title f) < 2 ^ 16 \<and>
     length (film_fields f) = N_FIELDS \<and> length (value_bytes (film_fields f)) < 2 ^ 16"

lemma ht_set_result:
  assumes f: "film_ok f" and wf: "ht_wf hash64 tbl" and room: "ht_room (RETRIES + x) tbl"
  shows "\<exists>plan' tbl'. ht_set (lossy_net kjunk vjunk) junk (film_title f) (film_fields f) (tid, plan, tbl) =
      (if \<forall>i < RETRIES. lost plan i then Inr ((tid + 1, plan', tbl'), -1)
       else Inr ((tid, plan', tbl'), 0)) \<and>
    ht_map tbl' = (ht_map tbl)(film_title f \<mapsto> value_bytes (film_fields f)) \<and>
    ht_wf hash64 tbl' \<and> ht_room x tbl' \<and> set plan' \<subseteq> set plan"
proof -
  let ?k = "film_title f" and ?v = "value_bytes (film_fields f)"
  have k: "?k \<noteq> []" "length ?k < 2 ^ 16" "length ?v < 2 ^ 16" using f by (simp_all add: film_ok_def)
  have req: "build_request tid SET ?k (Some (film_fields f)) = build_response SET tid ?k ?v"
    using f by (simp add: film_ok_def build_request_value)
  have room': "ht_room (Suc 4 + x) tbl" using room by (simp add: RETRIES_def)
  have ans: "read_answer junk SET \<lparr>conn_data = build_response 10 tid [] [], conn_fails = False\<rparr> = Inr (Some None)"
    by (simp add: read_answer_build SET_def GET_def)
  have again: "spec_request SET ?k ?v ((ht_map tbl)(?k \<mapsto> ?v)) = ((ht_map tbl)(?k \<mapsto> ?v), 10, [], [])"
    by (simp add: spec_actions)
  obtain plan' tbl' where r: "retry_loop (lossy_net kjunk vjunk) junk SET (build_response SET tid ?k ?v) (Suc 4)
      (plan, tbl) = Inr ((plan', tbl'), if \<not> lost plan 0 then (0, None)
        else if Some None = (None :: film option option) \<or> (\<forall>i < 4. lost (tl plan) i) then (-1, None)
        else (0, the (Some None)))"
    "ht_map tbl' = (ht_map tbl)(?k \<mapsto> ?v)" "ht_wf hash64 tbl'" "ht_room x tbl'" "set plan' \<subseteq> set plan"
    using retry_first [OF k wf room' spec_actions(1) ans again ans, where kjunk = kjunk and vjunk = vjunk and plan = plan] by blast
  have five: "RETRIES = Suc 4" by (simp add: RETRIES_def)
  have r1: "retry_loop (lossy_net kjunk vjunk) junk SET (build_response SET tid ?k ?v) RETRIES (plan, tbl)
    = Inr ((plan', tbl'), if \<forall>i < RETRIES. lost plan i then (-1, None) else (0, None))"
    unfolding five r(1) all_lost_Suc by auto
  have "ht_set (lossy_net kjunk vjunk) junk ?k (film_fields f) (tid, plan, tbl) =
      (if \<forall>i < RETRIES. lost plan i then Inr ((tid + 1, plan', tbl'), -1)
       else Inr ((tid, plan', tbl'), 0))"
    unfolding ht_set_def perform_action_def prod.case req r1 by simp
  with r(2-5) show ?thesis by blast
qed

lemma ht_delete_result:
  assumes k: "k \<noteq> []" "length k < 2 ^ 16" and wf: "ht_wf hash64 tbl" and room: "ht_room (RETRIES + x) tbl"
    and mem: "k \<in> dom (ht_map tbl)"
  shows "\<exists>plan' tbl'. ht_delete (lossy_net kjunk vjunk) junk k (tid, plan, tbl) =
      (if lost plan 0 then Inr ((tid + 1, plan', tbl'), -1) else Inr ((tid, plan', tbl'), 0)) \<and>
    ht_map tbl' = (ht_map tbl)(k := None) \<and> ht_wf hash64 tbl' \<and> ht_room x tbl' \<and> set plan' \<subseteq> set plan"
proof -
  have five: "RETRIES = Suc 4" by (simp add: RETRIES_def)
  have room': "ht_room (Suc 4 + x) tbl" using room by (simp add: five)
  have v: "length ([] :: byte list) < 2 ^ 16" by simp
  have ans1: "read_answer junk DEL \<lparr>conn_data = build_response 9 tid [] [], conn_fails = False\<rparr> = Inr (Some None)"
    and ans2: "read_answer junk DEL \<lparr>conn_data = build_response 8 tid [] [], conn_fails = False\<rparr> = Inr None"
    by (simp_all add: read_answer_build DEL_def GET_def)
  have spec: "spec_request DEL k [] (ht_map tbl) = ((ht_map tbl)(k := None), 9, [], [])"
    and again: "spec_request DEL k [] ((ht_map tbl)(k := None)) = ((ht_map tbl)(k := None), 8, [], [])"
    using mem by (simp_all add: spec_actions)
  obtain plan' tbl' where r: "retry_loop (lossy_net kjunk vjunk) junk DEL (build_response DEL tid k []) (Suc 4)
      (plan, tbl) = Inr ((plan', tbl'), if \<not> lost plan 0 then (0, None)
        else if None = (None :: film option option) \<or> (\<forall>i < 4. lost (tl plan) i) then (-1, None)
        else (0, the None))"
    "ht_map tbl' = (ht_map tbl)(k := None)" "ht_wf hash64 tbl'" "ht_room x tbl'" "set plan' \<subseteq> set plan"
    using retry_first [OF k v wf room' spec ans1 again ans2, where kjunk = kjunk and vjunk = vjunk and plan = plan] by blast
  have "ht_delete (lossy_net kjunk vjunk) junk k (tid, plan, tbl) =
      (if lost plan 0 then Inr ((tid + 1, plan', tbl'), -1) else Inr ((tid, plan', tbl'), 0))"
    unfolding ht_delete_def perform_action_def prod.case build_request_no_value [OF k(2)] five r(1)
    by (simp add: DEL_def SET_def)
  with r(2-5) show ?thesis by blast
qed

lemma ht_get_result:
  assumes k: "k \<noteq> []" "length k < 2 ^ 16" and wf: "ht_wf hash64 tbl" and room: "ht_room (RETRIES + x) tbl"
    and val: "ht_map tbl k = map_option value_bytes fs"
    and fs: "\<forall>v. fs = Some v \<longrightarrow> length v = N_FIELDS \<and> length (value_bytes v) < 2 ^ 16"
  shows "\<exists>plan' tbl'. ht_get (lossy_net kjunk vjunk) junk k (tid, plan, tbl) =
      (if fs = None \<or> (\<forall>i < RETRIES. lost plan i) then Inr ((tid + 1, plan', tbl'), -1, None)
       else Inr ((tid, plan', tbl'), 0, Some \<lparr>film_title = k, film_fields = the fs\<rparr>)) \<and>
    ht_map tbl' = ht_map tbl \<and> ht_wf hash64 tbl' \<and> ht_room x tbl' \<and> set plan' \<subseteq> set plan"
proof -
  have v: "length ([] :: byte list) < 2 ^ 16" by simp
  obtain a' k' v' where spec: "spec_request GET k [] (ht_map tbl) = (ht_map tbl, a', k', v')"
    "a' = (if k \<in> dom (ht_map tbl) then 12 else 8)" "k' = (if k \<in> dom (ht_map tbl) then k else [])"
    "v' = (case ht_map tbl k of None \<Rightarrow> [] | Some w \<Rightarrow> w)"
    by (rule that [OF spec_actions(3) refl refl refl])
  let ?r = "map_option (\<lambda>v. Some \<lparr>film_title = k, film_fields = v\<rparr>) fs"
  have ans: "read_answer junk GET \<lparr>conn_data = build_response a' tid k' v', conn_fails = False\<rparr> = Inr ?r"
  proof (cases fs)
    case None
    then show ?thesis using val by (simp add: spec read_answer_build GET_def domIff)
  next
    case (Some u)
    then have u: "length u = N_FIELDS" "length (value_bytes u) < 2 ^ 16" using fs by auto
    then have "value_bytes u \<noteq> []" by (cases u) (auto simp: N_FIELDS_def field_bytes_def put16_def mem16_def)
    moreover have "unmarshal_fields N_FIELDS (value_bytes u) = Inr u"
      using unmarshal_value_bytes [OF u(2), of "[]"] u(1) by simp
    ultimately show ?thesis using val Some u k by (simp add: spec read_answer_build GET_def domIff)
  qed
  obtain plan' tbl' where r: "retry_loop (lossy_net kjunk vjunk) junk GET (build_response GET tid k []) RETRIES
      (plan, tbl) = Inr ((plan', tbl'), if ?r = None \<or> (\<forall>i < RETRIES. lost plan i) then (-1, None)
        else (0, the ?r))"
    "ht_map tbl' = ht_map tbl" "ht_wf hash64 tbl'" "ht_room x tbl'" "set plan' \<subseteq> set plan"
    using retry_stable [OF k v spec(1) ans wf room refl, where kjunk = kjunk and vjunk = vjunk and plan = plan] by blast
  have "ht_get (lossy_net kjunk vjunk) junk k (tid, plan, tbl) =
      (if fs = None \<or> (\<forall>i < RETRIES. lost plan i) then Inr ((tid + 1, plan', tbl'), -1, None)
       else Inr ((tid, plan', tbl'), 0, Some \<lparr>film_title = k, film_fields = the fs\<rparr>))"
    unfolding ht_get_def perform_action_def prod.case build_request_no_value [OF k(2)] r(1)
    by (cases fs) (simp_all add: GET_def SET_def)
  with r(2-5) show ?thesis by blast
qed

lemma get_stored_film:
  assumes f: "film_ok f" and tbl: "ht_wf hash64 tbl" "ht_room (Suc n) tbl"
    and v: "ht_map tbl (film_title f) = Some (value_bytes (film_fields f))"
  obtains tbl' d where "serve kjunk vjunk
      (Some \<lparr>conn_data = build_request tid GET (film_title f) None, conn_fails = False\<rparr>) tbl = (tbl', Some d)"
    and "read_answer junk GET \<lparr>conn_data = d, conn_fails = False\<rparr> = Inr (Some (Some f))"
proof -
  let ?k = "film_title f" and ?v = "value_bytes (film_fields f)"
  have k: "?k \<noteq> []" "length ?k < 2 ^ 16" and fs: "length (film_fields f) = N_FIELDS" "length ?v < 2 ^ 16"
    using f by (simp_all add: film_ok_def)
  have none: "length ([] :: byte list) < 2 ^ 16" by simp
  have spec: "spec_request GET ?k [] (ht_map tbl) = (ht_map tbl, 12, ?k, ?v)"
    using v by (simp add: spec_actions domIff)
  obtain tbl' where g: "serve kjunk vjunk (Some \<lparr>conn_data = build_response GET tid ?k [], conn_fails = False\<rparr>) tbl =
      (tbl', Some (build_response 12 tid ?k ?v))"
    by (rule serve_complete [OF tbl k none spec])
  have "?v \<noteq> []" using fs(1) by (cases "film_fields f") (auto simp: N_FIELDS_def field_bytes_def put16_def mem16_def)
  moreover have "unmarshal_fields N_FIELDS ?v = Inr (film_fields f)"
    using unmarshal_value_bytes [OF fs(2), of "[]"] fs(1) by simp
  ultimately have "read_answer junk GET \<lparr>conn_data = build_response 12 tid ?k ?v, conn_fails = False\<rparr> = Inr (Some (Some f))"
    using k fs(2) by (simp add: read_answer_build GET_def)
  then show thesis using that g by (simp add: build_request_no_value [OF k(2)])
qed

text \<open>
  C17: the request \<open>build_request\<close> makes of a film is a set request in the wire format of the
  server, shorter than its buffer, and the unmarshalling loop of \<open>perform_action\<close> recovers
  exactly the fields from its value, without reading past the end. The server stores that value
  under the title, and as long as the title has it, whatever happened to the other titles since,
  \<open>perform_action\<close> reads from the server's answer to a get exactly the film.
\<close>

theorem film_marshalling_roundtrip:
  assumes "film_ok f" and "ht_wf hash64 tbl" and "ht_room 2 tbl"
  shows "\<exists>v tbl1. build_request tid SET (film_title f) (Some (film_fields f)) =
      build_response SET tid (film_title f) v \<and>
    length (build_request tid SET (film_title f) (Some (film_fields f))) < MAX_REQUEST_LEN \<and>
    unmarshal_fields N_FIELDS v = Inr (film_fields f) \<and>
    serve kjunk vjunk (Some \<lparr>conn_data = build_request tid SET (film_title f) (Some (film_fields f)), conn_fails = False\<rparr>)
      tbl = (tbl1, Some (build_response 10 tid [] [])) \<and>
    ht_wf hash64 tbl1 \<and> ht_room 1 tbl1 \<and> ht_map tbl1 = (ht_map tbl)(film_title f \<mapsto> v) \<and>
    (\<forall>tbl2. ht_wf hash64 tbl2 \<and> ht_room 1 tbl2 \<and> ht_map tbl2 (film_title f) = Some v \<longrightarrow>
      (\<exists>tbl3 d. serve kjunk' vjunk' (Some \<lparr>conn_data = build_request tid' GET (film_title f) None, conn_fails = False\<rparr>)
          tbl2 = (tbl3, Some d) \<and>
        read_answer junk GET \<lparr>conn_data = d, conn_fails = False\<rparr> = Inr (Some (Some f))))"
proof -
  let ?k = "film_title f" and ?v = "value_bytes (film_fields f)"
  have k: "?k \<noteq> []" "length ?k < 2 ^ 16" and fs: "length (film_fields f) = N_FIELDS" "length ?v < 2 ^ 16"
    using assms(1) by (simp_all add: film_ok_def)
  have room: "ht_room (Suc 1) tbl" using assms(3) by (simp add: numeral_2_eq_2)
  note req = build_request_value [OF k(2) fs, of tid SET]
  obtain tbl1 where t: "serve kjunk vjunk (Some \<lparr>conn_data = build_response SET tid ?k ?v, conn_fails = False\<rparr>) tbl =
      (tbl1, Some (build_response 10 tid [] []))" "ht_map tbl1 = (ht_map tbl)(?k \<mapsto> ?v)" "ht_wf hash64 tbl1" "ht_room 1 tbl1"
    by (rule serve_complete [OF assms(2) room k fs(2) spec_actions(1)])
  have "\<exists>tbl3 d. serve kjunk' vjunk' (Some \<lparr>conn_data = build_request tid' GET ?k None, conn_fails = False\<rparr>) tbl2 = (tbl3, Some d) \<and>
      read_answer junk GET \<lparr>conn_data = d, conn_fails = False\<rparr> = Inr (Some (Some f))"
    if "ht_wf hash64 tbl2" "ht_room 1 tbl2" "ht_map tbl2 ?k = Some ?v" for tbl2
  proof -
    have "ht_room (Suc 0) tbl2" using that(2) by simp
    from get_stored_film [OF assms(1) that(1) this that(3)] show ?thesis by blast
  qed
  then show ?thesis
    using t fs(1) k(2) unmarshal_value_bytes [OF fs(2), of "[]"] fs(2)
    by (intro exI [of _ ?v] exI [of _ tbl1])
      (auto simp: req MAX_REQUEST_LEN_def EXT_HEADER_LEN_def)
qed

theorem film_marshalling_roundtrip_witness:
  "\<exists>tbl1 tbl2 d.
    serve (\<lambda>_. 0) (\<lambda>_. 0) (Some \<lparr>conn_data = build_request 7 SET [65] (Some [[66], [], [67, 68], [69], [70]]),
      conn_fails = False\<rparr>) ht_create = (tbl1, Some (build_response 10 7 [] [])) \<and>
    serve (\<lambda>_. 1) (\<lambda>_. 1) (Some \<lparr>conn_data = build_request 8 GET [65] None, conn_fails = False\<rparr>) tbl1 = (tbl2, Some d) \<and>
    read_answer (\<lambda>_. 2) GET \<lparr>conn_data = d, conn_fails = False\<rparr> =
      Inr (Some (Some \<lparr>film_title = [65], film_fields = [[66], [], [67, 68], [69], [70]]\<rparr>))"
proof -
  let ?f = "\<lparr>film_title = [65], film_fields = [[66], [], [67, 68], [69], [70]]\<rparr>"
  have ok: "film_ok ?f" by (simp add: film_ok_def N_FIELDS_def)
  have room: "ht_room 2 ht_create" by (rule ht_room_create) simp
  obtain v tbl1 where v: "serve (\<lambda>_. 0) (\<lambda>_. 0)
      (Some \<lparr>conn_data = build_request 7 SET [65] (Some [[66], [], [67, 68], [69], [70]]), conn_fails = False\<rparr>) ht_create =
      (tbl1, Some (build_response 10 7 [] []))"
    "ht_wf hash64 tbl1" "ht_room 1 tbl1" "ht_map tbl1 = (ht_map ht_create)([65] \<mapsto> v)"
    "\<forall>tbl2. ht_wf hash64 tbl2 \<and> ht_room 1 tbl2 \<and> ht_map tbl2 [65] = Some v \<longrightarrow>
      (\<exists>tbl3 d. serve (\<lambda>_. 1) (\<lambda>_. 1) (Some \<lparr>conn_data = build_request 8 GET [65] None, conn_fails = False\<rparr>)
          tbl2 = (tbl3, Some d) \<and> read_answer (\<lambda>_. 2) GET \<lparr>conn_data = d, conn_fails = False\<rparr> = Inr (Some (Some ?f)))"
    using film_marshalling_roundtrip [OF ok ht_wf_create room, of 7 "\<lambda>_. 0" "\<lambda>_. 0" "\<lambda>_. 1" "\<lambda>_. 1" 8 "\<lambda>_. 2"]
    unfolding film.simps by blast
  then have "ht_map tbl1 [65] = Some v" by simp
  with v show ?thesis by blast
qed

text \<open>
  A set is performed at least once: whichever answers of the server are lost, the film is
  stored; the call returns 0 if one of the five answers arrives and -1 (with a new transaction
  id) if all are lost, although the film is stored then too.
\<close>

lemma set_at_least_once:
  assumes "film_ok f" and "ht_wf hash64 tbl" and "ht_room RETRIES tbl"
  shows "\<exists>plan' tbl'. ht_set (lossy_net kjunk vjunk) junk (film_title f) (film_fields f) (tid, plan, tbl) =
      (if \<forall>i < RETRIES. lost plan i then Inr ((tid + 1, plan', tbl'), -1)
       else Inr ((tid, plan', tbl'), 0)) \<and>
    ht_map tbl' = (ht_map tbl)(film_title f \<mapsto> value_bytes (film_fields f))"
  using ht_set_result [OF assms(1,2), of 0] assms(3) by fastforce

theorem set_at_least_once_witness:
  "\<exists>plan' tbl'. ht_set (lossy_net (\<lambda>_. 0) (\<lambda>_. 0)) (\<lambda>_. 0) [65] [[66], [], [], [], []]
      (9, [True, True, False], ht_create) = Inr ((9, plan', tbl'), 0)"
proof -
  let ?f = "\<lparr>film_title = [65], film_fields = [[66], [], [], [], []]\<rparr>"
  have ok: "film_ok ?f" by (simp add: film_ok_def N_FIELDS_def)
  have room: "ht_room RETRIES ht_create" by (rule ht_room_create) (simp add: RETRIES_def)
  have "\<not> (\<forall>i < RETRIES. lost [True, True, False] i)"
    by (auto simp: lost_def RETRIES_def intro!: exI [of _ 2])
  then show ?thesis
    using set_at_least_once [OF ok ht_wf_create room, of "\<lambda>_. 0" "\<lambda>_. 0" "\<lambda>_. 0" 9 "[True, True, False]"]
    by auto
qed

text \<open>
  A delete whose first answer is lost removes the film but fails: every repetition finds the
  key gone, the server clears the delete bit and the client never accepts such an answer. If
  the first answer arrives the call succeeds.
\<close>

lemma delete_reports_lost_ack:
  assumes "k \<noteq> []" and "length k < 2 ^ 16" and "ht_wf hash64 tbl" and "ht_room RETRIES tbl"
    and "k \<in> dom (ht_map tbl)"
  shows "\<exists>plan' tbl'. ht_delete (lossy_net kjunk vjunk) junk k (tid, plan, tbl) =
      (if plan \<noteq> [] \<and> hd plan then Inr ((tid + 1, plan', tbl'), -1) else Inr ((tid, plan', tbl'), 0)) \<and>
    ht_map tbl' = (ht_map tbl)(k := None)"
  using ht_delete_result [OF assms(1-3) _ assms(5), of 0] assms(4) by fastforce

theorem delete_reports_lost_ack_witness:
  "\<exists>plan' tbl'. ht_delete (lossy_net (\<lambda>_. 0) (\<lambda>_. 0)) (\<lambda>_. 0) [65]
      (0, [True], snd (ht_set_value hash64 ht_create [65] [66])) = Inr ((1, plan', tbl'), -1) \<and>
    ht_map tbl' = Map.empty"
proof -
  let ?t = "snd (ht_set_value hash64 ht_create [65] [66])"
  have room: "ht_room (Suc RETRIES) ht_create" by (rule ht_room_create) (simp add: RETRIES_def)
  note t = ht_set_value_correct [OF ht_wf_create [of hash64] room, where k = "[65]" and v = "[66]"]
  have m: "ht_map ?t = [[65] \<mapsto> [66]]" using t(2) by (simp add: ht_map_create)
  show ?thesis
    using delete_reports_lost_ack [OF _ _ t(3,4), of "[65]" "\<lambda>_. 0" "\<lambda>_. 0" "\<lambda>_. 0" 0 "[True]"] m
    by auto
qed

text \<open>
  What \<open>main\<close> sees for a film when no answer is lost: the set succeeds, the get returns the
  very film, the delete succeeds, and the last get fails with -1 after five attempts. The branch
  of \<open>main\<close> that reports a film as not found is never taken.
\<close>

theorem film_exchange:
  assumes "film_ok f" and "ht_wf hash64 tbl" and "ht_room (4 * RETRIES) tbl" and "True \<notin> set plan"
  shows "\<exists>plan' tbl'. exercise_film (lossy_net kjunk vjunk) junk f (tid, plan, tbl) =
      Inr ((tid + 1, plan', tbl'), 0, (0, Some f), 0, (-1, None)) \<and>
    ht_map tbl' = (ht_map tbl)(film_title f := None)"
proof -
  let ?k = "film_title f" and ?net = "lossy_net kjunk vjunk"
  have k: "?k \<noteq> []" "length ?k < 2 ^ 16" and fs: "length (film_fields f) = N_FIELDS"
      "length (value_bytes (film_fields f)) < 2 ^ 16"
    using assms(1) by (simp_all add: film_ok_def)
  have arrives: "\<not> (\<forall>i < RETRIES. lost p i)" "\<not> lost p 0" if "set p \<subseteq> set plan" for p
    using that assms(4) lost_mem [of p 0] by (auto simp: RETRIES_def intro!: exI [of _ 0])
  have room: "ht_room (RETRIES + 3 * RETRIES) tbl" using assms(3) by simp
  obtain p1 t1 where 1: "ht_set ?net junk ?k (film_fields f) (tid, plan, tbl) = Inr ((tid, p1, t1), 0)"
      "ht_map t1 = (ht_map tbl)(?k \<mapsto> value_bytes (film_fields f))" "ht_wf hash64 t1"
      "ht_room (RETRIES + 2 * RETRIES) t1" "set p1 \<subseteq> set plan"
    using ht_set_result [OF assms(1,2) room, of kjunk vjunk junk tid plan] arrives [OF order_refl] by auto
  have sub1: "set p \<subseteq> set p1 \<Longrightarrow> set p \<subseteq> set plan" for p using 1(5) by (rule subset_trans [rotated])
  have val1: "ht_map t1 ?k = map_option value_bytes (Some (film_fields f))"
    and ok1: "\<forall>v. Some (film_fields f) = Some v \<longrightarrow> length v = N_FIELDS \<and> length (value_bytes v) < 2 ^ 16"
    using 1(2) fs by simp_all
  obtain p2 t2 where 2: "ht_get ?net junk ?k (tid, p1, t1) = Inr ((tid, p2, t2), 0,
        Some \<lparr>film_title = ?k, film_fields = film_fields f\<rparr>)"
      "ht_map t2 = ht_map t1" "ht_wf hash64 t2" "ht_room (RETRIES + RETRIES) t2" "set p2 \<subseteq> set plan"
    using ht_get_result [OF k 1(3) _ val1 ok1, of "RETRIES + RETRIES" kjunk vjunk junk tid p1] 1(4)
      arrives(1) [OF 1(5)] sub1 by (auto simp: mult_2)
  have sub2: "set p \<subseteq> set p2 \<Longrightarrow> set p \<subseteq> set plan" for p using 2(5) by (rule subset_trans [rotated])
  have mem: "?k \<in> dom (ht_map t2)" using 1(2) 2(2) by simp
  obtain p3 t3 where 3: "ht_delete ?net junk ?k (tid, p2, t2) = Inr ((tid, p3, t3), 0)"
      "ht_map t3 = (ht_map t2)(?k := None)" "ht_wf hash64 t3" "ht_room (RETRIES + 0) t3"
    using ht_delete_result [OF k 2(3) _ mem, of RETRIES kjunk vjunk junk tid p2] 2(4)
      arrives(2) [OF 2(5)] by auto
  have val3: "ht_map t3 ?k = map_option value_bytes None"
    and ok3: "\<forall>v. None = Some v \<longrightarrow> length v = N_FIELDS \<and> length (value_bytes v) < 2 ^ 16"
    using 3(2) by simp_all
  obtain p4 t4 where 4: "ht_get ?net junk ?k (tid, p3, t3) = Inr ((tid + 1, p4, t4), -1, None)"
      "ht_map t4 = ht_map t3"
    using ht_get_result [OF k 3(3,4) val3 ok3, of kjunk vjunk junk tid p3] by auto
  have "exercise_film ?net junk f (tid, plan, tbl) =
      Inr ((tid + 1, p4, t4), 0, (0, Some f), 0, (-1, None))"
    by (simp add: exercise_film_def 1(1) 2(1) 3(1) 4(1))
  moreover have "ht_map t4 = (ht_map tbl)(?k := None)"
    by (simp add: 4(2) 3(2) 2(2) 1(2))
  ultimately show ?thesis by blast
qed

theorem film_exchange_witness:
  "\<exists>plan' tbl'. exercise_film (lossy_net (\<lambda>_. 0) (\<lambda>_. 0)) (\<lambda>_. 0)
      \<lparr>film_title = [65], film_fields = [[66], [67], [68], [69], [70]]\<rparr> (0, [], ht_create) =
    Inr ((1, plan', tbl'), 0,
      (0, Some \<lparr>film_title = [65], film_fields = [[66], [67], [68], [69], [70]]\<rparr>), 0, (-1, None))"
proof -
  let ?f = "\<lparr>film_title = [65], film_fields = [[66], [67], [68], [69], [70]]\<rparr>"
  have ok: "film_ok ?f" by (simp add: film_ok_def N_FIELDS_def)
  have room: "ht_room (4 * RETRIES) ht_create" by (rule ht_room_create) (simp add: RETRIES_def)
  show ?thesis
    using film_exchange [OF ok ht_wf_create room, of "[]" "\<lambda>_. 0" "\<lambda>_. 0" "\<lambda>_. 0" 0] by auto
qed

end
