(* ===== verification/Film_Csv.thy ===== *)
theory Film_Csv
  imports Movie_Client
begin

text \<open>
  Reading films from lines of fields separated by semicolons: \<open>read_file\<close> of
  \<open>Movie Parser/client.c\<close>, and \<open>client_malte.c\<close>, which marshals every field of a line without
  parsing it into a film. Both rest on \<open>strtok\<close>, which skips empty fields.
\<close>

section \<open>strtok\<close>

text \<open>
  The token and the string at which the next call continues; \<open>None\<close> when only delimiters
  (or nothing) are left. There is a single delimiter.
\<close>

definition strtok :: "byte \<Rightarrow> byte list \<Rightarrow> (byte list \<times> byte list) option" where
  "strtok d s =
     (let token = dropWhile (\<lambda>c. c = d) s
      in if token = [] then None
         else Some (takeWhile (\<lambda>c. c \<noteq> d) token, drop 1 (dropWhile (\<lambda>c. c \<noteq> d) token)))"

lemma strtok_shorter: "strtok d s = Some (t, r) \<Longrightarrow> length r < length s"
proof -
  assume *: "strtok d s = Some (t, r)"
  let ?s = "dropWhile (\<lambda>c. c = d) s"
  have "?s \<noteq> []" and r: "r = drop 1 (dropWhile (\<lambda>c. c \<noteq> d) ?s)"
    using * by (auto simp: strtok_def Let_def split: if_splits)
  moreover have "length (dropWhile (\<lambda>c. c \<noteq> d) ?s) \<le> length ?s" and "length ?s \<le> length s"
    by (rule length_dropWhile_le)+
  ultimately show ?thesis by (cases ?s) auto
qed

function strtok_all :: "byte \<Rightarrow> byte list \<Rightarrow> byte list list" where
  "strtok_all d s = (case strtok d s of None \<Rightarrow> [] | Some (t, r) \<Rightarrow> t # strtok_all d r)"
  by pat_completeness auto
termination
  by (relation "measure (\<lambda>(d, s). length s)") (auto dest: strtok_shorter)

declare strtok_all.simps [simp del]

definition SEP :: byte where "SEP = 59"

section \<open>Films of \<open>client.c\<close>\<close>

fun strtok_fields :: "nat \<Rightarrow> byte list \<Rightarrow> fault + byte list list" where
  "strtok_fields 0 s = Inr []"
| "strtok_fields (Suc n) s =
     (case strtok SEP s of
        None \<Rightarrow> Inl Assertion
      | Some (field, s) \<Rightarrow> bind_res (strtok_fields n s) (\<lambda>fs. Inr (field # fs)))"

definition read_film :: "byte list \<Rightarrow> fault + film" where
  "read_film line =
     (case strtok SEP line of
        None \<Rightarrow> Inl Assertion
      | Some (t, s) \<Rightarrow>
          bind_res (strtok_fields N_FIELDS s) (\<lambda>fs. Inr \<lparr>film_title = t, film_fields = fs\<rparr>))"

text \<open>The loop over the lines: at most \<open>MAX_FILMS\<close> films are stored.\<close>

fun read_films :: "byte list list \<Rightarrow> film list \<Rightarrow> fault + film list" where
  "read_films [] films = Inr films"
| "read_films (line # lines) films =
     (if length films < MAX_FILMS
      then bind_res (read_film line) (\<lambda>f. read_films lines (films @ [f]))
      else Inr films)"

definition read_file :: "byte list list \<Rightarrow> fault + int \<times> film list" where
  "read_file lines =
     bind_res (read_films lines []) (\<lambda>films. Inr (if length films = 0 then 1 else 0, films))"

section \<open>The marshaller of \<open>client_malte.c\<close>\<close>

text \<open>The token loop: \<open>copied\<close> is the offset into the zeroed buffer.\<close>

fun marshall_tokens :: "byte list list \<Rightarrow> u16 \<Rightarrow> byte list \<Rightarrow> byte list" where
  "marshall_tokens [] copied buf = buf"
| "marshall_tokens (token # tokens) copied buf =
     (let buf = write_at (unat copied) (put16 (of_nat (length token))) buf;
          copied = copied + 2;
          buf = write_at (unat copied) token buf;
          copied = copied + of_nat (length token)
      in marshall_tokens tokens copied buf)"

definition marshall_value_len :: "byte list \<Rightarrow> u16" where
  "marshall_value_len value =
     (let entries = of_nat (length (filter (\<lambda>c. c = SEP) value)) :: u16
      in of_nat (length value) + 2 * (entries + 1) - entries)"

text \<open>The message \<open>marshall\<close> sends; \<open>header\<close> holds action and transaction id.\<close>

definition marshall :: "byte \<Rightarrow> byte \<Rightarrow> byte list \<Rightarrow> byte list \<Rightarrow> byte list" where
  "marshall action tid key value =
     (let key_len = of_nat (length key) :: u16;
          value_len = marshall_value_len value;
          value_marshalled = marshall_tokens (strtok_all SEP value) 0 (replicate (unat value_len) 0)
      in [action, tid] @ put16 key_len @ put16 value_len @ take (unat key_len) key @ value_marshalled)"

text \<open>\<open>set\<close>: the message and the next transaction id.\<close>

definition malte_set :: "byte \<Rightarrow> byte list \<Rightarrow> byte list \<Rightarrow> byte list \<times> byte" where
  "malte_set transaction_id key value =
     (marshall (0 OR set_mask) (0 OR transaction_id) key value, transaction_id + 1)"

text \<open>\<open>read_file\<close>: the messages of all lines; a missing key or value is a NULL string.\<close>

definition malte_line :: "byte list \<Rightarrow> fault + byte list \<times> byte list" where
  "malte_line line =
     bind_res (assert_c (length line \<le> 4096)) (\<lambda>_.
     case strtok SEP line of
       None \<Rightarrow> Inl Undefined
     | Some (k, v) \<Rightarrow> if v = [] then Inl Undefined else Inr (k, v))"

fun malte_read_file :: "byte list list \<Rightarrow> byte \<Rightarrow> fault + byte list list" where
  "malte_read_file [] tid = Inr []"
| "malte_read_file (line # lines) tid =
     bind_res (malte_line line) (\<lambda>(k, v).
     let (msg, tid) = malte_set tid k v
     in bind_res (malte_read_file lines tid) (\<lambda>msgs. Inr (msg # msgs)))"

section \<open>Lines as lists of fields\<close>

fun join :: "byte list list \<Rightarrow> byte list" where
  "join [] = []"
| "join [f] = f"
| "join (f # g # fs) = f @ SEP # join (g # fs)"

definition plain_field :: "byte list \<Rightarrow> bool" where
  "plain_field f \<longleftrightarrow> f \<noteq> [] \<and> SEP \<notin> set f"

abbreviation unseparated :: "byte list list \<Rightarrow> bool" where
  "unseparated fs \<equiv> (\<forall>f \<in> set fs. SEP \<notin> set f)"

lemma strtok_plain:
  assumes "plain_field f"
  shows "strtok SEP f = Some (f, [])" and "strtok SEP (f @ SEP # s) = Some (f, s)"
proof -
  have d: "dropWhile (\<lambda>c. c = SEP) (f @ s) = f @ s" for s
    using assms by (cases f) (auto simp: plain_field_def)
  have n: "dropWhile (\<lambda>c. c \<noteq> SEP) f = []" and t: "takeWhile (\<lambda>c. c \<noteq> SEP) f = f"
    using assms by (auto simp: plain_field_def dropWhile_eq_Nil_conv takeWhile_eq_all_conv)
  show "strtok SEP f = Some (f, [])"
    using d [of "[]"] assms by (simp add: strtok_def Let_def plain_field_def n t)
  have "takeWhile (\<lambda>c. c \<noteq> SEP) (f @ SEP # s) = f" "dropWhile (\<lambda>c. c \<noteq> SEP) (f @ SEP # s) = SEP # s"
    using assms by (auto simp: plain_field_def takeWhile_append dropWhile_append)
  with d [of "SEP # s"] show "strtok SEP (f @ SEP # s) = Some (f, s)"
    using assms by (simp add: strtok_def Let_def plain_field_def)
qed

lemma strtok_skip: "strtok SEP (SEP # s) = strtok SEP s" "strtok SEP [] = None"
  by (simp_all add: strtok_def)

lemma strtok_all_step:
  "strtok_all d [] = []" "strtok SEP s = None \<Longrightarrow> strtok_all SEP s = []"
  "strtok SEP s = Some (t, r) \<Longrightarrow> strtok_all SEP s = t # strtok_all SEP r"
  "strtok_all SEP (SEP # s) = strtok_all SEP s"
  by (simp_all add: strtok_all.simps [of d] strtok_all.simps [of SEP s] strtok_all.simps [of SEP "SEP # s"]
      strtok_skip strtok_def [of d])

lemma strtok_all_join: "unseparated fs \<Longrightarrow> strtok_all SEP (join fs) = filter (\<lambda>f. f \<noteq> []) fs"
proof (induction fs rule: join.induct)
  case (2 f)
  then show ?case
    by (cases "f = []") (simp_all add: strtok_all_step(1) strtok_all_step(3) [OF strtok_plain(1)] plain_field_def)
next
  case (3 f g fs)
  then show ?case
    by (cases "f = []") (simp_all add: strtok_all_step(4) strtok_all_step(3) [OF strtok_plain(2)] plain_field_def)
qed (simp add: strtok_all_step)

lemma strtok_fields_all:
  "strtok_fields n s =
     (if n \<le> length (strtok_all SEP s) then Inr (take n (strtok_all SEP s)) else Inl Assertion)"
proof (induction n arbitrary: s)
  case (Suc n)
  show ?case
    by (cases "strtok SEP s") (auto simp: strtok_all_step Suc.IH split: prod.splits)
qed simp

lemma read_film_all:
  "read_film line =
     (if Suc N_FIELDS \<le> length (strtok_all SEP line)
      then Inr \<lparr>film_title = hd (strtok_all SEP line),
                film_fields = take N_FIELDS (tl (strtok_all SEP line))\<rparr>
      else Inl Assertion)"
  by (cases "strtok SEP line") (auto simp: read_film_def strtok_all_step strtok_fields_all split: prod.splits)

definition film_line :: "film \<Rightarrow> byte list" where
  "film_line f = join (film_title f # film_fields f)"

lemma filter_all_ne: "list_all plain_field fs \<Longrightarrow> filter (\<lambda>f. f \<noteq> []) fs = fs \<and> unseparated fs"
  by (induction fs) (auto simp: plain_field_def)

lemma read_film_line:
  assumes "list_all plain_field (film_title f # film_fields f)" and "length (film_fields f) = N_FIELDS"
  shows "read_film (film_line f) = Inr f"
  using strtok_all_join [of "film_title f # film_fields f"] filter_all_ne [OF assms(1)] assms(2)
  by (simp add: read_film_all film_line_def)

lemma read_films_lines:
  assumes "\<forall>f \<in> set fs. list_all plain_field (film_title f # film_fields f) \<and> length (film_fields f) = N_FIELDS"
  shows "read_films (map film_line fs) films =
    Inr (films @ take (MAX_FILMS - length films) fs)"
  using assms
proof (induction fs arbitrary: films)
  case (Cons f fs)
  then have "read_film (film_line f) = Inr f" by (intro read_film_line) auto
  moreover have "take (MAX_FILMS - length films) (f # fs) = f # take (MAX_FILMS - length (films @ [f])) fs"
    if "length films < MAX_FILMS"
    using that by (simp add: take_Cons')
  ultimately show ?case using Cons by auto
qed simp

section \<open>The two marshallers\<close>

lemma write_at_zeros:
  "length pre = i \<Longrightarrow> length bs \<le> n \<Longrightarrow>
    write_at i bs (pre @ replicate n 0) = (pre @ bs) @ replicate (n - length bs) 0"
  by (simp add: write_at_def)

lemma marshall_tokens_eq:
  "unat copied = length pre \<Longrightarrow> length (value_bytes ts) \<le> n \<Longrightarrow>
    length (pre @ value_bytes ts) < 2 ^ 16 \<Longrightarrow>
    marshall_tokens ts copied (pre @ replicate n 0) =
      pre @ value_bytes ts @ replicate (n - length (value_bytes ts)) 0"
proof (induction ts arbitrary: copied pre n)
  case (Cons t ts)
  have len: "length pre + 2 + length t + length (value_bytes ts) < 2 ^ 16"
    using Cons.prems(3) by simp
  have two: "unat (copied + 2) = length pre + 2"
    using unat_add_of_nat [of copied 2] Cons.prems(1) len by simp
  have off: "unat (copied + 2 + of_nat (length t)) = length (pre @ field_bytes t)"
    using unat_add_of_nat [of "copied + 2" "length t"] two len by simp
  have "marshall_tokens (t # ts) copied (pre @ replicate n 0) =
      marshall_tokens ts (copied + 2 + of_nat (length t))
        ((pre @ field_bytes t) @ replicate (n - length (field_bytes t)) 0)"
    using two Cons.prems(1,2)
      write_at_zeros [of pre _ "put16 (of_nat (length t))" n, OF refl]
      write_at_zeros [of "pre @ put16 (of_nat (length t))" _ t "n - 2", OF refl]
    by (simp add: Let_def field_bytes_def)
  also have "\<dots> = (pre @ field_bytes t) @ value_bytes ts @
      replicate (n - length (field_bytes t) - length (value_bytes ts)) 0"
    using Cons.prems len by (intro Cons.IH [OF off]) simp_all
  finally show ?case by simp
qed simp

lemma marshall_value_len_join:
  assumes "unseparated fs" and "fs \<noteq> []"
  shows "marshall_value_len (join fs) = of_nat (length (value_bytes fs))"
proof -
  define e where "e = length (filter (\<lambda>c. c = SEP) (join fs))"
  have "length (join fs) = length (concat fs) + e \<and> Suc e = length fs"
    unfolding e_def
    using assms
  proof (induction fs rule: join.induct)
    case (2 f)
    then show ?case by (simp add: filter_empty_conv) metis
  next
    case (3 f g fs)
    then have "filter (\<lambda>c. c = SEP) f = []" by (auto simp: filter_empty_conv)
    with 3 show ?case by simp
  qed simp
  then have l: "length (join fs) = length (concat fs) + e" "length fs = Suc e" by simp_all
  have "length (value_bytes fs) = length (concat fs) + 2 * length fs"
    by (induction fs) auto
  with l have v: "length (value_bytes fs) = length (concat fs) + 2 * Suc e" by simp
  show ?thesis
    unfolding marshall_value_len_def Let_def e_def [symmetric] l(1) v
    by (simp add: algebra_simps)
qed

section \<open>Properties\<close>

text \<open>
  C24: \<open>read_file\<close> recovers the films of a file whose lines join non-empty fields without
  semicolons, in order, up to the capacity of 1000 films, and returns 1 exactly for an empty
  file (the newline that \<open>getline\<close> keeps belongs to the last field).
\<close>

theorem read_file_recovers_films:
  assumes "\<forall>f \<in> set fs. list_all plain_field (film_title f # film_fields f) \<and> length (film_fields f) = N_FIELDS"
  shows "read_file (map film_line fs) = Inr (if fs = [] then 1 else 0, take MAX_FILMS fs)"
  using read_films_lines [OF assms, of "[]"] by (auto simp: read_file_def MAX_FILMS_def)

theorem read_file_recovers_films_witness:
  "read_file [[65, 59, 66, 59, 67, 59, 68, 59, 69, 59, 70, 10]] =
     Inr (0, [\<lparr>film_title = [65], film_fields = [[66], [67], [68], [69], [70, 10]]\<rparr>])"
  using read_file_recovers_films [of "[\<lparr>film_title = [65], film_fields = [[66], [67], [68], [69], [70, 10]]\<rparr>]"]
  by (simp add: film_line_def SEP_def plain_field_def N_FIELDS_def MAX_FILMS_def)

text \<open>
  A line of a title and five fields is read as that film if no field is empty; since
  \<open>strtok\<close> skips empty fields, one empty field is enough to trip the assertion that ends the
  client.
\<close>

theorem empty_field_aborts:
  assumes "plain_field (film_title f)" and "unseparated (film_fields f)" and "length (film_fields f) = N_FIELDS"
  shows "read_film (film_line f) = (if [] \<in> set (film_fields f) then Inl Assertion else Inr f)"
proof -
  let ?ts = "filter (\<lambda>x. x \<noteq> []) (film_fields f)"
  have ts: "strtok_all SEP (film_line f) = film_title f # ?ts"
    using strtok_all_join [of "film_title f # film_fields f"] assms(1,2)
    by (simp add: film_line_def plain_field_def)
  show ?thesis
  proof (cases "[] \<in> set (film_fields f)")
    case True
    then have "length ?ts < length (film_fields f)" by (intro length_filter_less) auto
    with True assms(3) show ?thesis by (simp add: read_film_all ts)
  next
    case False
    then have "?ts = film_fields f" by (auto intro: filter_True)
    with False assms(3) show ?thesis by (simp add: read_film_all ts)
  qed
qed

theorem empty_field_aborts_witness:
  "read_film [65, 59, 66, 59, 59, 68, 59, 69, 59, 70] = Inl Assertion"
  using empty_field_aborts [of "\<lparr>film_title = [65], film_fields = [[66], [], [68], [69], [70]]\<rparr>"]
  by (simp add: film_line_def SEP_def plain_field_def N_FIELDS_def)

text \<open>
  For five non-empty fields without semicolons, \<open>marshall\<close> of \<open>client_malte.c\<close> on the line
  and \<open>build_request\<close> of \<open>Movie Parser/client.c\<close> on the parsed fields send the same request: the
  length \<open>marshall\<close> computes in advance is exactly what its loop writes.
\<close>

theorem marshallers_agree:
  assumes "list_all plain_field fs" and "length fs = N_FIELDS"
    and "length key < 2 ^ 16" and "length (value_bytes fs) < 2 ^ 16"
  shows "marshall action tid key (join fs) = build_request tid action key (Some fs)"
proof -
  have fs: "strtok_all SEP (join fs) = fs" "unseparated fs" "fs \<noteq> []"
    using filter_all_ne [OF assms(1)] strtok_all_join [of fs] assms(2) by (auto simp: N_FIELDS_def)
  have "marshall_tokens fs 0 (replicate (length (value_bytes fs)) 0) = value_bytes fs"
    using marshall_tokens_eq [of 0 "[]" fs "length (value_bytes fs)"] assms(4) by simp
  then show ?thesis
    using assms(3,4)
    by (simp add: marshall_def fs(1) marshall_value_len_join [OF fs(2,3)] Let_def
        build_request_value [OF assms(3,2,4)] build_response_def)
qed

theorem marshallers_agree_witness:
  "marshall 2 7 [65] [66, 59, 67, 59, 68, 59, 69, 59, 70] = build_request 7 2 [65] (Some [[66], [67], [68], [69], [70]])"
  using marshallers_agree [of "[[66], [67], [68], [69], [70]]" "[65]" 2 7]
  by (simp add: plain_field_def SEP_def N_FIELDS_def)

end
