(* ===== verification/Data_Buffer.thy ===== *)
theory Data_Buffer
  imports Net_Prelude
begin

text \<open>
  The packets of Go-Back-N (\<open>GoBackNMessageStruct.h\<close>) and the ring buffer of
  \<open>DataBuffer.c\<close> in which the sender keeps what is not acknowledged yet. A slot of the ring holds
  NULL, a packet, or the dangling pointer \<open>freeBuffer\<close> leaves behind. \<open>size_t\<close> values are
  natural numbers with the wrap of \<open>--count\<close> written out; sequence numbers are \<open>long\<close>.
  The buffer implements a list of packets with consecutive numbers; the laws of that interface
  are the locale \<open>seq_buffer\<close>.
\<close>

section \<open>Packets\<close>

record gbn_msg =
  msg_size :: nat
  src_node :: int
  src_appl :: int
  dest_node :: int
  dest_appl :: int
  seq_no :: int
  seq_expected :: int
  has_errors :: bool
  payload :: "byte list"

text \<open>\<open>sizeof(GoBackNMessageStruct)\<close>: eight aligned fields of four bytes.\<close>

definition HDR :: nat where "HDR = 32"

text \<open>Conversion of a \<open>long\<close> to an \<open>int32_t\<close> field.\<close>

definition to_int32 :: "int \<Rightarrow> int" where
  "to_int32 n = sint (word_of_int n :: 32 word)"

lemma to_int32_id: "- (2 ^ 31) \<le> n \<Longrightarrow> n < 2 ^ 31 \<Longrightarrow> to_int32 n = n"
  unfolding to_int32_def by transfer (simp add: signed_take_bit_int_eq_self)

text \<open>The message \<open>allocateGoBackNMessageStruct\<close> returns: all fields and all data bytes zero.\<close>

definition allocateGoBackNMessageStruct :: "nat \<Rightarrow> gbn_msg" where
  "allocateGoBackNMessageStruct dataSize =
     \<lparr>msg_size = 0, src_node = 0, src_appl = 0, dest_node = 0, dest_appl = 0, seq_no = 0,
      seq_expected = 0, has_errors = False,
      payload = replicate (4 * ((dataSize + 3) div 4)) 0\<rparr>"

record timeval =
  sec :: int
  usec :: int

record data_packet =
  pkt_timeout :: timeval
  pkt :: gbn_msg

abbreviation seq_of :: "data_packet \<Rightarrow> int" where
  "seq_of p \<equiv> seq_no (pkt p)"

section \<open>The ring buffer\<close>

datatype slot = Null | Live data_packet | Freed

record data_buffer =
  min_seq :: int
  max_count :: nat
  first_index :: nat
  free_index :: nat
  buf_count :: nat
  buf_data :: "slot list"

definition allocateDataBuffer :: "nat \<Rightarrow> data_buffer" where
  "allocateDataBuffer maxPacketCount =
     \<lparr>min_seq = 0, max_count = maxPacketCount, first_index = 0, free_index = 0, buf_count = 0,
      buf_data = replicate maxPacketCount Null\<rparr>"

definition getFirstSeqNoOfBuffer :: "data_buffer \<Rightarrow> int" where
  "getFirstSeqNoOfBuffer b = min_seq b"

definition getLastSeqNoOfBuffer :: "data_buffer \<Rightarrow> int" where
  "getLastSeqNoOfBuffer b = min_seq b + int (buf_count b) - 1"

definition getBufferSize :: "data_buffer \<Rightarrow> nat" where
  "getBufferSize b = buf_count b"

definition bufferContainsPacket :: "data_buffer \<Rightarrow> int \<Rightarrow> bool" where
  "bufferContainsPacket b seqNo =
     (let seqNo = seqNo - min_seq b in 0 \<le> seqNo \<and> seqNo < int (buf_count b))"

text \<open>The pointer returned is the index of its slot, \<open>None\<close> for NULL.\<close>

definition getDataPacketFromBuffer :: "data_buffer \<Rightarrow> int \<Rightarrow> nat option" where
  "getDataPacketFromBuffer b seqNo =
     (if seqNo < min_seq b \<or> min_seq b + int (buf_count b) \<le> seqNo then None
      else Some (nat (seqNo - min_seq b + int (first_index b)) mod max_count b))"

definition deref :: "data_buffer \<Rightarrow> nat \<Rightarrow> fault + data_packet" where
  "deref b i = (if i < length (buf_data b) then
      (case buf_data b ! i of Live p \<Rightarrow> Inr p | _ \<Rightarrow> Inl Undefined) else Inl Undefined)"

definition putDataPacketIntoBuffer :: "data_buffer \<Rightarrow> data_packet \<Rightarrow> fault + data_buffer" where
  "putDataPacketIntoBuffer b p =
     bind_res (assert_c (buf_count b < max_count b)) (\<lambda>_.
     bind_res (assert_c (min_seq b \<le> seq_of p)) (\<lambda>_.
     bind_res (assert_c (seq_of p < min_seq b + int (max_count b))) (\<lambda>_.
     bind_res (assert_c (nat (seq_of p - min_seq b + int (first_index b)) mod max_count b
                         = free_index b)) (\<lambda>_.
     Inr (b\<lparr>buf_data := (buf_data b)[free_index b := Live p],
            free_index := (free_index b + 1) mod max_count b,
            buf_count := buf_count b + 1\<rparr>)))))"

text \<open>\<open>free\<close> of the pointer in a slot: NULL is allowed, a dangling pointer is a double free.\<close>

definition free_slot :: "data_buffer \<Rightarrow> nat \<Rightarrow> fault + data_buffer" where
  "free_slot b i =
     (if i < length (buf_data b) then
        (case buf_data b ! i of
           Null \<Rightarrow> Inr b
         | Live p \<Rightarrow> Inr (b\<lparr>buf_data := (buf_data b)[i := Freed]\<rparr>)
         | Freed \<Rightarrow> Inl Undefined)
      else Inl Undefined)"

text \<open>\<open>n\<close> rounds of the loop of \<open>freeBuffer\<close>, at sequence number \<open>i\<close>.\<close>

fun free_loop :: "data_buffer \<Rightarrow> int \<Rightarrow> nat \<Rightarrow> fault + data_buffer" where
  "free_loop b i 0 = Inr b"
| "free_loop b i (Suc n) =
     bind_res (assert_c (i = min_seq b)) (\<lambda>_.
     bind_res (free_slot b (first_index b)) (\<lambda>b.
     free_loop (b\<lparr>first_index := (first_index b + 1) mod max_count b,
                  min_seq := min_seq b + 1,
                  buf_count := (buf_count b + 2 ^ 64 - 1) mod 2 ^ 64\<rparr>) (i + 1) n))"

definition freeBuffer :: "data_buffer \<Rightarrow> int \<Rightarrow> int \<Rightarrow> fault + data_buffer" where
  "freeBuffer b start stop =
     bind_res (assert_c (start \<le> stop)) (\<lambda>_.
     bind_res (assert_c (start = min_seq b)) (\<lambda>_.
     bind_res (assert_c (stop - start \<le> int (buf_count b))) (\<lambda>_.
     free_loop b start (nat (stop - start + 1)))))"

text \<open>What is left to free of the buffer itself is \<open>data\<close> and the head.\<close>

definition deallocateDataBuffer :: "data_buffer \<Rightarrow> fault + unit" where
  "deallocateDataBuffer b =
     bind_res (if 0 < buf_count b
               then freeBuffer b (min_seq b) (min_seq b + int (buf_count b) - 1) else Inr b) (\<lambda>_.
     Inr ())"

text \<open>
  \<open>resetTimers\<close> walks from \<open>firstIndex\<close> until it meets \<open>freeIndex\<close>; \<open>n\<close> bounds the rounds.
\<close>

definition LONG_MAX :: int where "LONG_MAX = 2 ^ 63 - 1"

definition never :: timeval where "never = \<lparr>sec = LONG_MAX, usec = 0\<rparr>"

fun set_timeout :: "timeval \<Rightarrow> slot \<Rightarrow> fault + slot" where
  "set_timeout t (Live p) = Inr (Live (p\<lparr>pkt_timeout := t\<rparr>))"
| "set_timeout t _ = Inl Undefined"

fun reset_loop :: "data_buffer \<Rightarrow> nat \<Rightarrow> nat \<Rightarrow> fault + data_buffer" where
  "reset_loop b i 0 = Inr b"
| "reset_loop b i (Suc n) =
     (if i = free_index b then Inr b
      else bind_res (set_timeout never (buf_data b ! i)) (\<lambda>s.
           reset_loop (b\<lparr>buf_data := (buf_data b)[i := s]\<rparr>) ((i + 1) mod max_count b) n))"

definition resetTimers :: "data_buffer \<Rightarrow> fault + data_buffer" where
  "resetTimers b = reset_loop b (first_index b) (max_count b)"

section \<open>The interface\<close>

text \<open>
  A bounded list of items with consecutive numbers from \<open>base\<close>: items are appended with the
  next number, a prefix is released, any item can be looked up by its number.
\<close>

fun numbered :: "('p \<Rightarrow> int) \<Rightarrow> int \<Rightarrow> 'p list \<Rightarrow> bool" where
  "numbered num n [] \<longleftrightarrow> True"
| "numbered num n (p # ps) \<longleftrightarrow> num p = n \<and> numbered num (n + 1) ps"

lemma numbered_iff: "numbered num n ps \<longleftrightarrow> (\<forall>i < length ps. num (ps ! i) = n + int i)"
  by (induction ps arbitrary: n) (auto simp: All_less_Suc2)

locale seq_buffer =
  fixes inv :: "'b \<Rightarrow> bool"
    and base :: "'b \<Rightarrow> int"
    and items :: "'b \<Rightarrow> 'p list"
    and room :: "'b \<Rightarrow> nat"
    and num :: "'p \<Rightarrow> int"
    and put :: "'b \<Rightarrow> 'p \<Rightarrow> fault + 'b"
    and release :: "'b \<Rightarrow> int \<Rightarrow> int \<Rightarrow> fault + 'b"
    and get :: "'b \<Rightarrow> int \<Rightarrow> fault + 'p"
  assumes put_ok: "inv b \<Longrightarrow> 0 < room b \<Longrightarrow> num p = base b + int (length (items b)) \<Longrightarrow>
      \<exists>b'. put b p = Inr b' \<and> inv b' \<and> base b' = base b \<and> items b' = items b @ [p] \<and>
        room b' = room b - 1"
    and put_full: "inv b \<Longrightarrow> room b = 0 \<Longrightarrow> put b p = Inl Assertion"
    and release_ok: "inv b \<Longrightarrow> base b \<le> stop \<Longrightarrow> stop < base b + int (length (items b)) \<Longrightarrow>
      \<exists>b'. release b (base b) stop = Inr b' \<and> inv b' \<and> base b' = stop + 1 \<and>
        items b' = drop (nat (stop + 1 - base b)) (items b)"
    and get_ok: "inv b \<Longrightarrow> base b \<le> n \<Longrightarrow> n < base b + int (length (items b)) \<Longrightarrow>
      get b n = Inr (items b ! nat (n - base b))"
begin

fun put_all :: "'b \<Rightarrow> 'p list \<Rightarrow> fault + 'b" where
  "put_all b [] = Inr b"
| "put_all b (p # ps) = bind_res (put b p) (\<lambda>b. put_all b ps)"

lemma put_all_ok:
  "inv b \<Longrightarrow> length ps \<le> room b \<Longrightarrow> numbered num (base b + int (length (items b))) ps \<Longrightarrow>
    \<exists>b'. put_all b ps = Inr b' \<and> inv b' \<and> base b' = base b \<and> items b' = items b @ ps"
proof (induction ps arbitrary: b)
  case (Cons p ps)
  then obtain b1 where b1: "put b p = Inr b1" "inv b1" "base b1 = base b" "items b1 = items b @ [p]"
      "room b1 = room b - 1"
    using put_ok [of b p] by auto
  moreover have "numbered num (base b1 + int (length (items b1))) ps"
    using Cons.prems(3) by (simp add: b1(3,4) ac_simps)
  ultimately show ?case
    using Cons.IH [of b1] Cons.prems(2) by auto
qed simp

lemma put_all_full:
  "inv b \<Longrightarrow> room b < length ps \<Longrightarrow> numbered num (base b + int (length (items b))) ps \<Longrightarrow>
    put_all b ps = Inl Assertion"
proof (induction ps arbitrary: b)
  case (Cons p ps)
  show ?case
  proof (cases "room b = 0")
    case False
    then obtain b1 where b1: "put b p = Inr b1" "inv b1" "base b1 = base b" "items b1 = items b @ [p]"
        "room b1 = room b - 1"
      using put_ok [of b p] Cons.prems by auto
    moreover have "numbered num (base b1 + int (length (items b1))) ps"
      using Cons.prems(3) by (simp add: b1(3,4) ac_simps)
    ultimately show ?thesis
      using Cons.IH [of b1] Cons.prems(2) False by auto
  qed (simp add: put_full Cons.prems(1))
qed simp

text \<open>Releasing a prefix does not change what the later numbers stand for.\<close>

lemma get_after_release:
  assumes "inv b" and "base b \<le> stop" and "stop < n" and "n < base b + int (length (items b))"
    and "release b (base b) stop = Inr b'"
  shows "get b' n = get b n"
proof -
  have b': "inv b'" "base b' = stop + 1" "items b' = drop (nat (stop + 1 - base b)) (items b)"
    using release_ok [OF assms(1,2)] assms(3-5) by auto
  have "get b' n = Inr (items b' ! nat (n - base b'))"
    using assms b' by (intro get_ok) auto
  also have "items b' ! nat (n - base b') = items b ! nat (n - base b)"
    using assms b' by (simp add: nat_diff_distrib' nat_add_distrib flip: nat_diff_distrib nat_add_distrib)
  also have "Inr (items b ! nat (n - base b)) = get b n"
    using get_ok [OF assms(1), of n] assms(2-4) by simp
  finally show ?thesis .
qed

end

section \<open>The ring implements the interface\<close>

definition slot_index :: "data_buffer \<Rightarrow> nat \<Rightarrow> nat" where
  "slot_index b i = (first_index b + i) mod max_count b"

fun live_of :: "slot \<Rightarrow> data_packet" where
  "live_of (Live p) = p"
| "live_of _ = undefined"

definition db_items :: "data_buffer \<Rightarrow> data_packet list" where
  "db_items b = map (\<lambda>i. live_of (buf_data b ! slot_index b i)) [0..<buf_count b]"

definition db_inv :: "data_buffer \<Rightarrow> bool" where
  "db_inv b \<longleftrightarrow> 0 < max_count b \<and> max_count b < 2 ^ 62 \<and> length (buf_data b) = max_count b \<and>
     first_index b < max_count b \<and> buf_count b \<le> max_count b \<and>
     free_index b = slot_index b (buf_count b) \<and> 0 \<le> min_seq b \<and>
     (\<forall>i < buf_count b. \<exists>p. buf_data b ! slot_index b i = Live p)"

definition db_room :: "data_buffer \<Rightarrow> nat" where
  "db_room b = max_count b - buf_count b"

definition ring_get :: "data_buffer \<Rightarrow> int \<Rightarrow> fault + data_packet" where
  "ring_get b n =
     (case getDataPacketFromBuffer b n of None \<Rightarrow> Inl Undefined | Some i \<Rightarrow> deref b i)"

lemma slot_index_update [simp]:
  "slot_index (b\<lparr>buf_data := d\<rparr>) i = slot_index b i"
  "slot_index (b\<lparr>free_index := j\<rparr>) i = slot_index b i"
  "slot_index (b\<lparr>buf_count := n\<rparr>) i = slot_index b i"
  "slot_index (b\<lparr>min_seq := s\<rparr>) i = slot_index b i"
  "slot_index (b\<lparr>first_index := (first_index b + 1) mod max_count b\<rparr>) i = slot_index b (Suc i)"
  by (simp_all add: slot_index_def mod_add_left_eq)

lemma db_invI:
  assumes "0 < max_count b" and "max_count b < 2 ^ 62" and "length (buf_data b) = max_count b"
    and "first_index b < max_count b" and "buf_count b \<le> max_count b"
    and "free_index b = slot_index b (buf_count b)" and "0 \<le> min_seq b"
    and "\<And>i. i < buf_count b \<Longrightarrow> \<exists>p. buf_data b ! slot_index b i = Live p"
  shows "db_inv b"
  using assms by (simp add: db_inv_def)

lemma db_invD:
  assumes "db_inv b"
  shows "0 < max_count b" and "max_count b < 2 ^ 62" and "length (buf_data b) = max_count b"
    and "first_index b < max_count b" and "buf_count b \<le> max_count b"
    and "free_index b = slot_index b (buf_count b)" and "0 \<le> min_seq b"
  using assms by (simp_all add: db_inv_def)

lemma ring_index:
  "f < m \<Longrightarrow> i \<le> m \<Longrightarrow> (f + i) mod m = (if f + i < m then f + i else f + i - m)" for m :: nat
  by (auto simp: mod_if)

lemma slot_index_inj:
  assumes "db_inv b" and "i < max_count b" and "j < max_count b" and "slot_index b i = slot_index b j"
  shows "i = j"
  using assms by (auto simp: db_inv_def slot_index_def ring_index split: if_splits)

lemma slot_index_less: "db_inv b \<Longrightarrow> slot_index b i < length (buf_data b)"
  by (simp add: db_inv_def slot_index_def)

lemma length_db_items [simp]: "length (db_items b) = buf_count b"
  by (simp add: db_items_def)

lemma db_items_nth: "i < buf_count b \<Longrightarrow> db_items b ! i = live_of (buf_data b ! slot_index b i)"
  by (simp add: db_items_def)

lemma db_slot:
  assumes "db_inv b" and "i < buf_count b"
  shows "buf_data b ! slot_index b i = Live (db_items b ! i)"
  using assms by (force simp: db_inv_def db_items_nth)

lemma db_get_item:
  assumes "db_inv b" and "min_seq b \<le> n" and "n < min_seq b + int (length (db_items b))"
  shows "ring_get b n = Inr (db_items b ! nat (n - min_seq b))"
proof -
  have "nat (n - min_seq b + int (first_index b)) mod max_count b = slot_index b (nat (n - min_seq b))"
    using assms(2) by (simp add: slot_index_def nat_add_distrib add.commute)
  then show ?thesis
    using assms db_slot [OF assms(1), of "nat (n - min_seq b)"] slot_index_less [OF assms(1)]
    by (auto simp: ring_get_def getDataPacketFromBuffer_def deref_def)
qed

lemma db_put:
  assumes "db_inv b" and "0 < db_room b" and "seq_of p = min_seq b + int (length (db_items b))"
  obtains b' where "putDataPacketIntoBuffer b p = Inr b'" and "db_inv b'" and "min_seq b' = min_seq b"
    and "db_items b' = db_items b @ [p]" and "db_room b' = db_room b - 1"
proof -
  note inv = db_invD [OF assms(1)]
  define n where "n = buf_count b"
  define f where "f = slot_index b n"
  have free: "free_index b = f" and c: "n < max_count b"
    using inv(6) assms(2) by (simp_all add: db_room_def n_def f_def)
  define b' where "b' = b\<lparr>buf_data := (buf_data b)[f := Live p],
    free_index := (f + 1) mod max_count b, buf_count := n + 1\<rparr>"
  have sel: "max_count b' = max_count b" "first_index b' = first_index b" "buf_count b' = n + 1"
    "min_seq b' = min_seq b" "buf_data b' = (buf_data b)[f := Live p]"
    "free_index b' = (f + 1) mod max_count b" "slot_index b' i = slot_index b i" for i
    by (simp_all add: b'_def)
  have new: "buf_data b' ! slot_index b n = Live p"
    using slot_index_less [OF assms(1), of n] by (simp add: sel f_def)
  have old: "buf_data b' ! slot_index b i = Live (db_items b ! i)" if "i < n" for i
  proof -
    have "f \<noteq> slot_index b i"
      using slot_index_inj [OF assms(1), of i n] that c by (auto simp: f_def)
    then show ?thesis using db_slot [OF assms(1), of i] that by (simp add: sel n_def)
  qed
  have put: "putDataPacketIntoBuffer b p = Inr b'"
    using assms(3) c inv(4) unfolding b'_def n_def
    by (simp add: putDataPacketIntoBuffer_def free f_def slot_index_def n_def nat_int_add add.commute)
  have inv': "db_inv b'"
  proof (rule db_invI)
    show "\<exists>q. buf_data b' ! slot_index b' i = Live q" if "i < buf_count b'" for i
      using that new old by (cases "i = n") (simp_all add: sel)
    show "free_index b' = slot_index b' (buf_count b')"
      by (simp add: sel f_def) (simp add: slot_index_def mod_Suc_eq)
  qed (use inv c in \<open>simp_all add: sel\<close>)
  have items: "db_items b' = db_items b @ [p]"
  proof (rule nth_equalityI)
    fix i assume "i < length (db_items b')"
    then show "db_items b' ! i = (db_items b @ [p]) ! i"
      using new old by (cases "i = n") (simp_all add: sel nth_append db_items_nth n_def)
  qed (simp add: sel n_def)
  show thesis
    by (rule that [OF put inv' sel(4) items]) (simp add: sel db_room_def n_def)
qed

lemma db_free_step:
  assumes "db_inv b" and "0 < buf_count b"
  obtains b1 where "free_slot b (first_index b) = Inr b1"
    and "max_count b1 = max_count b" "first_index b1 = first_index b" "min_seq b1 = min_seq b"
      "buf_count b1 = buf_count b"
    and "db_inv (b1\<lparr>first_index := (first_index b + 1) mod max_count b, min_seq := min_seq b + 1,
      buf_count := buf_count b - 1\<rparr>)"
    and "db_items (b1\<lparr>first_index := (first_index b + 1) mod max_count b, min_seq := min_seq b + 1,
      buf_count := buf_count b - 1\<rparr>) = tl (db_items b)"
proof -
  note inv = db_invD [OF assms(1)]
  define b1 where "b1 = b\<lparr>buf_data := (buf_data b)[first_index b := Freed]\<rparr>"
  define b' where "b' = b1\<lparr>first_index := (first_index b + 1) mod max_count b,
    min_seq := min_seq b + 1, buf_count := buf_count b - 1\<rparr>"
  have f: "slot_index b 0 = first_index b" using inv(4) by (simp add: slot_index_def)
  have sel: "max_count b' = max_count b" "first_index b' = (first_index b + 1) mod max_count b"
    "min_seq b' = min_seq b + 1" "buf_count b' = buf_count b - 1" "free_index b' = free_index b"
    "buf_data b' = (buf_data b)[first_index b := Freed]" "slot_index b' i = slot_index b (Suc i)" for i
    by (simp_all add: b'_def b1_def slot_index_def mod_add_left_eq)
  have rest: "buf_data b' ! slot_index b (Suc i) = Live (db_items b ! Suc i)" if "Suc i < buf_count b" for i
  proof -
    have "first_index b \<noteq> slot_index b (Suc i)"
      using slot_index_inj [OF assms(1), of "Suc i" 0] that inv(5) f by auto
    then show ?thesis using db_slot [OF assms(1) that] by (simp add: sel)
  qed
  have free: "free_slot b (first_index b) = Inr b1"
    using db_slot [OF assms] slot_index_less [OF assms(1), of 0] f by (simp add: free_slot_def b1_def)
  have inv': "db_inv b'"
  proof (rule db_invI)
    show "\<exists>p. buf_data b' ! slot_index b' i = Live p" if "i < buf_count b'" for i
      using rest [of i] that by (simp add: sel)
  qed (use inv assms(2) in \<open>simp_all add: sel\<close>)
  have items: "db_items b' = tl (db_items b)"
    by (rule nth_equalityI) (use rest in \<open>simp_all add: sel db_items_nth nth_tl\<close>)
  show thesis
    by (rule that [OF free _ _ _ _ inv' [unfolded b'_def] items [unfolded b'_def]]) (simp_all add: b1_def)
qed

lemma db_free_loop:
  "db_inv b \<Longrightarrow> n \<le> buf_count b \<Longrightarrow>
    \<exists>b'. free_loop b (min_seq b) n = Inr b' \<and> db_inv b' \<and> min_seq b' = min_seq b + int n \<and>
      db_items b' = drop n (db_items b)"
proof (induction n arbitrary: b)
  case (Suc n)
  then have pos: "0 < buf_count b" by simp
  obtain b1 where b1: "free_slot b (first_index b) = Inr b1"
      "max_count b1 = max_count b" "first_index b1 = first_index b" "min_seq b1 = min_seq b"
      "buf_count b1 = buf_count b"
    and inv: "db_inv (b1\<lparr>first_index := (first_index b + 1) mod max_count b, min_seq := min_seq b + 1,
      buf_count := buf_count b - 1\<rparr>)"
    and items: "db_items (b1\<lparr>first_index := (first_index b + 1) mod max_count b, min_seq := min_seq b + 1,
      buf_count := buf_count b - 1\<rparr>) = tl (db_items b)"
    by (rule db_free_step [OF Suc.prems(1) pos])
  define b' where "b' = b1\<lparr>first_index := (first_index b + 1) mod max_count b,
    min_seq := min_seq b + 1, buf_count := buf_count b - 1\<rparr>"
  have "buf_count b < 2 ^ 64" "buf_count b + 2 ^ 64 - 1 = (buf_count b - 1) + 2 ^ 64"
    using Suc.prems(1) pos by (simp_all add: db_inv_def)
  then have "(buf_count b + 2 ^ 64 - 1) mod 2 ^ 64 = buf_count b - 1"
    by (metis less_imp_diff_less mod_add_self2 mod_less)
  then have step: "free_loop b (min_seq b) (Suc n) = free_loop b' (min_seq b') n"
    by (simp add: b1 b'_def)
  have b': "db_inv b'" "db_items b' = tl (db_items b)" "min_seq b' = min_seq b + 1" "n \<le> buf_count b'"
    using inv items Suc.prems(2) by (simp_all add: b'_def)
  show ?case
    using Suc.IH [OF b'(1,4)] unfolding step by (simp add: b'(2,3) drop_Suc ac_simps)
qed simp

lemma db_free:
  assumes "db_inv b" and "min_seq b \<le> stop" and "stop < min_seq b + int (length (db_items b))"
  obtains b' where "freeBuffer b (min_seq b) stop = Inr b'" and "db_inv b'" and "min_seq b' = stop + 1"
    and "db_items b' = drop (nat (stop + 1 - min_seq b)) (db_items b)"
proof -
  have n: "nat (stop - min_seq b + 1) \<le> buf_count b" using assms(3) by simp
  then show thesis
    using db_free_loop [OF assms(1) n] assms(2,3)
    by (auto simp: freeBuffer_def algebra_simps intro: that)
qed

interpretation ring: seq_buffer db_inv min_seq db_items db_room seq_of putDataPacketIntoBuffer
    freeBuffer ring_get
proof
  fix b :: data_buffer and p stop n
  assume inv: "db_inv b"
  show "0 < db_room b \<Longrightarrow> seq_of p = min_seq b + int (length (db_items b)) \<Longrightarrow>
      \<exists>b'. putDataPacketIntoBuffer b p = Inr b' \<and> db_inv b' \<and> min_seq b' = min_seq b \<and>
        db_items b' = db_items b @ [p] \<and> db_room b' = db_room b - 1"
    using db_put [OF inv] by metis
  show "db_room b = 0 \<Longrightarrow> putDataPacketIntoBuffer b p = Inl Assertion"
    using inv by (simp add: putDataPacketIntoBuffer_def db_room_def db_inv_def)
  show "min_seq b \<le> stop \<Longrightarrow> stop < min_seq b + int (length (db_items b)) \<Longrightarrow>
      \<exists>b'. freeBuffer b (min_seq b) stop = Inr b' \<and> db_inv b' \<and> min_seq b' = stop + 1 \<and>
        db_items b' = drop (nat (stop + 1 - min_seq b)) (db_items b)"
    using db_free [OF inv] by metis
  show "min_seq b \<le> n \<Longrightarrow> n < min_seq b + int (length (db_items b)) \<Longrightarrow>
      ring_get b n = Inr (db_items b ! nat (n - min_seq b))"
    by (rule db_get_item [OF inv])
qed

lemma db_allocate:
  "0 < n \<Longrightarrow> n < 2 ^ 62 \<Longrightarrow>
    db_inv (allocateDataBuffer n) \<and> min_seq (allocateDataBuffer n) = 0 \<and>
    db_items (allocateDataBuffer n) = [] \<and> db_room (allocateDataBuffer n) = n"
  by (simp add: allocateDataBuffer_def db_inv_def db_items_def db_room_def slot_index_def)

section \<open>Timers\<close>

text \<open>Changing a stored packet in place.\<close>

lemma ring_update:
  assumes "db_inv b" and "k < buf_count b"
  shows "db_inv (b\<lparr>buf_data := (buf_data b)[slot_index b k := Live q]\<rparr>)" (is "db_inv ?b")
    and "db_items (b\<lparr>buf_data := (buf_data b)[slot_index b k := Live q]\<rparr>) = (db_items b)[k := q]"
proof -
  define b' where "b' = ?b"
  note inv = db_invD [OF assms(1)]
  have sel: "slot_index b' i = slot_index b i" "buf_count b' = buf_count b"
    "buf_data b' = (buf_data b)[slot_index b k := Live q]" for i
    by (simp_all add: b'_def)
  have slot: "buf_data b' ! slot_index b i = Live ((db_items b)[k := q] ! i)" if "i < buf_count b" for i
  proof (cases "i = k")
    case True
    then show ?thesis using slot_index_less [OF assms(1)] assms(2) by (simp add: sel)
  next
    case False
    then have "slot_index b k \<noteq> slot_index b i"
      using slot_index_inj [OF assms(1), of i k] that assms(2) inv(5) by auto
    with False show ?thesis using db_slot [OF assms(1) that] by (simp add: sel)
  qed
  show "db_inv ?b"
    using inv slot unfolding b'_def [symmetric] by (intro db_invI) (simp_all add: b'_def)
  show "db_items ?b = (db_items b)[k := q]"
    unfolding b'_def [symmetric] by (rule nth_equalityI) (use slot in \<open>simp_all add: sel db_items_nth\<close>)
qed

lemma reset_loop_from:
  "db_inv b \<Longrightarrow> buf_count b < max_count b \<Longrightarrow> k \<le> buf_count b \<Longrightarrow> buf_count b - k \<le> n \<Longrightarrow>
    \<exists>b'. reset_loop b (slot_index b k) n = Inr b' \<and> db_inv b' \<and> min_seq b' = min_seq b \<and>
      db_items b' = take k (db_items b) @ map (\<lambda>p. p\<lparr>pkt_timeout := never\<rparr>) (drop k (db_items b)) \<and>
      max_count b' = max_count b"
proof (induction n arbitrary: b k)
  case 0
  then show ?case by auto
next
  case (Suc n)
  note inv = db_invD [OF Suc.prems(1)]
  show ?case
  proof (cases "k = buf_count b")
    case True
    then show ?thesis using Suc.prems(1) inv(6) by (intro exI [of _ b]) simp
  next
    case False
    then have k: "k < buf_count b" using Suc.prems(3) by simp
    define f where "f = slot_index b k"
    have ne: "f \<noteq> free_index b"
      using slot_index_inj [OF Suc.prems(1), of k "buf_count b"] k Suc.prems(2) inv(6) by (auto simp: f_def)
    define q where "q = (db_items b ! k)\<lparr>pkt_timeout := never\<rparr>"
    define b' where "b' = b\<lparr>buf_data := (buf_data b)[f := Live q]\<rparr>"
    have upd: "db_inv b'" "db_items b' = (db_items b)[k := q]"
      using ring_update [OF Suc.prems(1) k, of q] by (simp_all add: f_def b'_def)
    have sel: "slot_index b' i = slot_index b i" "buf_count b' = buf_count b" "max_count b' = max_count b"
      "min_seq b' = min_seq b" for i
      by (simp_all add: b'_def)
    have step: "reset_loop b (slot_index b k) (Suc n) = reset_loop b' (slot_index b' (Suc k)) n"
      using ne db_slot [OF Suc.prems(1) k]
      by (simp add: f_def b'_def q_def slot_index_def mod_Suc_eq)
    obtain c where c: "reset_loop b' (slot_index b' (Suc k)) n = Inr c" "db_inv c" "min_seq c = min_seq b'"
        "db_items c = take (Suc k) (db_items b') @
          map (\<lambda>p. p\<lparr>pkt_timeout := never\<rparr>) (drop (Suc k) (db_items b'))"
        "max_count c = max_count b'"
    proof -
      have "buf_count b' < max_count b'" "Suc k \<le> buf_count b'" "buf_count b' - Suc k \<le> n"
        using Suc.prems(2,4) k by (simp_all add: sel)
      from Suc.IH [OF upd(1) this] show thesis using that by blast
    qed
    have "db_items c = take k (db_items b) @ map (\<lambda>p. p\<lparr>pkt_timeout := never\<rparr>) (drop k (db_items b))"
      using k by (simp add: c(4) upd(2) take_Suc_conv_app_nth q_def flip: Cons_nth_drop_Suc [of k "db_items b"])
    then show ?thesis using step c by (simp add: sel)
  qed
qed

lemma resetTimers_ok:
  assumes "db_inv b" and "buf_count b < max_count b"
  obtains b' where "resetTimers b = Inr b'" and "db_inv b'" and "min_seq b' = min_seq b"
    and "db_items b' = map (\<lambda>p. p\<lparr>pkt_timeout := never\<rparr>) (db_items b)" and "max_count b' = max_count b"
proof -
  have "slot_index b 0 = first_index b"
    using db_invD(4) [OF assms(1)] by (simp add: slot_index_def)
  then show thesis
    using reset_loop_from [OF assms, of 0 "max_count b"] that assms(2) by (auto simp: resetTimers_def)
qed

lemma resetTimers_full:
  assumes "db_inv b" and "buf_count b = max_count b"
  shows "resetTimers b = Inr b"
proof -
  have "free_index b = first_index b"
    using db_invD(4,6) [OF assms(1)] assms(2) by (simp add: slot_index_def)
  then show ?thesis by (cases "max_count b") (simp_all add: resetTimers_def)
qed

section \<open>One packet too many\<close>

lemma free_slot_keeps:
  assumes "free_slot b i = Inr b'"
  shows "free_index b' = free_index b" and "max_count b' = max_count b"
    and "length (buf_data b') = length (buf_data b)"
    and "buf_data b ! j = Null \<Longrightarrow> buf_data b' ! j = Null"
  using assms by (auto simp: free_slot_def nth_list_update split: if_splits slot.splits)

lemma free_loop_keeps:
  "free_loop b i n = Inr b' \<Longrightarrow> free_index b' = free_index b \<and>
    length (buf_data b') = length (buf_data b) \<and>
    (buf_data b ! j = Null \<longrightarrow> buf_data b' ! j = Null)"
proof (induction n arbitrary: b i)
  case (Suc n)
  then obtain b1 where b1: "free_slot b (first_index b) = Inr b1"
    and rest: "free_loop (b1\<lparr>first_index := (first_index b1 + 1) mod max_count b1, min_seq := min_seq b1 + 1,
      buf_count := (buf_count b1 + 2 ^ 64 - 1) mod 2 ^ 64\<rparr>) (i + 1) n = Inr b'"
    by (auto simp: fault_simps)
  show ?case
    using Suc.IH [OF rest] free_slot_keeps [OF b1] by simp
qed simp

lemma free_loop_add:
  "free_loop b i (n + m) = bind_res (free_loop b i n) (\<lambda>b. free_loop b (i + int n) m)"
proof (induction n arbitrary: b i)
  case (Suc n)
  show ?case
    by (simp add: Suc bind_res_assoc add.assoc)
qed simp

section \<open>Properties\<close>

text \<open>
  C14: a well-formed ring buffer behaves as a bounded queue of consecutively numbered packets:
  storing the next packet appends it, or trips the assertion exactly when the buffer is full;
  freeing from the first packet up to any stored one removes just these; every stored packet
  is found under its number and no other number finds one.
\<close>

theorem data_buffer_is_queue:
  assumes "db_inv b"
  shows "(seq_of p = min_seq b + int (buf_count b) \<longrightarrow>
      (if buf_count b < max_count b
       then \<exists>b'. putDataPacketIntoBuffer b p = Inr b' \<and> db_inv b' \<and> min_seq b' = min_seq b \<and>
              db_items b' = db_items b @ [p]
       else putDataPacketIntoBuffer b p = Inl Assertion)) \<and>
    (\<forall>stop. min_seq b \<le> stop \<and> bufferContainsPacket b stop \<longrightarrow>
      (\<exists>b'. freeBuffer b (getFirstSeqNoOfBuffer b) stop = Inr b' \<and> db_inv b' \<and>
        getFirstSeqNoOfBuffer b' = stop + 1 \<and> getLastSeqNoOfBuffer b' = getLastSeqNoOfBuffer b \<and>
        db_items b' = drop (nat (stop + 1 - min_seq b)) (db_items b))) \<and>
    (\<forall>n. if bufferContainsPacket b n
         then \<exists>i. getDataPacketFromBuffer b n = Some i \<and> deref b i = Inr (db_items b ! nat (n - min_seq b))
         else getDataPacketFromBuffer b n = None)"
proof (intro conjI allI impI)
  assume p: "seq_of p = min_seq b + int (buf_count b)"
  show "if buf_count b < max_count b
      then \<exists>b'. putDataPacketIntoBuffer b p = Inr b' \<and> db_inv b' \<and> min_seq b' = min_seq b \<and>
              db_items b' = db_items b @ [p]
      else putDataPacketIntoBuffer b p = Inl Assertion"
    using ring.put_ok [OF assms, of p] ring.put_full [OF assms, of p] p by (auto simp: db_room_def)
next
  fix stop
  assume s: "min_seq b \<le> stop \<and> bufferContainsPacket b stop"
  then obtain b' where "freeBuffer b (min_seq b) stop = Inr b'" "db_inv b'" "min_seq b' = stop + 1"
      "db_items b' = drop (nat (stop + 1 - min_seq b)) (db_items b)"
    using ring.release_ok [OF assms, of stop] by (auto simp: bufferContainsPacket_def)
  moreover from this(4) have "buf_count b' = buf_count b - nat (stop + 1 - min_seq b)"
    by (metis length_db_items length_drop)
  ultimately show "\<exists>b'. freeBuffer b (getFirstSeqNoOfBuffer b) stop = Inr b' \<and> db_inv b' \<and>
      getFirstSeqNoOfBuffer b' = stop + 1 \<and> getLastSeqNoOfBuffer b' = getLastSeqNoOfBuffer b \<and>
      db_items b' = drop (nat (stop + 1 - min_seq b)) (db_items b)"
    using s by (auto simp: getFirstSeqNoOfBuffer_def getLastSeqNoOfBuffer_def bufferContainsPacket_def Let_def)
next
  fix n
  show "if bufferContainsPacket b n
      then \<exists>i. getDataPacketFromBuffer b n = Some i \<and> deref b i = Inr (db_items b ! nat (n - min_seq b))
      else getDataPacketFromBuffer b n = None"
    using ring.get_ok [OF assms, of n]
    by (auto simp: bufferContainsPacket_def Let_def ring_get_def getDataPacketFromBuffer_def split: if_splits)
qed

theorem data_buffer_is_queue_witness:
  "getDataPacketFromBuffer (allocateDataBuffer 4) 0 = None \<and>
   (\<exists>b'. putDataPacketIntoBuffer (allocateDataBuffer 4)
      \<lparr>pkt_timeout = never, pkt = allocateGoBackNMessageStruct 0\<rparr> = Inr b' \<and>
    db_items b' = [\<lparr>pkt_timeout = never, pkt = allocateGoBackNMessageStruct 0\<rparr>])"
proof -
  have "db_inv (allocateDataBuffer 4)" using db_allocate [of 4] by simp
  note q = data_buffer_is_queue [OF this, of "\<lparr>pkt_timeout = never, pkt = allocateGoBackNMessageStruct 0\<rparr>"]
  have "\<not> bufferContainsPacket (allocateDataBuffer 4) 0" "buf_count (allocateDataBuffer 4) = 0"
    "min_seq (allocateDataBuffer 4) = 0" "max_count (allocateDataBuffer 4) = 4"
    "seq_no (allocateGoBackNMessageStruct 0) = 0" "db_items (allocateDataBuffer 4) = []"
    by (simp_all add: allocateDataBuffer_def bufferContainsPacket_def allocateGoBackNMessageStruct_def
        db_items_def)
  then show ?thesis
    using conjunct1 [OF q] conjunct2 [OF conjunct2 [OF q]] by (auto split: if_splits)
qed

text \<open>
  \<open>resetTimers\<close> disarms the timer of every packet in a buffer that is not full; in a full
  buffer, where \<open>freeIndex\<close> equals \<open>firstIndex\<close>, its loop does not run and no timer changes.
\<close>

theorem resetTimers_unless_full:
  assumes "db_inv b"
  shows "if buf_count b < max_count b
    then \<exists>b'. resetTimers b = Inr b' \<and> db_inv b' \<and> min_seq b' = min_seq b \<and>
           db_items b' = map (\<lambda>p. p\<lparr>pkt_timeout := never\<rparr>) (db_items b)
    else resetTimers b = Inr b"
proof (cases "buf_count b < max_count b")
  case True
  with resetTimers_ok [OF assms] show ?thesis by metis
next
  case False
  with db_invD(5) [OF assms] resetTimers_full [OF assms] show ?thesis by simp
qed

theorem resetTimers_unless_full_witness:
  "\<exists>b'. resetTimers (allocateDataBuffer 2) = Inr b' \<and> db_items b' = []"
proof -
  have "db_inv (allocateDataBuffer 2)" using db_allocate [of 2] by simp
  from resetTimers_unless_full [OF this] show ?thesis
    by (auto simp: allocateDataBuffer_def db_items_def)
qed

text \<open>
  The bound \<open>freeBuffer\<close> asserts is off by one: freeing one packet more than a buffer holds
  that was never full passes the assertion, frees the NULL of the next slot and leaves a packet
  count of \<open>2 ^ 64 - 1\<close>.
\<close>

theorem freeBuffer_count_underflow:
  assumes "db_inv b" and "buf_data b ! free_index b = Null"
  shows "\<exists>b'. freeBuffer b (min_seq b) (min_seq b + int (buf_count b)) = Inr b' \<and>
    buf_count b' = 2 ^ 64 - 1"
proof -
  obtain c where c: "free_loop b (min_seq b) (buf_count b) = Inr c" "db_inv c"
      "min_seq c = min_seq b + int (buf_count b)" "db_items c = []"
    using db_free_loop [OF assms(1) order_refl] by auto
  have cnt: "buf_count c = 0" using c(4) length_db_items [of c] by simp
  have "first_index c = free_index b"
    using db_invD(4,6) [OF c(2)] cnt free_loop_keeps [OF c(1)] by (simp add: slot_index_def)
  then have null: "free_slot c (first_index c) = Inr c"
    using free_loop_keeps [OF c(1), of "free_index b"] assms(2) db_invD(3,4) [OF c(2)]
    by (simp add: free_slot_def)
  have n: "nat (int (buf_count b) + 1) = buf_count b + 1" by simp
  have "freeBuffer b (min_seq b) (min_seq b + int (buf_count b)) =
      free_loop b (min_seq b) (buf_count b + 1)"
    by (simp add: freeBuffer_def n)
  also have "\<dots> = Inr (c\<lparr>first_index := (first_index c + 1) mod max_count c, min_seq := min_seq c + 1,
      buf_count := 2 ^ 64 - 1\<rparr>)"
    unfolding free_loop_add c(1) using c(3) null cnt by simp
  finally show ?thesis by simp
qed

theorem freeBuffer_count_underflow_witness:
  "\<exists>b'. freeBuffer (allocateDataBuffer 4) 0 0 = Inr b' \<and> buf_count b' = 18446744073709551615"
proof -
  have "db_inv (allocateDataBuffer 4)" using db_allocate [of 4] by simp
  from freeBuffer_count_underflow [OF this] show ?thesis by (simp add: allocateDataBuffer_def)
qed

end
