(* ===== verification/Gbn_Receiver.thy ===== *)
theory Gbn_Receiver
  imports Data_Buffer "HOL-Library.Sublist"
begin

text \<open>
  \<open>GoBackNReceiver.c\<close>: the state kept across messages (last sequence number, byte counters, the
  output file), and one round of the loop of \<open>main\<close> on a message and the number of bytes
  \<open>recv\<close> returned for it. \<open>size_t\<close> counters wrap modulo \<open>2 ^ 64\<close>.
\<close>

section \<open>State\<close>

record receiver =
  last_received :: int
  good_bytes :: nat
  total_bytes :: nat
  out_file :: "byte list"
  out_closed :: bool

text \<open>\<open>initialize\<close> and \<open>fopen\<close>.\<close>

definition init_receiver :: receiver where
  "init_receiver = \<lparr>last_received = -1, good_bytes = 0, total_bytes = 0, out_file = [], out_closed = False\<rparr>"

definition DEFAULT_PAYLOAD_SIZE :: nat where "DEFAULT_PAYLOAD_SIZE = 1024"

section \<open>Operations\<close>

text \<open>
  \<open>writeBuffer\<close>: all bytes are taken to be written. \<open>packet->size - sizeof(*packet)\<close> is a
  \<open>size_t\<close>; a size below the header would make it huge. Writing to a closed file has no
  defined behaviour.
\<close>

definition writeBuffer :: "receiver \<Rightarrow> gbn_msg \<Rightarrow> fault + receiver" where
  "writeBuffer r packet =
     (if out_closed r \<or> msg_size packet < HDR \<or> length (payload packet) < msg_size packet - HDR
      then Inl Undefined
      else Inr (r\<lparr>out_file := out_file r @ take (msg_size packet - HDR) (payload packet)\<rparr>))"

definition sendAck :: "gbn_msg \<Rightarrow> int \<Rightarrow> gbn_msg" where
  "sendAck packet expected =
     (allocateGoBackNMessageStruct 0)\<lparr>dest_node := src_node packet, dest_appl := src_appl packet,
        seq_no := -1, seq_expected := to_int32 expected, msg_size := HDR, has_errors := False\<rparr>"

text \<open>
  What \<open>recv\<close> leaves in the buffer for a message \<open>m\<close>: header and \<open>bytesRead\<close> bytes of it. A
  message larger than the buffer overruns it.
\<close>

definition recv_data :: "gbn_msg \<Rightarrow> nat \<Rightarrow> fault + gbn_msg" where
  "recv_data m bytesRead =
     (if HDR + DEFAULT_PAYLOAD_SIZE < msg_size m then Inl Undefined
      else Inr (m\<lparr>msg_size := bytesRead,
                  payload := take (bytesRead - HDR) (payload m) @
                    replicate (DEFAULT_PAYLOAD_SIZE - min (bytesRead - HDR) (length (payload m))) 0\<rparr>))"

text \<open>
  One round of the loop: the new state and the acknowledgement sent, or \<open>None\<close> at the end of the
  connection.
\<close>

definition receive :: "receiver \<Rightarrow> gbn_msg \<times> nat \<Rightarrow> fault + (receiver \<times> gbn_msg list) option" where
  "receive r = (\<lambda>(m, bytesRead).
     bind_res (recv_data m bytesRead) (\<lambda>data.
     if bytesRead = 0 then Inr None
     else
       let r = r\<lparr>total_bytes := (total_bytes r + bytesRead + 2 ^ 64 - HDR) mod 2 ^ 64\<rparr>
       in if has_errors data then Inr (Some (r, []))
          else if seq_no data \<noteq> last_received r + 1 then Inr (Some (r, []))
          else
            let r = r\<lparr>last_received := seq_no data\<rparr>;
                ack = sendAck data (last_received r + 1)
            in bind_res (writeBuffer r data) (\<lambda>r.
               let r = r\<lparr>good_bytes := (good_bytes r + bytesRead + 2 ^ 64 - HDR) mod 2 ^ 64\<rparr>
               in Inr (Some (if msg_size data = HDR then r\<lparr>out_closed := True\<rparr> else r, [ack])))))"

text \<open>The loop on the messages of a connection.\<close>

fun receive_all :: "receiver \<Rightarrow> (gbn_msg \<times> nat) list \<Rightarrow> fault + receiver \<times> gbn_msg list" where
  "receive_all r [] = Inr (r, [])"
| "receive_all r (m # ms) =
     bind_res (receive r m) (\<lambda>res.
     case res of
       None \<Rightarrow> Inr (r, [])
     | Some (r, acks) \<Rightarrow>
         bind_res (receive_all r ms) (\<lambda>(r, acks'). Inr (r, acks @ acks')))"

section \<open>The packets of a transfer\<close>

text \<open>
  A transfer is the list of the chunks of a file, none longer than a packet holds, followed by
  the empty chunk that ends it. \<open>carries chunks m\<close>: the message is damaged, or it is the
  packet of its sequence number, complete.
\<close>

definition chunks_ok :: "byte list list \<Rightarrow> bool" where
  "chunks_ok cs \<longleftrightarrow> cs \<noteq> [] \<and> last cs = [] \<and> (\<forall>c \<in> set (butlast cs). c \<noteq> []) \<and>
     (\<forall>c \<in> set cs. length c \<le> DEFAULT_PAYLOAD_SIZE) \<and> length cs \<le> 1024"

fun carries :: "byte list list \<Rightarrow> gbn_msg \<times> nat \<Rightarrow> bool" where
  "carries cs (m, bytesRead) \<longleftrightarrow>
     bytesRead = msg_size m \<and> HDR \<le> msg_size m \<and> msg_size m \<le> HDR + DEFAULT_PAYLOAD_SIZE \<and>
     (has_errors m \<or>
      0 \<le> seq_no m \<and> seq_no m < int (length cs) \<and> take (msg_size m - HDR) (payload m) = cs ! nat (seq_no m) \<and>
      msg_size m = HDR + length (cs ! nat (seq_no m)))"

text \<open>The receiver after it took the first \<open>n\<close> packets.\<close>

definition holds_prefix :: "byte list list \<Rightarrow> nat \<Rightarrow> receiver \<Rightarrow> bool" where
  "holds_prefix cs n r \<longleftrightarrow> n \<le> length cs \<and> last_received r = int n - 1 \<and>
     out_file r = concat (take n cs) \<and> good_bytes r = length (concat (take n cs)) \<and>
     (out_closed r \<longleftrightarrow> n = length cs)"

definition is_ack :: "nat \<Rightarrow> gbn_msg \<Rightarrow> bool" where
  "is_ack n m \<longleftrightarrow> seq_no m = -1 \<and> seq_expected m = int n \<and> \<not> has_errors m \<and> msg_size m = HDR"

lemma holds_prefix_init: "cs \<noteq> [] \<Longrightarrow> holds_prefix cs 0 init_receiver"
  by (simp add: holds_prefix_def init_receiver_def)

lemma chunks_ok_length: "chunks_ok cs \<Longrightarrow> c \<in> set cs \<Longrightarrow> length c \<le> 1024"
  by (simp add: chunks_ok_def DEFAULT_PAYLOAD_SIZE_def)

lemma concat_small:
  assumes "chunks_ok cs"
  shows "length (concat (take n cs)) \<le> 2 ^ 20"
proof -
  have "length (concat ds) \<le> 1024 * length ds" if "\<forall>d \<in> set ds. length d \<le> 1024" for ds :: "byte list list"
    using that by (induction ds) auto
  moreover have "\<forall>d \<in> set (take n cs). length d \<le> 1024"
    using assms chunks_ok_length by (auto dest: in_set_takeD)
  ultimately have "length (concat (take n cs)) \<le> 1024 * length (take n cs)" by blast
  also have "\<dots> \<le> 1024 * 1024" using assms by (auto simp: chunks_ok_def)
  finally show ?thesis by simp
qed

lemma last_chunk:
  assumes "chunks_ok cs" and "n < length cs"
  shows "cs ! n = [] \<longleftrightarrow> n = length cs - 1"
proof -
  have "cs ! n \<noteq> []" if "n < length cs - 1"
  proof -
    have "butlast cs ! n \<in> set (butlast cs)" using that by (intro nth_mem) simp
    with assms(1) that show ?thesis by (simp add: chunks_ok_def nth_butlast)
  qed
  moreover have "cs ! (length cs - 1) = []"
    using assms(1) by (auto simp: chunks_ok_def last_conv_nth)
  ultimately show ?thesis using assms(2) by (metis One_nat_def Suc_pred less_antisym length_greater_0_conv list.size(3) not_less0)
qed

lemma wrap_add: "a + b < 2 ^ 64 \<Longrightarrow> h \<le> b \<Longrightarrow> (a + b + 2 ^ 64 - h) mod 2 ^ 64 = a + (b - h)" for a b h :: nat
  by (metis Nat.add_diff_assoc Nat.add_diff_assoc2 add_lessD1 less_imp_diff_less mod_add_self2 mod_less trans_le_add2)

lemma sendAck_is_ack:
  "n \<le> 2 ^ 20 \<Longrightarrow> is_ack n (sendAck m (int n))"
  by (simp add: is_ack_def sendAck_def to_int32_id)

lemma receive_carries:
  assumes cs: "chunks_ok cs" and r: "holds_prefix cs n r" and m: "carries cs (m, k)"
  obtains r' where "receive r (m, k) = Inr (Some (r', if \<not> has_errors m \<and> seq_no m = int n
      then [sendAck m (int (Suc n))] else []))"
    and "holds_prefix cs (if \<not> has_errors m \<and> seq_no m = int n then Suc n else n) r'"
proof -
  have k: "k = msg_size m" "HDR \<le> k" "k \<le> HDR + DEFAULT_PAYLOAD_SIZE" "k \<noteq> 0"
    using m by (auto simp: HDR_def)
  define d where "d = m\<lparr>msg_size := k, payload := take (k - HDR) (payload m) @
    replicate (DEFAULT_PAYLOAD_SIZE - min (k - HDR) (length (payload m))) 0\<rparr>"
  have recv: "recv_data m k = Inr d"
    using k by (simp add: recv_data_def d_def)
  define r1 where "r1 = r\<lparr>total_bytes := (total_bytes r + k + 2 ^ 64 - HDR) mod 2 ^ 64\<rparr>"
  show thesis
  proof (cases "\<not> has_errors m \<and> seq_no m = int n")
    case False
    then have "has_errors m \<or> seq_no m \<noteq> last_received r + 1"
      using r by (auto simp: holds_prefix_def)
    then have "receive r (m, k) = Inr (Some (r1, []))"
      using recv k(4) by (auto simp: receive_def r1_def d_def Let_def)
    moreover have "holds_prefix cs n r1" using r by (simp add: holds_prefix_def r1_def)
    ultimately show thesis using False by (intro that [of r1]) auto
  next
    case True
    then have n: "n < length cs" "take (k - HDR) (payload m) = cs ! n" "k = HDR + length (cs ! n)"
      using m by auto
    have len: "length (payload d) \<ge> k - HDR"
      using k by (simp add: d_def)
    have open_f: "\<not> out_closed r" using r n(1) by (simp add: holds_prefix_def)
    have take_d: "take (k - HDR) (payload d) = cs ! n"
      using n(2,3) by (auto simp: d_def)
    have w: "writeBuffer (r1\<lparr>last_received := int n\<rparr>) d =
        Inr (r1\<lparr>last_received := int n, out_file := out_file r @ cs ! n\<rparr>)"
      using open_f k(2) len take_d by (simp add: writeBuffer_def r1_def d_def)
    have good: "(good_bytes r + k + 2 ^ 64 - HDR) mod 2 ^ 64 = good_bytes r + length (cs ! n)"
    proof -
      have "good_bytes r \<le> 2 ^ 20" using r concat_small [OF cs] by (simp add: holds_prefix_def)
      then have "good_bytes r + k < 2 ^ 64" using k by (simp add: HDR_def DEFAULT_PAYLOAD_SIZE_def)
      from wrap_add [OF this k(2)] show ?thesis by (simp add: n(3))
    qed
    define r2 where "r2 = r1\<lparr>last_received := int n, out_file := out_file r @ cs ! n,
      good_bytes := good_bytes r + length (cs ! n), out_closed := (cs ! n = [])\<rparr>"
    have "receive r (m, k) = Inr (Some (r2, [sendAck m (int (Suc n))]))"
      using True recv k(4) r w good open_f n(3)
      by (auto simp: receive_def Let_def holds_prefix_def r1_def r2_def d_def sendAck_def add.commute)
    moreover have "holds_prefix cs (Suc n) r2"
      using r n(1) last_chunk [OF cs n(1)]
      by (auto simp: holds_prefix_def r2_def r1_def take_Suc_conv_app_nth)
    ultimately show thesis using True by (intro that) simp_all
  qed
qed

text \<open>How many packets the receiver takes from a sequence of messages.\<close>

fun taken :: "nat \<Rightarrow> (gbn_msg \<times> nat) list \<Rightarrow> nat" where
  "taken n [] = n"
| "taken n (m # ms) = taken (if \<not> has_errors (fst m) \<and> seq_no (fst m) = int n then Suc n else n) ms"

lemma taken_mono: "n \<le> taken n ms"
  by (induction ms arbitrary: n) (auto intro: order_trans [OF le_SucI])

lemma receive_all_carries:
  assumes "chunks_ok cs"
  shows "holds_prefix cs n r \<Longrightarrow> \<forall>m \<in> set ms. carries cs m \<Longrightarrow>
    \<exists>r' acks. receive_all r ms = Inr (r', acks) \<and> holds_prefix cs (taken n ms) r' \<and>
      list_all2 is_ack [Suc n..<Suc (taken n ms)] acks"
proof (induction ms arbitrary: n r)
  case (Cons m ms)
  obtain a k where m: "m = (a, k)" by (cases m)
  let ?ok = "\<not> has_errors a \<and> seq_no a = int n"
  obtain r1 where r1: "receive r (a, k) = Inr (Some (r1, if ?ok then [sendAck a (int (Suc n))] else []))"
    "holds_prefix cs (if ?ok then Suc n else n) r1"
    using receive_carries [OF assms Cons.prems(1)] Cons.prems(2) m by (metis list.set_intros(1))
  obtain r' acks where rest: "receive_all r1 ms = Inr (r', acks)"
    "holds_prefix cs (taken (if ?ok then Suc n else n) ms) r'"
    "list_all2 is_ack [Suc (if ?ok then Suc n else n)..<Suc (taken (if ?ok then Suc n else n) ms)] acks"
    using Cons.IH [OF r1(2)] Cons.prems(2) by auto
  show ?case
  proof (cases ?ok)
    case True
    have "Suc n \<le> 2 ^ 20"
      using r1(2) True assms by (auto simp: holds_prefix_def chunks_ok_def)
    then have "is_ack (Suc n) (sendAck a (int (Suc n)))" by (rule sendAck_is_ack)
    moreover have "[Suc n..<Suc (taken (Suc n) ms)] = Suc n # [Suc (Suc n)..<Suc (taken (Suc n) ms)]"
      using taken_mono [of "Suc n" ms] by (intro upt_conv_Cons) simp
    ultimately show ?thesis using r1 rest True m by simp
  next
    case False
    then show ?thesis using r1 rest m by auto
  qed
qed simp

lemma taken_subseq:
  assumes "subseq (map int [n..<k]) (map (\<lambda>m. seq_no (fst m)) (filter (\<lambda>m. \<not> has_errors (fst m)) ms))"
    and "n \<le> k"
  shows "k \<le> taken n ms"
  using assms
proof (induction ms arbitrary: n)
  case (Cons m ms)
  show ?case
  proof (cases "n < k")
    case False
    then show ?thesis using Cons.prems(2) taken_mono [of n "m # ms"] by simp
  next
    case True
    then have u: "map int [n..<k] = int n # map int [Suc n..<k]" by (simp add: upt_conv_Cons)
    show ?thesis
    proof (cases "\<not> has_errors (fst m) \<and> seq_no (fst m) = int n")
      case True
      then have "subseq (map int [Suc n..<k])
          (map (\<lambda>m. seq_no (fst m)) (filter (\<lambda>m. \<not> has_errors (fst m)) ms))"
        using Cons.prems(1) by (simp add: u)
      with Cons.IH [of "Suc n"] True \<open>n < k\<close> show ?thesis by simp
    next
      case False
      then have "subseq (map int [n..<k])
          (map (\<lambda>m. seq_no (fst m)) (filter (\<lambda>m. \<not> has_errors (fst m)) ms))"
        using Cons.prems(1) by (auto simp: u split: if_splits)
      with Cons.IH [of n] False Cons.prems(2) show ?thesis by auto
    qed
  qed
qed (auto dest: list_emb_Nil2)

section \<open>Properties\<close>

text \<open>
  C12: whatever the network does to the packets of a transfer (loss, damage, repetition,
  reordering), the receiver never faults, has at every moment written exactly the first \<open>n\<close>
  chunks to its file, each once and in order, counts them in \<open>goodBytes\<close>, has acknowledged
  \<open>1..n\<close> in order, and closes the file exactly when the empty chunk has arrived.
\<close>

theorem receiver_writes_prefix:
  assumes "chunks_ok cs" and "\<forall>m \<in> set ms. carries cs m"
  shows "\<exists>r acks n. receive_all init_receiver ms = Inr (r, acks) \<and> n \<le> length cs \<and>
    last_received r = int n - 1 \<and> out_file r = concat (take n cs) \<and>
    good_bytes r = length (out_file r) \<and> (out_closed r \<longleftrightarrow> n = length cs) \<and>
    map seq_expected acks = map int [1..<Suc n]"
proof -
  have "cs \<noteq> []" using assms(1) by (auto simp: chunks_ok_def)
  from receive_all_carries [OF assms(1) holds_prefix_init [OF this] assms(2)]
  obtain r acks where ra: "receive_all init_receiver ms = Inr (r, acks)"
      "holds_prefix cs (taken 0 ms) r" "list_all2 is_ack [Suc 0..<Suc (taken 0 ms)] acks" by blast
  have "map seq_expected acks = map int [1..<Suc (taken 0 ms)]"
    using ra(3) by (auto simp: list_all2_conv_all_nth is_ack_def intro!: nth_equalityI simp del: upt_Suc)
  with ra(1,2) show ?thesis
    by (intro exI [of _ r] exI [of _ acks] exI [of _ "taken 0 ms"]) (simp add: holds_prefix_def)
qed

text \<open>Two chunks, the second packet first, then the first twice, then the second and the last.\<close>

definition packet :: "int \<Rightarrow> byte list \<Rightarrow> gbn_msg \<times> nat" where
  "packet n c = ((allocateGoBackNMessageStruct 0)\<lparr>seq_no := n, msg_size := HDR + length c, payload := c\<rparr>,
     HDR + length c)"

theorem receiver_writes_prefix_witness:
  "\<exists>r acks. receive_all init_receiver
      [packet 1 [66], packet 0 [65], packet 0 [65], packet 1 [66], packet 2 []] = Inr (r, acks)"
proof -
  have "chunks_ok [[65], [66], []]" by (simp add: chunks_ok_def DEFAULT_PAYLOAD_SIZE_def)
  from receiver_writes_prefix [OF this,
      of "[packet 1 [66], packet 0 [65], packet 0 [65], packet 1 [66], packet 2 []]"]
  show ?thesis by (auto simp: packet_def HDR_def DEFAULT_PAYLOAD_SIZE_def allocateGoBackNMessageStruct_def)
qed

text \<open>
  C13: if among the undamaged packets that arrive the whole transfer occurs in order, with
  anything in between, the receiver ends with the complete file, closed, and has acknowledged
  every packet.
\<close>

theorem receiver_completes:
  assumes "chunks_ok cs" and "\<forall>m \<in> set ms. carries cs m"
    and "subseq (map int [0..<length cs])
      (map (\<lambda>m. seq_no (fst m)) (filter (\<lambda>m. \<not> has_errors (fst m)) ms))"
  shows "\<exists>r acks. receive_all init_receiver ms = Inr (r, acks) \<and> out_file r = concat cs \<and>
    out_closed r \<and> good_bytes r = length (concat cs) \<and> length acks = length cs"
proof -
  have "cs \<noteq> []" using assms(1) by (auto simp: chunks_ok_def)
  from receive_all_carries [OF assms(1) holds_prefix_init [OF this] assms(2)]
  obtain r acks where ra: "receive_all init_receiver ms = Inr (r, acks)"
      "holds_prefix cs (taken 0 ms) r" "list_all2 is_ack [Suc 0..<Suc (taken 0 ms)] acks" by blast
  have "taken 0 ms = length cs"
    using taken_subseq [OF assms(3)] ra(2) by (simp add: holds_prefix_def)
  with ra list_all2_lengthD [OF ra(3)] show ?thesis
    by (auto simp: holds_prefix_def simp del: upt_Suc)
qed

theorem receiver_completes_witness:
  "\<exists>r acks. receive_all init_receiver
      [packet 1 [66], packet 0 [65], packet 0 [65], packet 1 [66], packet 2 []] = Inr (r, acks) \<and>
    out_file r = [65, 66] \<and> out_closed r"
proof -
  let ?ms = "[packet 1 [66], packet 0 [65], packet 0 [65], packet 1 [66], packet 2 []]"
  have cs: "chunks_ok [[65], [66], []]" by (simp add: chunks_ok_def DEFAULT_PAYLOAD_SIZE_def)
  have c: "\<forall>m \<in> set ?ms. carries [[65], [66], []] m"
    by (simp add: packet_def HDR_def DEFAULT_PAYLOAD_SIZE_def allocateGoBackNMessageStruct_def)
  have "map (\<lambda>m. seq_no (fst m)) (filter (\<lambda>m. \<not> has_errors (fst m)) ?ms) = [1, 0, 0, 1, 2]"
    by (simp add: packet_def allocateGoBackNMessageStruct_def)
  moreover have "map int [0..<3] = [0, 1, 2]" by (simp add: upt_conv_Cons)
  ultimately have "subseq (map int [0..<length [[65], [66], []::byte list]])
      (map (\<lambda>m. seq_no (fst m)) (filter (\<lambda>m. \<not> has_errors (fst m)) ?ms))"
    by (simp add: numeral_3_eq_3)
  from receiver_completes [OF cs c this] show ?thesis by auto
qed

text \<open>
  The receiver acknowledges a packet only when it takes it. However often the sender
  retransmits packets the receiver already has, because their acknowledgements were lost, it
  sends nothing back and its file does not change.
\<close>

theorem receiver_never_acknowledges_again:
  assumes "chunks_ok cs" and "holds_prefix cs n r" and "\<forall>m \<in> set ms. carries cs m"
    and "\<forall>m \<in> set ms. seq_no (fst m) < int n"
  shows "\<exists>r'. receive_all r ms = Inr (r', []) \<and> out_file r' = out_file r \<and>
    last_received r' = last_received r"
proof -
  have "taken n ms = n" using assms(4) by (induction ms) auto
  then show ?thesis
    using receive_all_carries [OF assms(1-3)] assms(2) by (auto simp: holds_prefix_def)
qed

theorem receiver_never_acknowledges_again_witness:
  "\<exists>r'. receive_all \<lparr>last_received = 0, good_bytes = 1, total_bytes = 1, out_file = [65], out_closed = False\<rparr>
      (replicate 100 (packet 0 [65])) = Inr (r', [])"
proof -
  have cs: "chunks_ok [[65], [66], []]" by (simp add: chunks_ok_def DEFAULT_PAYLOAD_SIZE_def)
  have h: "holds_prefix [[65], [66], []] 1
      \<lparr>last_received = 0, good_bytes = 1, total_bytes = 1, out_file = [65], out_closed = False\<rparr>"
    by (simp add: holds_prefix_def)
  have "\<forall>m \<in> set (replicate 100 (packet 0 [65])). carries [[65], [66], []] m \<and> seq_no (fst m) < int 1"
    by (simp add: packet_def HDR_def DEFAULT_PAYLOAD_SIZE_def allocateGoBackNMessageStruct_def)
  with receiver_never_acknowledges_again [OF cs h, of "replicate 100 (packet 0 [65])"]
  show ?thesis by blast
qed

end
