(* ===== verification/Gbn_Sender.thy ===== *)
theory Gbn_Sender
  imports Gbn_Receiver
begin

text \<open>
  \<open>GoBackNSender.c\<close>: loading the file into the ring buffer and one round of the loop of \<open>main\<close>
  (which sockets to wait for, the acknowledgement, the timer, the send loop). What the
  environment decides in a round is a record: the acknowledgement received, the clock, whether
  the socket is writable and what each \<open>send\<close> returns. Memory from \<open>malloc\<close> that the sender
  never writes (the timeouts and source fields of fresh packets) is an argument.
\<close>

section \<open>Time\<close>

definition timer_less :: "timeval \<Rightarrow> timeval \<Rightarrow> bool" where
  "timer_less a b = (if sec a = sec b then usec a < usec b else sec a < sec b)"

definition timeradd :: "timeval \<Rightarrow> timeval \<Rightarrow> timeval" where
  "timeradd a b =
     (let s = sec a + sec b; u = usec a + usec b
      in if 1000000 \<le> u then \<lparr>sec = s + 1, usec = u - 1000000\<rparr> else \<lparr>sec = s, usec = u\<rparr>)"

definition timersub :: "timeval \<Rightarrow> timeval \<Rightarrow> timeval" where
  "timersub a b =
     (let s = sec a - sec b; u = usec a - usec b
      in if u < 0 then \<lparr>sec = s - 1, usec = u + 1000000\<rparr> else \<lparr>sec = s, usec = u\<rparr>)"

text \<open>How long \<open>select\<close> may sleep.\<close>

definition select_timeout :: "timeval \<Rightarrow> timeval \<Rightarrow> timeval" where
  "select_timeout expiration current =
     (let t = timersub expiration current
      in if sec t < 0 \<or> usec t < 0 then \<lparr>sec = 0, usec = 0\<rparr> else t)"

section \<open>State\<close>

record sender_conf =
  cfg_timeout :: timeval
  cfg_window :: nat
  cfg_dest_node :: int
  cfg_dest_appl :: int
  very_last :: int

record sender =
  snd_buf :: data_buffer
  last_ack :: int
  next_send :: int
  expiration :: timeval

definition MAX_FILE_SIZE :: nat where "MAX_FILE_SIZE = 1024"

section \<open>Loading the file\<close>

definition make_packet :: "sender_conf \<Rightarrow> data_packet \<Rightarrow> int \<Rightarrow> byte list \<Rightarrow> data_packet" where
  "make_packet conf raw seqNo chunk =
     raw\<lparr>pkt := (pkt raw)\<lparr>dest_node := to_int32 (cfg_dest_node conf),
        dest_appl := to_int32 (cfg_dest_appl conf), seq_no := to_int32 seqNo,
        seq_expected := -1, has_errors := False, payload := chunk, msg_size := length chunk + HDR\<rparr>\<rparr>"

text \<open>\<open>readIntoBuffer\<close> on what is left of the file: the buffer, the rest and whether to go on.\<close>

definition readIntoBuffer ::
  "sender_conf \<Rightarrow> data_packet \<Rightarrow> data_buffer \<Rightarrow> byte list \<Rightarrow> int
     \<Rightarrow> fault + data_buffer \<times> byte list \<times> bool" where
  "readIntoBuffer conf raw b input seqNo =
     (let chunk = take DEFAULT_PAYLOAD_SIZE input
      in bind_res (putDataPacketIntoBuffer b (make_packet conf raw seqNo chunk)) (\<lambda>b.
         Inr (b, drop DEFAULT_PAYLOAD_SIZE input, chunk \<noteq> [])))"

text \<open>The loop of \<open>readFileIntoBuffer\<close>: the buffer and the last sequence number.\<close>

function load_loop ::
  "sender_conf \<Rightarrow> (int \<Rightarrow> data_packet) \<Rightarrow> data_buffer \<Rightarrow> byte list \<Rightarrow> int \<Rightarrow> fault + data_buffer \<times> int" where
  "load_loop conf raw b input seqNo =
     (case readIntoBuffer conf (raw seqNo) b input seqNo of
        Inl e \<Rightarrow> Inl e
      | Inr (b, rest, again) \<Rightarrow>
          if again then load_loop conf raw b rest (seqNo + 1) else Inr (b, seqNo))"
  by pat_completeness auto
termination
  by (relation "measure (\<lambda>(conf, raw, b, input, seqNo). length input)")
    (auto simp: readIntoBuffer_def Let_def fault_simps DEFAULT_PAYLOAD_SIZE_def)

declare load_loop.simps [simp del]

definition readFileIntoBuffer ::
  "sender_conf \<Rightarrow> (int \<Rightarrow> data_packet) \<Rightarrow> byte list \<Rightarrow> fault + data_buffer \<times> int" where
  "readFileIntoBuffer conf raw input = load_loop conf raw (allocateDataBuffer MAX_FILE_SIZE) input 0"

text \<open>The sender when its loop starts, with \<open>veryLastSeqNo\<close> stored in the configuration.\<close>

definition init_sender ::
  "sender_conf \<Rightarrow> (int \<Rightarrow> data_packet) \<Rightarrow> byte list \<Rightarrow> fault + sender_conf \<times> sender" where
  "init_sender conf raw input =
     bind_res (readFileIntoBuffer conf raw input) (\<lambda>(b, veryLastSeqNo).
     Inr (conf\<lparr>very_last := veryLastSeqNo\<rparr>,
          \<lparr>snd_buf = b, last_ack = 0, next_send = 0, expiration = never\<rparr>))"

section \<open>One round of the loop\<close>

record round_env =
  env_ack :: "gbn_msg option"
  env_time :: timeval
  env_writable :: bool
  env_sends :: "timeval option list"

definition wants_write :: "sender_conf \<Rightarrow> sender \<Rightarrow> bool" where
  "wants_write conf s \<longleftrightarrow> next_send s \<le> very_last conf \<and>
     next_send s \<le> getLastSeqNoOfBuffer (snd_buf s) \<and>
     next_send s < last_ack s + int (cfg_window conf)"

definition handle_ack :: "sender \<Rightarrow> gbn_msg \<Rightarrow> fault + sender" where
  "handle_ack s ack =
     (if has_errors ack then Inr s
      else if last_ack s < seq_expected ack then
        let seqNoOfACKdPacket = seq_expected ack - 1;
            first = getFirstSeqNoOfBuffer (snd_buf s)
        in bind_res (freeBuffer (snd_buf s) first seqNoOfACKdPacket) (\<lambda>b.
           let s = s\<lparr>snd_buf := b, last_ack := seqNoOfACKdPacket\<rparr>
           in if 0 < getBufferSize b then
                (case getDataPacketFromBuffer b (seq_expected ack) of
                   None \<Rightarrow> Inl Undefined
                 | Some i \<Rightarrow> bind_res (deref b i) (\<lambda>p. Inr (s\<lparr>expiration := pkt_timeout p\<rparr>)))
              else Inr (s\<lparr>expiration := never\<rparr>))
      else Inr s)"

definition handle_timeout :: "timeval \<Rightarrow> sender \<Rightarrow> fault + sender" where
  "handle_timeout current s =
     (if timer_less (expiration s) current
      then bind_res (resetTimers (snd_buf s)) (\<lambda>b.
           Inr (s\<lparr>next_send := last_ack s + 1, expiration := never, snd_buf := b\<rparr>))
      else Inr s)"

text \<open>
  One pass of the send loop: \<open>None\<close> when it ends (window, end of data, \<open>EAGAIN\<close>), otherwise the
  sender after a successful \<open>send\<close> at the given time, and the packet.
\<close>

definition send_one :: "sender_conf \<Rightarrow> sender \<Rightarrow> timeval option \<Rightarrow> fault + (sender \<times> gbn_msg) option" where
  "send_one conf s result =
     (if next_send s - last_ack s < int (cfg_window conf) \<and> next_send s \<le> very_last conf then
        (case getDataPacketFromBuffer (snd_buf s) (next_send s) of
           None \<Rightarrow> Inl Undefined
         | Some i \<Rightarrow>
             bind_res (deref (snd_buf s) i) (\<lambda>p.
             case result of
               None \<Rightarrow> Inr None
             | Some current \<Rightarrow>
                 let t = timeradd current (cfg_timeout conf);
                     b = (snd_buf s)\<lparr>buf_data := (buf_data (snd_buf s))[i := Live (p\<lparr>pkt_timeout := t\<rparr>)]\<rparr>
                 in Inr (Some (s\<lparr>next_send := next_send s + 1, snd_buf := b,
                       expiration := if timer_less (expiration s) current then t else expiration s\<rparr>,
                     pkt p))))
      else Inr None)"

text \<open>The send loop; when the list of results is used up the next \<open>send\<close> would block.\<close>

fun send_loop :: "sender_conf \<Rightarrow> sender \<Rightarrow> timeval option list \<Rightarrow> fault + sender \<times> gbn_msg list" where
  "send_loop conf s [] = bind_res (send_one conf s None) (\<lambda>_. Inr (s, []))"
| "send_loop conf s (x # xs) =
     bind_res (send_one conf s x) (\<lambda>r.
     case r of
       None \<Rightarrow> Inr (s, [])
     | Some (s, m) \<Rightarrow> bind_res (send_loop conf s xs) (\<lambda>(s, ms). Inr (s, m # ms)))"

definition sender_round :: "sender_conf \<Rightarrow> round_env \<Rightarrow> sender \<Rightarrow> fault + sender \<times> gbn_msg list" where
  "sender_round conf env s =
     bind_res (case env_ack env of None \<Rightarrow> Inr s | Some ack \<Rightarrow> handle_ack s ack) (\<lambda>s1.
     bind_res (handle_timeout (env_time env) s1) (\<lambda>s2.
     if wants_write conf s \<and> env_writable env then send_loop conf s2 (env_sends env)
     else Inr (s2, [])))"

text \<open>The loop of \<open>main\<close>, with the end of the program when the buffer is empty.\<close>

fun sender_run :: "sender_conf \<Rightarrow> round_env list \<Rightarrow> sender \<Rightarrow> fault + sender \<times> gbn_msg list" where
  "sender_run conf [] s = Inr (s, [])"
| "sender_run conf (env # envs) s =
     (if 0 < getBufferSize (snd_buf s) then
        bind_res (sender_round conf env s) (\<lambda>(s, ms).
        bind_res (sender_run conf envs s) (\<lambda>(s, ms'). Inr (s, ms @ ms')))
      else bind_res (deallocateDataBuffer (snd_buf s)) (\<lambda>_. Inr (s, [])))"

section \<open>The chunks of a file\<close>

function chunks :: "byte list \<Rightarrow> byte list list" where
  "chunks input = (if input = [] then [[]] else take 1024 input # chunks (drop 1024 input))"
  by pat_completeness auto
termination by (relation "measure length") auto

declare chunks.simps [simp del]

lemma chunks_ne [simp]: "chunks input \<noteq> []"
  by (subst chunks.simps) simp

lemma chunks_Nil [simp]: "chunks [] = [[]]"
  by (subst chunks.simps) simp

lemma concat_chunks: "concat (chunks input) = input"
proof (induction input rule: chunks.induct)
  case (1 input)
  then show ?case by (subst chunks.simps) simp
qed

lemma chunks_all:
  "last (chunks input) = [] \<and> (\<forall>c \<in> set (butlast (chunks input)). c \<noteq> []) \<and>
    (\<forall>c \<in> set (chunks input). length c \<le> 1024)"
proof (induction input rule: chunks.induct)
  case (1 input)
  then show ?case by (subst (1 2 3) chunks.simps) auto
qed

lemma chunks_ok_file: "length (chunks input) \<le> 1024 \<Longrightarrow> chunks_ok (chunks input)"
  using chunks_all [of input] by (simp add: chunks_ok_def DEFAULT_PAYLOAD_SIZE_def)

fun packets :: "sender_conf \<Rightarrow> (int \<Rightarrow> data_packet) \<Rightarrow> int \<Rightarrow> byte list list \<Rightarrow> data_packet list" where
  "packets conf raw n [] = []"
| "packets conf raw n (c # cs) = make_packet conf (raw n) n c # packets conf raw (n + 1) cs"

lemma length_packets [simp]: "length (packets conf raw n cs) = length cs"
  by (induction cs arbitrary: n) auto

lemma packets_nth: "i < length cs \<Longrightarrow>
    packets conf raw n cs ! i = make_packet conf (raw (n + int i)) (n + int i) (cs ! i)"
  by (induction cs arbitrary: n i) (auto simp: less_Suc_eq_0_disj nth_Cons' add.assoc)

lemma load_loop_put_all:
  "load_loop conf raw b input n = bind_res (ring.put_all b (packets conf raw n (chunks input)))
     (\<lambda>b. Inr (b, n + int (length (chunks input)) - 1))"
proof (induction conf raw b input n rule: load_loop.induct)
  case (1 conf raw b input n)
  let ?p = "make_packet conf (raw n) n (take 1024 input)"
  have c: "chunks input = take 1024 input # (if input = [] then [] else chunks (drop 1024 input))"
    by (subst chunks.simps) simp
  show ?case
  proof (cases "putDataPacketIntoBuffer b ?p")
    case (Inl e)
    then show ?thesis
      by (subst load_loop.simps) (simp add: readIntoBuffer_def DEFAULT_PAYLOAD_SIZE_def c)
  next
    case (Inr b')
    then have r: "readIntoBuffer conf (raw n) b input n = Inr (b', drop 1024 input, input \<noteq> [])"
      by (auto simp: readIntoBuffer_def DEFAULT_PAYLOAD_SIZE_def Let_def)
    show ?thesis
    proof (cases "input = []")
      case True
      then show ?thesis using Inr r by (subst load_loop.simps) (simp add: c)
    next
      case False
      have "load_loop conf raw b input n = load_loop conf raw b' (drop 1024 input) (n + 1)"
        using r False by (subst load_loop.simps) simp
      also have "\<dots> = bind_res (ring.put_all b' (packets conf raw (n + 1) (chunks (drop 1024 input))))
          (\<lambda>b. Inr (b, n + 1 + int (length (chunks (drop 1024 input))) - 1))"
        by (rule 1 [OF r _ _]) (use False in auto)
      finally show ?thesis
        using Inr False by (simp add: c algebra_simps)
    qed
  qed
qed

section \<open>The state of a running sender\<close>

text \<open>
  \<open>holds conf pkts s\<close>: of the packets \<open>pkts\<close> of a transfer the buffer still holds those from
  \<open>minSeqNo\<close> on (their timeouts may have changed); \<open>lastAckSeqNo\<close> is the number before, but 0
  also when nothing has been acknowledged.
\<close>

abbreviation base :: "sender \<Rightarrow> int" where
  "base s \<equiv> min_seq (snd_buf s)"

definition holds :: "sender_conf \<Rightarrow> gbn_msg list \<Rightarrow> sender \<Rightarrow> bool" where
  "holds conf pkts s \<longleftrightarrow>
     db_inv (snd_buf s) \<and> map pkt (db_items (snd_buf s)) = drop (nat (base s)) pkts \<and>
     base s \<le> int (length pkts) \<and> very_last conf = int (length pkts) - 1 \<and>
     last_ack s = (if base s = 0 then 0 else base s - 1) \<and>
     0 \<le> next_send s \<and> next_send s \<le> int (length pkts) \<and>
     next_send s - last_ack s \<le> int (cfg_window conf)"

lemma holdsD:
  assumes "holds conf pkts s"
  shows "db_inv (snd_buf s)" and "0 \<le> base s" and "base s \<le> int (length pkts)"
    and "int (buf_count (snd_buf s)) = int (length pkts) - base s"
    and "getLastSeqNoOfBuffer (snd_buf s) = int (length pkts) - 1"
proof -
  show inv: "db_inv (snd_buf s)" and le: "base s \<le> int (length pkts)" using assms by (simp_all add: holds_def)
  show nn: "0 \<le> base s" by (rule db_invD(7) [OF inv])
  have "length (map pkt (db_items (snd_buf s))) = length (drop (nat (base s)) pkts)"
    using assms by (simp add: holds_def)
  then show c: "int (buf_count (snd_buf s)) = int (length pkts) - base s"
    using le nn by simp
  then show "getLastSeqNoOfBuffer (snd_buf s) = int (length pkts) - 1"
    by (simp add: getLastSeqNoOfBuffer_def)
qed

text \<open>Looking up a number: the slot and the packet.\<close>

lemma holds_lookup:
  assumes h: "holds conf pkts s" and n: "base s \<le> n" "n < int (length pkts)"
  obtains p where
    "getDataPacketFromBuffer (snd_buf s) n = Some (slot_index (snd_buf s) (nat (n - base s)))"
    and "deref (snd_buf s) (slot_index (snd_buf s) (nat (n - base s))) = Inr p"
    and "p = db_items (snd_buf s) ! nat (n - base s)" and "pkt p = pkts ! nat n"
    and "nat (n - base s) < buf_count (snd_buf s)"
proof -
  note d = holdsD [OF h]
  let ?k = "nat (n - base s)"
  have k: "?k < buf_count (snd_buf s)" using d(4) n by linarith
  have slot: "buf_data (snd_buf s) ! slot_index (snd_buf s) ?k = Live (db_items (snd_buf s) ! ?k)"
    by (rule db_slot [OF d(1) k])
  have "nat (n - base s + int (first_index (snd_buf s))) mod max_count (snd_buf s) = slot_index (snd_buf s) ?k"
    using n(1) by (simp add: slot_index_def nat_add_distrib add.commute)
  then have get: "getDataPacketFromBuffer (snd_buf s) n = Some (slot_index (snd_buf s) ?k)"
    using n d(4) by (simp add: getDataPacketFromBuffer_def)
  have "deref (snd_buf s) (slot_index (snd_buf s) ?k) = Inr (db_items (snd_buf s) ! ?k)"
    using slot slot_index_less [OF d(1)] by (simp add: deref_def)
  moreover have "pkt (db_items (snd_buf s) ! ?k) = pkts ! nat n"
  proof -
    have "map pkt (db_items (snd_buf s)) ! ?k = drop (nat (base s)) pkts ! ?k"
      using h by (simp add: holds_def)
    moreover have "nat (base s) + ?k = nat n" using n(1) d(2) by linarith
    ultimately show ?thesis using k d(2,3) by simp
  qed
  ultimately show thesis using get k that by blast
qed

lemma init_sender_holds:
  assumes "length (chunks input) \<le> 1024"
  obtains s where
    "init_sender conf raw input = Inr (conf\<lparr>very_last := int (length (chunks input)) - 1\<rparr>, s)"
    and "holds (conf\<lparr>very_last := int (length (chunks input)) - 1\<rparr>)
      (map pkt (packets conf raw 0 (chunks input))) s"
    and "base s = 0" and "next_send s = 0" and "last_ack s = 0" and "expiration s = never"
proof -
  let ?ps = "packets conf raw 0 (chunks input)"
  have alloc: "db_inv (allocateDataBuffer MAX_FILE_SIZE)" "min_seq (allocateDataBuffer MAX_FILE_SIZE) = 0"
    "db_items (allocateDataBuffer MAX_FILE_SIZE) = []" "db_room (allocateDataBuffer MAX_FILE_SIZE) = 1024"
    using db_allocate [of MAX_FILE_SIZE] by (simp_all add: MAX_FILE_SIZE_def)
  have num: "numbered seq_of 0 ?ps"
    using assms by (simp add: numbered_iff packets_nth make_packet_def to_int32_id)
  obtain b where b: "ring.put_all (allocateDataBuffer MAX_FILE_SIZE) ?ps = Inr b" "db_inv b" "min_seq b = 0"
      "db_items b = ?ps"
    using ring.put_all_ok [OF alloc(1), of ?ps] num assms by (auto simp: alloc)
  let ?s = "\<lparr>snd_buf = b, last_ack = 0, next_send = 0, expiration = never\<rparr>"
  have "init_sender conf raw input = Inr (conf\<lparr>very_last := int (length (chunks input)) - 1\<rparr>, ?s)"
    by (simp add: init_sender_def readFileIntoBuffer_def load_loop_put_all b(1))
  moreover have "holds (conf\<lparr>very_last := int (length (chunks input)) - 1\<rparr>) (map pkt ?ps) ?s"
    using b by (simp add: holds_def)
  ultimately show thesis by (rule that) (simp_all add: b(3))
qed

lemma init_sender_too_large:
  assumes "1024 < length (chunks input)" and "length (chunks input) < 2 ^ 31"
  shows "init_sender conf raw input = Inl Assertion"
proof -
  let ?ps = "packets conf raw 0 (chunks input)"
  have alloc: "db_inv (allocateDataBuffer MAX_FILE_SIZE)" "min_seq (allocateDataBuffer MAX_FILE_SIZE) = 0"
    "db_items (allocateDataBuffer MAX_FILE_SIZE) = []" "db_room (allocateDataBuffer MAX_FILE_SIZE) = 1024"
    using db_allocate [of MAX_FILE_SIZE] by (simp_all add: MAX_FILE_SIZE_def)
  have num: "numbered seq_of 0 ?ps"
    using assms(2) by (simp add: numbered_iff packets_nth make_packet_def to_int32_id)
  have "ring.put_all (allocateDataBuffer MAX_FILE_SIZE) ?ps = Inl Assertion"
    using ring.put_all_full [OF alloc(1), of ?ps] num assms(1) by (simp add: alloc)
  then show ?thesis
    by (simp add: init_sender_def readFileIntoBuffer_def load_loop_put_all)
qed

section \<open>Steps of a running sender\<close>

lemma send_one_holds:
  assumes h: "holds conf pkts s" and b: "base s \<le> next_send s"
  shows "send_one conf s None = Inr None"
    and "\<not> (next_send s - last_ack s < int (cfg_window conf) \<and> next_send s \<le> very_last conf) \<Longrightarrow>
      send_one conf s x = Inr None"
    and "next_send s - last_ack s < int (cfg_window conf) \<Longrightarrow> next_send s \<le> very_last conf \<Longrightarrow>
      \<exists>s'. send_one conf s (Some now) = Inr (Some (s', pkts ! nat (next_send s))) \<and>
        holds conf pkts s' \<and> next_send s' = next_send s + 1 \<and> base s' = base s \<and>
        last_ack s' = last_ack s \<and>
        expiration s' = (if timer_less (expiration s) now then timeradd now (cfg_timeout conf) else expiration s)"
proof -
  have last: "very_last conf = int (length pkts) - 1" using h by (simp add: holds_def)
  have lookup: "\<exists>i p. getDataPacketFromBuffer (snd_buf s) (next_send s) = Some i \<and> deref (snd_buf s) i = Inr p"
    if "next_send s \<le> very_last conf"
    by (rule holds_lookup [OF h b]) (use that last in auto)
  show "\<not> (next_send s - last_ack s < int (cfg_window conf) \<and> next_send s \<le> very_last conf) \<Longrightarrow>
      send_one conf s x = Inr None"
    by (auto simp: send_one_def)
  show "send_one conf s None = Inr None"
    using lookup by (auto simp: send_one_def)
  assume win: "next_send s - last_ack s < int (cfg_window conf)" and le: "next_send s \<le> very_last conf"
  have n: "next_send s < int (length pkts)" using le last by simp
  let ?k = "nat (next_send s - base s)"
  obtain p where p: "getDataPacketFromBuffer (snd_buf s) (next_send s) = Some (slot_index (snd_buf s) ?k)"
      "deref (snd_buf s) (slot_index (snd_buf s) ?k) = Inr p"
      "p = db_items (snd_buf s) ! ?k" "pkt p = pkts ! nat (next_send s)" "?k < buf_count (snd_buf s)"
    by (rule holds_lookup [OF h b n])
  define q where "q = p\<lparr>pkt_timeout := timeradd now (cfg_timeout conf)\<rparr>"
  define b' where "b' = (snd_buf s)\<lparr>buf_data := (buf_data (snd_buf s))[slot_index (snd_buf s) ?k := Live q]\<rparr>"
  have upd: "db_inv b'" "db_items b' = (db_items (snd_buf s))[?k := q]"
    using ring_update [OF holdsD(1) [OF h] p(5)] by (simp_all add: b'_def)
  have "pkt q = map pkt (db_items (snd_buf s)) ! ?k" using p(3,5) by (simp add: q_def)
  then have "map pkt ((db_items (snd_buf s))[?k := q]) = map pkt (db_items (snd_buf s))"
    by (simp only: map_update list_update_id)
  then have items: "map pkt (db_items b') = map pkt (db_items (snd_buf s))" by (simp only: upd(2))
  let ?s = "s\<lparr>next_send := next_send s + 1, snd_buf := b', expiration :=
      if timer_less (expiration s) now then timeradd now (cfg_timeout conf) else expiration s\<rparr>"
  have "send_one conf s (Some now) = Inr (Some (?s, pkts ! nat (next_send s)))"
    using win le p(1,2,4) by (simp add: send_one_def Let_def b'_def q_def)
  moreover have "min_seq b' = base s" by (simp add: b'_def)
  moreover from this have "holds conf pkts ?s"
    using h upd(1) items win n by (simp add: holds_def)
  ultimately show "\<exists>s'. send_one conf s (Some now) = Inr (Some (s', pkts ! nat (next_send s))) \<and>
      holds conf pkts s' \<and> next_send s' = next_send s + 1 \<and> base s' = base s \<and>
      last_ack s' = last_ack s \<and>
      expiration s' = (if timer_less (expiration s) now then timeradd now (cfg_timeout conf) else expiration s)"
    by (intro exI [of _ ?s]) simp
qed

definition before_max :: "timeval option list \<Rightarrow> bool" where
  "before_max xs \<longleftrightarrow> (\<forall>t. Some t \<in> set xs \<longrightarrow> \<not> timer_less never t)"

lemma send_loop_holds:
  "holds conf pkts s \<Longrightarrow> base s \<le> next_send s \<Longrightarrow>
    \<exists>s' ms. send_loop conf s xs = Inr (s', ms) \<and> holds conf pkts s' \<and> base s' = base s \<and>
      last_ack s' = last_ack s \<and> next_send s' = next_send s + int (length ms) \<and>
      ms = take (length ms) (drop (nat (next_send s)) pkts) \<and>
      (expiration s = never \<and> before_max xs \<longrightarrow> expiration s' = never)"
proof (induction xs arbitrary: s)
  case Nil
  then show ?case using send_one_holds(1) [OF Nil] by auto
next
  case (Cons x xs)
  show ?case
  proof (cases "x \<noteq> None \<and> next_send s - last_ack s < int (cfg_window conf) \<and> next_send s \<le> very_last conf")
    case False
    then have "send_one conf s x = Inr None"
      using send_one_holds(1,2) [OF Cons.prems] by (cases x) auto
    then show ?thesis using Cons.prems by auto
  next
    case True
    then obtain now where x: "x = Some now" by auto
    obtain s1 where s1: "send_one conf s x = Inr (Some (s1, pkts ! nat (next_send s)))"
        "holds conf pkts s1" "next_send s1 = next_send s + 1" "base s1 = base s" "last_ack s1 = last_ack s"
        "expiration s1 = (if timer_less (expiration s) now then timeradd now (cfg_timeout conf) else expiration s)"
      using send_one_holds(3) [OF Cons.prems] True x by blast
    obtain s' ms where rest: "send_loop conf s1 xs = Inr (s', ms)" "holds conf pkts s'" "base s' = base s1"
        "last_ack s' = last_ack s1" "next_send s' = next_send s1 + int (length ms)"
        "ms = take (length ms) (drop (nat (next_send s1)) pkts)"
        "expiration s1 = never \<and> before_max xs \<longrightarrow> expiration s' = never"
      using Cons.IH [OF s1(2)] Cons.prems(2) s1(3,4) by auto
    have nn: "0 \<le> next_send s" "nat (next_send s) < length pkts"
      using Cons.prems(1) True by (auto simp: holds_def)
    have "drop (nat (next_send s)) pkts = pkts ! nat (next_send s) # drop (Suc (nat (next_send s))) pkts"
      by (rule Cons_nth_drop_Suc [symmetric, OF nn(2)])
    moreover have "nat (next_send s1) = Suc (nat (next_send s))" using nn s1(3) by simp
    ultimately have eq: "pkts ! nat (next_send s) # ms =
        take (length (pkts ! nat (next_send s) # ms)) (drop (nat (next_send s)) pkts)"
      using rest(6) by simp
    have "expiration s = never \<and> before_max (x # xs) \<longrightarrow> expiration s' = never"
      using rest(7) s1(6) x by (auto simp: before_max_def)
    moreover have "send_loop conf s (x # xs) = Inr (s', pkts ! nat (next_send s) # ms)"
      using s1(1) rest(1) by simp
    moreover have "next_send s' = next_send s + int (length (pkts ! nat (next_send s) # ms))"
      using rest(5) s1(3) by simp
    ultimately show ?thesis
      using eq rest(2-4) s1(4,5) by metis
  qed
qed

lemma handle_ack_holds:
  assumes h: "holds conf pkts s" and ack: "\<not> has_errors ack" "seq_expected ack = j"
    and j: "base s < j" "j \<le> int (length pkts)"
  obtains s' where "handle_ack s ack = Inr s'" and "holds conf pkts s'" and "base s' = j"
    and "last_ack s' = j - 1" and "next_send s' = next_send s"
proof -
  note d = holdsD [OF h]
  have "j - 1 < base s + int (length (db_items (snd_buf s)))" using d(4) j(2) by simp
  then obtain b where b: "freeBuffer (snd_buf s) (base s) (j - 1) = Inr b" "db_inv b" "min_seq b = j - 1 + 1"
      "db_items b = drop (nat (j - 1 + 1 - base s)) (db_items (snd_buf s))"
    using ring.release_ok [OF d(1), of "j - 1"] j(1) by auto
  have items: "map pkt (db_items b) = drop (nat j) pkts"
  proof -
    have "map pkt (db_items (snd_buf s)) = drop (nat (base s)) pkts" using h by (simp add: holds_def)
    then have "map pkt (db_items b) = drop (nat (j - base s)) (drop (nat (base s)) pkts)"
      by (simp add: b(4) flip: drop_map)
    moreover have "nat (j - base s) + nat (base s) = nat j" using d(2) j(1) by linarith
    ultimately show ?thesis by simp
  qed
  have last: "last_ack s < j" using h j(1) d(2) by (auto simp: holds_def)
  have "next_send s - last_ack s \<le> int (cfg_window conf)" using h unfolding holds_def by blast
  with last have win: "next_send s - (j - 1) \<le> int (cfg_window conf)" by linarith
  have holds': "holds conf pkts (s\<lparr>snd_buf := b, last_ack := j - 1, expiration := e\<rparr>)" for e
    using h b(2,3) items j d(2) win by (auto simp: holds_def)
  show thesis
  proof (cases "0 < buf_count b")
    case False
    then have "handle_ack s ack = Inr (s\<lparr>snd_buf := b, last_ack := j - 1, expiration := never\<rparr>)"
      using ack last b(1) by (simp add: handle_ack_def getFirstSeqNoOfBuffer_def getBufferSize_def)
    then show thesis by (rule that) (use b(3) holds' in simp_all)
  next
    case True
    have "j < int (length pkts)" using holdsD(4) [OF holds' [of never]] True b(3) by simp
    then obtain p i where "getDataPacketFromBuffer b j = Some i" "deref b i = Inr p"
      using holds_lookup [OF holds' [of never], where n = j] b(3) by auto
    then have "handle_ack s ack = Inr (s\<lparr>snd_buf := b, last_ack := j - 1, expiration := pkt_timeout p\<rparr>)"
      using ack last b(1) True by (simp add: handle_ack_def getFirstSeqNoOfBuffer_def getBufferSize_def)
    then show thesis by (rule that) (use b(3) holds' in simp_all)
  qed
qed

lemma handle_timeout_holds:
  assumes h: "holds conf pkts s" and "0 < cfg_window conf" and "0 < length pkts"
  obtains s' where "handle_timeout now s = Inr s'" and "holds conf pkts s'" and "base s' = base s"
    and "last_ack s' = last_ack s"
    and "if timer_less (expiration s) now then next_send s' = last_ack s + 1 \<and> expiration s' = never
      else s' = s"
proof (cases "timer_less (expiration s) now")
  case True
  note inv = holdsD(1) [OF h]
  obtain b where b: "resetTimers (snd_buf s) = Inr b" "db_inv b" "min_seq b = base s"
      "map pkt (db_items b) = map pkt (db_items (snd_buf s))"
  proof (cases "buf_count (snd_buf s) < max_count (snd_buf s)")
    case True
    obtain b where "resetTimers (snd_buf s) = Inr b" "db_inv b" "min_seq b = base s"
        "db_items b = map (\<lambda>p. p\<lparr>pkt_timeout := never\<rparr>) (db_items (snd_buf s))"
      by (rule resetTimers_ok [OF inv True])
    then show thesis by (intro that [of b]) (simp_all add: comp_def)
  next
    case False
    then show thesis using resetTimers_full [OF inv] db_invD(5) [OF inv] inv by (intro that) simp_all
  qed
  let ?s = "s\<lparr>next_send := last_ack s + 1, expiration := never, snd_buf := b\<rparr>"
  have "handle_timeout now s = Inr ?s" using True b(1) by (simp add: handle_timeout_def)
  moreover have "holds conf pkts ?s"
  proof -
    have "last_ack s = (if base s = 0 then 0 else base s - 1)" using h unfolding holds_def by blast
    then have "0 \<le> last_ack s + 1 \<and> last_ack s + 1 \<le> int (length pkts)"
      using holdsD(2,3) [OF h] assms(3) by (cases pkts) (auto split: if_splits)
    then show ?thesis using h b(2-4) assms(2) by (simp add: holds_def)
  qed
  ultimately show thesis using True b(3) by (intro that [of ?s]) simp_all
next
  case False
  then show thesis using h by (intro that [of s]) (simp_all add: handle_timeout_def)
qed

lemma round_without_ack:
  assumes h: "holds conf pkts s" and "base s \<le> next_send s" and "env_ack env = None"
    and "\<not> timer_less (expiration s) (env_time env)"
  obtains s' ms where "sender_round conf env s = Inr (s', ms)" and "holds conf pkts s'"
    and "base s' = base s" and "last_ack s' = last_ack s" and "next_send s' = next_send s + int (length ms)"
    and "ms = take (length ms) (drop (nat (next_send s)) pkts)"
    and "expiration s = never \<and> before_max (env_sends env) \<longrightarrow> expiration s' = never"
proof (cases "wants_write conf s \<and> env_writable env")
  case True
  then have "sender_round conf env s = send_loop conf s (env_sends env)"
    using assms(3,4) by (simp add: sender_round_def handle_timeout_def)
  then show thesis using send_loop_holds [OF h assms(2), of "env_sends env"] that by metis
next
  case False
  then have "sender_round conf env s = Inr (s, [])"
    using assms(3,4) by (auto simp: sender_round_def handle_timeout_def)
  then show thesis by (rule that) (simp_all add: h)
qed

lemma silent_run:
  assumes "pkts \<noteq> []"
  shows "holds conf pkts s \<Longrightarrow> base s = 0 \<Longrightarrow> expiration s = never \<Longrightarrow>
    \<forall>env \<in> set envs. env_ack env = None \<and> \<not> timer_less never (env_time env) \<and> before_max (env_sends env) \<Longrightarrow>
    \<exists>s' ms. sender_run conf envs s = Inr (s', ms) \<and> holds conf pkts s' \<and> base s' = 0 \<and>
      next_send s' = next_send s + int (length ms) \<and> ms = take (length ms) (drop (nat (next_send s)) pkts)"
proof (induction envs arbitrary: s)
  case Nil
  then show ?case by auto
next
  case (Cons env envs)
  have nn: "0 \<le> next_send s" using Cons.prems(1) by (simp add: holds_def)
  obtain s1 ms1 where 1: "sender_round conf env s = Inr (s1, ms1)" "holds conf pkts s1" "base s1 = base s"
      "next_send s1 = next_send s + int (length ms1)"
      "ms1 = take (length ms1) (drop (nat (next_send s)) pkts)"
      "expiration s = never \<and> before_max (env_sends env) \<longrightarrow> expiration s1 = never"
    by (rule round_without_ack [OF Cons.prems(1), of env]) (use Cons.prems nn in auto)
  obtain s2 ms2 where 2: "sender_run conf envs s1 = Inr (s2, ms2)" "holds conf pkts s2" "base s2 = 0"
      "next_send s2 = next_send s1 + int (length ms2)"
      "ms2 = take (length ms2) (drop (nat (next_send s1)) pkts)"
    using Cons.IH [OF 1(2)] Cons.prems(2-4) 1(3,6) by auto
  have count: "0 < getBufferSize (snd_buf s)"
    using holdsD(4) [OF Cons.prems(1)] Cons.prems(2) assms by (simp add: getBufferSize_def)
  have "nat (next_send s1) = nat (next_send s) + length ms1" using 1(4) nn by simp
  then have "drop (length ms1) (drop (nat (next_send s)) pkts) = drop (nat (next_send s1)) pkts"
    by (simp add: add.commute)
  then have "take (length ms1 + length ms2) (drop (nat (next_send s)) pkts) =
      take (length ms1) (drop (nat (next_send s)) pkts) @ take (length ms2) (drop (nat (next_send s1)) pkts)"
    by (simp add: take_add)
  with 1(5) 2(5) have "ms1 @ ms2 = take (length (ms1 @ ms2)) (drop (nat (next_send s)) pkts)"
    by simp
  moreover have "sender_run conf (env # envs) s = Inr (s2, ms1 @ ms2)"
    using count 1(1) 2(1) by simp
  moreover have "next_send s2 = next_send s + int (length (ms1 @ ms2))" using 1(4) 2(4) by simp
  ultimately show ?case using 2(2,3) by blast
qed

section \<open>Properties\<close>

text \<open>
  The sender loads a file of up to 1023 full packets: the buffer then holds, from number 0 on,
  the packets of the file cut into chunks of 1024 bytes with an empty chunk at the end, and
  \<open>veryLastSeqNo\<close> is the number of that one. A longer file trips the assertion of
  \<open>putDataPacketIntoBuffer\<close> (up to \<open>2 ^ 31\<close> packets, where the sequence number would not fit).
\<close>

lemma sender_loads_file:
  assumes "length (chunks input) < 2 ^ 31"
  shows "case init_sender conf raw input of
      Inl e \<Rightarrow> e = Assertion \<and> 1024 < length (chunks input)
    | Inr (conf', s) \<Rightarrow>
        length (chunks input) \<le> 1024 \<and> conf' = conf\<lparr>very_last := int (length (chunks input)) - 1\<rparr> \<and>
        map payload (map pkt (db_items (snd_buf s))) = chunks input \<and>
        map seq_of (db_items (snd_buf s)) = map int [0..<length (chunks input)] \<and>
        concat (chunks input) = input"
proof (cases "length (chunks input) \<le> 1024")
  case True
  obtain s where s: "init_sender conf raw input = Inr (conf\<lparr>very_last := int (length (chunks input)) - 1\<rparr>, s)"
      "holds (conf\<lparr>very_last := int (length (chunks input)) - 1\<rparr>)
        (map pkt (packets conf raw 0 (chunks input))) s"
      "base s = 0" "next_send s = 0" "last_ack s = 0" "expiration s = never"
    by (rule init_sender_holds [OF True])
  have items: "map pkt (db_items (snd_buf s)) = map pkt (packets conf raw 0 (chunks input))"
    using s(2,3) by (simp add: holds_def)
  have "map payload (map pkt (db_items (snd_buf s))) = chunks input"
    unfolding items by (rule nth_equalityI) (simp_all add: packets_nth make_packet_def)
  moreover have "map seq_no (map pkt (db_items (snd_buf s))) = map int [0..<length (chunks input)]"
    unfolding items using True
    by (intro nth_equalityI) (simp_all add: packets_nth make_packet_def to_int32_id)
  then have "map seq_of (db_items (snd_buf s)) = map int [0..<length (chunks input)]"
    by (simp add: comp_def)
  ultimately show ?thesis using s(1) True by (simp add: concat_chunks)
next
  case False
  then show ?thesis using init_sender_too_large [of input conf raw] assms by simp
qed

theorem sender_loads_file_witness:
  "length (chunks [1, 2, 3]) = 2 \<and>
   (case init_sender \<lparr>cfg_timeout = \<lparr>sec = 1, usec = 0\<rparr>, cfg_window = 2, cfg_dest_node = 1,
          cfg_dest_appl = 7, very_last = 0\<rparr>
        (\<lambda>n. \<lparr>pkt_timeout = never, pkt = allocateGoBackNMessageStruct 0\<rparr>) [1, 2, 3] of
      Inl e \<Rightarrow> False
    | Inr (conf', s) \<Rightarrow> map payload (map pkt (db_items (snd_buf s))) = [[1, 2, 3], []])"
proof -
  have c: "chunks [1, 2, 3] = [[1, 2, 3], []]"
    by (subst chunks.simps) simp
  show ?thesis
    using sender_loads_file [of "[1, 2, 3]" "\<lparr>cfg_timeout = \<lparr>sec = 1, usec = 0\<rparr>, cfg_window = 2,
        cfg_dest_node = 1, cfg_dest_appl = 7, very_last = 0\<rparr>"
        "\<lambda>n. \<lparr>pkt_timeout = never, pkt = allocateGoBackNMessageStruct 0\<rparr>"]
    by (auto simp: c split: sum.splits)
qed

text \<open>The configuration and a loaded sender of the witnesses below: three packets, window 2.\<close>

definition demo_conf :: sender_conf where
  "demo_conf = \<lparr>cfg_timeout = \<lparr>sec = 1, usec = 0\<rparr>, cfg_window = 2, cfg_dest_node = 1,
     cfg_dest_appl = 7, very_last = 2\<rparr>"

definition demo_pkts :: "gbn_msg list" where
  "demo_pkts = map (\<lambda>n. (allocateGoBackNMessageStruct 0)\<lparr>seq_no := n, msg_size := HDR\<rparr>) [0, 1, 2]"

definition demo_sender :: "int \<Rightarrow> sender" where
  "demo_sender n =
     \<lparr>snd_buf = \<lparr>min_seq = n, max_count = 4, first_index = nat n, free_index = 3, buf_count = nat (3 - n),
        buf_data = map (\<lambda>p. Live \<lparr>pkt_timeout = never, pkt = p\<rparr>) demo_pkts @ [Null]\<rparr>,
      last_ack = (if n = 0 then 0 else n - 1), next_send = n, expiration = never\<rparr>"

text \<open>
  C15: a sender that has had no acknowledgement never repeats a packet, however long it runs: its
  timer is armed only once it lies in the past, and it starts at the latest time there is. What it
  sends is the beginning of the transfer, each packet once and at most a window of them, so the
  loss of a packet of the first window is final.
\<close>

theorem silent_sender_never_retransmits:
  assumes "holds conf pkts s" and "pkts \<noteq> []" and "base s = 0" and "next_send s = 0" and "expiration s = never"
    and "\<forall>env \<in> set envs. env_ack env = None \<and> \<not> timer_less never (env_time env) \<and> before_max (env_sends env)"
  shows "\<exists>s' n. sender_run conf envs s = Inr (s', take n pkts) \<and> n \<le> cfg_window conf \<and> n \<le> length pkts \<and>
    next_send s' = int n"
proof -
  obtain s' ms where r: "sender_run conf envs s = Inr (s', ms)" "holds conf pkts s'" "base s' = 0"
      "next_send s' = next_send s + int (length ms)" "ms = take (length ms) (drop (nat (next_send s)) pkts)"
    using silent_run [OF assms(2,1,3,5,6)] by blast
  have "next_send s' - last_ack s' \<le> int (cfg_window conf)" "next_send s' \<le> int (length pkts)"
    "last_ack s' = (if base s' = 0 then 0 else base s' - 1)"
    using r(2) unfolding holds_def by blast+
  then have "length ms \<le> cfg_window conf" "length ms \<le> length pkts" "next_send s' = int (length ms)"
    using r(3,4) assms(4) by simp_all
  moreover have "sender_run conf envs s = Inr (s', take (length ms) pkts)"
    using r(1,5) assms(4) by simp
  ultimately show ?thesis by blast
qed

lemma demo_slots:
  "i < 3 \<Longrightarrow> \<exists>p. (map (\<lambda>p. Live \<lparr>pkt_timeout = never, pkt = p\<rparr>) demo_pkts @ [Null]) ! i = Live p"
proof -
  assume i: "i < 3"
  have "length demo_pkts = 3" by (simp add: demo_pkts_def)
  then show ?thesis using i by (simp add: nth_append)
qed

lemma demo_holds: "n = 0 \<or> n = 1 \<Longrightarrow> holds demo_conf demo_pkts (demo_sender n)"
  using demo_slots
  by (auto simp: holds_def demo_conf_def demo_pkts_def demo_sender_def db_inv_def db_items_def slot_index_def
    numbered_iff less_Suc_eq upt_rec nat_eq_iff)

theorem silent_sender_never_retransmits_witness:
  "\<exists>s' n. sender_run demo_conf
      (replicate 3 \<lparr>env_ack = None, env_time = \<lparr>sec = 9, usec = 0\<rparr>, env_writable = True,
         env_sends = [Some \<lparr>sec = 5, usec = 0\<rparr>, Some \<lparr>sec = 6, usec = 0\<rparr>]\<rparr>) (demo_sender 0) =
      Inr (s', take n demo_pkts) \<and> n \<le> 2"
proof -
  have "\<forall>env \<in> set (replicate 3 \<lparr>env_ack = None, env_time = \<lparr>sec = 9, usec = 0\<rparr>, env_writable = True,
         env_sends = [Some \<lparr>sec = 5, usec = 0\<rparr>, Some \<lparr>sec = 6, usec = 0\<rparr>]\<rparr>).
      env_ack env = None \<and> \<not> timer_less never (env_time env) \<and> before_max (env_sends env)"
    by (simp add: timer_less_def never_def LONG_MAX_def before_max_def)
  from silent_sender_never_retransmits [OF demo_holds [of 0] _ _ _ _ this]
  show ?thesis by (force simp: demo_conf_def demo_pkts_def demo_sender_def)
qed

text \<open>
  C16: after a timeout the sender goes back to the packet after the last acknowledged one (packet
  1, not 0, before the first acknowledgement). An acknowledgement that arrives then for a packet
  sent before makes the program dereference a null pointer with the next packet it sends,
  because \<open>nextSendSeqNo\<close> stays behind the buffer. A repeated acknowledgement is worse: it
  trips the assertion of \<open>freeBuffer\<close>.
\<close>

theorem late_ack_after_timeout:
  assumes h: "holds conf pkts s" and "0 < base s" and "timer_less (expiration s) now"
    and ack: "\<not> has_errors ack" "base s < seq_expected ack" "seq_expected ack < int (length pkts)"
    and win: "0 < cfg_window conf"
  shows "\<exists>s1 s2. handle_timeout now s = Inr s1 \<and> next_send s1 = last_ack s + 1 \<and>
    handle_ack s1 ack = Inr s2 \<and> send_one conf s2 result = Inl Undefined \<and>
    handle_ack s1 (ack\<lparr>seq_expected := base s\<rparr>) = Inl Assertion"
proof -
  have "0 < length pkts" using holdsD(2) [OF h] ack(2,3) by (cases pkts) auto
  then obtain s1 where s1: "handle_timeout now s = Inr s1" "holds conf pkts s1" "base s1 = base s"
      "last_ack s1 = last_ack s" "next_send s1 = last_ack s + 1"
    using handle_timeout_holds [OF h win, of now] assms(3) by auto
  have la: "last_ack s = base s - 1" using h assms(2) by (simp add: holds_def)
  obtain s2 where s2: "handle_ack s1 ack = Inr s2" "base s2 = seq_expected ack"
      "last_ack s2 = seq_expected ack - 1" "next_send s2 = next_send s1"
    by (rule handle_ack_holds [OF s1(2) ack(1) refl]) (use ack s1(3) in auto)
  have "very_last conf = int (length pkts) - 1" using h by (simp add: holds_def)
  then have "send_one conf s2 result = Inl Undefined"
    using s2(2-4) s1(5) la ack win by (simp add: send_one_def getDataPacketFromBuffer_def)
  moreover have "handle_ack s1 (ack\<lparr>seq_expected := base s\<rparr>) = Inl Assertion"
    using ack(1) s1(3,4) la by (simp add: handle_ack_def getFirstSeqNoOfBuffer_def freeBuffer_def assert_c_def)
  ultimately show ?thesis using s1(1,5) s2(1) by blast
qed

theorem late_ack_after_timeout_witness:
  "\<exists>s1 s2. handle_timeout \<lparr>sec = 9, usec = 0\<rparr> ((demo_sender 1)\<lparr>expiration := \<lparr>sec = 5, usec = 0\<rparr>\<rparr>) = Inr s1 \<and>
    next_send s1 = 1 \<and>
    handle_ack s1 ((allocateGoBackNMessageStruct 0)\<lparr>seq_expected := 2\<rparr>) = Inr s2 \<and>
    send_one demo_conf s2 None = Inl Undefined \<and>
    handle_ack s1 ((allocateGoBackNMessageStruct 0)\<lparr>seq_expected := 1\<rparr>) = Inl Assertion"
proof -
  have "holds demo_conf demo_pkts ((demo_sender 1)\<lparr>expiration := \<lparr>sec = 5, usec = 0\<rparr>\<rparr>)"
    using demo_holds [of 1] by (simp add: holds_def)
  from late_ack_after_timeout [OF this, of "\<lparr>sec = 9, usec = 0\<rparr>"
      "(allocateGoBackNMessageStruct 0)\<lparr>seq_expected := 2\<rparr>" None]
  show ?thesis
    by (simp add: demo_conf_def demo_pkts_def demo_sender_def timer_less_def allocateGoBackNMessageStruct_def)
qed

end
