(* ===== verification/CJson_Text.thy ===== *)
theory CJson_Text
  imports Net_Prelude "HOL-Library.Sublist"
begin

text \<open>
  The text level of \<open>cJSON.c\<close>: outcomes of the parser, white space, comparison of names, hexadecimal
  escapes, UTF-8, string literals in both directions. A pointer into the input is the list of bytes
  from it up to the terminating NUL, so that the empty list is a pointer at the NUL. A failing
  parser may leave a pointer in \<open>*ep\<close>. Allocations are taken to succeed; writing past the end of
  an allocated block is undefined, and that this never happens is proved.
\<close>

section \<open>Outcomes\<close>

text \<open>
  A value and the pointer behind it; \<open>NULL\<close> with what was written to \<open>*ep\<close>, if anything; an
  operation without defined behaviour; or the bound on the recursion of the model was too small.
\<close>

datatype 'a parsed = Parsed 'a "byte list" | Failed "byte list option" | Crash | NoFuel

fun bind_parsed :: "'a parsed \<Rightarrow> ('a \<Rightarrow> byte list \<Rightarrow> 'b parsed) \<Rightarrow> 'b parsed" where
  "bind_parsed (Parsed a rest) f = f a rest"
| "bind_parsed (Failed ep) f = Failed ep"
| "bind_parsed Crash f = Crash"
| "bind_parsed NoFuel f = NoFuel"

named_theorems parsed_simps \<open>inverting steps of the parser\<close>

lemma bind_parsed_cases [parsed_simps]:
  "bind_parsed m f = Parsed b r \<longleftrightarrow> (\<exists>a s. m = Parsed a s \<and> f a s = Parsed b r)"
  "bind_parsed m f = Crash \<longleftrightarrow> m = Crash \<or> (\<exists>a s. m = Parsed a s \<and> f a s = Crash)"
  "bind_parsed m f = NoFuel \<longleftrightarrow> m = NoFuel \<or> (\<exists>a s. m = Parsed a s \<and> f a s = NoFuel)"
  "bind_parsed m f = Failed ep \<longleftrightarrow> m = Failed ep \<or> (\<exists>a s. m = Parsed a s \<and> f a s = Failed ep)"
  by (cases m; simp)+

section \<open>Characters\<close>

abbreviation DQUOTE :: byte where "DQUOTE \<equiv> 34"
abbreviation BACKSLASH :: byte where "BACKSLASH \<equiv> 92"
abbreviation SLASH :: byte where "SLASH \<equiv> 47"
abbreviation LETTER_U :: byte where "LETTER_U \<equiv> 117"

text \<open>\<open>skip\<close>: white space and control characters.\<close>

fun skip :: "byte list \<Rightarrow> byte list" where
  "skip [] = []"
| "skip (c # cs) = (if c \<le> 32 then skip cs else c # cs)"

definition tolower :: "byte \<Rightarrow> byte" where
  "tolower c = (if 65 \<le> c \<and> c \<le> 90 then c + 32 else c)"

text \<open>
  \<open>cJSON_strcasecmp\<close>; NULL is \<open>None\<close>. The loop compares up to the first difference; at the end of
  both strings it returns 0.
\<close>

fun strcasecmp_loop :: "byte list \<Rightarrow> byte list \<Rightarrow> int" where
  "strcasecmp_loop [] [] = 0"
| "strcasecmp_loop [] (d # ds) = - uint (tolower d)"
| "strcasecmp_loop (c # cs) [] = uint (tolower c)"
| "strcasecmp_loop (c # cs) (d # ds) =
     (if tolower c = tolower d then strcasecmp_loop cs ds else uint (tolower c) - uint (tolower d))"

definition cJSON_strcasecmp :: "byte list option \<Rightarrow> byte list option \<Rightarrow> int" where
  "cJSON_strcasecmp s1 s2 =
     (case s1 of
        None \<Rightarrow> if s2 = None then 0 else 1
      | Some a \<Rightarrow> (case s2 of None \<Rightarrow> 1 | Some b \<Rightarrow> strcasecmp_loop a b))"

section \<open>Hexadecimal escapes and UTF-8\<close>

definition hex_digit :: "byte \<Rightarrow> u32 option" where
  "hex_digit c =
     (if 48 \<le> c \<and> c \<le> 57 then Some (ucast c - 48)
      else if 65 \<le> c \<and> c \<le> 70 then Some (10 + ucast c - 65)
      else if 97 \<le> c \<and> c \<le> 102 then Some (10 + ucast c - 97)
      else None)"

text \<open>The four digits of \<open>parse_hex4\<close>; an invalid one, or the NUL, makes it return 0.\<close>

fun hex_digits :: "nat \<Rightarrow> u32 \<Rightarrow> byte list \<Rightarrow> u32" where
  "hex_digits 0 h str = h"
| "hex_digits (Suc k) h [] = 0"
| "hex_digits (Suc k) h (c # str) =
     (case hex_digit c of None \<Rightarrow> 0 | Some d \<Rightarrow> hex_digits k (push_bit 4 h + d) str)"

definition parse_hex4 :: "byte list \<Rightarrow> u32" where
  "parse_hex4 str = hex_digits 4 0 str"

definition firstByteMark :: "u32 list" where
  "firstByteMark = [0x00, 0x00, 0xC0, 0xE0, 0xF0, 0xF8, 0xFC]"

definition utf8_length :: "u32 \<Rightarrow> nat" where
  "utf8_length uc = (if uc < 0x80 then 1 else if uc < 0x800 then 2 else if uc < 0x10000 then 3 else 4)"

text \<open>The \<open>switch\<close> that writes the bytes from the last to the first; \<open>k\<close> counts down from \<open>len\<close>.\<close>

fun utf8_fill :: "nat \<Rightarrow> nat \<Rightarrow> u32 \<Rightarrow> byte list \<Rightarrow> byte list" where
  "utf8_fill len (Suc (Suc k)) uc out =
     utf8_fill len (Suc k) (drop_bit 6 uc) (ucast ((uc OR 0x80) AND 0xBF) # out)"
| "utf8_fill len k uc out = ucast (uc OR firstByteMark ! len) # out"

definition utf8 :: "u32 \<Rightarrow> byte list" where
  "utf8 uc = utf8_fill (utf8_length uc) (utf8_length uc) uc []"

definition surrogate_pair :: "u32 \<Rightarrow> u32 \<Rightarrow> u32" where
  "surrogate_pair uc uc2 = 0x10000 + (push_bit 10 (uc AND 0x3FF) OR (uc2 AND 0x3FF))"

section \<open>Parsing a string literal\<close>

text \<open>
  The first loop: the distance of \<open>end_ptr\<close> and \<open>len\<close>, or \<open>None\<close> when the input ends with a
  backslash.
\<close>

fun scan_string :: "byte list \<Rightarrow> (nat \<times> nat) option" where
  "scan_string [] = Some (0, 0)"
| "scan_string (c # cs) =
     (if c = DQUOTE then Some (0, 0)
      else if c = BACKSLASH then
        (case cs of
           [] \<Rightarrow> None
         | d # ds \<Rightarrow> map_option (\<lambda>(n, len). (n + 2, len + 1)) (scan_string ds))
      else map_option (\<lambda>(n, len). (n + 1, len + 1)) (scan_string cs))"

text \<open>Writing bytes through \<open>ptr2\<close> when \<open>cap\<close> bytes of the block are left.\<close>

definition emit :: "nat \<Rightarrow> byte list \<Rightarrow> byte list parsed \<Rightarrow> byte list parsed" where
  "emit cap bs r =
     (if length bs \<le> cap then bind_parsed r (\<lambda>text rest. Parsed (bs @ text) rest) else Crash)"

definition unescape :: "byte \<Rightarrow> byte option" where
  "unescape c =
     (if c = 98 then Some 8 else if c = 102 then Some 12 else if c = 110 then Some 10
      else if c = 114 then Some 13 else if c = 116 then Some 9
      else if c = DQUOTE \<or> c = BACKSLASH \<or> c = SLASH then Some c else None)"

text \<open>
  The unicode branch at a backslash: \<open>cs\<close> is the input from there, \<open>n\<close> the distance to \<open>end_ptr\<close>. The
  digits are at 2 to 5, those of the second half of a pair at 8 to 11. The result is how far \<open>ptr\<close>
  gets and the bytes written.
\<close>

definition unicode_escape :: "nat \<Rightarrow> byte list \<Rightarrow> (nat \<times> byte list) option" where
  "unicode_escape n cs =
     (let uc = parse_hex4 (drop 2 cs) in
      if n \<le> 5 then None
      else if 0xDC00 \<le> uc \<and> uc \<le> 0xDFFF \<or> uc = 0 then None
      else if 0xD800 \<le> uc \<and> uc \<le> 0xDBFF then
        if n < 11 then None
        else if cs ! 6 \<noteq> BACKSLASH \<or> cs ! 7 \<noteq> LETTER_U then None
        else
          let uc2 = parse_hex4 (drop 8 cs) in
          if uc2 < 0xDC00 \<or> 0xDFFF < uc2 then None
          else Some (12, utf8 (surrogate_pair uc uc2))
      else Some (6, utf8 uc))"

lemma unicode_escape_advances: "unicode_escape n cs = Some (k, bs) \<Longrightarrow> 0 < k"
  by (auto simp: unicode_escape_def Let_def split: if_splits)

text \<open>
  The second loop. \<open>n\<close> is \<open>end_ptr - ptr\<close>, \<open>cs\<close> the input from \<open>ptr\<close>, \<open>cap\<close> the room left in the
  block, \<open>str\<close> the start of the literal, for \<open>*ep\<close>.
\<close>

function decode_string :: "byte list \<Rightarrow> nat \<Rightarrow> nat \<Rightarrow> byte list \<Rightarrow> byte list parsed" where
  "decode_string str cap n cs =
     (if n = 0 then Parsed [] cs
      else case cs of
        [] \<Rightarrow> Crash
      | c # cs1 \<Rightarrow>
          if c \<noteq> BACKSLASH then emit cap [c] (decode_string str (cap - 1) (n - 1) cs1)
          else (case cs1 of
            [] \<Rightarrow> Failed (Some str)
          | e # cs2 \<Rightarrow>
              if e = LETTER_U then
                (case unicode_escape n cs of
                   None \<Rightarrow> Failed (Some str)
                 | Some (k, bs) \<Rightarrow>
                     emit cap bs (decode_string str (cap - length bs) (n - k) (drop k cs)))
              else
                (case unescape e of
                   None \<Rightarrow> Failed (Some str)
                 | Some b \<Rightarrow> emit cap [b] (decode_string str (cap - 1) (n - 2) cs2))))"
  by pat_completeness auto
termination
  by (relation "measure (\<lambda>(str, cap, n, cs). n)") (auto dest: unicode_escape_advances)

declare decode_string.simps [simp del]

definition parse_string :: "byte list \<Rightarrow> byte list parsed" where
  "parse_string str =
     (case str of
        [] \<Rightarrow> Failed (Some str)
      | c # s \<Rightarrow>
          if c \<noteq> DQUOTE then Failed (Some str)
          else (case scan_string s of
                  None \<Rightarrow> Failed None
                | Some (n, len) \<Rightarrow>
                    bind_parsed (decode_string str len n s) (\<lambda>text rest.
                    Parsed text (if rest \<noteq> [] \<and> hd rest = DQUOTE then tl rest else rest))))"

section \<open>Printing a string literal\<close>

text \<open>
  The printers return how many bytes they ask of the allocator and the text they write into them,
  followed by a NUL.
\<close>

definition HEX :: "byte list" where
  "HEX = [48, 49, 50, 51, 52, 53, 54, 55, 56, 57, 97, 98, 99, 100, 101, 102]"

text \<open>\<open>sprintf "u%04x"\<close> of a byte.\<close>

definition u04x :: "byte \<Rightarrow> byte list" where
  "u04x c = [LETTER_U, 48, 48, HEX ! (unat c div 16), HEX ! (unat c mod 16)]"

definition needs_escape :: "byte \<Rightarrow> bool" where
  "needs_escape c \<longleftrightarrow> (0 < c \<and> c < 32) \<or> c = DQUOTE \<or> c = BACKSLASH"

definition short_escape :: "byte \<Rightarrow> bool" where
  "short_escape c \<longleftrightarrow> c \<in> {DQUOTE, BACKSLASH, 8, 12, 10, 13, 9}"

fun escaped_length :: "byte list \<Rightarrow> nat" where
  "escaped_length [] = 0"
| "escaped_length (c # cs) =
     1 + (if short_escape c then 1 else if c < 32 then 5 else 0) + escaped_length cs"

definition escape_char :: "byte \<Rightarrow> byte list" where
  "escape_char c =
     (if 31 < c \<and> c \<noteq> DQUOTE \<and> c \<noteq> BACKSLASH then [c]
      else BACKSLASH # (if c = BACKSLASH then [BACKSLASH] else if c = DQUOTE then [DQUOTE]
        else if c = 8 then [98] else if c = 12 then [102] else if c = 10 then [110]
        else if c = 13 then [114] else if c = 9 then [116] else u04x c))"

fun escape :: "byte list \<Rightarrow> byte list" where
  "escape [] = []"
| "escape (c # cs) = escape_char c @ escape cs"

definition print_string_ptr :: "byte list option \<Rightarrow> nat \<times> byte list" where
  "print_string_ptr str =
     (case str of
        None \<Rightarrow> (3, [DQUOTE, DQUOTE])
      | Some s \<Rightarrow>
          if \<not> list_ex needs_escape s then (length s + 3, DQUOTE # s @ [DQUOTE])
          else (escaped_length s + 3, DQUOTE # escape s @ [DQUOTE]))"

section \<open>Hexadecimal digits, UTF-8\<close>

lemma unat_ucast_byte [simp]: "unat (ucast (c :: byte) :: u32) = unat c"
proof -
  have "unat c < 256" using unsigned_less [of c] by simp
  then show ?thesis by (simp add: unsigned_ucast_eq take_bit_nat_eq_self)
qed

lemma hex_digit_less: "hex_digit c = Some d \<Longrightarrow> unat d < 16"
  by (auto simp: hex_digit_def word_le_nat_alt unat_sub_if' unat_word_ariths split: if_splits)

lemma hex_digit_not: "hex_digit c = Some d \<Longrightarrow> c \<noteq> DQUOTE \<and> c \<noteq> BACKSLASH \<and> c \<noteq> 0"
  by (auto simp: hex_digit_def split: if_splits)

lemma hex_digits_nonzero: "hex_digits k h str \<noteq> 0 \<Longrightarrow> k \<le> length str \<and> (\<forall>c \<in> set (take k str). hex_digit c \<noteq> None)"
  by (induction k h str rule: hex_digits.induct) (auto split: option.splits)

lemma hex_digits_less: "unat h < 2 ^ m \<Longrightarrow> m + 4 * k \<le> 31 \<Longrightarrow> unat (hex_digits k h str) < 2 ^ (m + 4 * k)"
proof (induction k h str arbitrary: m rule: hex_digits.induct)
  case (3 k h c str)
  show ?case
  proof (cases "hex_digit c")
    case (Some d)
    have "unat (push_bit 4 h + d) < 2 ^ (m + 4)"
    proof -
      have "unat h * 16 + unat d < 2 ^ (m + 4)"
        using "3.prems"(1) hex_digit_less [OF Some] by (simp add: power_add)
      moreover have "(2::nat) ^ (m + 4) \<le> 2 ^ 31" using "3.prems" by (intro power_increasing) auto
      ultimately show ?thesis 
        by (simp add: push_bit_eq_mult unat_word_ariths mult.commute)
    qed
    then show ?thesis using "3.IH" [OF Some, of "m + 4"] "3.prems" Some by (simp add: add.assoc)
  qed (use 3 in simp)
qed (auto simp: power_add)

lemma parse_hex4_less: "parse_hex4 str < 0x10000"
  using hex_digits_less [of 0 0 4 str] by (simp add: parse_hex4_def word_less_nat_alt)

lemma length_utf8: "length (utf8 uc) = utf8_length uc"
  by (simp add: utf8_def utf8_length_def numeral_eq_Suc)

lemma tail_byte: "ucast ((uc OR 0x80) AND 0xBF :: u32) \<noteq> (0 :: byte)"
proof -
  have "bit (ucast ((uc OR 0x80) AND 0xBF :: u32) :: byte) 7"
    by (simp add: bit_simps bit_numeral_rec)
  then show ?thesis by auto
qed
lemma first_byte:
  "0 < len \<Longrightarrow> len < 5 \<Longrightarrow> (len = 1 \<longrightarrow> uc \<noteq> 0 \<and> uc < 0x80) \<Longrightarrow> ucast (uc OR firstByteMark ! len) \<noteq> (0 :: byte)"
proof -
  assume *: "0 < len" "len < 5" "len = 1 \<longrightarrow> uc \<noteq> 0 \<and> uc < 0x80"
  show ?thesis
  proof (cases "len = 1")
    case True
    then show ?thesis using *
      by (simp add: firstByteMark_def word_less_nat_alt unsigned_ucast_eq take_bit_nat_eq_self
        flip: unat_eq_0)
  next
    case False
    then have "len \<in> {2, 3, 4}" using * by auto
    then have "bit (ucast (uc OR firstByteMark ! len) :: byte) 7"
      by (auto simp: bit_simps bit_numeral_rec firstByteMark_def)
    then show ?thesis by auto
  qed
qed

lemma utf8_fill_nonzero:
  "0 < len \<Longrightarrow> len < 5 \<Longrightarrow> k \<le> len \<Longrightarrow> (len = 1 \<longrightarrow> uc \<noteq> 0 \<and> uc < 0x80) \<Longrightarrow> 0 \<notin> set out \<Longrightarrow>
    0 \<notin> set (utf8_fill len k uc out)"
  by (induction len k uc out rule: utf8_fill.induct) (simp_all add: tail_byte [symmetric] first_byte [symmetric])

lemma utf8_nonzero: "uc \<noteq> 0 \<Longrightarrow> 0 \<notin> set (utf8 uc)"
  unfolding utf8_def by (rule utf8_fill_nonzero) (auto simp: utf8_length_def)

lemma scan_string_take:
  "scan_string cs = Some (n, l) \<Longrightarrow> n \<le> length cs \<and> l \<le> n \<and> (n < length cs \<longrightarrow> cs ! n = DQUOTE)"
proof (induction cs arbitrary: n l rule: scan_string.induct)
  case (2 c cs)
  then show ?case by (auto split: if_splits list.splits intro: le_SucI)
qed simp

lemma scan_string_plain:
  "scan_string cs = Some (n, l) \<Longrightarrow> k \<le> n \<Longrightarrow> DQUOTE \<notin> set (take k cs) \<Longrightarrow> BACKSLASH \<notin> set (take k cs) \<Longrightarrow>
    scan_string (drop k cs) = Some (n - k, l - k) \<and> k \<le> l"
proof (induction k arbitrary: cs n l)
  case (Suc k)
  from Suc.prems(1,2) obtain c cs' where cs: "cs = c # cs'" by (cases cs) auto
  with Suc.prems obtain n' l' where "scan_string cs' = Some (n', l')" "n = n' + 1" "l = l' + 1"
    by (auto split: if_splits)
  then show ?case using Suc.IH [of cs' n' l'] Suc.prems cs by simp
qed simp


definition decoded :: "byte list \<Rightarrow> nat \<Rightarrow> byte list \<Rightarrow> byte list parsed \<Rightarrow> bool" where
  "decoded str l rest r \<longleftrightarrow>
     (\<exists>t. r = Parsed t rest \<and> length t \<le> l \<and> 0 \<notin> set t) \<or> r = Failed (Some str)"

lemma decoded_emit:
  "decoded str l rest r \<Longrightarrow> length bs \<le> cap \<Longrightarrow> 0 \<notin> set bs \<Longrightarrow> length bs + l \<le> l' \<Longrightarrow>
    decoded str l' rest (emit cap bs r)"
  by (auto simp: decoded_def emit_def)

lemma parse_hex4_nonzero:
  assumes "parse_hex4 str \<noteq> 0"
  shows "4 \<le> length str" and "DQUOTE \<notin> set (take 4 str)" and "BACKSLASH \<notin> set (take 4 str)"
  using hex_digits_nonzero [of 4 0 str] assms hex_digit_not by (fastforce simp: parse_hex4_def)+

lemma unescape_nonzero: "unescape c = Some b \<Longrightarrow> b \<noteq> 0"
  by (auto simp: unescape_def split: if_splits)

lemma surrogate_pair_nat:
  "unat (surrogate_pair uc uc2) = 0x10000 + 1024 * (unat uc mod 1024) + unat uc2 mod 1024"
proof -
  have and_mask: "w AND 0x3FF = take_bit 10 w" for w :: u32
    by (simp add: take_bit_eq_mask mask_eq_exp_minus_1)
  have "push_bit 10 (take_bit 10 uc) AND take_bit 10 uc2 = 0"
    by (rule bit_word_eqI) (auto simp: bit_simps)
  then have "push_bit 10 (take_bit 10 uc) OR take_bit 10 uc2 = push_bit 10 (take_bit 10 uc) + take_bit 10 uc2"
    by (simp flip: disjunctive_add_eq_or)
  moreover have "unat (take_bit 10 w) = unat w mod 1024" for w :: u32
    by (simp only: unsigned_take_bit_eq) (simp add: take_bit_eq_mod)
  ultimately show ?thesis
    by (simp add: surrogate_pair_def and_mask push_bit_eq_mult unat_word_ariths mult.commute)
qed

lemma surrogate_pair_nonzero: "surrogate_pair uc uc2 \<noteq> 0"
  using surrogate_pair_nat [of uc uc2] by (auto simp flip: unat_eq_0)

lemma unicode_escape_scan:
  assumes scan: "scan_string cs = Some (n, l)" and cs: "cs = BACKSLASH # LETTER_U # cs2"
    and esc: "unicode_escape n cs = Some (k, bs)"
  obtains l' where "scan_string (drop k cs) = Some (n - k, l')" and "length bs + l' \<le> l" and "k \<le> n"
    and "0 \<notin> set bs"
proof -
  obtain l1 where l1: "scan_string cs2 = Some (n - 2, l1)" "l = l1 + 1" "2 \<le> n"
    using scan cs by (auto split: if_splits)
  have uc: "parse_hex4 cs2 \<noteq> 0" "5 < n" using esc cs by (auto simp: unicode_escape_def Let_def split: if_splits)
  have s6: "scan_string (drop 4 cs2) = Some (n - 2 - 4, l1 - 4)" "4 \<le> l1"
    using scan_string_plain [OF l1(1), of 4] parse_hex4_nonzero [OF uc(1)] uc(2) by auto
  show thesis
  proof (cases "k = 6")
    case True
    then have bs: "bs = utf8 (parse_hex4 cs2)"
      using esc cs by (auto simp: unicode_escape_def Let_def split: if_splits)
    have "length bs \<le> 3" using parse_hex4_less [of cs2] by (simp add: bs length_utf8 utf8_length_def)
    then show thesis
      using s6 l1(2) uc cs True utf8_nonzero [OF uc(1)] bs by (intro that [of "l1 - 4"]) (auto simp: numeral_eq_Suc)
  next
    case False
    then have k: "k = 12" "11 \<le> n" "cs ! 6 = BACKSLASH" "cs ! 7 = LETTER_U"
      and uc2: "\<not> parse_hex4 (drop 8 cs) < 0xDC00"
      and bs: "bs = utf8 (surrogate_pair (parse_hex4 cs2) (parse_hex4 (drop 8 cs)))"
      using esc cs by (auto simp: unicode_escape_def Let_def split: if_splits)
    have "parse_hex4 (drop 8 cs) \<noteq> 0" using uc2 by auto
    note hex = parse_hex4_nonzero [OF this]
    have "drop 4 cs2 = drop 6 cs" using cs by simp
    also have "\<dots> = BACKSLASH # LETTER_U # drop 8 cs"
      using hex(1) k by (simp add: Cons_nth_drop_Suc [symmetric])
    finally have "drop 4 cs2 = BACKSLASH # LETTER_U # drop 8 cs" .
    then have "scan_string (drop 4 cs2) = map_option (\<lambda>(n, len). (n + 2, len + 1)) (scan_string (drop 8 cs))"
      by simp
    with s6(1) have m: "map_option (\<lambda>(n, len). (n + 2, len + 1)) (scan_string (drop 8 cs)) =
        Some (n - 2 - 4, l1 - 4)" by simp
    then obtain p where p: "scan_string (drop 8 cs) = Some p" "(fst p + 2, snd p + 1) = (n - 2 - 4, l1 - 4)"
      by (auto simp: case_prod_beta)
    then have l2: "scan_string (drop 8 cs) = Some (n - 8, snd p)" "l1 - 4 = snd p + 1"
      by (cases p; simp; linarith)+
    have "n \<noteq> 11"
    proof
      assume "n = 11"
      then have "drop 8 cs ! 3 = DQUOTE" using scan_string_take [OF l2(1)] hex(1) by auto
      moreover have "drop 8 cs ! 3 \<in> set (take 4 (drop 8 cs))"
        using nth_mem [of 3 "take 4 (drop 8 cs)"] hex(1) by simp
      ultimately show False using hex(2) by simp
    qed
    then have "scan_string (drop 4 (drop 8 cs)) = Some (n - 8 - 4, snd p - 4)" "4 \<le> snd p"
      using scan_string_plain [OF l2(1), of 4] hex k(2) by auto
    moreover have "length bs \<le> 4" by (simp add: bs length_utf8 utf8_length_def)
    moreover have "0 \<notin> set bs" using utf8_nonzero [OF surrogate_pair_nonzero] bs by simp
    ultimately show thesis
      using that [of "snd p - 4"] k \<open>n \<noteq> 11\<close> l2(2) l1(2) s6(2) by simp
  qed
qed

lemma decode_string_scan:
  "scan_string cs = Some (n, l) \<Longrightarrow> l \<le> cap \<Longrightarrow> 0 \<notin> set cs \<Longrightarrow>
    decoded str l (drop n cs) (decode_string str cap n cs)"
proof (induction str cap n cs arbitrary: l rule: decode_string.induct)
  case (1 str cap n cs)
  note scan = "1.prems"(1) and room = "1.prems"(2) and nz = "1.prems"(3)
  show ?case
  proof (cases "n = 0")
    case True
    then show ?thesis by (subst decode_string.simps) (simp add: decoded_def)
  next
    case n: False
    then obtain c cs1 where cs: "cs = c # cs1" using scan by (cases cs) auto
    have cq: "c \<noteq> DQUOTE" using scan n cs by auto
    show ?thesis
    proof (cases "c = BACKSLASH")
      case False
      then obtain l' where l': "scan_string cs1 = Some (n - 1, l')" "l = l' + 1"
        using scan cs cq by (auto split: if_splits)
      have "decoded str l' (drop (n - 1) cs1) (decode_string str (cap - 1) (n - 1) cs1)"
        by (rule "1.IH"(1) [OF n cs False l'(1)]) (use room l' nz cs in auto)
      then have "decoded str l (drop (n - 1) cs1) (emit cap [c] (decode_string str (cap - 1) (n - 1) cs1))"
        by (rule decoded_emit) (use room l' nz cs in auto)
      moreover have "drop n cs = drop (n - 1) cs1" using n cs by (cases n) auto
      ultimately show ?thesis using n cs False by (subst decode_string.simps) simp
    next
      case bs: True
      then obtain e cs2 l' where cs1: "cs1 = e # cs2" and l': "scan_string cs2 = Some (n - 2, l')" "l = l' + 1" "2 \<le> n"
        using scan cs cq by (auto split: if_splits list.splits)
      show ?thesis
      proof (cases "e = LETTER_U")
        case False
        have drop2: "drop n cs = drop (n - 2) cs2" using cs cs1 l'(3) by (cases n; cases "n - 1") auto
        show ?thesis
        proof (cases "unescape e")
          case None
          then show ?thesis using n cs bs cs1 False by (subst decode_string.simps) (simp add: decoded_def)
        next
          case (Some b)
          have "decoded str l' (drop (n - 2) cs2) (decode_string str (cap - 1) (n - 2) cs2)"
            by (rule "1.IH"(3) [OF n cs _ cs1 False Some l'(1)]) (use room l' nz cs cs1 bs in auto)
          then have "decoded str l (drop (n - 2) cs2) (emit cap [b] (decode_string str (cap - 1) (n - 2) cs2))"
            by (rule decoded_emit) (use room l' unescape_nonzero [OF Some] in auto)
          then show ?thesis using n cs bs cs1 False Some drop2 by (subst decode_string.simps) simp
        qed
      next
        case u: True
        show ?thesis
        proof (cases "unicode_escape n cs")
          case None
          then show ?thesis using n cs bs cs1 u by (subst decode_string.simps) (simp add: decoded_def)
        next
          case (Some kb)
          then obtain k b where kb: "unicode_escape n cs = Some (k, b)" by (cases kb) auto
          have csu: "cs = BACKSLASH # LETTER_U # cs2" using cs bs cs1 u by simp
          obtain l2 where l2: "scan_string (drop k cs) = Some (n - k, l2)" "length b + l2 \<le> l" "k \<le> n" "0 \<notin> set b"
            by (rule unicode_escape_scan [OF scan csu kb])
          have "decoded str l2 (drop (n - k) (drop k cs)) (decode_string str (cap - length b) (n - k) (drop k cs))"
            by (rule "1.IH"(2) [OF n cs _ cs1 u kb refl l2(1)]) (use room l2 nz bs in \<open>auto dest: in_set_dropD\<close>)
          then have "decoded str l (drop (n - k) (drop k cs))
              (emit cap b (decode_string str (cap - length b) (n - k) (drop k cs)))"
            by (rule decoded_emit) (use room l2 in auto)
          moreover have "drop (n - k) (drop k cs) = drop n cs" using l2(3) by simp
          moreover have "decode_string str cap n cs =
              emit cap b (decode_string str (cap - length b) (n - k) (drop k cs))"
            using n csu kb by (subst decode_string.simps) simp
          ultimately show ?thesis by simp
        qed
      qed
    qed
  qed
qed

section \<open>Literals that were printed, escapes of code points\<close>

lemma skip_suffix: "suffix (skip s) s"
  by (induction s) (auto intro: suffix_ConsI)

lemma skip_idem [simp]: "skip (skip s) = skip s"
  by (induction s) auto

lemma hex_digits_append: "length ds = k \<Longrightarrow> hex_digits k h (ds @ cs) = hex_digits k h ds"
  by (induction ds arbitrary: k h) (auto split: option.splits)

lemma u04x_escape_all: "list_all (\<lambda>c. parse_hex4 (tl (u04x c)) = ucast c \<and> utf8 (ucast c) = [c] \<and>
    (ucast c :: u32) < 32 \<and> DQUOTE \<notin> set (u04x c) \<and> BACKSLASH \<notin> set (u04x c))
    (map word_of_nat [1..<32])"
  by code_simp

lemma u04x_escape:
  assumes "c < 32" and "c \<noteq> 0"
  shows "parse_hex4 (tl (u04x c) @ cs) = ucast c" and "utf8 (ucast c) = [c]"
    and "(ucast c :: u32) < 32" and "DQUOTE \<notin> set (u04x c)" and "BACKSLASH \<notin> set (u04x c)"
proof -
  have "0 < unat c" "unat c < 32"
    using assms by (simp_all add: word_less_nat_alt flip: unat_eq_0)
  then have "word_of_nat (unat c) \<in> set (map word_of_nat [1..<32] :: byte list)"
    by (simp only: set_map set_upt) (intro imageI, simp)
  then have c: "c \<in> set (map word_of_nat [1..<32])" by simp
  note all = bspec [OF u04x_escape_all [unfolded list_all_iff] c]
  show "parse_hex4 (tl (u04x c) @ cs) = ucast c"
    using all hex_digits_append [of "tl (u04x c)" 4 0 cs] by (simp add: parse_hex4_def u04x_def)
  show "utf8 (ucast c) = [c]" "(ucast c :: u32) < 32" "DQUOTE \<notin> set (u04x c)" "BACKSLASH \<notin> set (u04x c)"
    using all by simp_all
qed


text \<open>An escaped character is a plain one, a two-character escape or a unicode escape.\<close>

lemma escape_char_cases:
  assumes "c \<noteq> 0"
  obtains (plain) "escape_char c = [c]" "c \<noteq> DQUOTE" "c \<noteq> BACKSLASH" "\<not> c < 32" "\<not> short_escape c"
  | (short) e where "escape_char c = [BACKSLASH, e]" "e \<noteq> LETTER_U" "unescape e = Some c" "short_escape c"
  | (unicode) "escape_char c = BACKSLASH # u04x c" "c < 32" "\<not> short_escape c"
proof -
  have iff: "31 < c \<longleftrightarrow> \<not> c < 32" by (simp add: word_less_nat_alt) linarith
  consider "31 < c \<and> c \<noteq> DQUOTE \<and> c \<noteq> BACKSLASH" | "short_escape c" | "c < 32 \<and> \<not> short_escape c"
    unfolding iff by (auto simp: short_escape_def)
  then show thesis
  proof cases
    case 1
    then show thesis using iff by (intro plain) (auto simp: escape_char_def short_escape_def)
  next
    case 2
    then have "\<exists>e. escape_char c = [BACKSLASH, e] \<and> e \<noteq> LETTER_U \<and> unescape e = Some c"
      by (auto simp: short_escape_def escape_char_def unescape_def)
    then show thesis using 2 short by blast
  next
    case 3
    then show thesis using iff by (intro unicode) (auto simp: escape_char_def short_escape_def)
  qed
qed

lemma scan_string_plain_append:
  "DQUOTE \<notin> set xs \<Longrightarrow> BACKSLASH \<notin> set xs \<Longrightarrow>
    scan_string (xs @ cs) = map_option (\<lambda>(n, l). (n + length xs, l + length xs)) (scan_string cs)"
proof (induction xs)
  case Nil
  then show ?case by (cases "scan_string cs") auto
next
  case (Cons x xs)
  then show ?case by (cases "scan_string cs") auto
qed

lemma scan_escape_char:
  assumes "c \<noteq> 0" and "scan_string cs = Some (n, l)"
  shows "\<exists>k. scan_string (escape_char c @ cs) = Some (n + length (escape_char c), Suc k + l)"
  using assms(1)
proof (cases c rule: escape_char_cases)
  case unicode
  have "scan_string (tl (u04x c) @ cs) = Some (n + 4, l + 4)"
    using u04x_escape(4,5) [OF unicode(2) assms(1)] assms(2)
    by (subst scan_string_plain_append) (auto simp: u04x_def)
  then have "scan_string (BACKSLASH # LETTER_U # tl (u04x c) @ cs) = Some (n + 6, l + 5)" by simp
  moreover have "escape_char c @ cs = BACKSLASH # LETTER_U # tl (u04x c) @ cs" "length (escape_char c) = 6"
    using unicode(1) by (simp_all add: u04x_def)
  ultimately have "scan_string (escape_char c @ cs) = Some (n + length (escape_char c), Suc 4 + l)"
    by (simp add: add.commute)
  then show ?thesis by blast
qed (use assms(2) in auto)

lemma decode_escape_char:
  assumes "c \<noteq> 0"
  shows "decode_string str cap (n + length (escape_char c)) (escape_char c @ cs) =
    emit cap [c] (decode_string str (cap - 1) n cs)"
  using assms
proof (cases c rule: escape_char_cases)
  case plain
  then show ?thesis by (subst decode_string.simps) simp
next
  case (short e)
  then show ?thesis by (subst decode_string.simps) simp
next
  case unicode
  note u = u04x_escape [OF unicode(2) assms]
  have "unicode_escape (n + 6) (BACKSLASH # LETTER_U # tl (u04x c) @ cs) = Some (6, [c])"
    using u(1) [of cs] u(2,3) assms
    by (simp add: unicode_escape_def Let_def word_less_nat_alt word_le_nat_alt flip: unat_eq_0)
  moreover have "drop 6 (BACKSLASH # LETTER_U # tl (u04x c) @ cs) = cs" by (simp add: u04x_def)
  ultimately have "decode_string str cap (n + 6) (BACKSLASH # LETTER_U # tl (u04x c) @ cs) =
      emit cap [c] (decode_string str (cap - 1) n cs)"
    by (subst decode_string.simps) (simp del: drop_append)
  moreover have "escape_char c @ cs = BACKSLASH # LETTER_U # tl (u04x c) @ cs" "length (escape_char c) = 6"
    using unicode(1) by (simp_all add: u04x_def)
  ultimately show ?thesis by simp
qed

lemma scan_escape:
  "0 \<notin> set s \<Longrightarrow> \<exists>l. scan_string (escape s @ DQUOTE # cs) = Some (length (escape s), l) \<and> length s \<le> l"
proof (induction s)
  case (Cons c s)
  then obtain l where l: "scan_string (escape s @ DQUOTE # cs) = Some (length (escape s), l)" "length s \<le> l" by auto
  show ?case using scan_escape_char [OF _ l(1), of c] l(2) Cons.prems by (auto simp: add.commute)
qed simp

lemma decode_escape:
  "0 \<notin> set s \<Longrightarrow> length s \<le> cap \<Longrightarrow> decode_string str cap (length (escape s)) (escape s @ cs) = Parsed s cs"
proof (induction s arbitrary: cap)
  case Nil
  show ?case by (subst decode_string.simps) simp
next
  case (Cons c s)
  then have "decode_string str (cap - 1) (length (escape s)) (escape s @ cs) = Parsed s cs" by simp
  then show ?case
    using decode_escape_char [of c str cap "length (escape s)" "escape s @ cs"] Cons.prems
    by (simp add: emit_def add.commute)
qed

lemma length_escape: "0 \<notin> set s \<Longrightarrow> length (escape s) = escaped_length s"
proof (induction s)
  case (Cons c s)
  have "c \<noteq> 0" using Cons.prems by auto
  then have "length (escape_char c) = 1 + (if short_escape c then 1 else if c < 32 then 5 else 0)"
    by (cases c rule: escape_char_cases) (auto simp: u04x_def)
  then show ?case using Cons by simp
qed simp

lemma escape_plain: "0 \<notin> set s \<Longrightarrow> \<not> list_ex needs_escape s \<Longrightarrow> escape s = s"
proof (induction s)
  case (Cons c s)
  have "31 < c" if "\<not> (0 < c \<and> c < 32)" using that Cons.prems
    by (auto simp: word_less_nat_alt simp flip: unat_eq_0)
  then show ?case using Cons by (auto simp: needs_escape_def escape_char_def)
qed simp

lemma print_string_ptr_text:
  "0 \<notin> set s \<Longrightarrow> print_string_ptr (Some s) = (length (escape s) + 3, DQUOTE # escape s @ [DQUOTE])"
  using escape_plain [of s] length_escape [of s] by (auto simp: print_string_ptr_def)

lemma parse_escape:
  assumes "0 \<notin> set s"
  shows "parse_string (DQUOTE # escape s @ DQUOTE # cs) = Parsed s cs"
proof -
  obtain l where "scan_string (escape s @ DQUOTE # cs) = Some (length (escape s), l)" "length s \<le> l"
    using scan_escape [OF assms] by blast
  then show ?thesis using decode_escape [OF assms] by (simp add: parse_string_def)
qed

lemma escape_nonzero: "0 \<notin> set s \<Longrightarrow> 0 \<notin> set (escape s)"
proof (induction s)
  case (Cons c s)
  have "c \<noteq> 0" using Cons.prems by auto
  then have "0 \<notin> set (escape_char c)"
  proof (cases c rule: escape_char_cases)
    case unicode
    have "HEX ! k \<noteq> 0" if "k < 16" for k
    proof -
      have "HEX ! k \<in> set HEX" using that by (intro nth_mem) (simp add: HEX_def)
      then show ?thesis by (auto simp: HEX_def)
    qed
    moreover have "unat c div 16 < 16"
    proof -
      have "unat c < 2 ^ LENGTH(8)" by (rule unsigned_less)
      then show ?thesis by (simp add: less_mult_imp_div_less)
    qed
    ultimately have "0 \<notin> set (u04x c)" by (auto simp: u04x_def)
    then show ?thesis using unicode(1) by simp
  qed (auto simp: unescape_def split: if_splits)
  then show ?case using Cons by auto
qed simp

text \<open>The encoding of RFC 3629 on numbers.\<close>

definition utf8_rfc :: "nat \<Rightarrow> nat list" where
  "utf8_rfc n =
     (if n < 0x80 then [n]
      else if n < 0x800 then [0xC0 + n div 0x40, 0x80 + n mod 0x40]
      else if n < 0x10000 then [0xE0 + n div 0x1000, 0x80 + n div 0x40 mod 0x40, 0x80 + n mod 0x40]
      else [0xF0 + n div 0x40000, 0x80 + n div 0x1000 mod 0x40, 0x80 + n div 0x40 mod 0x40, 0x80 + n mod 0x40])"

lemma utf8_tail_byte: "unat (ucast ((uc OR 0x80) AND 0xBF :: u32) :: byte) = 0x80 + unat uc mod 0x40"
proof -
  have "(ucast ((uc OR 0x80) AND 0xBF :: u32) :: byte) = 0x80 OR ucast (take_bit 6 uc)"
  proof (rule bit_word_eqI)
    fix n assume "n < LENGTH(8)"
    then have "n \<in> {0, 1, 2, 3, 4, 5, 6, 7}" by auto
    then show "bit (ucast ((uc OR 0x80) AND 0xBF :: u32) :: byte) n = bit (0x80 OR ucast (take_bit 6 uc) :: byte) n"
      by (auto simp: bit_simps bit_numeral_rec)
  qed
  also have "\<dots> = 0x80 + ucast (take_bit 6 uc)"
  proof -
    have "(0x80 :: byte) AND ucast (take_bit 6 uc) = 0"
    proof (rule bit_word_eqI)
      fix n assume "n < LENGTH(8)"
      then have "n \<in> {0, 1, 2, 3, 4, 5, 6, 7}" by auto
      then show "bit (0x80 AND ucast (take_bit 6 uc) :: byte) n = bit 0 n"
        by (auto simp: bit_simps bit_numeral_rec)
    qed
    then show ?thesis by (simp flip: disjunctive_add_eq_or)
  qed
  also have "unat \<dots> = 0x80 + unat uc mod 0x40"
  proof -
    have "unat (take_bit 6 uc) = unat uc mod 64" by (simp only: unsigned_take_bit_eq) (simp add: take_bit_eq_mod)
    moreover have "unat uc mod 64 < 64" by simp
    ultimately have "unat (ucast (take_bit 6 uc) :: byte) = unat uc mod 64"
      by (simp only: unsigned_ucast_eq) (simp add: take_bit_nat_eq_self)
    then show ?thesis using \<open>unat uc mod 64 < 64\<close> by (simp add: unat_word_ariths)
  qed
  finally show ?thesis .
qed

lemma utf8_first_byte:
  assumes "unat uc < 2 ^ k" and "m = 0xC0 \<and> k = 5 \<or> m = 0xE0 \<and> k = 4 \<or> m = 0xF0 \<and> k = 3"
  shows "unat (ucast (uc OR m :: u32) :: byte) = unat m + unat uc"
proof -
  have "unat (take_bit k uc) = unat uc"
    using assms(1) by (simp only: unsigned_take_bit_eq) (simp add: take_bit_nat_eq_self)
  then have small: "take_bit k uc = uc" by (rule unsigned_word_eqI)
  have "m AND uc = 0"
  proof (rule bit_word_eqI)
    fix n assume "n < LENGTH(32)"
    have "bit uc n \<Longrightarrow> n < k" by (metis bit_take_bit_iff small)
    moreover have "n < k \<Longrightarrow> \<not> bit m n"
      using assms(2) by (auto simp: bit_numeral_rec less_Suc_eq numeral_eq_Suc)
    ultimately show "bit (m AND uc) n = bit 0 n" by (auto simp: bit_simps)
  qed
  then have "uc OR m = m + uc" by (simp add: or.commute flip: disjunctive_add_eq_or)
  moreover have "unat uc + unat m < 256"
    using assms by auto
  ultimately show ?thesis
    by (simp add: unsigned_ucast_eq unat_word_ariths take_bit_nat_eq_self)
qed

lemma utf8_is_rfc: "unat uc < 0x110000 \<Longrightarrow> map unat (utf8 uc) = utf8_rfc (unat uc)"
proof -
  assume cp: "unat uc < 0x110000"
  have d: "unat (drop_bit k uc) = unat uc div 2 ^ k" for k
  proof -
    have "unat uc < 2 ^ LENGTH(32)" by (rule unsigned_less)
    then show ?thesis
      by (simp only: unsigned_drop_bit_eq) (simp add: drop_bit_eq_div take_bit_nat_eq_self)
  qed
  consider "unat uc < 0x80" | "0x80 \<le> unat uc" "unat uc < 0x800" | "0x800 \<le> unat uc" "unat uc < 0x10000"
    | "0x10000 \<le> unat uc" by linarith
  then show ?thesis
  proof cases
    case 1
    then show ?thesis
      by (simp add: utf8_def utf8_length_def utf8_rfc_def word_less_nat_alt firstByteMark_def
        unsigned_ucast_eq take_bit_nat_eq_self)
  next
    case 2
    then have len: "utf8_length uc = 2" by (simp add: utf8_length_def word_less_nat_alt)
    have "unat (ucast (drop_bit 6 uc OR 0xC0 :: u32) :: byte) = 0xC0 + unat uc div 0x40"
      using utf8_first_byte [of "drop_bit 6 uc" 5 "0xC0"] 2 by (simp add: d)
    then show ?thesis using 2
      by (simp add: utf8_def len numeral_2_eq_2 utf8_rfc_def firstByteMark_def utf8_tail_byte)
  next
    case 3
    then have len: "utf8_length uc = 3" by (simp add: utf8_length_def word_less_nat_alt)
    have "unat (ucast (drop_bit 6 (drop_bit 6 uc) OR 0xE0 :: u32) :: byte) = 0xE0 + unat uc div 0x40 div 0x40"
      using utf8_first_byte [of "drop_bit 6 (drop_bit 6 uc)" 4 "0xE0"] 3 by (simp add: d div_mult2_eq [symmetric])
    then show ?thesis using 3
      by (simp add: utf8_def len numeral_3_eq_3 utf8_rfc_def firstByteMark_def utf8_tail_byte d div_mult2_eq [symmetric])
  next
    case 4
    then have len: "utf8_length uc = Suc (Suc (Suc (Suc 0)))" by (simp add: utf8_length_def word_less_nat_alt)
    have "unat (ucast (drop_bit 6 (drop_bit 6 (drop_bit 6 uc)) OR 0xF0 :: u32) :: byte) = 0xF0 + unat uc div 0x40000"
      using utf8_first_byte [of "drop_bit 6 (drop_bit 6 (drop_bit 6 uc))" 3 "0xF0"] 4 cp
      by (simp add: d div_mult2_eq [symmetric])
    then show ?thesis using 4
      by (simp add: utf8_def len utf8_rfc_def firstByteMark_def utf8_tail_byte d div_mult2_eq [symmetric])
  qed
qed


lemma decode_string_0 [simp]: "decode_string str cap 0 cs = Parsed [] cs"
  by (subst decode_string.simps) simp

lemma hex_digits_chars:
  assumes "list_all (\<lambda>c. hex_digit c \<noteq> None) ds"
  shows "DQUOTE \<notin> set ds" and "BACKSLASH \<notin> set ds"
  using assms hex_digit_not by (fastforce simp: list_all_iff)+

lemma parse_hex4_append: "length ds = 4 \<Longrightarrow> parse_hex4 (ds @ cs) = parse_hex4 ds"
  by (simp add: parse_hex4_def hex_digits_append)

lemma parse_unicode_literal:
  assumes scan: "scan_string (BACKSLASH # LETTER_U # cs) = Some (n, l)" and n: "0 < n"
  shows "parse_string (DQUOTE # BACKSLASH # LETTER_U # cs) =
    (case unicode_escape n (BACKSLASH # LETTER_U # cs) of
       None \<Rightarrow> Failed (Some (DQUOTE # BACKSLASH # LETTER_U # cs))
     | Some (k, bs) \<Rightarrow>
         bind_parsed (emit l bs (decode_string (DQUOTE # BACKSLASH # LETTER_U # cs) (l - length bs) (n - k)
             (drop k (BACKSLASH # LETTER_U # cs))))
           (\<lambda>text rest. Parsed text (if rest \<noteq> [] \<and> hd rest = DQUOTE then tl rest else rest)))"
proof -
  have "decode_string (DQUOTE # BACKSLASH # LETTER_U # cs) l n (BACKSLASH # LETTER_U # cs) =
    (case unicode_escape n (BACKSLASH # LETTER_U # cs) of
       None \<Rightarrow> Failed (Some (DQUOTE # BACKSLASH # LETTER_U # cs))
     | Some (k, bs) \<Rightarrow> emit l bs (decode_string (DQUOTE # BACKSLASH # LETTER_U # cs) (l - length bs) (n - k)
             (drop k (BACKSLASH # LETTER_U # cs))))"
    using n by (subst decode_string.simps) simp
  then show ?thesis using scan
    by (simp add: parse_string_def del: scan_string.simps split: option.splits)
qed



lemma mod_above: "m * k \<le> n \<Longrightarrow> n < m * k + k \<Longrightarrow> n mod k = n - m * (k :: nat)"
  by (metis add_less_cancel_left le_add_diff_inverse mod_less mod_mult_self3)

section \<open>Properties\<close>

text \<open>
  C22: \<open>parse_string\<close> on any input: it never writes past the block it allocated from the first
  pass, never reads past the end, and returns a pointer strictly further into the input with a
  text shorter than what was read and free of NULs, or NULL with \<open>*ep\<close> at the start of the literal
  or untouched.
\<close>

theorem parse_string_safe:
  assumes "0 \<notin> set str"
  shows "case parse_string str of
      Parsed t rest \<Rightarrow> suffix rest str \<and> length rest < length str \<and> length t < length str \<and> 0 \<notin> set t
    | Failed ep \<Rightarrow> ep = None \<or> ep = Some str
    | Crash \<Rightarrow> False
    | NoFuel \<Rightarrow> False"
proof (cases "str \<noteq> [] \<and> hd str = DQUOTE")
  case False
  then show ?thesis by (auto simp: parse_string_def split: list.splits)
next
  case True
  then obtain s where str: "str = DQUOTE # s" by (cases str) auto
  show ?thesis
  proof (cases "scan_string s")
    case None
    then show ?thesis by (simp add: parse_string_def str)
  next
    case (Some p)
    then obtain n l where nl: "scan_string s = Some (n, l)" by (cases p) auto
    note len = scan_string_take [OF nl]
    have "decoded str l (drop n s) (decode_string str l n s)"
      by (rule decode_string_scan [OF nl]) (use assms str in auto)
    moreover have "suffix (tl r) (DQUOTE # s) \<and> length (tl r) < Suc (length s) \<and>
        suffix r (DQUOTE # s) \<and> length r < Suc (length s)" if "r = drop n s" for r
      using that by (simp add: suffix_drop suffix_ConsI less_Suc_eq_le
        suffix_order.trans [OF suffix_tl suffix_ConsI])
    ultimately show ?thesis
      using len str by (auto simp: parse_string_def nl decoded_def)
  qed
qed

theorem parse_string_safe_witness:
  "case parse_string [DQUOTE, 97, BACKSLASH, LETTER_U, 48, 48, 101, 57, DQUOTE, 44] of
      Parsed t rest \<Rightarrow> suffix rest [DQUOTE, 97, BACKSLASH, LETTER_U, 48, 48, 101, 57, DQUOTE, 44] \<and>
        length rest < 10 \<and> length t < 10 \<and> 0 \<notin> set t
    | Failed ep \<Rightarrow> ep = None \<or> ep = Some [DQUOTE, 97, BACKSLASH, LETTER_U, 48, 48, 101, 57, DQUOTE, 44]
    | Crash \<Rightarrow> False
    | NoFuel \<Rightarrow> False"
  using parse_string_safe [of "[DQUOTE, 97, BACKSLASH, LETTER_U, 48, 48, 101, 57, DQUOTE, 44]"]
  by (simp split: parsed.splits)

text \<open>
  A string survives printing and parsing, whatever follows the literal, and the printer asks
  the allocator for exactly the bytes it writes.
\<close>

theorem string_literal_roundtrip:
  assumes "0 \<notin> set s"
  shows "case print_string_ptr (Some s) of (needed, literal) \<Rightarrow>
    parse_string (literal @ rest) = Parsed s rest \<and> needed = length literal + 1 \<and> 0 \<notin> set literal"
  using parse_escape [OF assms, of rest] escape_nonzero [OF assms]
  by (simp add: print_string_ptr_text [OF assms])

theorem string_literal_roundtrip_witness:
  "case print_string_ptr (Some [72, 7, DQUOTE, 10, 200]) of (needed, literal) \<Rightarrow>
    parse_string (literal @ [44]) = Parsed [72, 7, DQUOTE, 10, 200] [44] \<and> needed = length literal + 1 \<and>
    0 \<notin> set literal"
  using string_literal_roundtrip [of "[72, 7, DQUOTE, 10, 200]" "[44]"] by simp

text \<open>
  What a hexadecimal digit and a number of four digits are worth, by the position of the digit among
  the sixteen in either case.
\<close>

definition hex_lower :: "nat list" where "hex_lower = map of_char ''0123456789abcdef''"
definition hex_upper :: "nat list" where "hex_upper = map of_char ''0123456789ABCDEF''"

definition hex_figure :: "byte \<Rightarrow> nat option" where
  "hex_figure c = find (\<lambda>d. unat c = hex_lower ! d \<or> unat c = hex_upper ! d) [0..<16]"

definition hex4_value :: "byte list \<Rightarrow> nat option" where
  "hex4_value ds =
     (case map hex_figure ds of
        [Some a, Some b, Some c, Some d] \<Rightarrow> Some (0x1000 * a + 0x100 * b + 0x10 * c + d)
      | _ \<Rightarrow> None)"

lemma hex_codes: "hex_lower = [48..<58] @ [97..<103]" "hex_upper = [48..<58] @ [65..<71]"
  by code_simp+

lemma hex_digit_figures:
  "list_all (\<lambda>n. hex_digit (word_of_nat n) = map_option word_of_nat (hex_figure (word_of_nat n))) (hex_lower @ hex_upper)"
  by code_simp

lemma hex_digit_figure: "hex_digit c = map_option word_of_nat (hex_figure c)"
proof (cases "unat c \<in> set (hex_lower @ hex_upper)")
  case True
  then have "hex_digit (word_of_nat (unat c)) = map_option word_of_nat (hex_figure (word_of_nat (unat c)))"
    using hex_digit_figures unfolding list_all_iff by blast
  then show ?thesis by simp
next
  case False
  then have "hex_digit c = None" by (auto simp: hex_codes hex_digit_def word_le_nat_alt simp del: upt_rec_numeral)
  moreover have "hex_lower ! d \<in> set (hex_lower @ hex_upper)" "hex_upper ! d \<in> set (hex_lower @ hex_upper)" if "d < 16" for d
    using nth_mem [of d hex_lower] nth_mem [of d hex_upper] that by (auto simp: hex_codes simp del: set_upt upt_rec_numeral)
  then have "unat c \<noteq> hex_lower ! d \<and> unat c \<noteq> hex_upper ! d" if "d < 16" for d using that False by metis
  then have "hex_figure c = None" by (simp add: hex_figure_def find_None_iff)
  ultimately show ?thesis by simp
qed

lemma hex_figure_less: "hex_figure c = Some d \<Longrightarrow> d < 16"
  by (auto simp: hex_figure_def find_Some_iff)

lemma list_of_4:
  assumes "length ds = 4"
  obtains a b c d where "ds = [a, b, c, d]"
  using assms by (auto simp: numeral_eq_Suc length_Suc_conv)

lemma parse_hex4_by_value:
  assumes "length ds = 4"
  shows "parse_hex4 (ds @ cs) = (case hex4_value ds of None \<Rightarrow> 0 | Some n \<Rightarrow> word_of_nat n)"
proof -
  obtain a b c d where ds: "ds = [a, b, c, d]" using assms by (rule list_of_4)
  have four: "4 = Suc (Suc (Suc (Suc 0)))" by simp
  show ?thesis
    by (cases "hex_figure a"; cases "hex_figure b"; cases "hex_figure c"; cases "hex_figure d")
      (simp_all add: ds parse_hex4_def four hex4_value_def hex_digit_figure push_bit_eq_mult algebra_simps)
qed

lemma hex4_value_less: "hex4_value ds = Some n \<Longrightarrow> n < 0x10000"
  by (auto simp: hex4_value_def split: list.splits option.splits dest!: hex_figure_less)

text \<open>A literal that starts with a unicode escape.\<close>

abbreviation unicode_literal :: "byte list \<Rightarrow> byte list \<Rightarrow> byte list" where
  "unicode_literal ds s \<equiv> DQUOTE # BACKSLASH # LETTER_U # ds @ s"

abbreviation four_chars :: "byte list \<Rightarrow> bool" where
  "four_chars ds \<equiv> length ds = 4 \<and> DQUOTE \<notin> set ds \<and> BACKSLASH \<notin> set ds"

abbreviation surrogate :: "nat \<Rightarrow> bool" where
  "surrogate n \<equiv> 0xD800 \<le> n \<and> n \<le> 0xDFFF"

lemma unat_parse_hex4:
  assumes "length ds = 4"
  shows "unat (parse_hex4 (ds @ cs)) = (case hex4_value ds of None \<Rightarrow> 0 | Some n \<Rightarrow> n)"
  using parse_hex4_by_value [OF assms, of cs] hex4_value_less [of ds]
  by (auto simp: unat_of_nat split: option.splits)

lemma single_escape:
  assumes ds: "four_chars ds"
  shows "(case hex4_value ds of
      None \<Rightarrow> parse_string (unicode_literal ds (DQUOTE # rest)) = Failed (Some (unicode_literal ds (DQUOTE # rest)))
    | Some n \<Rightarrow>
        if n = 0 \<or> surrogate n
        then parse_string (unicode_literal ds (DQUOTE # rest)) = Failed (Some (unicode_literal ds (DQUOTE # rest)))
        else \<exists>text. parse_string (unicode_literal ds (DQUOTE # rest)) = Parsed text rest \<and> map unat text = utf8_rfc n)"
proof -
  let ?s = "ds @ DQUOTE # rest"
  define hi where "hi = parse_hex4 ?s"
  have n: "unat hi = (case hex4_value ds of None \<Rightarrow> 0 | Some n \<Rightarrow> n)"
    unfolding hi_def using ds by (intro unat_parse_hex4) simp
  have hi: "unat hi < 0x10000" using n hex4_value_less [of ds] by (simp split: option.splits)
  have scan: "scan_string (BACKSLASH # LETTER_U # ?s) = Some (6, 5)"
    using ds by (simp add: scan_string_plain_append)
  have drop6: "drop 6 (BACKSLASH # LETTER_U # ?s) = DQUOTE # rest" using ds by simp
  have u: "unicode_escape 6 (BACKSLASH # LETTER_U # ?s) =
      (if unat hi = 0 \<or> surrogate (unat hi) then None else Some (6, utf8 hi))"
    by (auto simp: unicode_escape_def Let_def word_le_nat_alt unat_eq_0 simp flip: hi_def)
  have "length (utf8 hi) \<le> 5" by (simp add: length_utf8 utf8_length_def)
  with u drop6 have "parse_string (unicode_literal ds (DQUOTE # rest)) =
      (if unat hi = 0 \<or> surrogate (unat hi) then Failed (Some (unicode_literal ds (DQUOTE # rest)))
       else Parsed (utf8 hi) rest)"
    by (subst parse_unicode_literal [OF scan]) (simp_all add: emit_def)
  moreover have "map unat (utf8 hi) = utf8_rfc (unat hi)" using hi by (intro utf8_is_rfc) simp
  ultimately show ?thesis using n by (cases "hex4_value ds") (simp_all split del: if_split split: if_split)
qed

lemma surrogate_pair_code_point:
  assumes "0xD800 \<le> hi" "hi \<le> 0xDBFF" "0xDC00 \<le> lo" "lo \<le> 0xDFFF"
  shows "unat (surrogate_pair hi lo) = 0x10000 + (unat hi - 0xD800) * 0x400 + (unat lo - 0xDC00)"
proof -
  have "unat hi mod 1024 = unat hi - 54 * 1024" "unat lo mod 1024 = unat lo - 55 * 1024"
    by (rule mod_above; use assms in \<open>simp add: word_le_nat_alt\<close>)+
  then show ?thesis by (simp add: surrogate_pair_nat mult.commute)
qed

lemma pair_escape:
  assumes ds: "four_chars ds" and es: "four_chars es" and hi: "hex4_value ds = Some hi" "0xD800 \<le> hi" "hi \<le> 0xDBFF"
  shows "case hex4_value es of
      None \<Rightarrow> parse_string (unicode_literal ds (BACKSLASH # LETTER_U # es @ DQUOTE # rest)) =
        Failed (Some (unicode_literal ds (BACKSLASH # LETTER_U # es @ DQUOTE # rest)))
    | Some lo \<Rightarrow>
        if 0xDC00 \<le> lo \<and> lo \<le> 0xDFFF
        then \<exists>text. parse_string (unicode_literal ds (BACKSLASH # LETTER_U # es @ DQUOTE # rest)) = Parsed text rest \<and>
          map unat text = utf8_rfc (0x10000 + (hi - 0xD800) * 0x400 + (lo - 0xDC00))
        else parse_string (unicode_literal ds (BACKSLASH # LETTER_U # es @ DQUOTE # rest)) =
          Failed (Some (unicode_literal ds (BACKSLASH # LETTER_U # es @ DQUOTE # rest)))"
proof -
  let ?s = "ds @ BACKSLASH # LETTER_U # es @ DQUOTE # rest"
  define h where "h = parse_hex4 ?s"
  define l where "l = parse_hex4 (es @ DQUOTE # rest)"
  have h: "unat h = hi" using ds hi(1) unat_parse_hex4 [of ds "BACKSLASH # LETTER_U # es @ DQUOTE # rest"] by (simp add: h_def)
  have l: "unat l = (case hex4_value es of None \<Rightarrow> 0 | Some n \<Rightarrow> n)"
    unfolding l_def using es by (intro unat_parse_hex4) simp
  have scan: "scan_string (BACKSLASH # LETTER_U # ?s) = Some (12, 10)"
    using ds es by (simp add: scan_string_plain_append)
  have d: "drop 8 (BACKSLASH # LETTER_U # ?s) = es @ DQUOTE # rest" "drop 12 (BACKSLASH # LETTER_U # ?s) = DQUOTE # rest"
    "(BACKSLASH # LETTER_U # ?s) ! 6 = BACKSLASH" "(BACKSLASH # LETTER_U # ?s) ! 7 = LETTER_U"
    using ds es by (simp_all add: nth_append)
  have u: "unicode_escape 12 (BACKSLASH # LETTER_U # ?s) =
      (if 0xDC00 \<le> unat l \<and> unat l \<le> 0xDFFF then Some (12, utf8 (surrogate_pair h l)) else None)"
    using d h hi(2,3)
    by (auto simp: unicode_escape_def Let_def word_le_nat_alt word_less_nat_alt unat_eq_0 simp flip: h_def l_def)
  have pair: "map unat (utf8 (surrogate_pair h l)) = utf8_rfc (0x10000 + (hi - 0xD800) * 0x400 + (unat l - 0xDC00))"
    if lo: "0xDC00 \<le> unat l" "unat l \<le> 0xDFFF"
  proof -
    have n: "unat (surrogate_pair h l) = 0x10000 + (hi - 0xD800) * 0x400 + (unat l - 0xDC00)"
      using surrogate_pair_code_point [of h l] h hi(2,3) lo by (simp add: word_le_nat_alt)
    then have "unat (surrogate_pair h l) < 0x110000" using hi(3) lo by simp
    from utf8_is_rfc [OF this] n show ?thesis by simp
  qed
  have "length (utf8 (surrogate_pair h l)) \<le> 10" by (simp add: length_utf8 utf8_length_def)
  with u d(2) have "parse_string (unicode_literal ds (BACKSLASH # LETTER_U # es @ DQUOTE # rest)) =
      (if 0xDC00 \<le> unat l \<and> unat l \<le> 0xDFFF then Parsed (utf8 (surrogate_pair h l)) rest
       else Failed (Some (unicode_literal ds (BACKSLASH # LETTER_U # es @ DQUOTE # rest))))"
    by (subst parse_unicode_literal [OF scan]) (simp_all add: emit_def)
  then show ?thesis using l pair by (cases "hex4_value es") simp_all
qed

lemma lone_high_escape:
  assumes ds: "four_chars ds" and hi: "hex4_value ds = Some hi" "0xD800 \<le> hi" "hi \<le> 0xDBFF"
    and s: "take 2 s \<noteq> [BACKSLASH, LETTER_U]"
  shows "\<exists>ep. parse_string (unicode_literal ds s) = Failed ep"
proof (cases "scan_string s")
  case None
  then have "scan_string (BACKSLASH # LETTER_U # ds @ s) = None" using ds by (simp add: scan_string_plain_append)
  then show ?thesis by (simp add: parse_string_def del: scan_string.simps)
next
  case (Some p)
  then obtain n l where p: "scan_string s = Some (n, l)" by (cases p) auto
  have scan: "scan_string (BACKSLASH # LETTER_U # ds @ s) = Some (n + 6, l + 5)"
    using ds p by (simp add: scan_string_plain_append)
  have h: "unat (parse_hex4 (ds @ s)) = hi" using ds hi(1) unat_parse_hex4 [of ds s] by simp
  have bad: "(BACKSLASH # LETTER_U # ds @ s) ! 6 \<noteq> BACKSLASH \<or> (BACKSLASH # LETTER_U # ds @ s) ! 7 \<noteq> LETTER_U" if five: "5 \<le> n"
  proof -
    have "n \<le> length s" using scan_string_take [OF p] by simp
    then obtain x y t where "s = x # y # t" using five by (cases s; cases "tl s") auto
    then show ?thesis using s ds by (auto simp: nth_append)
  qed
  have "unicode_escape (n + 6) (BACKSLASH # LETTER_U # ds @ s) = None"
    using bad h hi(2,3) by (auto simp: unicode_escape_def Let_def word_le_nat_alt unat_eq_0)
  then show ?thesis by (subst parse_unicode_literal [OF scan]) simp_all
qed

text \<open>
  C23: a unicode escape is decoded to the UTF-8 encoding of RFC 3629 of the number its four
  hexadecimal digits denote, the pair of a high and a low surrogate to that of the code point beyond
  \<open>0xFFFF\<close> they stand for. Rejected are four characters that are not all hexadecimal digits, the
  escape of 0, a surrogate alone, a high surrogate whose second half is not a low one, and a high
  surrogate followed by anything else than an escape.
\<close>

theorem unicode_escapes_decode:
  assumes "length ds = 4" "DQUOTE \<notin> set ds" "BACKSLASH \<notin> set ds"
    and "length es = 4" "DQUOTE \<notin> set es" "BACKSLASH \<notin> set es"
    and "one = DQUOTE # BACKSLASH # LETTER_U # ds @ DQUOTE # rest"
    and "two = DQUOTE # BACKSLASH # LETTER_U # ds @ BACKSLASH # LETTER_U # es @ DQUOTE # rest"
  shows "case hex4_value ds of
      None \<Rightarrow> parse_string one = Failed (Some one)
    | Some hi \<Rightarrow>
        (if hi = 0 \<or> 0xD800 \<le> hi \<and> hi \<le> 0xDFFF then parse_string one = Failed (Some one)
         else \<exists>text. parse_string one = Parsed text rest \<and> map unat text = utf8_rfc hi) \<and>
        (0xD800 \<le> hi \<and> hi \<le> 0xDBFF \<longrightarrow>
          (case hex4_value es of
             None \<Rightarrow> parse_string two = Failed (Some two)
           | Some lo \<Rightarrow>
               if 0xDC00 \<le> lo \<and> lo \<le> 0xDFFF
               then \<exists>text. parse_string two = Parsed text rest \<and>
                 map unat text = utf8_rfc (0x10000 + (hi - 0xD800) * 0x400 + (lo - 0xDC00))
               else parse_string two = Failed (Some two)) \<and>
          (\<forall>s. take 2 s \<noteq> [BACKSLASH, LETTER_U] \<longrightarrow>
            (\<exists>ep. parse_string (DQUOTE # BACKSLASH # LETTER_U # ds @ s) = Failed ep)))"
proof (cases "hex4_value ds")
  case None
  then show ?thesis using single_escape [of ds rest] assms by simp
next
  case (Some hi)
  have "if hi = 0 \<or> surrogate hi then parse_string one = Failed (Some one)
      else \<exists>text. parse_string one = Parsed text rest \<and> map unat text = utf8_rfc hi"
    using single_escape [of ds rest] assms unfolding Some option.case by blast
  moreover have "case hex4_value es of
        None \<Rightarrow> parse_string two = Failed (Some two)
      | Some lo \<Rightarrow>
          if 0xDC00 \<le> lo \<and> lo \<le> 0xDFFF
          then \<exists>text. parse_string two = Parsed text rest \<and>
            map unat text = utf8_rfc (0x10000 + (hi - 0xD800) * 0x400 + (lo - 0xDC00))
          else parse_string two = Failed (Some two)" if "0xD800 \<le> hi \<and> hi \<le> 0xDBFF"
    unfolding assms(8) using that assms(1-6) by (intro pair_escape [OF _ _ Some]) auto
  moreover have "\<exists>ep. parse_string (unicode_literal ds s) = Failed ep"
    if "0xD800 \<le> hi \<and> hi \<le> 0xDBFF" "take 2 s \<noteq> [BACKSLASH, LETTER_U]" for s
    using that assms(1-3) by (intro lone_high_escape [OF _ Some]) auto
  ultimately show ?thesis unfolding Some option.case by blast
qed

theorem unicode_escapes_decode_witness:
  "hex4_value [50, 48, 97, 67] = Some 0x20AC \<and>
   (\<exists>text. parse_string [DQUOTE, BACKSLASH, LETTER_U, 50, 48, 97, 67, DQUOTE] = Parsed text [] \<and>
     map unat text = [0xE2, 0x82, 0xAC])"
proof -
  have hex: "hex4_value [50, 48, 97, 67] = Some 0x20AC" by code_simp
  have "\<exists>text. parse_string [DQUOTE, BACKSLASH, LETTER_U, 50, 48, 97, 67, DQUOTE] = Parsed text [] \<and>
      map unat text = utf8_rfc 0x20AC"
    using unicode_escapes_decode [of "[50, 48, 97, 67]" "[50, 48, 97, 67]" _ "[]", OF _ _ _ _ _ _ refl refl] by (simp add: hex)
  moreover have "utf8_rfc 0x20AC = [0xE2, 0x82, 0xAC]" by (simp add: utf8_rfc_def)
  ultimately show ?thesis using hex by simp
qed

end
