(* ===== verification/CJson_Parse.thy ===== *)
theory CJson_Parse
  imports CJson_Text Complex_Main
begin

text \<open>
  The parser of \<open>cJSON.c\<close>. The linked tree of \<open>cJSON\<close> structs is a datatype with the struct's fields,
  \<open>next\<close>/\<open>prev\<close> and \<open>child\<close> being the list of children. \<open>double\<close> arithmetic and \<open>sprintf\<close> of
  doubles are a record of operations, so that what is proved holds for every implementation of
  them. The parser calls itself through arrays and objects; the first argument of the model bounds
  the depth of calls, and one more than the length of the input is proved to be enough.
\<close>

section \<open>Doubles\<close>

datatype float_format = Fixed0 | Scientific | Fixed6

definition INT_MAX :: int where "INT_MAX = 2 ^ 31 - 1"
definition INT_MIN :: int where "INT_MIN = - (2 ^ 31)"

text \<open>
  \<open>dtoint\<close> is the conversion to \<open>int\<close>, which has no defined result (None) where the integral part is
  outside \<open>int\<close>.
\<close>

record 'd doubles =
  dlit :: "rat \<Rightarrow> 'd"
  dadd :: "'d \<Rightarrow> 'd \<Rightarrow> 'd"
  dsub :: "'d \<Rightarrow> 'd \<Rightarrow> 'd"
  dmul :: "'d \<Rightarrow> 'd \<Rightarrow> 'd"
  dpow :: "'d \<Rightarrow> 'd \<Rightarrow> 'd"
  dabs :: "'d \<Rightarrow> 'd"
  dfloor :: "'d \<Rightarrow> 'd"
  dle :: "'d \<Rightarrow> 'd \<Rightarrow> bool"
  dless :: "'d \<Rightarrow> 'd \<Rightarrow> bool"
  deq :: "'d \<Rightarrow> 'd \<Rightarrow> bool"
  dtoint :: "'d \<Rightarrow> int option"
  dshow :: "float_format \<Rightarrow> 'd \<Rightarrow> byte list"

text \<open>
  Decimal notation of an integer, as \<open>sprintf "%d"\<close> writes it, and the instance of exact rationals
  that the examples use.
\<close>

fun decimal :: "nat \<Rightarrow> byte list" where
  "decimal n = (if n < 10 then [word_of_nat (48 + n)] else decimal (n div 10) @ [word_of_nat (48 + n mod 10)])"

declare decimal.simps [simp del]

definition show_int :: "int \<Rightarrow> byte list" where
  "show_int i = (if i < 0 then 45 # decimal (nat (- i)) else decimal (nat i))"

definition exact_doubles :: "rat doubles" where
  "exact_doubles =
     \<lparr>dlit = \<lambda>q. q, dadd = (+), dsub = (-), dmul = (*),
      dpow = \<lambda>x y. if 0 \<le> y then x ^ nat \<lfloor>y\<rfloor> else 1 / x ^ nat \<lfloor>- y\<rfloor>,
      dabs = abs, dfloor = \<lambda>x. of_int \<lfloor>x\<rfloor>, dle = (\<le>), dless = (<), deq = (=),
      dtoint = \<lambda>x. let i = (if 0 \<le> x then \<lfloor>x\<rfloor> else \<lceil>x\<rceil>) in if INT_MIN \<le> i \<and> i \<le> INT_MAX then Some i else None,
      dshow = \<lambda>f x. if f = Fixed0 then show_int \<lfloor>x + 1 / 2\<rfloor>
        else show_int \<lfloor>x\<rfloor> @ 46 # decimal (nat \<lfloor>(x - of_int \<lfloor>x\<rfloor>) * 10 ^ 6\<rfloor>)\<rparr>"

section \<open>Items\<close>

datatype kind = Invalid | cJSON_False | cJSON_True | cJSON_NULL | cJSON_Number | cJSON_String
  | cJSON_Array | cJSON_Object

datatype 'd cJSON = Item (ctype: kind) (valuestring: "byte list option") (valueint: int)
  (valuedouble: 'd) (item_name: "byte list option") (children: "'d cJSON list")

definition cJSON_New_Item :: "'d doubles \<Rightarrow> 'd cJSON" where
  "cJSON_New_Item D = Item Invalid None 0 (dlit D 0) None []"

fun set_type :: "kind \<Rightarrow> 'd cJSON \<Rightarrow> 'd cJSON" where
  "set_type k (Item _ vs vi vd nm cs) = Item k vs vi vd nm cs"

fun set_string :: "byte list \<Rightarrow> 'd cJSON \<Rightarrow> 'd cJSON" where
  "set_string s (Item _ _ vi vd nm cs) = Item cJSON_String (Some s) vi vd nm cs"

fun set_number :: "'d \<Rightarrow> int \<Rightarrow> 'd cJSON \<Rightarrow> 'd cJSON" where
  "set_number d i (Item _ vs _ _ nm cs) = Item cJSON_Number vs i d nm cs"

fun set_true :: "'d cJSON \<Rightarrow> 'd cJSON" where
  "set_true (Item _ vs _ vd nm cs) = Item cJSON_True vs 1 vd nm cs"

fun set_children :: "kind \<Rightarrow> 'd cJSON list \<Rightarrow> 'd cJSON \<Rightarrow> 'd cJSON" where
  "set_children k cs (Item _ vs vi vd nm _) = Item k vs vi vd nm cs"

text \<open>\<open>child->string = child->valuestring; child->valuestring = NULL\<close>.\<close>

fun string_as_key :: "'d cJSON \<Rightarrow> 'd cJSON" where
  "string_as_key (Item k vs vi vd _ cs) = Item k None vi vd vs cs"

section \<open>Numbers\<close>

abbreviation MINUS :: byte where "MINUS \<equiv> 45"
abbreviation PLUS :: byte where "PLUS \<equiv> 43"
abbreviation DOT :: byte where "DOT \<equiv> 46"
abbreviation ZERO :: byte where "ZERO \<equiv> 48"

definition is_digit :: "byte \<Rightarrow> bool" where
  "is_digit c \<longleftrightarrow> 48 \<le> c \<and> c \<le> 57"

definition digit_val :: "byte \<Rightarrow> int" where
  "digit_val c = uint c - 48"

text \<open>The loops over the digits before the point, behind it and of the exponent.\<close>

fun whole_digits :: "'d doubles \<Rightarrow> 'd \<Rightarrow> byte list \<Rightarrow> 'd \<times> byte list" where
  "whole_digits D n [] = (n, [])"
| "whole_digits D n (c # cs) =
     (if is_digit c
      then whole_digits D (dadd D (dmul D n (dlit D 10)) (dlit D (of_int (digit_val c)))) cs
      else (n, c # cs))"

fun fraction_digits :: "'d doubles \<Rightarrow> 'd \<Rightarrow> 'd \<Rightarrow> byte list \<Rightarrow> 'd \<times> 'd \<times> byte list" where
  "fraction_digits D n scale [] = (n, scale, [])"
| "fraction_digits D n scale (c # cs) =
     (if is_digit c
      then fraction_digits D (dadd D (dmul D n (dlit D 10)) (dlit D (of_int (digit_val c))))
             (dsub D scale (dlit D 1)) cs
      else (n, scale, c # cs))"

text \<open>\<open>subscale\<close> is an \<open>int\<close>; its overflow has no defined behaviour.\<close>

fun exponent_digits :: "int \<Rightarrow> byte list \<Rightarrow> (int \<times> byte list) option" where
  "exponent_digits subscale [] = Some (subscale, [])"
| "exponent_digits subscale (c # cs) =
     (if is_digit c then
        if INT_MAX < subscale * 10 + digit_val c then None
        else exponent_digits (subscale * 10 + digit_val c) cs
      else Some (subscale, c # cs))"

definition parse_exponent :: "byte list \<Rightarrow> (int \<times> int \<times> byte list) option" where
  "parse_exponent num =
     (case num of
        c # num \<Rightarrow>
          if c = 101 \<or> c = 69 then
            let (signsubscale, num) =
              (case num of
                 d # rest \<Rightarrow> if d = PLUS then (1, rest) else if d = MINUS then (-1, rest) else (1, num)
               | [] \<Rightarrow> (1, num))
            in map_option (\<lambda>(subscale, rest). (subscale, signsubscale, rest)) (exponent_digits 0 num)
          else Some (0, 1, c # num)
      | [] \<Rightarrow> Some (0, 1, []))"

text \<open>
  \<open>parse_number\<close>: the double read and the rest of the input, and then the item; \<open>(int)n\<close> has no
  defined behaviour for a double outside \<open>int\<close>.
\<close>

definition read_number :: "'d doubles \<Rightarrow> byte list \<Rightarrow> ('d \<times> byte list) option" where
  "read_number D num =
     (let (sign, num) = (if num \<noteq> [] \<and> hd num = MINUS then (dlit D (-1), tl num) else (dlit D 1, num));
          num = (if num \<noteq> [] \<and> hd num = ZERO then tl num else num);
          (n, num) = (if num \<noteq> [] \<and> 49 \<le> hd num \<and> hd num \<le> 57 then whole_digits D (dlit D 0) num
                      else (dlit D 0, num));
          (n, scale, num) = (case num of
              c # d # rest \<Rightarrow> if c = DOT \<and> is_digit d then fraction_digits D n (dlit D 0) (d # rest)
                else (n, dlit D 0, num)
            | _ \<Rightarrow> (n, dlit D 0, num))
      in map_option (\<lambda>(subscale, signsubscale, rest).
             (dmul D (dmul D sign n)
                (dpow D (dlit D 10) (dadd D scale (dlit D (of_int (subscale * signsubscale))))), rest))
           (parse_exponent num))"

definition parse_number :: "'d doubles \<Rightarrow> 'd cJSON \<Rightarrow> byte list \<Rightarrow> 'd cJSON parsed" where
  "parse_number D item num =
     (case read_number D num of
        None \<Rightarrow> Crash
      | Some (n, rest) \<Rightarrow>
          (case dtoint D n of
             None \<Rightarrow> Crash
           | Some i \<Rightarrow> Parsed (set_number n i item) rest))"

section \<open>Values, arrays and objects\<close>

abbreviation COMMA :: byte where "COMMA \<equiv> 44"
abbreviation COLON :: byte where "COLON \<equiv> 58"
abbreviation LBRACKET :: byte where "LBRACKET \<equiv> 91"
abbreviation RBRACKET :: byte where "RBRACKET \<equiv> 93"
abbreviation LBRACE :: byte where "LBRACE \<equiv> 123"
abbreviation RBRACE :: byte where "RBRACE \<equiv> 125"
abbreviation NULL_TEXT :: "byte list" where "NULL_TEXT \<equiv> [110, 117, 108, 108]"
abbreviation FALSE_TEXT :: "byte list" where "FALSE_TEXT \<equiv> [102, 97, 108, 115, 101]"
abbreviation TRUE_TEXT :: "byte list" where "TRUE_TEXT \<equiv> [116, 114, 117, 101]"

text \<open>\<open>*value == c\<close>\<close>

definition points_to :: "byte list \<Rightarrow> byte \<Rightarrow> bool" where
  "points_to s c \<longleftrightarrow> s \<noteq> [] \<and> hd s = c"

text \<open>
  What \<open>parse_array\<close> and \<open>parse_object\<close> need is a parser for values, an argument here that
  \<open>parse_value\<close> fills with itself at a smaller depth. The loops collect the children in order;
  their rounds are bounded by \<open>n\<close>. A member of an object is the key, the colon and the value.
\<close>

type_synonym 'd value_parser = "'d cJSON \<Rightarrow> byte list \<Rightarrow> 'd cJSON parsed"

fun array_loop :: "'d doubles \<Rightarrow> 'd value_parser \<Rightarrow> nat \<Rightarrow> 'd cJSON list \<Rightarrow> byte list \<Rightarrow> 'd cJSON list parsed" where
  "array_loop D pv 0 cs v = NoFuel"
| "array_loop D pv (Suc n) cs v =
     (if points_to v COMMA then
        bind_parsed (pv (cJSON_New_Item D) (skip (tl v))) (\<lambda>child rest.
        array_loop D pv n (cs @ [child]) (skip rest))
      else if points_to v RBRACKET then Parsed cs (tl v)
      else Failed (Some v))"

definition parse_array :: "'d doubles \<Rightarrow> 'd value_parser \<Rightarrow> nat \<Rightarrow> 'd value_parser" where
  "parse_array D pv n item v =
     (if \<not> points_to v LBRACKET then Failed (Some v)
      else
        let v = skip (tl v) in
        if points_to v RBRACKET then Parsed (set_type cJSON_Array item) (tl v)
        else bind_parsed (pv (cJSON_New_Item D) (skip v)) (\<lambda>child rest.
             bind_parsed (array_loop D pv n [child] (skip rest)) (\<lambda>cs rest.
             Parsed (set_children cJSON_Array cs item) rest)))"

definition parse_member :: "'d doubles \<Rightarrow> 'd value_parser \<Rightarrow> byte list \<Rightarrow> 'd cJSON parsed" where
  "parse_member D pv v =
     bind_parsed (parse_string v) (\<lambda>key rest.
     let v = skip rest; child = string_as_key (set_string key (cJSON_New_Item D)) in
     if \<not> points_to v COLON then Failed (Some v)
     else pv child (skip (tl v)))"

fun object_loop :: "'d doubles \<Rightarrow> 'd value_parser \<Rightarrow> nat \<Rightarrow> 'd cJSON list \<Rightarrow> byte list \<Rightarrow> 'd cJSON list parsed" where
  "object_loop D pv 0 cs v = NoFuel"
| "object_loop D pv (Suc n) cs v =
     (if points_to v COMMA then
        bind_parsed (parse_member D pv (skip (tl v))) (\<lambda>child rest.
        object_loop D pv n (cs @ [child]) (skip rest))
      else if points_to v RBRACE then Parsed cs (tl v)
      else Failed (Some v))"

definition parse_object :: "'d doubles \<Rightarrow> 'd value_parser \<Rightarrow> nat \<Rightarrow> 'd value_parser" where
  "parse_object D pv n item v =
     (if \<not> points_to v LBRACE then Failed (Some v)
      else
        let v = skip (tl v) in
        if points_to v RBRACE then Parsed (set_type cJSON_Object item) (tl v)
        else bind_parsed (parse_member D pv (skip v)) (\<lambda>child rest.
             bind_parsed (object_loop D pv n [child] (skip rest)) (\<lambda>cs rest.
             Parsed (set_children cJSON_Object cs item) rest)))"

fun parse_value :: "'d doubles \<Rightarrow> nat \<Rightarrow> 'd value_parser" where
  "parse_value D 0 item v = NoFuel"
| "parse_value D (Suc n) item v =
     (if take 4 v = NULL_TEXT then Parsed (set_type cJSON_NULL item) (drop 4 v)
      else if take 5 v = FALSE_TEXT then Parsed (set_type cJSON_False item) (drop 5 v)
      else if take 4 v = TRUE_TEXT then Parsed (set_true item) (drop 4 v)
      else if points_to v DQUOTE then bind_parsed (parse_string v) (\<lambda>s rest. Parsed (set_string s item) rest)
      else if points_to v MINUS \<or> (v \<noteq> [] \<and> is_digit (hd v)) then parse_number D item v
      else if points_to v LBRACKET then parse_array D (parse_value D n) n item v
      else if points_to v LBRACE then parse_object D (parse_value D n) n item v
      else Failed (Some v))"

text \<open>
  \<open>cJSON_ParseWithOpts\<close>: the item or NULL, and what is in \<open>*ep\<close> afterwards. When the caller gave
  \<open>return_parse_end\<close>, it is \<open>ep\<close> and gets the end of the parse.
\<close>

definition enough_fuel :: "byte list \<Rightarrow> nat" where
  "enough_fuel v = length v + 1"

definition cJSON_ParseWithOpts ::
  "'d doubles \<Rightarrow> byte list \<Rightarrow> bool \<Rightarrow> bool \<Rightarrow> fault + 'd cJSON option \<times> byte list option" where
  "cJSON_ParseWithOpts D v return_parse_end require_null_terminated =
     (case parse_value D (enough_fuel (skip v)) (cJSON_New_Item D) (skip v) of
        Failed ep \<Rightarrow> Inr (None, ep)
      | Parsed c stop \<Rightarrow>
          let stop = (if require_null_terminated then skip stop else stop) in
          if require_null_terminated \<and> stop \<noteq> [] then Inr (None, Some stop)
          else Inr (Some c, if return_parse_end then Some stop else None)
      | _ \<Rightarrow> Inl Undefined)"

definition cJSON_Parse :: "'d doubles \<Rightarrow> byte list \<Rightarrow> fault + 'd cJSON option \<times> byte list option" where
  "cJSON_Parse D v = cJSON_ParseWithOpts D v False False"

section \<open>What the parser returns\<close>

text \<open>
  An item as the parser leaves it: one of the seven types, a text exactly in strings, children only
  in arrays and objects, names exactly in objects, the numeric fields zero but in numbers and \<open>true\<close>,
  no NUL in any text.
\<close>

definition c_string :: "byte list \<Rightarrow> bool" where
  "c_string s \<longleftrightarrow> 0 \<notin> set s"

fun well_formed :: "'d doubles \<Rightarrow> 'd cJSON \<Rightarrow> bool" where
  "well_formed D (Item k vs vi vd nm cs) \<longleftrightarrow>
     k \<noteq> Invalid \<and>
     (case vs of None \<Rightarrow> k \<noteq> cJSON_String | Some s \<Rightarrow> k = cJSON_String \<and> c_string s) \<and>
     (if k = cJSON_Number then dtoint D vd = Some vi
      else vi = (if k = cJSON_True then 1 else 0) \<and> vd = dlit D 0) \<and>
     (cs \<noteq> [] \<longrightarrow> k = cJSON_Array \<or> k = cJSON_Object) \<and>
     (\<forall>c \<in> set cs. well_formed D c \<and>
        (case item_name c of None \<Rightarrow> k = cJSON_Array | Some s \<Rightarrow> k = cJSON_Object \<and> c_string s))"

definition fresh_item :: "'d doubles \<Rightarrow> 'd cJSON \<Rightarrow> bool" where
  "fresh_item D item \<longleftrightarrow> valuestring item = None \<and> valueint item = 0 \<and> valuedouble item = dlit D 0 \<and> children item = []"

definition parsed_as :: "'d doubles \<Rightarrow> 'd cJSON \<Rightarrow> 'd cJSON \<Rightarrow> bool" where
  "parsed_as D item t \<longleftrightarrow> well_formed D t \<and> item_name t = item_name item"

text \<open>An exponent that does not fit an \<open>int\<close> somewhere in the input.\<close>

definition long_exponent :: "byte list \<Rightarrow> bool" where
  "long_exponent v \<longleftrightarrow> (\<exists>num. suffix num v \<and> exponent_digits 0 num = None)"

text \<open>A number somewhere in the input that is outside \<open>int\<close>.\<close>

definition large_number :: "'d doubles \<Rightarrow> byte list \<Rightarrow> bool" where
  "large_number D v \<longleftrightarrow> (\<exists>num n rest. suffix num v \<and> num \<noteq> [] \<and> (hd num = MINUS \<or> is_digit (hd num)) \<and>
     read_number D num = Some (n, rest) \<and> dtoint D n = None)"

text \<open>A result on input \<open>v\<close> that leaves fewer than \<open>b\<close> bytes.\<close>

definition good :: "'d doubles \<Rightarrow> nat \<Rightarrow> byte list \<Rightarrow> ('a \<Rightarrow> bool) \<Rightarrow> 'a parsed \<Rightarrow> bool" where
  "good D b v P r \<longleftrightarrow>
     (case r of
        Parsed a rest \<Rightarrow> suffix rest v \<and> length rest < b \<and> P a
      | Failed ep \<Rightarrow> (\<forall>e. ep = Some e \<longrightarrow> suffix e v)
      | Crash \<Rightarrow> long_exponent v \<or> large_number D v
      | NoFuel \<Rightarrow> False)"

lemma good_simps [simp]:
  "good D b v P (Parsed a rest) \<longleftrightarrow> suffix rest v \<and> length rest < b \<and> P a"
  "good D b v P (Failed None)"
  "good D b v P (Failed (Some e)) \<longleftrightarrow> suffix e v"
  "good D b v P Crash \<longleftrightarrow> long_exponent v \<or> large_number D v"
  "\<not> good D b v P NoFuel"
  by (auto simp: good_def)

lemma good_bind:
  "good D b v P m \<Longrightarrow> (\<And>a rest. P a \<Longrightarrow> suffix rest v \<Longrightarrow> length rest < b \<Longrightarrow> good D c v Q (f a rest)) \<Longrightarrow>
    good D c v Q (bind_parsed m f)"
  by (cases m) (auto simp: good_def)

lemma long_exponent_suffix: "suffix v' v \<Longrightarrow> long_exponent v' \<Longrightarrow> long_exponent v"
  by (meson long_exponent_def suffix_order.trans)

lemma large_number_suffix: "suffix v' v \<Longrightarrow> large_number D v' \<Longrightarrow> large_number D v"
  by (meson large_number_def suffix_order.trans)

lemma good_suffix: "good D b v' P r \<Longrightarrow> suffix v' v \<Longrightarrow> b \<le> c \<Longrightarrow> (\<And>a. P a \<Longrightarrow> Q a) \<Longrightarrow> good D c v Q r"
  by (cases r) (auto simp: good_def long_exponent_suffix large_number_suffix intro: suffix_order.trans)

lemma c_string_suffix: "suffix v' v \<Longrightarrow> c_string v \<Longrightarrow> c_string v'"
  by (auto simp: c_string_def suffix_def)

lemma points_to_ConsD: "points_to v c \<Longrightarrow> v = c # tl v"
  by (cases v) (auto simp: points_to_def)

lemma length_skip: "length (skip v) \<le> length v"
  by (rule suffix_length_le [OF skip_suffix])

lemma suffix_skip: "suffix v w \<Longrightarrow> suffix (skip v) w"
  using skip_suffix suffix_order.trans by blast

lemma suffix_tl': "suffix v w \<Longrightarrow> suffix (tl v) w"
  using suffix_tl suffix_order.trans by blast

text \<open>Numbers.\<close>

lemma whole_digits_suffix: "whole_digits D n cs = (m, rest) \<Longrightarrow> suffix rest cs"
  by (induction D n cs rule: whole_digits.induct) (auto split: if_splits intro: suffix_ConsI)

lemma whole_digits_less:
  "whole_digits D n (c # cs) = (m, rest) \<Longrightarrow> is_digit c \<Longrightarrow> length rest \<le> length cs"
  by (auto dest!: whole_digits_suffix dest: suffix_length_le)

lemma fraction_digits_suffix: "fraction_digits D n sc cs = (m, sc', rest) \<Longrightarrow> suffix rest cs"
  by (induction D n sc cs rule: fraction_digits.induct) (auto split: if_splits intro: suffix_ConsI)

lemma exponent_digits_suffix: "exponent_digits s cs = Some (m, rest) \<Longrightarrow> suffix rest cs"
  by (induction s cs rule: exponent_digits.induct) (auto split: if_splits intro: suffix_ConsI)

lemma parse_exponent_suffix: "parse_exponent num = Some (s, g, rest) \<Longrightarrow> suffix rest num"
  by (auto simp: parse_exponent_def Let_def split: list.splits if_splits prod.splits
      dest!: exponent_digits_suffix intro: suffix_ConsI)

lemma parse_exponent_None: "parse_exponent num = None \<Longrightarrow> long_exponent num"
  unfolding long_exponent_def
  by (auto simp: parse_exponent_def Let_def split: list.splits if_splits prod.splits intro: suffix_ConsI suffix_order.refl)

lemma parse_number_good:
  assumes v: "v \<noteq> []" "hd v = MINUS \<or> is_digit (hd v)" and item: "fresh_item D item"
  shows "good D (length v) v (parsed_as D item) (parse_number D item v)"
proof -
  obtain sign num1 where 1: "(if v \<noteq> [] \<and> hd v = MINUS then (dlit D (-1), tl v) else (dlit D 1, v)) = (sign, num1)"
    by (rule prod.exhaust)
  define num2 where "num2 = (if num1 \<noteq> [] \<and> hd num1 = ZERO then tl num1 else num1)"
  obtain n num3 where 3: "(if num2 \<noteq> [] \<and> 49 \<le> hd num2 \<and> hd num2 \<le> 57
      then whole_digits D (dlit D 0) num2 else (dlit D 0, num2)) = (n, num3)"
    by (rule prod.exhaust)
  obtain n' scale num4 where 4: "(case num3 of
              c # d # rest \<Rightarrow> if c = DOT \<and> is_digit d then fraction_digits D n (dlit D 0) (d # rest)
                else (n, dlit D 0, num3)
            | _ \<Rightarrow> (n, dlit D 0, num3)) = (n', scale, num4)"
    by (rule prod_cases3)
  have s1: "suffix num1 v" using 1 by (auto split: if_splits intro: suffix_tl)
  have s2: "suffix num2 num1" by (auto simp: num2_def intro: suffix_tl)
  have s3: "suffix num3 num2" using 3 by (auto split: if_splits dest: whole_digits_suffix)
  have s4: "suffix num4 num3"
    using 4 by (auto split: if_splits list.splits dest: fraction_digits_suffix intro: suffix_ConsI)
  have less: "length num3 < length v"
  proof (cases "hd v = MINUS")
    case True
    then have "num1 = tl v" using 1 v(1) by simp
    then have "length num1 < length v" using v(1) by simp
    then show ?thesis using s2 s3 by (meson le_less_trans suffix_length_le)
  next
    case False
    then have n1: "num1 = v" and d: "is_digit (hd v)" using 1 v by auto
    show ?thesis
    proof (cases "hd v = ZERO")
      case True
      then have "length num2 < length v" using v(1) n1 by (simp add: num2_def)
      then show ?thesis using s3 by (meson le_less_trans suffix_length_le)
    next
      case z: False
      then have n2: "num2 = v" using n1 by (simp add: num2_def)
      have "unat (hd v) \<noteq> unat (48 :: byte)" using z unsigned_word_eqI [of "hd v" "48"] by blast
      then have "unat (hd v) \<noteq> 48" by simp
      then have "49 \<le> hd v" using d by (simp add: is_digit_def word_le_nat_alt)
      then have "whole_digits D (dlit D 0) (hd v # tl v) = (n, num3)"
        using 3 n2 v(1) d by (simp add: is_digit_def)
      from whole_digits_less [OF this d] show ?thesis using v(1) by (cases v) auto
    qed
  qed
  have eq: "read_number D v = map_option (\<lambda>(sub, g, rest). (dmul D (dmul D sign n')
      (dpow D (dlit D 10) (dadd D scale (dlit D (of_int (sub * g))))), rest)) (parse_exponent num4)"
    unfolding read_number_def by (simp only: 1 3 4 num2_def [symmetric] Let_def prod.case)
  have suf: "suffix num4 v" using s1 s2 s3 s4 suffix_order.trans by metis
  show ?thesis
  proof (cases "parse_exponent num4")
    case None
    then show ?thesis using long_exponent_suffix [OF suf parse_exponent_None] by (simp add: eq parse_number_def)
  next
    case (Some p)
    then obtain sub g rest where p: "parse_exponent num4 = Some (sub, g, rest)" by (cases p) auto
    then obtain x where x: "read_number D v = Some (x, rest)" by (simp add: eq)
    have "suffix rest v" using parse_exponent_suffix [OF p] suf suffix_order.trans by blast
    moreover have "length rest < length v"
      using parse_exponent_suffix [OF p] s4 less by (meson le_less_trans suffix_length_le)
    moreover have "parsed_as D item (set_number x i item)" if "dtoint D x = Some i" for i
      using item that by (cases item) (simp add: parsed_as_def fresh_item_def)
    moreover have "large_number D v" if "dtoint D x = None"
      using x v that unfolding large_number_def by blast
    ultimately show ?thesis by (auto simp: parse_number_def x split: option.splits)
  qed
qed

definition value_parser_good :: "'d doubles \<Rightarrow> nat \<Rightarrow> 'd value_parser \<Rightarrow> bool" where
  "value_parser_good D n pv \<longleftrightarrow>
     (\<forall>item v. fresh_item D item \<longrightarrow> c_string v \<longrightarrow> length v < n \<longrightarrow>
        good D (length v) v (parsed_as D item) (pv item v))"

lemma value_parser_goodD:
  assumes "value_parser_good D n pv" and "fresh_item D item" and "c_string w" and "suffix v w"
    and "length v < length w" and "length w \<le> n" and "\<And>t. parsed_as D item t \<Longrightarrow> Q t"
  shows "good D (length w) w Q (pv item v)"
proof -
  have "length v < n" using assms(5,6) by simp
  then have "good D (length v) v (parsed_as D item) (pv item v)"
    using assms(1,2) c_string_suffix [OF assms(4,3)] by (simp add: value_parser_good_def)
  then show ?thesis by (rule good_suffix) (use assms(4,5,7) in auto)
qed

lemma fresh_New_Item: "fresh_item D (cJSON_New_Item D)" "item_name (cJSON_New_Item D) = None"
  by (simp_all add: fresh_item_def cJSON_New_Item_def)

definition element :: "'d doubles \<Rightarrow> 'd cJSON \<Rightarrow> bool" where
  "element D c \<longleftrightarrow> well_formed D c \<and> item_name c = None"

definition member :: "'d doubles \<Rightarrow> 'd cJSON \<Rightarrow> bool" where
  "member D c \<longleftrightarrow> well_formed D c \<and> (\<exists>s. item_name c = Some s \<and> c_string s)"

lemma parse_string_good:
  "c_string v \<Longrightarrow> good D (length v) v c_string (parse_string v)"
  using parse_string_safe [of v] by (auto simp: good_def c_string_def split: parsed.splits)

lemma array_loop_good:
  assumes pv: "value_parser_good D n pv"
  shows "c_string v \<Longrightarrow> length v < m \<Longrightarrow> length v \<le> n \<Longrightarrow> list_all (element D) cs \<Longrightarrow>
    good D (length v) v (list_all (element D)) (array_loop D pv m cs v)"
  using pv
proof (induction D pv m cs v rule: array_loop.induct)
  case (2 D pv m cs v)
  show ?case
  proof (cases "points_to v COMMA")
    case True
    then have "v \<noteq> []" by (simp add: points_to_def)
    let ?w = "skip (tl v)"
    have w: "suffix ?w v" "length ?w < length v"
      using length_skip [of "tl v"] \<open>v \<noteq> []\<close> by (auto intro: suffix_skip suffix_tl simp: le_less_trans)
    have "good D (length v) v (element D) (pv (cJSON_New_Item D) ?w)"
      by (rule value_parser_goodD [OF "2.prems"(5) fresh_New_Item(1) "2.prems"(1) w "2.prems"(3)])
        (simp add: parsed_as_def element_def fresh_New_Item(2))
    then have "good D (length v) v (list_all (element D))
        (bind_parsed (pv (cJSON_New_Item D) ?w) (\<lambda>child rest. array_loop D pv m (cs @ [child]) (skip rest)))"
    proof (rule good_bind)
      fix child rest
      assume c: "element D child" "suffix rest v" "length rest < length v"
      have r: "suffix (skip rest) v" "length (skip rest) < length v"
        using c(2,3) length_skip [of rest] by (auto intro: suffix_skip)
      have "good D (length (skip rest)) (skip rest) (list_all (element D)) (array_loop D pv m (cs @ [child]) (skip rest))"
        by (rule "2.IH" [OF True]) (use r c "2.prems" c_string_suffix [OF r(1)] in auto)
      then show "good D (length v) v (list_all (element D)) (array_loop D pv m (cs @ [child]) (skip rest))"
        by (rule good_suffix) (use r in auto)
    qed
    then show ?thesis using True by simp
  next
    case False
    then show ?thesis using "2.prems" by (auto simp: points_to_def intro: suffix_tl)
  qed
qed simp


lemma parse_member_good:
  assumes "value_parser_good D n pv" and "c_string w" and "length w \<le> n" and "suffix v w" "length v < length w"
  shows "good D (length w) w (member D) (parse_member D pv v)"
  unfolding parse_member_def
proof (rule good_bind)
  show "good D (length w) w c_string (parse_string v)"
    by (rule good_suffix [OF parse_string_good]) (use assms c_string_suffix in auto)
  fix key rest
  assume c: "c_string key" "suffix rest w" "length rest < length w"
  define child where "child = string_as_key (set_string key (cJSON_New_Item D))"
  have child: "fresh_item D child" "item_name child = Some key"
    by (simp_all add: child_def fresh_item_def cJSON_New_Item_def)
  have r: "suffix (skip rest) w" "length (skip rest) < length w"
    using c(2,3) length_skip [of rest] by (auto intro: suffix_skip)
  show "good D (length w) w (member D) (let v = skip rest; child = string_as_key (set_string key (cJSON_New_Item D))
      in if \<not> points_to v COLON then Failed (Some v) else pv child (skip (tl v)))"
  proof (cases "points_to (skip rest) COLON")
    case True
    have "suffix (skip (tl (skip rest))) w" "length (skip (tl (skip rest))) < length w"
      using r length_skip [of "tl (skip rest)"] by (auto intro: suffix_skip suffix_tl')
    then have "good D (length w) w (member D) (pv child (skip (tl (skip rest))))"
      by (rule value_parser_goodD [OF assms(1) child(1) assms(2) _ _ assms(3)])
        (simp add: parsed_as_def member_def child(2) c(1))
    then show ?thesis using True by (simp add: child_def)
  next
    case False
    then show ?thesis using r(1) by simp
  qed
qed

lemma object_loop_good:
  assumes pv: "value_parser_good D n pv"
  shows "c_string v \<Longrightarrow> length v < m \<Longrightarrow> length v \<le> n \<Longrightarrow> list_all (member D) cs \<Longrightarrow>
    good D (length v) v (list_all (member D)) (object_loop D pv m cs v)"
  using pv
proof (induction D pv m cs v rule: object_loop.induct)
  case (2 D pv m cs v)
  show ?case
  proof (cases "points_to v COMMA")
    case True
    then have "v \<noteq> []" by (simp add: points_to_def)
    let ?w = "skip (tl v)"
    have w: "suffix ?w v" "length ?w < length v"
      using length_skip [of "tl v"] \<open>v \<noteq> []\<close> by (auto intro: suffix_skip suffix_tl simp: le_less_trans)
    have "good D (length v) v (member D) (parse_member D pv ?w)"
      by (rule parse_member_good [OF "2.prems"(5,1,3) w])
    then have "good D (length v) v (list_all (member D))
        (bind_parsed (parse_member D pv ?w) (\<lambda>child rest. object_loop D pv m (cs @ [child]) (skip rest)))"
    proof (rule good_bind)
      fix child rest
      assume c: "member D child" "suffix rest v" "length rest < length v"
      have r: "suffix (skip rest) v" "length (skip rest) < length v"
        using c(2,3) length_skip [of rest] by (auto intro: suffix_skip)
      have "good D (length (skip rest)) (skip rest) (list_all (member D)) (object_loop D pv m (cs @ [child]) (skip rest))"
        by (rule "2.IH" [OF True]) (use r c "2.prems" c_string_suffix [OF r(1)] in auto)
      then show "good D (length v) v (list_all (member D)) (object_loop D pv m (cs @ [child]) (skip rest))"
        by (rule good_suffix) (use r in auto)
    qed
    then show ?thesis using True by simp
  next
    case False
    then show ?thesis using "2.prems" by (auto simp: points_to_def intro: suffix_tl)
  qed
qed simp

text \<open>What \<open>parse_array\<close> and \<open>parse_object\<close> have in common: brackets, a first child, a loop.\<close>

lemma bracketed_good:
  assumes v: "c_string v" "v \<noteq> []"
    and first: "\<And>w. suffix w v \<Longrightarrow> length w < length v \<Longrightarrow> good D (length v) v P (first w)"
    and loop: "\<And>c w. P c \<Longrightarrow> suffix w v \<Longrightarrow> length w < length v \<Longrightarrow> good D (length v) v (list_all P) (loop c w)"
    and empty: "Q []" and more: "\<And>cs. list_all P cs \<Longrightarrow> Q cs"
  shows "good D (length v) v Q
    (let v = skip (tl v) in
     if points_to v r then Parsed [] (tl v)
     else bind_parsed (first (skip v)) (\<lambda>child rest.
          bind_parsed (loop child (skip rest)) (\<lambda>cs rest. Parsed cs rest)))"
proof -
  let ?w = "skip (tl v)"
  have w: "suffix ?w v" "length ?w < length v"
    using length_skip [of "tl v"] v(2) by (auto intro: suffix_skip suffix_tl simp: le_less_trans)
  have "good D (length v) v Q (bind_parsed (first (skip ?w)) (\<lambda>child rest.
          bind_parsed (loop child (skip rest)) (\<lambda>cs rest. Parsed cs rest)))"
  proof (rule good_bind)
    show "good D (length v) v P (first (skip ?w))" using first w by simp
    fix child rest
    assume c: "P child" "suffix rest v" "length rest < length v"
    have "good D (length v) v (list_all P) (loop child (skip rest))"
      using loop [OF c(1), of "skip rest"] c(2,3) length_skip [of rest] by (simp add: suffix_skip)
    then show "good D (length v) v Q (bind_parsed (loop child (skip rest)) (\<lambda>cs rest. Parsed cs rest))"
      by (rule good_bind) (simp add: more)
  qed
  then show ?thesis using w by (auto simp: Let_def empty intro: suffix_tl')
qed


lemma bind_parsed_children:
  "bind_parsed m (\<lambda>cs rest. Parsed (f cs) rest) = bind_parsed (bind_parsed m (\<lambda>cs rest. Parsed cs rest)) (\<lambda>cs rest. Parsed (f cs) rest)"
  by (cases m) auto

lemma bind_parsed_assoc:
  "bind_parsed (bind_parsed m f) g = bind_parsed m (\<lambda>a r. bind_parsed (f a r) g)"
  by (cases m) auto

lemma parsed_as_children:
  assumes "fresh_item D item"
  shows "list_all (element D) cs \<Longrightarrow> parsed_as D item (set_children cJSON_Array cs item)"
    and "list_all (member D) cs \<Longrightarrow> parsed_as D item (set_children cJSON_Object cs item)"
  using assms
  by (cases item; auto simp: parsed_as_def fresh_item_def element_def member_def list_all_iff split: option.splits)+

lemma set_type_children: "fresh_item D item \<Longrightarrow> set_type k item = set_children k [] item"
  by (cases item) (simp add: fresh_item_def)

lemma parse_array_good:
  assumes pv: "value_parser_good D n pv" and v: "c_string v" "length v \<le> n" "points_to v LBRACKET"
    and item: "fresh_item D item"
  shows "good D (length v) v (parsed_as D item) (parse_array D pv n item v)"
proof -
  let ?r = "let v = skip (tl v) in
     if points_to v RBRACKET then Parsed [] (tl v)
     else bind_parsed (pv (cJSON_New_Item D) (skip v)) (\<lambda>child rest.
          bind_parsed (array_loop D pv n [child] (skip rest)) (\<lambda>cs rest. Parsed cs rest))"
  have "good D (length v) v (\<lambda>cs. list_all (element D) cs) ?r"
  proof (rule bracketed_good [where P = "element D"])
    show "v \<noteq> []" using v(3) by (simp add: points_to_def)
    fix w assume w: "suffix w v" "length w < length v"
    show "good D (length v) v (element D) (pv (cJSON_New_Item D) w)"
      by (rule value_parser_goodD [OF pv fresh_New_Item(1) v(1) w v(2)])
        (simp add: parsed_as_def element_def fresh_New_Item(2))
    fix c assume "element D c"
    then have "good D (length w) w (list_all (element D)) (array_loop D pv n [c] w)"
      using w v(1,2) c_string_suffix [OF w(1)] by (intro array_loop_good [OF pv]) auto
    then show "good D (length v) v (list_all (element D)) (array_loop D pv n [c] w)"
      by (rule good_suffix) (use w in auto)
  qed (use v in auto)
  then have "good D (length v) v (parsed_as D item) (bind_parsed ?r (\<lambda>cs rest. Parsed (set_children cJSON_Array cs item) rest))"
    by (rule good_bind) (simp add: parsed_as_children(1) [OF item])
  moreover have "parse_array D pv n item v = bind_parsed ?r (\<lambda>cs rest. Parsed (set_children cJSON_Array cs item) rest)"
    using v(3) by (simp add: parse_array_def Let_def bind_parsed_assoc set_type_children [OF item])
  ultimately show ?thesis by simp
qed

lemma parse_object_good:
  assumes pv: "value_parser_good D n pv" and v: "c_string v" "length v \<le> n" "points_to v LBRACE"
    and item: "fresh_item D item"
  shows "good D (length v) v (parsed_as D item) (parse_object D pv n item v)"
proof -
  let ?r = "let v = skip (tl v) in
     if points_to v RBRACE then Parsed [] (tl v)
     else bind_parsed (parse_member D pv (skip v)) (\<lambda>child rest.
          bind_parsed (object_loop D pv n [child] (skip rest)) (\<lambda>cs rest. Parsed cs rest))"
  have "good D (length v) v (\<lambda>cs. list_all (member D) cs) ?r"
  proof (rule bracketed_good [where P = "member D"])
    show "v \<noteq> []" using v(3) by (simp add: points_to_def)
    fix w assume w: "suffix w v" "length w < length v"
    show "good D (length v) v (member D) (parse_member D pv w)"
      by (rule parse_member_good [OF pv v(1,2) w])
    fix c assume "member D c"
    then have "good D (length w) w (list_all (member D)) (object_loop D pv n [c] w)"
      using w v(1,2) c_string_suffix [OF w(1)] by (intro object_loop_good [OF pv]) auto
    then show "good D (length v) v (list_all (member D)) (object_loop D pv n [c] w)"
      by (rule good_suffix) (use w in auto)
  qed (use v in auto)
  then have "good D (length v) v (parsed_as D item) (bind_parsed ?r (\<lambda>cs rest. Parsed (set_children cJSON_Object cs item) rest))"
    by (rule good_bind) (simp add: parsed_as_children(2) [OF item])
  moreover have "parse_object D pv n item v = bind_parsed ?r (\<lambda>cs rest. Parsed (set_children cJSON_Object cs item) rest)"
    using v(3) by (simp add: parse_object_def Let_def bind_parsed_assoc set_type_children [OF item])
  ultimately show ?thesis by simp
qed

lemma parsed_as_leaf:
  assumes "fresh_item D item"
  shows "parsed_as D item (set_type cJSON_NULL item)" and "parsed_as D item (set_type cJSON_False item)"
    and "parsed_as D item (set_true item)" and "c_string s \<Longrightarrow> parsed_as D item (set_string s item)"
  using assms by (cases item; simp add: parsed_as_def fresh_item_def)+

lemma length_take_eq: "take k v = t \<Longrightarrow> length t = k \<Longrightarrow> 0 < k \<Longrightarrow> length (drop k v) < length v"
  by auto

lemma parse_value_good: "value_parser_good D n (parse_value D n)"
proof (induction n)
  case 0
  then show ?case by (simp add: value_parser_good_def)
next
  case (Suc n)
  show ?case
    unfolding value_parser_good_def
  proof (intro allI impI)
    fix item v
    assume item: "fresh_item D item" and v: "c_string v" "length v < Suc n"
    have keyword: "good D (length v) v (parsed_as D item) (Parsed t (drop k v))"
      if "take k v = w" "length w = k" "0 < k" "parsed_as D item t" for k w t
      using that length_take_eq [OF that(1-3)] by (simp add: suffix_drop)
    have str: "good D (length v) v (parsed_as D item) (bind_parsed (parse_string v) (\<lambda>s rest. Parsed (set_string s item) rest))"
      by (rule good_bind [OF parse_string_good [OF v(1)]]) (simp add: parsed_as_leaf [OF item])
    have num: "good D (length v) v (parsed_as D item) (parse_number D item v)"
      if "points_to v MINUS \<or> (v \<noteq> [] \<and> is_digit (hd v))"
      by (rule parse_number_good [OF _ _ item]) (use that in \<open>auto simp: points_to_def\<close>)
    show "good D (length v) v (parsed_as D item) (parse_value D (Suc n) item v)"
      using keyword [of 4 NULL_TEXT] keyword [of 5 FALSE_TEXT] keyword [of 4 TRUE_TEXT] parsed_as_leaf [OF item]
        str num parse_array_good [OF Suc v(1) _ _ item] parse_object_good [OF Suc v(1) _ _ item] v(2)
      unfolding parse_value.simps by (simp split del: if_split cong: if_cong) (simp split: if_split)
  qed
qed

text \<open>A parser with more fuel gives the same results where the first one has enough.\<close>

definition extends :: "'d value_parser \<Rightarrow> 'd value_parser \<Rightarrow> bool" where
  "extends pv pv' \<longleftrightarrow> (\<forall>item v. pv item v \<noteq> NoFuel \<longrightarrow> pv' item v = pv item v)"

lemma extends_bind:
  "bind_parsed m f \<noteq> NoFuel \<Longrightarrow> (m \<noteq> NoFuel \<Longrightarrow> m' = m) \<Longrightarrow> (\<And>a r. f a r \<noteq> NoFuel \<Longrightarrow> f' a r = f a r) \<Longrightarrow>
    bind_parsed m' f' = bind_parsed m f"
  by (cases m) auto

lemma extendsD: "extends pv pv' \<Longrightarrow> pv item v \<noteq> NoFuel \<Longrightarrow> pv' item v = pv item v"
  by (simp add: extends_def)

lemma array_loop_extends:
  "extends pv pv' \<Longrightarrow> m \<le> m' \<Longrightarrow> array_loop D pv m cs v \<noteq> NoFuel \<Longrightarrow>
    array_loop D pv' m' cs v = array_loop D pv m cs v"
proof (induction D pv m cs v arbitrary: m' rule: array_loop.induct)
  case (2 D pv m cs v)
  then obtain k where k: "m' = Suc k" "m \<le> k" by (cases m') auto
  show ?case
  proof (cases "points_to v COMMA")
    case True
    have "bind_parsed (pv' (cJSON_New_Item D) (skip (tl v))) (\<lambda>child rest. array_loop D pv' k (cs @ [child]) (skip rest)) =
        bind_parsed (pv (cJSON_New_Item D) (skip (tl v))) (\<lambda>child rest. array_loop D pv m (cs @ [child]) (skip rest))"
      by (rule extends_bind) (use True 2 k in \<open>auto dest: extendsD\<close>)
    then show ?thesis using True k by simp
  qed (simp add: k)
qed simp

lemma parse_member_extends:
  "extends pv pv' \<Longrightarrow> parse_member D pv v \<noteq> NoFuel \<Longrightarrow> parse_member D pv' v = parse_member D pv v"
  unfolding parse_member_def by (rule extends_bind) (auto simp: Let_def dest: extendsD)

lemma object_loop_extends:
  "extends pv pv' \<Longrightarrow> m \<le> m' \<Longrightarrow> object_loop D pv m cs v \<noteq> NoFuel \<Longrightarrow>
    object_loop D pv' m' cs v = object_loop D pv m cs v"
proof (induction D pv m cs v arbitrary: m' rule: object_loop.induct)
  case (2 D pv m cs v)
  then obtain k where k: "m' = Suc k" "m \<le> k" by (cases m') auto
  show ?case
  proof (cases "points_to v COMMA")
    case True
    have "bind_parsed (parse_member D pv' (skip (tl v))) (\<lambda>child rest. object_loop D pv' k (cs @ [child]) (skip rest)) =
        bind_parsed (parse_member D pv (skip (tl v))) (\<lambda>child rest. object_loop D pv m (cs @ [child]) (skip rest))"
      by (rule extends_bind) (use True 2 k in \<open>auto dest: parse_member_extends\<close>)
    then show ?thesis using True k by simp
  qed (simp add: k)
qed simp

lemma parse_array_extends:
  assumes "extends pv pv'" and "n \<le> n'" and "parse_array D pv n item v \<noteq> NoFuel"
  shows "parse_array D pv' n' item v = parse_array D pv n item v"
proof -
  have "bind_parsed (pv' (cJSON_New_Item D) w) (\<lambda>child rest.
             bind_parsed (array_loop D pv' n' [child] (skip rest)) (\<lambda>cs rest. Parsed (set_children cJSON_Array cs item) rest)) =
        bind_parsed (pv (cJSON_New_Item D) w) (\<lambda>child rest.
             bind_parsed (array_loop D pv n [child] (skip rest)) (\<lambda>cs rest. Parsed (set_children cJSON_Array cs item) rest))"
    if "bind_parsed (pv (cJSON_New_Item D) w) (\<lambda>child rest.
             bind_parsed (array_loop D pv n [child] (skip rest)) (\<lambda>cs rest. Parsed (set_children cJSON_Array cs item) rest)) \<noteq> NoFuel" for w
    by (rule extends_bind [OF that], erule extendsD [OF assms(1)], erule extends_bind,
      erule array_loop_extends [OF assms(1,2)], rule refl)
  then show ?thesis using assms(3) by (simp add: parse_array_def Let_def split: if_splits)
qed

lemma parse_object_extends:
  assumes "extends pv pv'" and "n \<le> n'" and "parse_object D pv n item v \<noteq> NoFuel"
  shows "parse_object D pv' n' item v = parse_object D pv n item v"
proof -
  have "bind_parsed (parse_member D pv' w) (\<lambda>child rest.
             bind_parsed (object_loop D pv' n' [child] (skip rest)) (\<lambda>cs rest. Parsed (set_children cJSON_Object cs item) rest)) =
        bind_parsed (parse_member D pv w) (\<lambda>child rest.
             bind_parsed (object_loop D pv n [child] (skip rest)) (\<lambda>cs rest. Parsed (set_children cJSON_Object cs item) rest))"
    if "bind_parsed (parse_member D pv w) (\<lambda>child rest.
             bind_parsed (object_loop D pv n [child] (skip rest)) (\<lambda>cs rest. Parsed (set_children cJSON_Object cs item) rest)) \<noteq> NoFuel" for w
    by (rule extends_bind [OF that], erule parse_member_extends [OF assms(1)], erule extends_bind,
      erule object_loop_extends [OF assms(1,2)], rule refl)
  then show ?thesis using assms(3) by (simp add: parse_object_def Let_def split: if_splits)
qed

lemma parse_value_extends: "n \<le> n' \<Longrightarrow> extends (parse_value D n) (parse_value D n')"
proof (induction n arbitrary: n')
  case 0
  then show ?case by (simp add: extends_def)
next
  case (Suc n)
  then obtain k where k: "n' = Suc k" "n \<le> k" by (cases n') auto
  then show ?case
    using parse_array_extends [OF Suc.IH [OF k(2)] k(2)] parse_object_extends [OF Suc.IH [OF k(2)] k(2)]
    by (simp add: extends_def)
qed

text \<open>A plain text without closing quote.\<close>

lemma scan_plain: "DQUOTE \<notin> set s \<Longrightarrow> BACKSLASH \<notin> set s \<Longrightarrow> scan_string s = Some (length s, length s)"
  using scan_string_plain_append [of s "[]"] by simp

lemma decode_plain: "DQUOTE \<notin> set s \<Longrightarrow> BACKSLASH \<notin> set s \<Longrightarrow> length s \<le> cap \<Longrightarrow>
    decode_string str cap (length s) (s @ cs) = Parsed s cs"
proof (induction s arbitrary: cap)
  case (Cons c s)
  then show ?case by (subst decode_string.simps) (simp add: emit_def)
qed simp

lemma parse_string_unterminated:
  "DQUOTE \<notin> set s \<Longrightarrow> BACKSLASH \<notin> set s \<Longrightarrow> parse_string (DQUOTE # s) = Parsed s []"
  using decode_plain [of s "length s" "DQUOTE # s" "[]"] by (simp add: parse_string_def scan_plain)

section \<open>Properties\<close>

text \<open>
  C20: the parser terminates: on any input and any item it returns after at most as many nested calls
  and loop rounds as the input has bytes, plus one, and what it returns does not depend on the
  bound of the model from there on. It consumes at least one byte of what it accepts. It runs into
  undefined behaviour only at an exponent or a number outside \<open>int\<close>.
\<close>

theorem parse_value_terminates:
  assumes "fresh_item D item" and "c_string v" and "enough_fuel v \<le> n"
  shows "parse_value D n item v = parse_value D (enough_fuel v) item v \<and>
    (case parse_value D n item v of
       Parsed t rest \<Rightarrow> suffix rest v \<and> length rest < length v
     | Failed ep \<Rightarrow> (case ep of None \<Rightarrow> True | Some e \<Rightarrow> suffix e v)
     | Crash \<Rightarrow> long_exponent v \<or> large_number D v
     | NoFuel \<Rightarrow> False)"
proof -
  have "good D (length v) v (parsed_as D item) (parse_value D (enough_fuel v) item v)"
    using parse_value_good [of D "enough_fuel v"] assms(1,2)
    by (simp add: value_parser_good_def enough_fuel_def)
  moreover from this have "parse_value D n item v = parse_value D (enough_fuel v) item v"
    by (intro extendsD [OF parse_value_extends [OF assms(3)]]) auto
  ultimately show ?thesis by (auto simp: good_def split: parsed.splits option.splits)
qed

theorem parse_value_terminates_witness:
  "case parse_value exact_doubles 9 (cJSON_New_Item exact_doubles) [LBRACKET, 49, COMMA, 50, RBRACKET] of
     Parsed t rest \<Rightarrow> length rest < 5 | Failed ep \<Rightarrow> True | Crash \<Rightarrow> long_exponent [LBRACKET, 49, COMMA, 50, RBRACKET] \<or> large_number exact_doubles [LBRACKET, 49, COMMA, 50, RBRACKET]
   | NoFuel \<Rightarrow> False"
proof -
  have "c_string [LBRACKET, 49, COMMA, 50, RBRACKET]" "enough_fuel [LBRACKET, 49, COMMA, 50, RBRACKET] \<le> 9"
    by (simp_all add: c_string_def enough_fuel_def)
  from parse_value_terminates [OF fresh_New_Item(1) this, of exact_doubles]
  show ?thesis by (simp split: parsed.splits)
qed

lemma ParseWithOpts_well_formed:
  assumes "c_string v"
  shows "case cJSON_ParseWithOpts D v return_parse_end require_null_terminated of
      Inr (Some t, ep) \<Rightarrow> well_formed D t \<and> item_name t = None \<and>
        (case ep of None \<Rightarrow> \<not> return_parse_end
         | Some e \<Rightarrow> return_parse_end \<and> suffix e v \<and> (require_null_terminated \<longrightarrow> e = []))
    | Inr (None, ep) \<Rightarrow> (case ep of None \<Rightarrow> True | Some e \<Rightarrow> suffix e v)
    | Inl f \<Rightarrow> f = Undefined \<and> (long_exponent v \<or> large_number D v)"
proof -
  let ?v = "skip v"
  have "good D (length ?v) ?v (parsed_as D (cJSON_New_Item D)) (parse_value D (enough_fuel ?v) (cJSON_New_Item D) ?v)"
    using parse_value_good [of D "enough_fuel ?v"] fresh_New_Item(1) [of D] c_string_suffix [OF skip_suffix assms]
    by (simp add: value_parser_good_def enough_fuel_def)
  then have "good D (Suc (length v)) v (parsed_as D (cJSON_New_Item D)) (parse_value D (enough_fuel ?v) (cJSON_New_Item D) ?v)"
    by (rule good_suffix) (use length_skip [of v] in \<open>auto simp: skip_suffix\<close>)
  then show ?thesis
    by (cases "parse_value D (enough_fuel ?v) (cJSON_New_Item D) ?v")
      (auto simp: cJSON_ParseWithOpts_def Let_def parsed_as_def fresh_New_Item suffix_skip split: option.splits)
qed

text \<open>
  C21: every item \<open>cJSON_ParseWithOpts\<close> returns is well formed, at every depth: one of the seven
  types, a text exactly in strings, children only in arrays and objects, names exactly on members
  of objects, numbers with their \<open>int\<close> conversion, no embedded NUL, not even through an escape.
  Otherwise it returns NULL with \<open>*ep\<close> inside the input, or the input has an exponent whose
  computation overflows an \<open>int\<close> or a number outside \<open>int\<close>, whose conversion has no defined result.
\<close>

theorem parsed_items_well_formed:
  assumes "c_string v"
  shows "case cJSON_ParseWithOpts D v return_parse_end require_null_terminated of
      Inr (Some t, ep) \<Rightarrow> well_formed D t \<and> item_name t = None \<and>
        (case ep of None \<Rightarrow> \<not> return_parse_end
         | Some e \<Rightarrow> return_parse_end \<and> suffix e v \<and> (require_null_terminated \<longrightarrow> e = []))
    | Inr (None, ep) \<Rightarrow> (case ep of None \<Rightarrow> True | Some e \<Rightarrow> suffix e v)
    | Inl f \<Rightarrow> f = Undefined \<and> (long_exponent v \<or> large_number D v)"
  using assms by (rule ParseWithOpts_well_formed)

theorem parsed_items_well_formed_witness:
  "case cJSON_ParseWithOpts exact_doubles [LBRACKET, 49, COMMA, 50, RBRACKET] True False of
      Inr (Some t, ep) \<Rightarrow> well_formed exact_doubles t \<and> item_name t = None \<and>
        (case ep of None \<Rightarrow> \<not> True
         | Some e \<Rightarrow> True \<and> suffix e [LBRACKET, 49, COMMA, 50, RBRACKET] \<and> (False \<longrightarrow> e = []))
    | Inr (None, ep) \<Rightarrow> (case ep of None \<Rightarrow> True | Some e \<Rightarrow> suffix e [LBRACKET, 49, COMMA, 50, RBRACKET])
    | Inl f \<Rightarrow> f = Undefined \<and> (long_exponent [LBRACKET, 49, COMMA, 50, RBRACKET] \<or> large_number exact_doubles [LBRACKET, 49, COMMA, 50, RBRACKET])"
  by (rule parsed_items_well_formed) (simp add: c_string_def)

text \<open>
  A string whose closing quote is missing is accepted, even when the whole input has to be
  consumed.
\<close>

lemma unterminated_string_accepted:
  assumes "DQUOTE \<notin> set s" and "BACKSLASH \<notin> set s"
  shows "cJSON_ParseWithOpts D (DQUOTE # s) False True =
    Inr (Some (set_string s (cJSON_New_Item D)), None)"
  using parse_string_unterminated [OF assms]
  by (simp add: cJSON_ParseWithOpts_def enough_fuel_def points_to_def)

text \<open>\<open>1e10\<close> and \<open>2147483648\<close> are valid JSON; their conversion to \<open>int\<close> is undefined.\<close>

lemma large_number_undefined:
  "cJSON_Parse exact_doubles [49, 101, 49, 48] = Inl Undefined"
  "cJSON_Parse exact_doubles [50, 49, 52, 55, 52, 56, 51, 54, 52, 56] = Inl Undefined"
  by code_simp+

end
