(* ===== verification/CJson_Print.thy ===== *)
theory CJson_Print
  imports CJson_Parse
begin

text \<open>
  The printers of \<open>cJSON.c\<close> that allocate every text bottom-up, modelled with the sizes they ask the
  allocator for; writing past the end of a block is undefined. \<open>json_text\<close> is the text they should
  produce.
\<close>

section \<open>Numbers\<close>

definition DBL_EPSILON :: rat where "DBL_EPSILON = 1 / 2 ^ 52"

text \<open>The bytes asked for and the text.\<close>

definition print_number :: "'d doubles \<Rightarrow> 'd cJSON \<Rightarrow> nat \<times> byte list" where
  "print_number D item =
     (let d = valuedouble item; i = valueint item in
      if deq D d (dlit D 0) then (2, [ZERO])
      else if dle D (dabs D (dsub D (dlit D (of_int i)) d)) (dlit D DBL_EPSILON) \<and>
              dle D d (dlit D (of_int INT_MAX)) \<and> dle D (dlit D (of_int INT_MIN)) d
      then (21, show_int i)
      else (64,
        if \<not> deq D (dmul D d (dlit D 0)) (dlit D 0) then NULL_TEXT
        else if dle D (dabs D (dsub D (dfloor D d) d)) (dlit D DBL_EPSILON) \<and>
                dless D (dabs D d) (dlit D (10 ^ 60)) then dshow D Fixed0 d
        else if dless D (dabs D d) (dlit D (1 / 10 ^ 6)) \<or> dless D (dlit D (10 ^ 9)) (dabs D d)
        then dshow D Scientific d
        else dshow D Fixed6 d))"

section \<open>Printing into allocated strings\<close>

abbreviation TAB :: byte where "TAB \<equiv> 9"
abbreviation NEWLINE :: byte where "NEWLINE \<equiv> 10"
abbreviation BLANK :: byte where "BLANK \<equiv> 32"

text \<open>A text and its NUL written into a block of the given size; \<open>None\<close> is the result NULL.\<close>

definition alloc_text :: "nat \<times> byte list \<Rightarrow> fault + byte list option" where
  "alloc_text = (\<lambda>(needed, text). if length text < needed then Inr (Some text) else Inl Undefined)"

text \<open>The loop that prints the children, up to the first one that fails.\<close>

fun print_entries :: "(fault + byte list option) list \<Rightarrow> fault + byte list list option" where
  "print_entries [] = Inr (Some [])"
| "print_entries (r # rs) =
     bind_res r (\<lambda>ret.
     case ret of
       None \<Rightarrow> Inr None
     | Some e \<Rightarrow> bind_res (print_entries rs) (\<lambda>es. Inr (map_option ((#) e) es)))"

fun array_entries :: "bool \<Rightarrow> byte list list \<Rightarrow> byte list" where
  "array_entries fmt [] = []"
| "array_entries fmt [e] = e"
| "array_entries fmt (e # es) = e @ COMMA # (if fmt then [BLANK] else []) @ array_entries fmt es"

definition print_array :: "bool \<Rightarrow> (fault + byte list option) list \<Rightarrow> fault + byte list option" where
  "print_array fmt results =
     (if results = [] then alloc_text (3, [LBRACKET, RBRACKET])
      else bind_res (print_entries results) (\<lambda>entries.
        case entries of
          None \<Rightarrow> Inr None
        | Some es \<Rightarrow>
            alloc_text (5 + sum_list (map (\<lambda>e. length e + 2 + (if fmt then 1 else 0)) es),
              LBRACKET # array_entries fmt es @ [RBRACKET])))"

text \<open>The entry of an object: indentation, name, colon, value, comma unless last, end of line.\<close>

definition object_entry :: "bool \<Rightarrow> nat \<Rightarrow> bool \<Rightarrow> byte list \<times> byte list \<Rightarrow> byte list" where
  "object_entry fmt depth is_last = (\<lambda>(name, e).
     (if fmt then replicate depth TAB else []) @ name @ COLON # (if fmt then [TAB] else []) @ e @
     (if is_last then [] else [COMMA]) @ (if fmt then [NEWLINE] else []))"

fun object_entries :: "bool \<Rightarrow> nat \<Rightarrow> (byte list \<times> byte list) list \<Rightarrow> byte list" where
  "object_entries fmt depth [] = []"
| "object_entries fmt depth (x # xs) = object_entry fmt depth (xs = []) x @ object_entries fmt depth xs"

definition empty_object :: "bool \<Rightarrow> nat \<Rightarrow> nat \<times> byte list" where
  "empty_object fmt depth =
     (if fmt then depth + 4 else 3,
      LBRACE # (if fmt then NEWLINE # replicate depth TAB else []) @ [RBRACE])"

text \<open>The children come as names and results of printing them, in order.\<close>

definition print_object ::
  "bool \<Rightarrow> nat \<Rightarrow> (byte list option \<times> (fault + byte list option)) list \<Rightarrow> fault + byte list option" where
  "print_object fmt depth0 results =
     (if results = [] then alloc_text (empty_object fmt depth0)
      else
        let depth = depth0 + 1 in
        bind_res (print_entries (map (\<lambda>(nm, ret). bind_res (alloc_text (print_string_ptr nm)) (\<lambda>_. ret)) results)) (\<lambda>entries.
        case entries of
          None \<Rightarrow> Inr None
        | Some es \<Rightarrow>
            let xs = zip (map (\<lambda>(nm, _). snd (print_string_ptr nm)) results) es in
            alloc_text
              (7 + (if fmt then depth else 0) +
                 sum_list (map (\<lambda>(name, e). length e + length name + 2 + (if fmt then 2 + depth else 0)) xs),
               LBRACE # (if fmt then [NEWLINE] else []) @ object_entries fmt depth xs @
               (if fmt then replicate (depth - 1) TAB else []) @ [RBRACE])))"

text \<open>\<open>print_value\<close> without a buffer. A type outside the \<open>switch\<close> prints as NULL.\<close>

fun print_value :: "'d doubles \<Rightarrow> bool \<Rightarrow> nat \<Rightarrow> 'd cJSON \<Rightarrow> fault + byte list option" where
  "print_value D fmt depth (Item k vs vi vd nm cs) =
     (case k of
        Invalid \<Rightarrow> Inr None
      | cJSON_NULL \<Rightarrow> alloc_text (5, NULL_TEXT)
      | cJSON_False \<Rightarrow> alloc_text (6, FALSE_TEXT)
      | cJSON_True \<Rightarrow> alloc_text (5, TRUE_TEXT)
      | cJSON_Number \<Rightarrow> alloc_text (print_number D (Item k vs vi vd nm cs))
      | cJSON_String \<Rightarrow> alloc_text (print_string_ptr vs)
      | cJSON_Array \<Rightarrow> print_array fmt (map (\<lambda>c. print_value D fmt (depth + 1) c) cs)
      | cJSON_Object \<Rightarrow>
          print_object fmt depth (map (\<lambda>c. (item_name c, print_value D fmt (depth + 1) c)) cs))"

definition cJSON_Print :: "'d doubles \<Rightarrow> 'd cJSON \<Rightarrow> fault + byte list option" where
  "cJSON_Print D item = print_value D True 0 item"

definition cJSON_PrintUnformatted :: "'d doubles \<Rightarrow> 'd cJSON \<Rightarrow> fault + byte list option" where
  "cJSON_PrintUnformatted D item = print_value D False 0 item"

section \<open>The text\<close>

fun json_text :: "'d doubles \<Rightarrow> bool \<Rightarrow> nat \<Rightarrow> 'd cJSON \<Rightarrow> byte list" where
  "json_text D fmt depth (Item k vs vi vd nm cs) =
     (case k of
        Invalid \<Rightarrow> []
      | cJSON_NULL \<Rightarrow> NULL_TEXT
      | cJSON_False \<Rightarrow> FALSE_TEXT
      | cJSON_True \<Rightarrow> TRUE_TEXT
      | cJSON_Number \<Rightarrow> snd (print_number D (Item k vs vi vd nm cs))
      | cJSON_String \<Rightarrow> snd (print_string_ptr vs)
      | cJSON_Array \<Rightarrow> LBRACKET # array_entries fmt (map (\<lambda>c. json_text D fmt (depth + 1) c) cs) @ [RBRACKET]
      | cJSON_Object \<Rightarrow>
          if cs = [] then snd (empty_object fmt depth)
          else LBRACE # (if fmt then [NEWLINE] else []) @
            object_entries fmt (depth + 1)
              (map (\<lambda>c. (snd (print_string_ptr (item_name c)), json_text D fmt (depth + 1) c)) cs) @
            (if fmt then replicate depth TAB else []) @ [RBRACE])"

text \<open>
  What can be printed: no invalid types, no NULs in texts, and numbers whose text fits the block
  \<open>print_number\<close> asks for.
\<close>

definition c_string_option :: "byte list option \<Rightarrow> bool" where
  "c_string_option s \<longleftrightarrow> (case s of None \<Rightarrow> True | Some s \<Rightarrow> c_string s)"

definition text_fits :: "nat \<times> byte list \<Rightarrow> bool" where
  "text_fits = (\<lambda>(needed, text). length text < needed \<and> needed \<le> length text + 64 \<and> c_string text)"

fun printable :: "'d doubles \<Rightarrow> 'd cJSON \<Rightarrow> bool" where
  "printable D (Item k vs vi vd nm cs) \<longleftrightarrow>
     k \<noteq> Invalid \<and> c_string_option vs \<and>
     (k = cJSON_Number \<longrightarrow> text_fits (print_number D (Item k vs vi vd nm cs))) \<and>
     (\<forall>c \<in> set cs. printable D c \<and> c_string_option (item_name c))"

lemma text_fits_string: "c_string_option s \<Longrightarrow> text_fits (print_string_ptr s)"
proof (cases s)
  case (Some t)
  assume "c_string_option s"
  then have "0 \<notin> set t" using Some by (simp add: c_string_option_def c_string_def)
  then show ?thesis
    using Some escape_nonzero [of t] by (simp add: print_string_ptr_text text_fits_def c_string_def)
qed (simp add: print_string_ptr_def text_fits_def c_string_def)

lemma text_fits_empty_object: "text_fits (empty_object fmt depth)"
  by (auto simp: text_fits_def empty_object_def c_string_def)

lemma alloc_text_fits: "text_fits x \<Longrightarrow> alloc_text x = Inr (Some (snd x))"
  by (cases x) (simp add: alloc_text_def text_fits_def)

lemma alloc_text_less: "length text < needed \<Longrightarrow> alloc_text (needed, text) = Inr (Some text)"
  by (simp add: alloc_text_def)

lemma print_entries_ok: "print_entries (map (\<lambda>e. Inr (Some e)) es) = Inr (Some es)"
  by (induction es) auto

lemma length_array_entries:
  "length (array_entries fmt es) \<le> sum_list (map (\<lambda>e. length e + 2 + (if fmt then 1 else 0)) es)"
  by (induction fmt es rule: array_entries.induct) auto

lemma length_object_entries:
  "length (object_entries fmt depth xs) \<le>
    sum_list (map (\<lambda>(name, e). length e + length name + 2 + (if fmt then 2 + depth else 0)) xs)"
  by (induction xs) (auto simp: object_entry_def)

lemma print_array_ok:
  "es \<noteq> [] \<Longrightarrow> print_array fmt (map (\<lambda>e. Inr (Some e)) es) = Inr (Some (LBRACKET # array_entries fmt es @ [RBRACKET]))"
  using length_array_entries [of fmt es]
  by (simp add: print_array_def print_entries_ok alloc_text_def)

lemma print_object_ok:
  assumes "xs \<noteq> []" and "\<forall>(nm, e) \<in> set xs. c_string_option nm"
  shows "print_object fmt depth (map (\<lambda>(nm, e). (nm, Inr (Some e))) xs) =
    Inr (Some (LBRACE # (if fmt then [NEWLINE] else []) @
      object_entries fmt (depth + 1) (map (\<lambda>(nm, e). (snd (print_string_ptr nm), e)) xs) @
      (if fmt then replicate depth TAB else []) @ [RBRACE]))"
proof -
  have entries: "map (\<lambda>(nm, ret). bind_res (alloc_text (print_string_ptr nm)) (\<lambda>_. ret))
      (map (\<lambda>(nm, e). (nm, Inr (Some e))) xs) = map (\<lambda>e. Inr (Some e)) (map snd xs)"
    using assms(2) by (auto simp: alloc_text_fits text_fits_string split: prod.splits)
  have names: "zip (map (\<lambda>(nm, _). snd (print_string_ptr nm)) (map (\<lambda>(nm, e). (nm, Inr (Some e))) xs)) (map snd xs) =
      map (\<lambda>(nm, e). (snd (print_string_ptr nm), e)) xs"
    by (induction xs) auto
  let ?ys = "map (\<lambda>(nm, e). (snd (print_string_ptr nm), e)) xs"
  have "length (LBRACE # (if fmt then [NEWLINE] else []) @ object_entries fmt (depth + 1) ?ys @
      (if fmt then replicate (depth + 1 - 1) TAB else []) @ [RBRACE]) <
    7 + (if fmt then depth + 1 else 0) +
      sum_list (map (\<lambda>(name, e). length e + length name + 2 + (if fmt then 2 + (depth + 1) else 0)) ?ys)"
    using length_object_entries [of fmt "depth + 1" ?ys] by (auto split: if_splits)
  from alloc_text_less [OF this] show ?thesis
    using assms(1)
    by (simp only: print_object_def Let_def entries print_entries_ok names bind_res.simps option.case
      map_is_Nil_conv if_False add_diff_cancel_right')
qed

lemma print_value_ok: "printable D t \<Longrightarrow> print_value D fmt depth t = Inr (Some (json_text D fmt depth t))"
proof (induction D fmt depth t rule: print_value.induct)
  case (1 D fmt depth k vs vi vd nm cs)
  have IH: "print_value D fmt (depth + 1) c = Inr (Some (json_text D fmt (depth + 1) c))"
    if "c \<in> set cs" "k = cJSON_Array \<or> k = cJSON_Object" for c
    using 1 that by auto
  show ?case
  proof (cases k)
    case cJSON_Array
    have eq: "map (\<lambda>c. print_value D fmt (depth + 1) c) cs = map (\<lambda>e. Inr (Some e)) (map (json_text D fmt (depth + 1)) cs)"
      using IH cJSON_Array by simp
    show ?thesis
    proof (cases "cs = []")
      case True
      then show ?thesis using cJSON_Array by (simp add: print_array_def alloc_text_less)
    next
      case False
      then have "print_array fmt (map (\<lambda>c. print_value D fmt (depth + 1) c) cs) =
          Inr (Some (json_text D fmt depth (Item k vs vi vd nm cs)))"
        unfolding eq using cJSON_Array by (subst print_array_ok) simp_all
      then show ?thesis using cJSON_Array by simp
    qed
  next
    case cJSON_Object
    have eq: "map (\<lambda>c. (item_name c, print_value D fmt (depth + 1) c)) cs =
        map (\<lambda>(nm, e). (nm, Inr (Some e))) (map (\<lambda>c. (item_name c, json_text D fmt (depth + 1) c)) cs)"
      using IH cJSON_Object by simp
    have names: "\<forall>(nm, e) \<in> set (map (\<lambda>c. (item_name c, json_text D fmt (depth + 1) c)) cs). c_string_option nm"
      using "1.prems" by auto
    show ?thesis
    proof (cases "cs = []")
      case True
      then show ?thesis using cJSON_Object text_fits_empty_object
        by (simp add: print_object_def alloc_text_fits)
    next
      case False
      then have "print_object fmt depth (map (\<lambda>c. (item_name c, print_value D fmt (depth + 1) c)) cs) =
          Inr (Some (json_text D fmt depth (Item k vs vi vd nm cs)))"
        unfolding eq using cJSON_Object by (subst print_object_ok [OF _ names]) (simp_all add: comp_def)
      then show ?thesis using cJSON_Object by simp
    qed
  qed (use "1.prems" in \<open>auto simp: alloc_text_less alloc_text_fits text_fits_string\<close>)
qed

lemma c_string_append [simp]: "c_string (a @ b) \<longleftrightarrow> c_string a \<and> c_string b"
  by (auto simp: c_string_def)

lemma c_string_Cons [simp]: "c_string (c # b) \<longleftrightarrow> c \<noteq> 0 \<and> c_string b"
  by (auto simp: c_string_def)

lemma c_string_Nil [simp]: "c_string []"
  by (simp add: c_string_def)

lemma c_string_replicate [simp]: "c \<noteq> 0 \<Longrightarrow> c_string (replicate n c)"
  by (auto simp: c_string_def)

end
