(* ===== verification/CJson_Buffer.thy ===== *)
theory CJson_Buffer
  imports CJson_Print
begin

text \<open>
  The printers of \<open>cJSON.c\<close> into a growing or preallocated \<open>printbuffer\<close>, with the rounding of its
  size to a power of two; they produce the text of the allocating printers.
\<close>

section \<open>The print buffer\<close>

text \<open>\<open>pow2gt\<close> on the 32 bits of an \<open>int\<close>; \<open>>>\<close> of a negative one copies the sign.\<close>

definition pow2gt :: "32 word \<Rightarrow> 32 word" where
  "pow2gt x =
     (let x = x - 1;
          x = x OR signed_drop_bit 1 x;
          x = x OR signed_drop_bit 2 x;
          x = x OR signed_drop_bit 4 x;
          x = x OR signed_drop_bit 8 x;
          x = x OR signed_drop_bit 16 x
      in x + 1)"

record printbuffer =
  buffer :: "byte list option"
  pb_length :: nat
  offset :: nat
  noalloc :: bool

text \<open>
  An operation on the buffer ends in the new buffer or, with \<open>None\<close>, in NULL, which ends the whole
  printing. Fresh memory of a given size has the contents the first argument says.
\<close>

type_synonym pb_op = "printbuffer \<Rightarrow> fault + printbuffer option"

definition pb_then :: "pb_op \<Rightarrow> pb_op \<Rightarrow> pb_op" where
  "pb_then f g p = bind_res (f p) (\<lambda>r. case r of None \<Rightarrow> Inr None | Some p \<Rightarrow> g p)"

fun pb_seq :: "pb_op list \<Rightarrow> pb_op" where
  "pb_seq [] p = Inr (Some p)"
| "pb_seq (f # fs) p = pb_then f (pb_seq fs) p"

definition ensure :: "(nat \<Rightarrow> byte list) \<Rightarrow> nat \<Rightarrow> pb_op" where
  "ensure fresh needed p =
     (case buffer p of
        None \<Rightarrow> Inr None
      | Some m \<Rightarrow>
          let needed = needed + offset p in
          if INT_MAX < int needed then Inl Undefined
          else if needed \<le> pb_length p then Inr (Some p)
          else if noalloc p then Inr None
          else
            let newsize = pow2gt (word_of_nat needed) in
            if sint newsize \<le> 0 then Inl Undefined
            else
              let block = fresh (unat newsize) in
              if unat newsize < pb_length p then Inl Undefined
              else Inr (Some (p\<lparr>buffer := Some (take (pb_length p) m @ drop (pb_length p) block),
                                pb_length := unat newsize\<rparr>)))"

text \<open>Writing bytes at the offset.\<close>

definition pb_write :: "byte list \<Rightarrow> pb_op" where
  "pb_write bs p =
     (case buffer p of
        None \<Rightarrow> Inl Undefined
      | Some m \<Rightarrow>
          if offset p + length bs \<le> length m
          then Inr (Some (p\<lparr>buffer := Some (take (offset p) m @ bs @ drop (offset p + length bs) m)\<rparr>))
          else Inl Undefined)"

definition pb_advance :: "nat \<Rightarrow> pb_op" where
  "pb_advance n p = Inr (Some (p\<lparr>offset := offset p + n\<rparr>))"

text \<open>\<open>p->offset = update(p)\<close>: behind the string at the offset.\<close>

fun strlen :: "byte list \<Rightarrow> nat option" where
  "strlen [] = None"
| "strlen (c # cs) = (if c = 0 then Some 0 else map_option Suc (strlen cs))"

definition update :: pb_op where
  "update p =
     (case buffer p of
        None \<Rightarrow> Inr (Some (p\<lparr>offset := 0\<rparr>))
      | Some m \<Rightarrow>
          (case strlen (drop (offset p) m) of
             None \<Rightarrow> Inl Undefined
           | Some n \<Rightarrow> Inr (Some (p\<lparr>offset := offset p + n\<rparr>))))"

definition pb_text :: "(nat \<Rightarrow> byte list) \<Rightarrow> nat \<times> byte list \<Rightarrow> pb_op" where
  "pb_text fresh = (\<lambda>(needed, text). pb_seq [ensure fresh needed, pb_write (text @ [0])])"

section \<open>Printing into the buffer\<close>

fun array_children_b :: "(nat \<Rightarrow> byte list) \<Rightarrow> bool \<Rightarrow> pb_op list \<Rightarrow> pb_op" where
  "array_children_b fresh fmt [] p = Inr (Some p)"
| "array_children_b fresh fmt (child # rest) p =
     pb_seq
       ([child, update] @
        (if rest = [] then []
         else [ensure fresh ((if fmt then 2 else 1) + 1),
               pb_write (COMMA # (if fmt then [BLANK] else []) @ [0]),
               pb_advance (if fmt then 2 else 1)]) @
        [array_children_b fresh fmt rest]) p"

definition print_array_b :: "(nat \<Rightarrow> byte list) \<Rightarrow> bool \<Rightarrow> pb_op list \<Rightarrow> pb_op" where
  "print_array_b fresh fmt cs =
     (if cs = [] then pb_text fresh (3, [LBRACKET, RBRACKET])
      else pb_seq
        [ensure fresh 1, pb_write [LBRACKET], pb_advance 1,
         array_children_b fresh fmt cs,
         ensure fresh 2, pb_write [RBRACKET, 0]])"

fun object_children_b ::
  "(nat \<Rightarrow> byte list) \<Rightarrow> bool \<Rightarrow> nat \<Rightarrow> (byte list option \<times> pb_op) list \<Rightarrow> pb_op" where
  "object_children_b fresh fmt depth [] p = Inr (Some p)"
| "object_children_b fresh fmt depth ((nm, child) # rest) p =
     pb_seq
       ((if fmt then [ensure fresh depth, pb_write (replicate depth TAB), pb_advance depth] else []) @
        [pb_text fresh (print_string_ptr nm), update,
         ensure fresh (if fmt then 2 else 1),
         pb_write (COLON # (if fmt then [TAB] else [])),
         pb_advance (if fmt then 2 else 1),
         child, update,
         ensure fresh ((if fmt then 1 else 0) + (if rest \<noteq> [] then 1 else 0) + 1),
         pb_write ((if rest \<noteq> [] then [COMMA] else []) @ (if fmt then [NEWLINE] else []) @ [0]),
         pb_advance ((if fmt then 1 else 0) + (if rest \<noteq> [] then 1 else 0)),
         object_children_b fresh fmt depth rest]) p"

definition print_object_b ::
  "(nat \<Rightarrow> byte list) \<Rightarrow> bool \<Rightarrow> nat \<Rightarrow> (byte list option \<times> pb_op) list \<Rightarrow> pb_op" where
  "print_object_b fresh fmt depth0 cs =
     (if cs = [] then pb_text fresh (empty_object fmt depth0)
      else
        let depth = depth0 + 1; len = (if fmt then 2 else 1) in
        pb_seq
          [ensure fresh (len + 1), pb_write (LBRACE # (if fmt then [NEWLINE] else []) @ [0]), pb_advance len,
           object_children_b fresh fmt depth cs,
           ensure fresh (if fmt then depth + 1 else 2),
           pb_write ((if fmt then replicate (depth - 1) TAB else []) @ [RBRACE, 0])])"

fun print_value_b :: "(nat \<Rightarrow> byte list) \<Rightarrow> 'd doubles \<Rightarrow> bool \<Rightarrow> nat \<Rightarrow> 'd cJSON \<Rightarrow> pb_op" where
  "print_value_b fresh D fmt depth (Item k vs vi vd nm cs) =
     (case k of
        Invalid \<Rightarrow> (\<lambda>p. Inr None)
      | cJSON_NULL \<Rightarrow> pb_text fresh (5, NULL_TEXT)
      | cJSON_False \<Rightarrow> pb_text fresh (6, FALSE_TEXT)
      | cJSON_True \<Rightarrow> pb_text fresh (5, TRUE_TEXT)
      | cJSON_Number \<Rightarrow> pb_text fresh (print_number D (Item k vs vi vd nm cs))
      | cJSON_String \<Rightarrow> pb_text fresh (print_string_ptr vs)
      | cJSON_Array \<Rightarrow> print_array_b fresh fmt (map (\<lambda>c. print_value_b fresh D fmt (depth + 1) c) cs)
      | cJSON_Object \<Rightarrow>
          print_object_b fresh fmt depth
            (map (\<lambda>c. (item_name c, print_value_b fresh D fmt (depth + 1) c)) cs))"

text \<open>The string at the start of the buffer.\<close>

definition c_text :: "byte list \<Rightarrow> byte list" where
  "c_text m = takeWhile (\<lambda>c. c \<noteq> 0) m"

definition cJSON_PrintBuffered ::
  "(nat \<Rightarrow> byte list) \<Rightarrow> 'd doubles \<Rightarrow> 'd cJSON \<Rightarrow> nat \<Rightarrow> bool \<Rightarrow> fault + byte list option" where
  "cJSON_PrintBuffered fresh D item prebuffer fmt =
     bind_res (print_value_b fresh D fmt 0 item
         \<lparr>buffer = Some (fresh prebuffer), pb_length = prebuffer, offset = 0, noalloc = False\<rparr>) (\<lambda>r.
     Inr (Option.bind r (\<lambda>p. map_option c_text (buffer p))))"

definition cJSON_PrintPreallocated ::
  "'d doubles \<Rightarrow> 'd cJSON \<Rightarrow> byte list \<Rightarrow> bool \<Rightarrow> fault + bool \<times> byte list option" where
  "cJSON_PrintPreallocated D item buf fmt =
     bind_res (print_value_b (\<lambda>n. replicate n 0) D fmt 0 item
         \<lparr>buffer = Some buf, pb_length = length buf, offset = 0, noalloc = True\<rparr>) (\<lambda>r.
     Inr (r \<noteq> None, Option.bind r buffer))"

section \<open>The next power of two\<close>

lemma signed_drop_bit_nonneg: "\<not> bit (w :: 32 word) 31 \<Longrightarrow> signed_drop_bit m w = drop_bit m w"
  by (rule bit_word_eqI) (auto simp: bit_signed_drop_bit_iff bit_drop_bit_eq dest: bit_imp_le_length split: if_splits)

lemma smear_step:
  assumes "\<And>i. bit x i \<longleftrightarrow> (\<exists>d<m. bit y (i + d))" and "\<not> bit (x :: 32 word) 31"
  shows "bit (x OR signed_drop_bit m x) i \<longleftrightarrow> (\<exists>d<m + m. bit (y :: 32 word) (i + d))"
proof -
  have "bit (x OR signed_drop_bit m x) i \<longleftrightarrow> bit x i \<or> bit x (i + m)"
    by (simp add: signed_drop_bit_nonneg [OF assms(2)] bit_simps add.commute)
  also have "\<dots> \<longleftrightarrow> (\<exists>d<m. bit y (i + d)) \<or> (\<exists>d<m. bit y (i + (m + d)))"
    by (simp add: assms(1) add.assoc)
  also have "\<dots> \<longleftrightarrow> (\<exists>d<m + m. bit y (i + d))"
  proof
    assume "(\<exists>d<m. bit y (i + d)) \<or> (\<exists>d<m. bit y (i + (m + d)))"
    then show "\<exists>d<m + m. bit y (i + d)" by (meson add_less_cancel_left trans_less_add1)
  next
    assume "\<exists>d<m + m. bit y (i + d)"
    then obtain d where d: "d < m + m" "bit y (i + d)" by blast
    show "(\<exists>d<m. bit y (i + d)) \<or> (\<exists>d<m. bit y (i + (m + d)))"
    proof (cases "d < m")
      case False
      then have "bit y (i + (m + (d - m)))" "d - m < m" using d by auto
      then show ?thesis by blast
    qed (use d in blast)
  qed
  finally show ?thesis .
qed

lemma pow2gt_smear:
  assumes "\<not> bit (x - 1) 31"
  obtains z where "pow2gt x = z + 1" and "\<And>i. bit z i \<longleftrightarrow> (\<exists>d<32. bit (x - 1) (i + d))"
proof -
  define y where "y = x - 1"
  define x1 where "x1 = y OR signed_drop_bit 1 y"
  define x2 where "x2 = x1 OR signed_drop_bit 2 x1"
  define x3 where "x3 = x2 OR signed_drop_bit 4 x2"
  define x4 where "x4 = x3 OR signed_drop_bit 8 x3"
  define x5 where "x5 = x4 OR signed_drop_bit 16 x4"
  have top: "\<not> bit x' 31" if "\<And>i. bit x' i \<longleftrightarrow> (\<exists>d<m. bit y (i + d))" for x' :: "32 word" and m
  proof
    assume "bit x' 31"
    then have "\<exists>d<m. bit y (31 + d)" by (simp only: that)
    then obtain d where d: "bit y (31 + d)" by blast
    then have "31 + d < 32" using bit_imp_le_length [OF d] by simp
    then show False using d assms by (simp add: y_def)
  qed
  have 0: "bit y i \<longleftrightarrow> (\<exists>d<1. bit y (i + d))" for i by simp
  have 1: "bit x1 i \<longleftrightarrow> (\<exists>d<2. bit y (i + d))" for i
    using smear_step [OF 0 top [OF 0], of i] by (simp add: x1_def numeral_2_eq_2)
  have 2: "bit x2 i \<longleftrightarrow> (\<exists>d<4. bit y (i + d))" for i
    using smear_step [OF 1 top [OF 1], of i] by (simp add: x2_def)
  have 3: "bit x3 i \<longleftrightarrow> (\<exists>d<8. bit y (i + d))" for i
    using smear_step [OF 2 top [OF 2], of i] by (simp add: x3_def)
  have 4: "bit x4 i \<longleftrightarrow> (\<exists>d<16. bit y (i + d))" for i
    using smear_step [OF 3 top [OF 3], of i] by (simp add: x4_def)
  have 5: "bit x5 i \<longleftrightarrow> (\<exists>d<32. bit y (i + d))" for i
    using smear_step [OF 4 top [OF 4], of i] by (simp add: x5_def)
  have "pow2gt x = x5 + 1"
    by (simp only: pow2gt_def Let_def y_def [symmetric] x1_def [symmetric] x2_def [symmetric]
      x3_def [symmetric] x4_def [symmetric] x5_def [symmetric])
  then show thesis using 5 by (rule that [unfolded y_def [symmetric]])
qed

lemma pow2gt_least:
  assumes "1 \<le> n" and "n \<le> 2 ^ 30"
  shows "\<exists>k. unat (pow2gt (word_of_nat n)) = 2 ^ k \<and> n \<le> 2 ^ k \<and> (\<forall>j. n \<le> 2 ^ j \<longrightarrow> k \<le> j)"
proof -
  let ?y = "word_of_nat n - 1 :: 32 word"
  have y: "?y = word_of_nat (n - 1)" using assms(1) by (simp add: of_nat_diff)
  define k where "k = (LEAST k. n - 1 < 2 ^ k)"
  have ex: "\<exists>k. n - 1 < 2 ^ k" by (intro exI [of _ "n - 1"]) simp
  have k: "n - 1 < 2 ^ k" unfolding k_def by (rule LeastI_ex [OF ex])
  have least: "k \<le> j" if "n - 1 < 2 ^ j" for j unfolding k_def by (rule Least_le) (rule that)
  have k30: "k \<le> 30" by (rule least) (use assms in auto)
  have bit_y: "bit ?y i \<longleftrightarrow> i < 32 \<and> bit (n - 1) i" for i
    by (simp add: y bit_of_nat_iff possible_bit_def)
  have above: "\<not> bit (n - 1) i" if "k \<le> i" for i
  proof -
    have "n - 1 < 2 ^ i" using k that by (meson less_le_trans one_le_numeral power_increasing)
    then show ?thesis by (simp add: bit_iff_odd)
  qed
  have below: "bit (n - 1) (k - 1)" if "0 < k"
  proof -
    have "\<not> n - 1 < 2 ^ (k - 1)" using least [of "k - 1"] that by auto
    moreover have "n - 1 < 2 * 2 ^ (k - 1)" using k that by (cases k) auto
    ultimately have "(n - 1) div 2 ^ (k - 1) = 1" by (intro div_nat_eqI) auto
    then show ?thesis by (simp add: bit_iff_odd)
  qed
  have "\<not> bit ?y 31" using bit_y above k30 by simp
  then obtain z where z: "pow2gt (word_of_nat n) = z + 1" "\<And>i. bit z i \<longleftrightarrow> (\<exists>d<32. bit ?y (i + d))"
    by (rule pow2gt_smear) blast
  have "z = mask k"
  proof (rule bit_word_eqI)
    fix i assume "i < LENGTH(32)"
    show "bit z i = bit (mask k :: 32 word) i"
    proof (cases "i < k")
      case True
      then have "bit ?y (i + (k - 1 - i))" using below bit_y k30 by simp
      moreover have "k - 1 - i < 32" using k30 by simp
      ultimately have "bit z i" using z(2) by blast
      then show ?thesis using True k30 by (simp add: bit_mask_iff)
    next
      case False
      then have "\<not> bit z i" using z(2) bit_y above by (metis add.commute linorder_not_less trans_le_add2)
      then show ?thesis using False by (simp add: bit_mask_iff)
    qed
  qed
  then have "pow2gt (word_of_nat n) = 2 ^ k" using z(1) by (simp add: mask_eq_exp_minus_1)
  moreover have "unat (2 ^ k :: 32 word) = 2 ^ k"
  proof -
    have "(2::nat) ^ k \<le> 2 ^ 30" using k30 by (intro power_increasing) auto
    then have "2 ^ k mod 2 ^ LENGTH(32) = (2 ^ k :: nat)" by simp
    moreover have "(2 ^ k :: 32 word) = word_of_nat (2 ^ k)" by simp
    ultimately show ?thesis by (simp only: unat_of_nat)
  qed
  moreover have "n \<le> 2 ^ k" using k assms(1) by simp
  moreover have "k \<le> j" if "n \<le> 2 ^ j" for j using least that assms(1) by simp
  ultimately show ?thesis by metis
qed

section \<open>Operations on the buffer\<close>

text \<open>
  \<open>at_end s r p\<close>: the text \<open>s\<close> is written, the offset is behind it and \<open>r\<close> more bytes fit;
  \<open>wrote s bs p\<close>: the bytes \<open>bs\<close> are behind it too; \<open>written s k p\<close>: \<open>s\<close> is written with its NUL, the
  offset is somewhere from \<open>k\<close> to its end.
\<close>

definition at_end :: "byte list \<Rightarrow> nat \<Rightarrow> printbuffer \<Rightarrow> bool" where
  "at_end s r p \<longleftrightarrow>
     (\<exists>m. buffer p = Some m \<and> length m = pb_length p \<and> offset p = length s \<and> take (length s) m = s \<and>
          length s + r \<le> length m)"

definition wrote :: "byte list \<Rightarrow> byte list \<Rightarrow> printbuffer \<Rightarrow> bool" where
  "wrote s bs p \<longleftrightarrow>
     (\<exists>m. buffer p = Some m \<and> length m = pb_length p \<and> offset p = length s \<and>
          take (length s + length bs) m = s @ bs)"

definition written :: "byte list \<Rightarrow> nat \<Rightarrow> printbuffer \<Rightarrow> bool" where
  "written s k p \<longleftrightarrow>
     (\<exists>m. buffer p = Some m \<and> length m = pb_length p \<and> k \<le> offset p \<and> offset p \<le> length s \<and>
          take (length s + 1) m = s @ [0])"

text \<open>
  Operations that lead from states with \<open>P\<close> to states with \<open>Q\<close> without undefined behaviour; they may
  only fail in a preallocated buffer of fewer than \<open>B\<close> bytes.
\<close>

definition pb_ok :: "nat \<Rightarrow> (printbuffer \<Rightarrow> bool) \<Rightarrow> pb_op \<Rightarrow> (printbuffer \<Rightarrow> bool) \<Rightarrow> bool" where
  "pb_ok B P f Q \<longleftrightarrow>
     (\<forall>p. P p \<longrightarrow>
        (case f p of
           Inl _ \<Rightarrow> False
         | Inr None \<Rightarrow> noalloc p \<and> pb_length p < B
         | Inr (Some q) \<Rightarrow> Q q \<and> noalloc q = noalloc p \<and> pb_length p \<le> pb_length q))"

lemma pb_ok_conseq: "pb_ok B P f Q \<Longrightarrow> (\<And>p. P' p \<Longrightarrow> P p) \<Longrightarrow> (\<And>p. Q p \<Longrightarrow> Q' p) \<Longrightarrow> pb_ok B P' f Q'"
  by (force simp: pb_ok_def split: sum.splits option.splits)

lemma pb_ok_then: "pb_ok B P f Q \<Longrightarrow> pb_ok B Q g R \<Longrightarrow> pb_ok B P (pb_then f g) R"
  unfolding pb_ok_def pb_then_def
proof (intro allI impI)
  fix p
  assume f: "\<forall>p. P p \<longrightarrow> (case f p of Inl _ \<Rightarrow> False | Inr None \<Rightarrow> noalloc p \<and> pb_length p < B
      | Inr (Some q) \<Rightarrow> Q q \<and> noalloc q = noalloc p \<and> pb_length p \<le> pb_length q)"
    and g: "\<forall>p. Q p \<longrightarrow> (case g p of Inl _ \<Rightarrow> False | Inr None \<Rightarrow> noalloc p \<and> pb_length p < B
      | Inr (Some q) \<Rightarrow> R q \<and> noalloc q = noalloc p \<and> pb_length p \<le> pb_length q)"
    and p: "P p"
  show "case bind_res (f p) (\<lambda>r. case r of None \<Rightarrow> Inr None | Some p \<Rightarrow> g p) of Inl _ \<Rightarrow> False
      | Inr None \<Rightarrow> noalloc p \<and> pb_length p < B
      | Inr (Some q) \<Rightarrow> R q \<and> noalloc q = noalloc p \<and> pb_length p \<le> pb_length q"
  proof (cases "f p")
    case (Inr r)
    show ?thesis
    proof (cases r)
      case (Some q)
      have q: "Q q" "noalloc q = noalloc p" "pb_length p \<le> pb_length q" using f p Inr Some by auto
      have gq: "case g q of Inl _ \<Rightarrow> False | Inr None \<Rightarrow> noalloc q \<and> pb_length q < B
          | Inr (Some r) \<Rightarrow> R r \<and> noalloc r = noalloc q \<and> pb_length q \<le> pb_length r"
        using g q(1) by simp
      show ?thesis using gq q(2,3) Inr Some by (auto split: sum.splits option.splits)
    qed (use f p Inr in auto)
  qed (use f p in auto)
qed

lemma pb_seq_Nil_ok: "(\<And>p. P p \<Longrightarrow> Q p) \<Longrightarrow> pb_ok B P (pb_seq []) Q"
  by (simp add: pb_ok_def)

lemma pb_seq_Cons_ok: "pb_ok B P f Q \<Longrightarrow> pb_ok B Q (pb_seq fs) R \<Longrightarrow> pb_ok B P (pb_seq (f # fs)) R"
  using pb_ok_then by (simp add: pb_ok_def)

lemma pb_seq_Cons: "pb_seq (f # fs) = pb_then f (pb_seq fs)"
  by (rule ext) simp

lemma pb_seq_append: "pb_seq (fs @ gs) = pb_then (pb_seq fs) (pb_seq gs)"
proof (induction fs)
  case Nil
  then show ?case by (simp add: fun_eq_iff pb_then_def)
next
  case (Cons f fs)
  have "pb_then f (pb_then g h) = pb_then (pb_then f g) h" for g h
  proof
    fix p
    show "pb_then f (pb_then g h) p = pb_then (pb_then f g) h p"
      by (cases "f p") (auto simp: pb_then_def split: option.splits)
  qed
  then show ?case using Cons by (simp only: append_Cons pb_seq_Cons)
qed

lemma pb_seq_append_ok: "pb_ok B P (pb_seq fs) Q \<Longrightarrow> pb_ok B Q (pb_seq gs) R \<Longrightarrow> pb_ok B P (pb_seq (fs @ gs)) R"
  unfolding pb_seq_append by (rule pb_ok_then)

lemma pow2gt_bounds:
  assumes "1 \<le> n" and "n \<le> 2 ^ 30"
  shows "n \<le> unat (pow2gt (word_of_nat n))" and "0 < sint (pow2gt (word_of_nat n))"
    and "unat (pow2gt (word_of_nat n)) \<le> 2 ^ 30"
proof -
  obtain k where k: "unat (pow2gt (word_of_nat n)) = 2 ^ k" "n \<le> 2 ^ k" "\<forall>j. n \<le> 2 ^ j \<longrightarrow> k \<le> j"
    using pow2gt_least [OF assms] by blast
  show "n \<le> unat (pow2gt (word_of_nat n))" using k by simp
  have "k \<le> 30" using k(3) assms(2) by blast
  then have "(2::nat) ^ k \<le> 2 ^ 30" by (intro power_increasing) auto
  then show le: "unat (pow2gt (word_of_nat n)) \<le> 2 ^ 30" using k(1) by simp
  have "0 < unat (pow2gt (word_of_nat n))" using k(1) by simp
  then have u: "0 < uint (pow2gt (word_of_nat n))" "uint (pow2gt (word_of_nat n)) \<le> 2 ^ 30"
    using le by (metis of_nat_0_less_iff uint_nat, metis of_nat_le_iff of_nat_numeral of_nat_power uint_nat)
  have "sint (pow2gt (word_of_nat n)) = signed_take_bit 31 (uint (pow2gt (word_of_nat n)))"
    by (simp add: sint_uint)
  also have "\<dots> = uint (pow2gt (word_of_nat n))"
    by (rule signed_take_bit_int_eq_self) (use u in simp_all)
  finally show "0 < sint (pow2gt (word_of_nat n))" using u(1) by (simp only:)
qed

lemma ensure_ok:
  assumes "\<And>n. length (fresh n) = n" and "length s + n \<le> B" and "B \<le> 2 ^ 30"
  shows "pb_ok B (at_end s r) (ensure fresh n) (at_end s n)"
  unfolding pb_ok_def
proof (intro allI impI)
  fix p
  assume "at_end s r p"
  then obtain m where m: "buffer p = Some m" "length m = pb_length p" "offset p = length s"
      "take (length s) m = s" "length s + r \<le> length m" by (auto simp: at_end_def)
  have int: "\<not> INT_MAX < int (n + offset p)" using assms(2,3) m(3) by (simp add: INT_MAX_def)
  show "case ensure fresh n p of Inl _ \<Rightarrow> False | Inr None \<Rightarrow> noalloc p \<and> pb_length p < B
      | Inr (Some q) \<Rightarrow> at_end s n q \<and> noalloc q = noalloc p \<and> pb_length p \<le> pb_length q"
  proof (cases "n + offset p \<le> pb_length p \<or> noalloc p")
    case True
    then show ?thesis using int m assms(2) by (auto simp: ensure_def at_end_def Let_def)
  next
    case False
    let ?k = "pow2gt (word_of_nat (n + offset p))"
    have "1 \<le> n + offset p" "n + offset p \<le> 2 ^ 30" using False assms(2,3) m(3) by auto
    note k = pow2gt_bounds [OF this]
    have "pb_length p \<le> unat ?k" using k(1) False by simp
    then have "ensure fresh n p = Inr (Some (p\<lparr>buffer := Some (take (pb_length p) m @ drop (pb_length p) (fresh (unat ?k))),
        pb_length := unat ?k\<rparr>))"
      using int False k(2) m(1) by (simp add: ensure_def Let_def)
    moreover have "take (length s) (take (pb_length p) m @ drop (pb_length p) (fresh (unat ?k))) = s"
      using m by (simp add: min_def)
    ultimately show ?thesis using m k(1) \<open>pb_length p \<le> unat ?k\<close> by (simp add: at_end_def assms(1))
  qed
qed

lemma write_ok: "length bs \<le> r \<Longrightarrow> pb_ok B (at_end s r) (pb_write bs) (wrote s bs)"
  by (auto simp: pb_ok_def at_end_def wrote_def pb_write_def min_def)

lemma take_eq_split: "take n m = s \<Longrightarrow> \<exists>m2. m = s @ m2"
  by (metis append_take_drop_id)

lemma advance_ok: "bs = tx @ cs \<Longrightarrow> n = length tx \<Longrightarrow> pb_ok B (wrote s bs) (pb_advance n) (at_end (s @ tx) 0)"
proof -
  assume bs: "bs = tx @ cs" and n: "n = length tx"
  have "take (length s + length tx) m = s @ tx \<and> length s + length tx \<le> length m"
    if tk: "take (length s + length bs) m = s @ bs" for m
  proof -
    obtain m2 where "m = (s @ bs) @ m2" using take_eq_split [OF tk] by blast
    then show ?thesis using bs by simp
  qed
  then show ?thesis using n by (auto simp: pb_ok_def wrote_def at_end_def pb_advance_def)
qed

lemma wrote_written: "wrote s (tx @ [0]) p \<Longrightarrow> written (s @ tx) (length s) p"
  by (auto simp: wrote_def written_def)

lemma strlen_append: "c_string t \<Longrightarrow> strlen (t @ 0 # cs) = Some (length t)"
  by (induction t) (auto simp: c_string_def)

lemma update_ok: "c_string (drop k s) \<Longrightarrow> pb_ok B (written s k) update (at_end s 0)"
  unfolding pb_ok_def
proof (intro allI impI)
  fix p
  assume c: "c_string (drop k s)" and "written s k p"
  then obtain m where m: "buffer p = Some m" "length m = pb_length p" "k \<le> offset p" "offset p \<le> length s"
      "take (length s + 1) m = s @ [0]" by (auto simp: written_def)
  obtain m2 where split: "m = (s @ [0]) @ m2" using take_eq_split [OF m(5)] by blast
  have "drop (offset p) s = drop (offset p - k) (drop k s)" using m(3) by simp
  then have "c_string (drop (offset p) s)" using c by (metis c_string_def in_set_dropD)
  then have "strlen (drop (offset p) (s @ 0 # m2)) = Some (length s - offset p)"
    using m(4) by (simp add: strlen_append)
  then have "update p = Inr (Some (p\<lparr>offset := length s\<rparr>))"
    using m(1,4) split by (simp add: update_def)
  moreover have "take (length s) m = s" "length s \<le> length m"
    by (simp_all add: split)
  ultimately show "case update p of Inl _ \<Rightarrow> False | Inr None \<Rightarrow> noalloc p \<and> pb_length p < B
      | Inr (Some q) \<Rightarrow> at_end s 0 q \<and> noalloc q = noalloc p \<and> pb_length p \<le> pb_length q"
    using m(1,2) by (simp add: at_end_def)
qed


lemma put_advance_ok:
  assumes "\<And>n. length (fresh n) = n" and "B \<le> 2 ^ 30" and "length s + n \<le> B" and "length bs \<le> n"
    and "bs = tx @ cs" and "k = length tx"
    and rest: "pb_ok B (at_end (s @ tx) 0) (pb_seq fs) R"
  shows "pb_ok B (at_end s r) (pb_seq (ensure fresh n # pb_write bs # pb_advance k # fs)) R"
  by (rule pb_seq_Cons_ok [OF ensure_ok [OF assms(1,3,2)]])
    (rule pb_seq_Cons_ok [OF write_ok [OF assms(4)]] pb_seq_Cons_ok [OF advance_ok [OF assms(5,6)]] rest)+

lemma put_final_ok:
  assumes "\<And>n. length (fresh n) = n" and "B \<le> 2 ^ 30" and "length s + n \<le> B" and "length tx < n"
  shows "pb_ok B (at_end s r) (pb_seq [ensure fresh n, pb_write (tx @ [0])]) (written (s @ tx) (length s))"
  by (rule pb_seq_Cons_ok [OF ensure_ok [OF assms(1,3,2)]])
    (use assms(4) in \<open>auto intro!: pb_seq_Cons_ok [OF write_ok] pb_seq_Nil_ok wrote_written\<close>)

text \<open>An operation that prints a tx at the end of what is there.\<close>

definition prints :: "nat \<Rightarrow> pb_op \<Rightarrow> byte list \<Rightarrow> bool" where
  "prints B f tx \<longleftrightarrow> c_string tx \<and>
     (\<forall>s. length s + length tx + 64 \<le> B \<longrightarrow> pb_ok B (at_end s 0) f (written (s @ tx) (length s)))"

lemma prints_update:
  assumes "prints B f tx" and "length s + length tx + 64 \<le> B"
    and "pb_ok B (at_end (s @ tx) 0) (pb_seq fs) R"
  shows "pb_ok B (at_end s 0) (pb_seq (f # update # fs)) R"
proof -
  have c: "c_string (drop (length s) (s @ tx))" using assms(1) by (simp add: prints_def)
  show ?thesis
    by (rule pb_seq_Cons_ok [OF _ pb_seq_Cons_ok [OF update_ok [OF c] assms(3)]])
      (use assms(1,2) in \<open>simp add: prints_def\<close>)
qed

lemma pb_text_prints:
  assumes "\<And>n. length (fresh n) = n" and "B \<le> 2 ^ 30" and "text_fits x"
  shows "prints B (pb_text fresh x) (snd x)"
  unfolding prints_def
proof (intro conjI allI impI)
  obtain n tx where x: "x = (n, tx)" by (cases x) auto
  then show "c_string (snd x)" using assms(3) by (simp add: text_fits_def)
  fix s :: "byte list" assume "length s + length (snd x) + 64 \<le> B"
  then show "pb_ok B (at_end s 0) (pb_text fresh x) (written (s @ snd x) (length s))"
    using put_final_ok [OF assms(1,2), of s n tx 0] assms(3) x
    by (simp add: pb_text_def text_fits_def del: pb_seq.simps)
qed

lemma array_children_ok:
  assumes "\<And>n. length (fresh n) = n" and "B \<le> 2 ^ 30"
  shows "list_all (\<lambda>(f, tx). prints B f tx) xs \<Longrightarrow> length s + length (array_entries fmt (map snd xs)) + 64 \<le> B \<Longrightarrow>
    pb_ok B (at_end s 0) (array_children_b fresh fmt (map fst xs)) (at_end (s @ array_entries fmt (map snd xs)) 0)"
proof (induction xs arbitrary: s)
  case Nil
  then show ?case by (simp add: pb_ok_def)
next
  case (Cons x xs)
  obtain f tx where x: "x = (f, tx)" by (cases x) auto
  show ?case
  proof (cases "xs = []")
    case True
    have "pb_ok B (at_end s 0) (pb_seq (f # update # [array_children_b fresh fmt []])) (at_end (s @ tx) 0)"
      by (rule prints_update) (use Cons.prems x True in \<open>auto simp: pb_ok_def pb_then_def\<close>)
    then show ?thesis using True x by (simp add: pb_ok_def)
  next
    case False
    then obtain y ys where xs: "xs = y # ys" by (cases xs) auto
    let ?sep = "COMMA # (if fmt then [BLANK] else [])"
    let ?k = "if fmt then 2 else 1 :: nat"
    have entries: "array_entries fmt (map snd (x # xs)) = tx @ ?sep @ array_entries fmt (map snd xs)"
      using x xs by simp
    have len: "length s + length tx + length ?sep + length (array_entries fmt (map snd xs)) + 64 \<le> B"
      using Cons.prems(2) unfolding entries by simp
    have "pb_ok B (at_end s 0) (pb_seq (f # update #
        [ensure fresh (?k + 1), pb_write (?sep @ [0]), pb_advance ?k, array_children_b fresh fmt (map fst xs)]))
        (at_end (s @ array_entries fmt (map snd (x # xs))) 0)"
    proof (rule prints_update)
      show "prints B f tx" "length s + length tx + 64 \<le> B" using Cons.prems x len by auto
      show "pb_ok B (at_end (s @ tx) 0) (pb_seq [ensure fresh (?k + 1), pb_write (?sep @ [0]), pb_advance ?k,
          array_children_b fresh fmt (map fst xs)]) (at_end (s @ array_entries fmt (map snd (x # xs))) 0)"
      proof (rule put_advance_ok [OF assms])
        have "pb_ok B (at_end ((s @ tx) @ ?sep) 0) (array_children_b fresh fmt (map fst xs))
            (at_end (((s @ tx) @ ?sep) @ array_entries fmt (map snd xs)) 0)"
          by (rule Cons.IH) (use Cons.prems(1) len in auto)
        then show "pb_ok B (at_end ((s @ tx) @ ?sep) 0) (pb_seq [array_children_b fresh fmt (map fst xs)])
            (at_end (s @ array_entries fmt (map snd (x # xs))) 0)"
          unfolding entries by (intro pb_seq_Cons_ok pb_seq_Nil_ok) auto
      qed (use len in \<open>auto split: if_splits\<close>)
    qed
    then show ?thesis using x False by (simp add: pb_ok_def del: pb_seq.simps)
  qed
qed

lemma print_array_prints:
  assumes "\<And>n. length (fresh n) = n" and "B \<le> 2 ^ 30" and "list_all (\<lambda>(f, tx). prints B f tx) xs"
  shows "prints B (print_array_b fresh fmt (map fst xs)) (LBRACKET # array_entries fmt (map snd xs) @ [RBRACKET])"
proof (cases "xs = []")
  case True
  then show ?thesis
    using pb_text_prints [OF assms(1,2), of "(3, [LBRACKET, RBRACKET])"]
    by (simp add: print_array_b_def text_fits_def c_string_def)
next
  case False
  let ?a = "array_entries fmt (map snd xs)"
  have "c_string (array_entries fmt ts)" if "list_all c_string ts" for ts
    using that by (induction fmt ts rule: array_entries.induct) (auto simp: c_string_def)
  moreover have "list_all c_string (map snd xs)" using assms(3) by (auto simp: list_all_iff prints_def)
  ultimately have c: "c_string (LBRACKET # ?a @ [RBRACKET])" by (simp add: c_string_def)
  have "pb_ok B (at_end s 0) (print_array_b fresh fmt (map fst xs)) (written (s @ LBRACKET # ?a @ [RBRACKET]) (length s))"
    if len: "length s + length (LBRACKET # ?a @ [RBRACKET]) + 64 \<le> B" for s
  proof -
    have "pb_ok B (at_end s 0) (pb_seq (ensure fresh 1 # pb_write [LBRACKET] # pb_advance 1 #
        [array_children_b fresh fmt (map fst xs), ensure fresh 2, pb_write ([RBRACKET] @ [0])]))
        (written (s @ LBRACKET # ?a @ [RBRACKET]) (length s))"
    proof (rule put_advance_ok [OF assms(1,2), where tx = "[LBRACKET]" and cs = "[]"])
      have "pb_ok B (at_end (s @ [LBRACKET]) 0) (array_children_b fresh fmt (map fst xs)) (at_end ((s @ [LBRACKET]) @ ?a) 0)"
        by (rule array_children_ok [OF assms]) (use len in auto)
      moreover have "pb_ok B (at_end ((s @ [LBRACKET]) @ ?a) 0) (pb_seq [ensure fresh 2, pb_write ([RBRACKET] @ [0])])
          (written (s @ LBRACKET # ?a @ [RBRACKET]) (length s))"
        by (rule pb_ok_conseq [OF put_final_ok [OF assms(1,2)]]) (use len in \<open>auto simp: written_def\<close>)
      ultimately show "pb_ok B (at_end (s @ [LBRACKET]) 0)
          (pb_seq [array_children_b fresh fmt (map fst xs), ensure fresh 2, pb_write ([RBRACKET] @ [0])])
          (written (s @ LBRACKET # ?a @ [RBRACKET]) (length s))"
        by (rule pb_seq_Cons_ok)
    qed (use len in auto)
    then show ?thesis using False by (simp add: print_array_b_def del: pb_seq.simps)
  qed
  with c show ?thesis by (simp add: prints_def)
qed

lemma object_children_ok:
  assumes fresh: "\<And>n. length (fresh n) = n" and B: "B \<le> 2 ^ 30"
  shows "list_all (\<lambda>(nm, f, tx). prints B f tx \<and> c_string_option nm) xs \<Longrightarrow>
    length s + length (object_entries fmt depth (map (\<lambda>(nm, f, tx). (snd (print_string_ptr nm), tx)) xs)) + 64 \<le> B \<Longrightarrow>
    pb_ok B (at_end s 0) (object_children_b fresh fmt depth (map (\<lambda>(nm, f, tx). (nm, f)) xs))
      (at_end (s @ object_entries fmt depth (map (\<lambda>(nm, f, tx). (snd (print_string_ptr nm), tx)) xs)) 0)"
proof (induction xs arbitrary: s)
  case Nil
  then show ?case by (simp add: pb_ok_def)
next
  case (Cons x xs)
  obtain nm f tx where x: "x = (nm, f, tx)" by (cases x) auto
  let ?tabs = "if fmt then replicate depth TAB else []"
  let ?name = "snd (print_string_ptr nm)"
  let ?colon = "COLON # (if fmt then [TAB] else [])"
  let ?close = "(if xs \<noteq> [] then [COMMA] else []) @ (if fmt then [NEWLINE] else [])"
  let ?rest = "object_entries fmt depth (map (\<lambda>(nm, f, tx). (snd (print_string_ptr nm), tx)) xs)"
  let ?c = "if fmt then 2 else 1 :: nat"
  let ?k = "(if fmt then 1 else 0) + (if xs \<noteq> [] then 1 else 0) :: nat"
  let ?kids = "object_children_b fresh fmt depth (map (\<lambda>(nm, f, tx). (nm, f)) xs)"
  let ?entry = "((((s @ ?tabs) @ ?name) @ ?colon) @ tx) @ ?close"
  have entries: "object_entries fmt depth (map (\<lambda>(nm, f, tx). (snd (print_string_ptr nm), tx)) (x # xs)) =
      ?tabs @ ?name @ ?colon @ tx @ ?close @ ?rest"
    using x by (simp add: object_entry_def)
  have len: "length s + length ?tabs + length ?name + length ?colon + length tx + length ?close + length ?rest + 64 \<le> B"
    using Cons.prems(2) unfolding entries by simp
  have f: "prints B f tx" and nm: "prints B (pb_text fresh (print_string_ptr nm)) ?name"
    using Cons.prems(1) x pb_text_prints [OF fresh B text_fits_string] by auto
  have kids: "pb_ok B (at_end ?entry 0) (pb_seq [?kids]) (at_end (?entry @ ?rest) 0)"
    by (rule pb_seq_Cons_ok [OF Cons.IH]) (use Cons.prems(1) len in \<open>auto intro: pb_seq_Nil_ok\<close>)
  have "pb_ok B (at_end (s @ ?tabs) 0)
      (pb_seq (pb_text fresh (print_string_ptr nm) # update #
         [ensure fresh ?c, pb_write ?colon, pb_advance ?c, f, update,
          ensure fresh (?k + 1), pb_write (?close @ [0]), pb_advance ?k, ?kids]))
      (at_end (?entry @ ?rest) 0)"
  proof (rule prints_update [OF nm])
    show "pb_ok B (at_end ((s @ ?tabs) @ ?name) 0)
      (pb_seq [ensure fresh ?c, pb_write ?colon, pb_advance ?c, f, update,
          ensure fresh (?k + 1), pb_write (?close @ [0]), pb_advance ?k, ?kids])
      (at_end (?entry @ ?rest) 0)"
    proof (rule put_advance_ok [OF fresh B, where tx = ?colon and cs = "[]"])
      show "pb_ok B (at_end (((s @ ?tabs) @ ?name) @ ?colon) 0)
        (pb_seq [f, update, ensure fresh (?k + 1), pb_write (?close @ [0]), pb_advance ?k, ?kids])
        (at_end (?entry @ ?rest) 0)"
      proof (rule prints_update [OF f])
        show "pb_ok B (at_end ((((s @ ?tabs) @ ?name) @ ?colon) @ tx) 0)
          (pb_seq [ensure fresh (?k + 1), pb_write (?close @ [0]), pb_advance ?k, ?kids])
          (at_end (?entry @ ?rest) 0)"
          by (rule put_advance_ok [OF fresh B, where tx = ?close and cs = "[0]", OF _ _ _ _ kids])
            (use len in \<open>auto split: if_splits\<close>)
      qed (use len in simp)
    qed (use len in \<open>auto split: if_splits\<close>)
  qed (use len in simp)
  then have body: "pb_ok B (at_end (s @ ?tabs) 0)
      (pb_seq [pb_text fresh (print_string_ptr nm), update, ensure fresh ?c, pb_write ?colon, pb_advance ?c, f, update,
          ensure fresh (?k + 1), pb_write (?close @ [0]), pb_advance ?k, ?kids])
      (at_end (?entry @ ?rest) 0)" .
  have "pb_ok B (at_end s 0)
      (pb_seq ((if fmt then [ensure fresh depth, pb_write (replicate depth TAB), pb_advance depth] else []) @
        [pb_text fresh (print_string_ptr nm), update, ensure fresh ?c, pb_write ?colon, pb_advance ?c, f, update,
          ensure fresh (?k + 1), pb_write (?close @ [0]), pb_advance ?k, ?kids]))
      (at_end (?entry @ ?rest) 0)"
  proof (cases fmt)
    case True
    have "pb_ok B (at_end s 0)
      (pb_seq (ensure fresh depth # pb_write (replicate depth TAB) # pb_advance depth #
        [pb_text fresh (print_string_ptr nm), update, ensure fresh ?c, pb_write ?colon, pb_advance ?c, f, update,
          ensure fresh (?k + 1), pb_write (?close @ [0]), pb_advance ?k, ?kids]))
      (at_end (?entry @ ?rest) 0)"
      by (rule put_advance_ok [OF fresh B, where tx = ?tabs and cs = "[]", OF _ _ _ _ body])
        (use len True in auto)
    then show ?thesis using True by simp
  next
    case False
    then show ?thesis using body by simp
  qed
  moreover have "object_children_b fresh fmt depth (map (\<lambda>(nm, f, tx). (nm, f)) (x # xs)) =
      pb_seq ((if fmt then [ensure fresh depth, pb_write (replicate depth TAB), pb_advance depth] else []) @
        [pb_text fresh (print_string_ptr nm), update, ensure fresh ?c, pb_write ?colon, pb_advance ?c, f, update,
          ensure fresh (?k + 1), pb_write (?close @ [0]), pb_advance ?k, ?kids])"
    using x by (simp add: fun_eq_iff del: pb_seq.simps)
  ultimately show ?case unfolding entries by simp
qed

lemma written_le: "written s k p \<Longrightarrow> j \<le> k \<Longrightarrow> written s j p"
  by (force simp: written_def)

lemma print_object_prints:
  assumes fresh: "\<And>n. length (fresh n) = n" and B: "B \<le> 2 ^ 30"
    and xs: "list_all (\<lambda>(nm, f, tx). prints B f tx \<and> c_string_option nm) xs" "xs \<noteq> []"
  shows "prints B (print_object_b fresh fmt depth (map (\<lambda>(nm, f, tx). (nm, f)) xs))
    (LBRACE # (if fmt then [NEWLINE] else []) @
     object_entries fmt (depth + 1) (map (\<lambda>(nm, f, tx). (snd (print_string_ptr nm), tx)) xs) @
     (if fmt then replicate depth TAB else []) @ [RBRACE])"
proof -
  let ?ys = "map (\<lambda>(nm, f, tx). (snd (print_string_ptr nm), tx)) xs"
  let ?a = "object_entries fmt (depth + 1) ?ys"
  let ?open = "LBRACE # (if fmt then [NEWLINE] else [])"
  let ?close = "(if fmt then replicate depth TAB else []) @ [RBRACE]"
  let ?kids = "object_children_b fresh fmt (depth + 1) (map (\<lambda>(nm, f, tx). (nm, f)) xs)"
  let ?l = "if fmt then 2 else 1 :: nat"
  have "c_string (object_entries fmt n ys)" if "list_all (\<lambda>(nm, tx). c_string nm \<and> c_string tx) ys" for n ys
    using that by (induction ys) (auto simp: object_entry_def)
  moreover have "list_all (\<lambda>(nm, tx). c_string nm \<and> c_string tx) ?ys"
  proof -
    have "c_string (snd (print_string_ptr nm))" if "c_string_option nm" for nm
      using text_fits_string [OF that] by (auto simp: text_fits_def)
    then show ?thesis using xs(1) by (auto simp: list_all_iff prints_def)
  qed
  ultimately have c: "c_string (?open @ ?a @ ?close)" by simp
  have "pb_ok B (at_end s 0) (print_object_b fresh fmt depth (map (\<lambda>(nm, f, tx). (nm, f)) xs))
      (written (s @ ?open @ ?a @ ?close) (length s))"
    if len: "length s + length (?open @ ?a @ ?close) + 64 \<le> B" for s
  proof -
    have kids: "pb_ok B (at_end (s @ ?open) 0) ?kids (at_end ((s @ ?open) @ ?a) 0)"
      by (rule object_children_ok [OF fresh B xs(1)]) (use len in simp)
    have close: "pb_ok B (at_end ((s @ ?open) @ ?a) 0)
        (pb_seq [ensure fresh (if fmt then depth + 1 + 1 else 2), pb_write (?close @ [0])])
        (written (s @ ?open @ ?a @ ?close) (length s))"
    proof (rule pb_ok_conseq [OF put_final_ok [OF fresh B]])
      show "written (s @ ?open @ ?a @ ?close) (length s) p"
        if "written (((s @ ?open) @ ?a) @ ?close) (length ((s @ ?open) @ ?a)) p" for p
        using written_le [OF that, of "length s"] by simp
    qed (use len in \<open>auto split: if_splits\<close>)
    have "pb_ok B (at_end s 0) (pb_seq (ensure fresh (?l + 1) # pb_write (?open @ [0]) # pb_advance ?l #
        [?kids, ensure fresh (if fmt then depth + 1 + 1 else 2), pb_write (?close @ [0])]))
        (written (s @ ?open @ ?a @ ?close) (length s))"
      by (rule put_advance_ok [OF fresh B, where tx = ?open and cs = "[0]", OF _ _ _ _ pb_seq_Cons_ok [OF kids close]])
        (use len in \<open>auto split: if_splits\<close>)
    then show ?thesis using xs(2) by (cases fmt) (simp_all add: print_object_b_def Let_def del: pb_seq.simps)
  qed
  with c show ?thesis by (simp add: prints_def)
qed

lemma print_value_prints:
  assumes fresh: "\<And>n. length (fresh n) = n" and B: "B \<le> 2 ^ 30"
  shows "printable D t \<Longrightarrow> prints B (print_value_b fresh D fmt depth t) (json_text D fmt depth t)"
proof (induction D fmt depth t rule: json_text.induct)
  case (1 D fmt depth k vs vi vd nm cs)
  note fits = pb_text_prints [OF fresh B]
  show ?case
  proof (cases k)
    case cJSON_Array
    let ?xs = "map (\<lambda>c. (print_value_b fresh D fmt (depth + 1) c, json_text D fmt (depth + 1) c)) cs"
    have "list_all (\<lambda>(f, tx). prints B f tx) ?xs"
      using 1 cJSON_Array by (auto simp: list_all_iff)
    from print_array_prints [OF fresh B this, of fmt]
    show ?thesis using cJSON_Array by (simp add: comp_def)
  next
    case cJSON_Object
    let ?xs = "map (\<lambda>c. (item_name c, print_value_b fresh D fmt (depth + 1) c, json_text D fmt (depth + 1) c)) cs"
    show ?thesis
    proof (cases "cs = []")
      case True
      then show ?thesis using cJSON_Object fits [OF text_fits_empty_object]
        by (simp add: print_object_b_def)
    next
      case False
      have "list_all (\<lambda>(nm, f, tx). prints B f tx \<and> c_string_option nm) ?xs"
        using 1 cJSON_Object False by (auto simp: list_all_iff)
      from print_object_prints [OF fresh B this, of fmt depth] False
      show ?thesis using cJSON_Object by (simp add: comp_def)
    qed
  next
    case cJSON_Number
    then show ?thesis using fits [of "print_number D (Item k vs vi vd nm cs)"] "1.prems" by simp
  next
    case cJSON_String
    then show ?thesis using fits [OF text_fits_string] "1.prems" by simp
  next
    case cJSON_NULL
    then show ?thesis using fits [of "(5, NULL_TEXT)"] by (simp add: text_fits_def)
  next
    case cJSON_True
    then show ?thesis using fits [of "(5, TRUE_TEXT)"] by (simp add: text_fits_def)
  next
    case cJSON_False
    then show ?thesis using fits [of "(6, FALSE_TEXT)"] by (simp add: text_fits_def)
  qed (use "1.prems" in simp)
qed

lemma pb_okD:
  assumes "pb_ok B P f Q" and "P p"
  shows "(\<exists>q. f p = Inr (Some q) \<and> Q q \<and> noalloc q = noalloc p) \<or>
    f p = Inr None \<and> noalloc p \<and> pb_length p < B"
proof -
  have "case f p of Inl _ \<Rightarrow> False | Inr None \<Rightarrow> noalloc p \<and> pb_length p < B
      | Inr (Some q) \<Rightarrow> Q q \<and> noalloc q = noalloc p \<and> pb_length p \<le> pb_length q"
    using assms by (simp add: pb_ok_def)
  then show ?thesis by (cases "f p") (auto split: option.splits)
qed

lemma c_text_written: "c_string s \<Longrightarrow> written s 0 p \<Longrightarrow> \<exists>m. buffer p = Some m \<and> c_text m = s"
proof -
  assume c: "c_string s" and "written s 0 p"
  then obtain m where m: "buffer p = Some m" "take (length s + 1) m = s @ [0]" by (auto simp: written_def)
  obtain m2 where "m = (s @ [0]) @ m2" using take_eq_split [OF m(2)] by blast
  then have "c_text m = s" using c by (auto simp: c_text_def c_string_def takeWhile_append)
  then show ?thesis using m(1) by blast
qed

section \<open>Properties\<close>

text \<open>
  C19: the three ways to print an item give the same text, formatted or not. For items without
  NULs in their texts whose numbers fit their blocks, \<open>cJSON_Print\<close> and \<open>cJSON_PrintUnformatted\<close> write
  exactly \<open>json_text\<close> within the blocks they allocate, \<open>cJSON_PrintBuffered\<close> arrives at the same text
  from any initial size, growing its buffer, and \<open>cJSON_PrintPreallocated\<close> writes it into a buffer with 64
  bytes to spare, and never past the end of a smaller one (for texts up to a gigabyte, where
  \<open>pow2gt\<close> would overflow).
\<close>

theorem printers_agree:
  assumes "printable D t" and "length (json_text D fmt 0 t) + 64 \<le> 2 ^ 30" and "\<forall>n. length (fresh n) = n"
  shows "(if fmt then cJSON_Print D t else cJSON_PrintUnformatted D t) = Inr (Some (json_text D fmt 0 t)) \<and>
    cJSON_PrintBuffered fresh D t prebuffer fmt = Inr (Some (json_text D fmt 0 t)) \<and>
    (case cJSON_PrintPreallocated D t buf fmt of
       Inl _ \<Rightarrow> False
     | Inr (ok, buf') \<Rightarrow>
         (ok \<longrightarrow> map_option c_text buf' = Some (json_text D fmt 0 t)) \<and>
         (length (json_text D fmt 0 t) + 64 \<le> length buf \<longrightarrow> ok))"
proof (intro conjI)
  let ?t = "json_text D fmt 0 t"
  have f: "length (fresh n) = n" for n using assms(3) by blast
  show "(if fmt then cJSON_Print D t else cJSON_PrintUnformatted D t) = Inr (Some ?t)"
    by (simp add: cJSON_Print_def cJSON_PrintUnformatted_def print_value_ok [OF assms(1)])
  have c: "c_string ?t" using print_value_prints [OF f order_refl assms(1)] by (simp add: prints_def)
  have ok: "pb_ok (length ?t + 64) (at_end [] 0) (print_value_b fr D fmt 0 t) (written ?t 0)"
    if "\<And>n. length (fr n) = n" for fr
    using print_value_prints [OF that assms(2,1)] unfolding prints_def by (metis append_Nil list.size(3) plus_nat.add_0 order_refl)
  show "cJSON_PrintBuffered fresh D t prebuffer fmt = Inr (Some ?t)"
  proof -
    let ?p = "\<lparr>buffer = Some (fresh prebuffer), pb_length = prebuffer, offset = 0, noalloc = False\<rparr>"
    have "at_end [] 0 ?p" by (simp add: at_end_def f)
    then obtain q where q: "print_value_b fresh D fmt 0 t ?p = Inr (Some q)" "written ?t 0 q"
      using pb_okD [OF ok [OF f]] by fastforce
    then obtain m where "buffer q = Some m" "c_text m = ?t" using c_text_written [OF c] by blast
    then show ?thesis by (simp add: cJSON_PrintBuffered_def q(1))
  qed
  show "case cJSON_PrintPreallocated D t buf fmt of Inl _ \<Rightarrow> False
     | Inr (ok, buf') \<Rightarrow> (ok \<longrightarrow> map_option c_text buf' = Some ?t) \<and> (length ?t + 64 \<le> length buf \<longrightarrow> ok)"
  proof -
    let ?fr = "\<lambda>n. replicate n 0"
    let ?p = "\<lparr>buffer = Some buf, pb_length = length buf, offset = 0, noalloc = True\<rparr>"
    have "at_end [] 0 ?p" by (simp add: at_end_def)
    then consider q where "print_value_b ?fr D fmt 0 t ?p = Inr (Some q)" "written ?t 0 q"
      | "print_value_b ?fr D fmt 0 t ?p = Inr None" "length buf < length ?t + 64"
      using pb_okD [OF ok [of ?fr]] by fastforce
    then show ?thesis
    proof cases
      case 1
      then obtain m where "buffer q = Some m" "c_text m = ?t" using c_text_written [OF c] by blast
      then show ?thesis by (simp add: cJSON_PrintPreallocated_def 1(1))
    next
      case 2
      then show ?thesis by (simp add: cJSON_PrintPreallocated_def)
    qed
  qed
qed

definition demo_item :: "rat cJSON" where
  "demo_item = Item cJSON_Object None 0 0 None
     [Item cJSON_Array None 0 0 (Some [97])
        [Item cJSON_Number None 7 7 None [], Item cJSON_True None 1 0 None []],
      Item cJSON_String (Some [98, 34]) 0 0 (Some [98]) []]"

lemma printers_agree_witness:
  "cJSON_PrintBuffered (\<lambda>n. replicate n 1) exact_doubles demo_item 2 True =
     Inr (Some (json_text exact_doubles True 0 demo_item)) \<and>
   length (json_text exact_doubles True 0 demo_item) = 32"
proof
  have "printable exact_doubles demo_item" by code_simp
  moreover have len: "length (json_text exact_doubles True 0 demo_item) = 32" by code_simp
  ultimately show "cJSON_PrintBuffered (\<lambda>n. replicate n 1) exact_doubles demo_item 2 True =
     Inr (Some (json_text exact_doubles True 0 demo_item))"
    using printers_agree [of exact_doubles demo_item True "\<lambda>n. replicate n 1"] by simp
  show "length (json_text exact_doubles True 0 demo_item) = 32" by (rule len)
qed

text \<open>
  \<open>ensure\<close> makes room. In a growable buffer it always succeeds for requests up to a gigabyte: the
  block then holds the requested bytes behind the offset, everything written so far is kept, and
  the size is the old one or the least power of two that suffices.
\<close>

theorem ensure_makes_room:
  assumes "buffer p = Some m" and "length m = pb_length p" and "\<not> noalloc p"
    and "needed + offset p \<le> 2 ^ 30" and "\<forall>n. length (fresh n) = n"
  shows "\<exists>q m'. ensure fresh needed p = Inr (Some q) \<and> buffer q = Some m' \<and> length m' = pb_length q \<and>
    needed + offset p \<le> pb_length q \<and> offset q = offset p \<and> take (pb_length p) m' = m \<and>
    (pb_length q = pb_length p \<or>
     (\<exists>k. pb_length q = 2 ^ k \<and> (\<forall>j. needed + offset p \<le> 2 ^ j \<longrightarrow> k \<le> j)))"
proof (cases "needed + offset p \<le> pb_length p")
  case True
  then show ?thesis using assms by (auto simp: ensure_def INT_MAX_def)
next
  case False
  let ?n = "unat (pow2gt (word_of_nat (needed + offset p)))"
  have n: "1 \<le> needed + offset p" using False by simp
  obtain k where k: "?n = 2 ^ k" "needed + offset p \<le> 2 ^ k" "\<forall>j. needed + offset p \<le> 2 ^ j \<longrightarrow> k \<le> j"
    using pow2gt_least [OF n assms(4)] by blast
  let ?m = "take (pb_length p) m @ drop (pb_length p) (fresh ?n)"
  have "ensure fresh needed p = Inr (Some (p\<lparr>buffer := Some ?m, pb_length := ?n\<rparr>))"
    using assms False k(1,2) pow2gt_bounds [OF n assms(4)] by (simp add: ensure_def INT_MAX_def Let_def)
  then show ?thesis using assms(2,5) k False by auto
qed

lemma ensure_makes_room_witness:
  "\<exists>q m'. ensure (\<lambda>n. replicate n 9) 5 \<lparr>buffer = Some [1, 2, 3], pb_length = 3, offset = 2, noalloc = False\<rparr> =
       Inr (Some q) \<and> buffer q = Some m' \<and> length m' = 8 \<and> take 3 m' = [1, 2, 3]"
proof -
  let ?p = "\<lparr>buffer = Some [1, 2, 3 :: byte], pb_length = 3, offset = 2, noalloc = False\<rparr>"
  obtain q m' where q: "ensure (\<lambda>n. replicate n 9) 5 ?p = Inr (Some q)" "buffer q = Some m'" "length m' = pb_length q"
      "7 \<le> pb_length q" "take 3 m' = [1, 2, 3]"
      "pb_length q = 3 \<or> (\<exists>k. pb_length q = 2 ^ k \<and> (\<forall>j. 7 \<le> (2 :: nat) ^ j \<longrightarrow> k \<le> j))"
    using ensure_makes_room [of ?p "[1, 2, 3]" 5 "\<lambda>n. replicate n 9"] by auto
  then obtain k where k: "pb_length q = 2 ^ k" "\<forall>j. 7 \<le> (2 :: nat) ^ j \<longrightarrow> k \<le> j" by auto
  have "k \<le> 3" using k(2) by (rule allE [of _ 3]) simp
  then have "(2::nat) ^ k \<le> 2 ^ 3" by (intro power_increasing) auto
  moreover have "\<not> k \<le> 2" using q(4) k(1) power_increasing [of k 2 "2::nat"] by auto
  ultimately have "pb_length q = 8" using k(1) \<open>k \<le> 3\<close> by (simp add: le_Suc_eq numeral_3_eq_3)
  then have "length m' = 8" using q(3) by simp
  then show ?thesis using q(1,2,5) by blast
qed

end
