(* ===== verification/CJson_Roundtrip.thy ===== *)
theory CJson_Roundtrip
  imports CJson_Buffer
begin

text \<open>
  Parsing what was printed, in any arithmetic of doubles that is exact on integers. \<open>reads\<close> says that
  a parser of values reads a text back whatever follows it; it is proved through arrays and
  objects with the depth of calls that \<open>cJSON_ParseWithOpts\<close> has.
\<close>

section \<open>Integers\<close>

text \<open>
  Doubles that are exact on integers up to \<open>2 ^ 53\<close>, as IEEE 754 binary64 is: literals, comparisons, sums,
  differences, and products, except that a product of zero and a negative number may be a negative zero.
\<close>

definition exact_integers :: "'d doubles \<Rightarrow> bool" where
  "exact_integers D \<longleftrightarrow>
     (\<forall>i j :: int. \<bar>i\<bar> \<le> 2 ^ 53 \<and> \<bar>j\<bar> \<le> 2 ^ 53 \<longrightarrow>
        (deq D (dlit D (of_int i)) (dlit D (of_int j)) \<longleftrightarrow> i = j) \<and>
        (\<bar>i + j\<bar> \<le> 2 ^ 53 \<longrightarrow> dadd D (dlit D (of_int i)) (dlit D (of_int j)) = dlit D (of_int (i + j))) \<and>
        (\<bar>i - j\<bar> \<le> 2 ^ 53 \<longrightarrow> dsub D (dlit D (of_int i)) (dlit D (of_int j)) = dlit D (of_int (i - j))) \<and>
        (\<bar>i * j\<bar> \<le> 2 ^ 53 \<and> (0 \<le> i \<and> 0 \<le> j \<or> i * j \<noteq> 0) \<longrightarrow>
           dmul D (dlit D (of_int i)) (dlit D (of_int j)) = dlit D (of_int (i * j))) \<and>
        dabs D (dlit D (of_int i)) = dlit D (of_int \<bar>i\<bar>) \<and>
        (INT_MIN \<le> i \<and> i \<le> INT_MAX \<longrightarrow> dtoint D (dlit D (of_int i)) = Some i)) \<and>
     (\<forall>q r. q \<le> r \<longrightarrow> dle D (dlit D q) (dlit D r)) \<and>
     dpow D (dlit D 10) (dlit D 0) = dlit D 1"

lemma exact_doubles_exact: "exact_integers exact_doubles"
  by (auto simp: exact_integers_def exact_doubles_def)

lemma exactD:
  assumes "exact_integers D"
  shows exact_deq: "\<bar>i\<bar> \<le> 2 ^ 53 \<Longrightarrow> \<bar>j\<bar> \<le> 2 ^ 53 \<Longrightarrow> deq D (dlit D (of_int i)) (dlit D (of_int j)) \<longleftrightarrow> i = j"
    and exact_add: "\<bar>i\<bar> \<le> 2 ^ 53 \<Longrightarrow> \<bar>j\<bar> \<le> 2 ^ 53 \<Longrightarrow> \<bar>i + j\<bar> \<le> 2 ^ 53 \<Longrightarrow>
      dadd D (dlit D (of_int i)) (dlit D (of_int j)) = dlit D (of_int (i + j))"
    and exact_sub: "\<bar>i\<bar> \<le> 2 ^ 53 \<Longrightarrow> \<bar>j\<bar> \<le> 2 ^ 53 \<Longrightarrow> \<bar>i - j\<bar> \<le> 2 ^ 53 \<Longrightarrow>
      dsub D (dlit D (of_int i)) (dlit D (of_int j)) = dlit D (of_int (i - j))"
    and exact_mul: "\<bar>i\<bar> \<le> 2 ^ 53 \<Longrightarrow> \<bar>j\<bar> \<le> 2 ^ 53 \<Longrightarrow> \<bar>i * j\<bar> \<le> 2 ^ 53 \<Longrightarrow>
      0 \<le> i \<and> 0 \<le> j \<or> i * j \<noteq> 0 \<Longrightarrow>
      dmul D (dlit D (of_int i)) (dlit D (of_int j)) = dlit D (of_int (i * j))"
    and exact_abs: "\<bar>i\<bar> \<le> 2 ^ 53 \<Longrightarrow> dabs D (dlit D (of_int i)) = dlit D (of_int \<bar>i\<bar>)"
    and exact_toint: "INT_MIN \<le> i \<Longrightarrow> i \<le> INT_MAX \<Longrightarrow> dtoint D (dlit D (of_int i)) = Some i"
    and exact_le: "q \<le> r \<Longrightarrow> dle D (dlit D q) (dlit D r)"
    and exact_pow: "dpow D (dlit D 10) (dlit D 0) = dlit D 1"
proof -
  show "INT_MIN \<le> i \<Longrightarrow> i \<le> INT_MAX \<Longrightarrow> dtoint D (dlit D (of_int i)) = Some i"
  proof -
    assume i: "INT_MIN \<le> i" "i \<le> INT_MAX"
    then have "\<bar>i\<bar> \<le> 2 ^ 53" by (simp add: INT_MIN_def INT_MAX_def)
    then show ?thesis using assms i unfolding exact_integers_def by blast
  qed
qed (use assms in \<open>unfold exact_integers_def, blast\<close>)+

lemma digit_char:
  assumes "k < 10"
  shows "is_digit (word_of_nat (48 + k))" and "digit_val (word_of_nat (48 + k)) = int k"
    and "49 \<le> (word_of_nat (48 + k) :: byte) \<longleftrightarrow> k \<noteq> 0"
proof -
  have u: "unat (word_of_nat (48 + k) :: byte) = 48 + k" using assms by (simp add: unat_of_nat del: of_nat_add)
  have "uint (word_of_nat (48 + k) :: byte) = int (48 + k)" using u by (metis uint_nat)
  then show "digit_val (word_of_nat (48 + k)) = int k" by (simp add: digit_val_def)
  show "is_digit (word_of_nat (48 + k))" "49 \<le> (word_of_nat (48 + k) :: byte) \<longleftrightarrow> k \<noteq> 0"
    unfolding is_digit_def word_le_nat_alt u using assms by auto
qed

lemma decimal_digits: "list_all is_digit (decimal n) \<and> decimal n \<noteq> []"
proof (induction n rule: decimal.induct)
  case (1 n)
  then show ?case by (subst (1 2) decimal.simps) (simp add: digit_char del: of_nat_add)
qed

lemma decimal_head: "0 < n \<Longrightarrow> 49 \<le> hd (decimal n) \<and> is_digit (hd (decimal n))"
proof (induction n rule: decimal.induct)
  case (1 n)
  show ?case
  proof (cases "n < 10")
    case True
    then show ?thesis using 1 digit_char [of n] by (simp add: decimal.simps [of n] del: of_nat_add)
  next
    case False
    then have "decimal n = decimal (n div 10) @ [word_of_nat (48 + n mod 10)]" by (simp add: decimal.simps [of n])
    moreover have "0 < n div 10" using False by simp
    ultimately show ?thesis using 1 False decimal_digits [of "n div 10"] by simp
  qed
qed

lemma whole_digits_decimal:
  assumes D: "exact_integers D"
  shows "n \<le> 2 ^ 31 \<Longrightarrow> whole_digits D (dlit D 0) (decimal n @ rest) = whole_digits D (dlit D (of_nat n)) rest"
proof (induction n arbitrary: rest rule: decimal.induct)
  case (1 n)
  have step: "whole_digits D (dlit D (of_nat m)) (word_of_nat (48 + k) # rest) =
      whole_digits D (dlit D (of_nat (m * 10 + k))) rest" if "k < 10" "m \<le> 2 ^ 31" for m k rest
    using that digit_char [OF that(1)] exact_mul [OF D, of "int m" 10] exact_add [OF D, of "int m * 10" "int k"]
    by simp
  show ?case
  proof (cases "n < 10")
    case True
    then show ?thesis using step [of n 0 rest] by (simp add: decimal.simps [of n])
  next
    case False
    have "whole_digits D (dlit D 0) (decimal n @ rest) =
        whole_digits D (dlit D 0) (decimal (n div 10) @ word_of_nat (48 + n mod 10) # rest)"
      using False by (simp add: decimal.simps [of n])
    also have "\<dots> = whole_digits D (dlit D (of_nat (n div 10))) (word_of_nat (48 + n mod 10) # rest)"
      by (rule "1.IH") (use False 1 in auto)
    also have "\<dots> = whole_digits D (dlit D (of_nat (n div 10 * 10 + n mod 10))) rest"
      by (rule step) (use 1 in auto)
    finally show ?thesis by (simp only: div_mult_mod_eq)
  qed
qed

text \<open>What may follow a number.\<close>

definition ends_number :: "byte list \<Rightarrow> bool" where
  "ends_number rest \<longleftrightarrow> rest = [] \<or> \<not> is_digit (hd rest) \<and> hd rest \<notin> {DOT, 101, 69}"

lemma parse_number_steps:
  assumes "(if v \<noteq> [] \<and> hd v = MINUS then (dlit D (-1), tl v) else (dlit D 1, v)) = (sign, num1)"
    and "(if num1 \<noteq> [] \<and> hd num1 = ZERO then tl num1 else num1) = num2"
    and "(if num2 \<noteq> [] \<and> 49 \<le> hd num2 \<and> hd num2 \<le> 57
      then whole_digits D (dlit D 0) num2 else (dlit D 0, num2)) = (n, num3)"
    and "(case num3 of
              c # d # rest \<Rightarrow> if c = DOT \<and> is_digit d then fraction_digits D n (dlit D 0) (d # rest)
                else (n, dlit D 0, num3)
            | _ \<Rightarrow> (n, dlit D 0, num3)) = (n', scale, num4)"
    and "parse_exponent num4 = Some (subscale, signsubscale, rest)"
    and "dmul D (dmul D sign n')
           (dpow D (dlit D 10) (dadd D scale (dlit D (of_int (subscale * signsubscale))))) = x"
    and "dtoint D x = Some i"
  shows "parse_number D item v = Parsed (set_number x i item) rest"
  unfolding parse_number_def read_number_def by (simp only: assms Let_def prod.case option.case option.map)

lemma parse_show_int:
  assumes D: "exact_integers D" and i: "INT_MIN \<le> i" "i \<le> INT_MAX" and rest: "ends_number rest"
  shows "parse_number D item (show_int i @ rest) = Parsed (set_number (dlit D (of_int i)) i item) rest"
proof -
  have digits: "(if num \<noteq> [] \<and> 49 \<le> hd num \<and> hd num \<le> 57 then whole_digits D (dlit D 0) num
      else (dlit D 0, num)) = (dlit D (of_nat n), rest)"
    if num: "num = (if decimal n @ rest \<noteq> [] \<and> hd (decimal n @ rest) = ZERO then tl (decimal n @ rest)
      else decimal n @ rest)" and n: "n \<le> 2 ^ 31" for num n
  proof (cases "n = 0")
    case True
    have "num = rest" by (simp add: num True decimal.simps [of 0])
    moreover have "49 \<le> c \<and> c \<le> 57 \<Longrightarrow> is_digit c" for c :: byte
      by (simp add: is_digit_def word_le_nat_alt)
    ultimately show ?thesis using True rest by (auto simp: ends_number_def)
  next
    case False
    have h: "49 \<le> hd (decimal n)" "is_digit (hd (decimal n))" "decimal n \<noteq> []"
      using decimal_head [of n] decimal_digits [of n] False by auto
    have "hd (decimal n) \<noteq> ZERO" using h(1) by auto
    then have "num = decimal n @ rest" using num h(3) by simp
    moreover have "whole_digits D (dlit D (of_nat n)) rest = (dlit D (of_nat n), rest)"
      using rest by (cases rest) (auto simp: ends_number_def)
    ultimately show ?thesis using h whole_digits_decimal [OF D n, of rest] by (simp add: is_digit_def)
  qed
  have tail: "(case rest of
              c # d # r \<Rightarrow> if c = DOT \<and> is_digit d then fraction_digits D n (dlit D 0) (d # r)
                else (n, dlit D 0, rest)
            | _ \<Rightarrow> (n, dlit D 0, rest)) = (n, dlit D 0, rest)" for n
    using rest by (auto simp: ends_number_def split: list.splits)
  have ex: "parse_exponent rest = Some (0, 1, rest)"
    using rest by (auto simp: ends_number_def parse_exponent_def split: list.splits)
  have one: "dpow D (dlit D 10) (dadd D (dlit D 0) (dlit D (of_int (0 * 1)))) = dlit D 1"
    using exact_add [OF D, of 0 0] exact_pow [OF D] by simp
  have b: "\<bar>i\<bar> \<le> 2 ^ 53" using i by (simp add: INT_MIN_def INT_MAX_def)
  have times_1: "dmul D (dlit D (of_int i)) (dlit D 1) = dlit D (of_int i)"
    using exact_mul [OF D b, of 1] b by (cases "i < 0") auto
  have n: "nat \<bar>i\<bar> \<le> 2 ^ 31" using i by (simp add: INT_MIN_def INT_MAX_def)
  have minus: "hd (decimal n @ rest) \<noteq> MINUS" for n
    using decimal_digits [of n] by (cases "decimal n") (auto simp: is_digit_def)
  have "parse_number D item (show_int i @ rest) =
      Parsed (set_number (dlit D (of_int i)) i item) rest"
  proof (rule parse_number_steps [OF _ refl digits [OF refl n] tail ex _ exact_toint [OF D i]])
    show "(if show_int i @ rest \<noteq> [] \<and> hd (show_int i @ rest) = MINUS
        then (dlit D (- 1), tl (show_int i @ rest)) else (dlit D 1, show_int i @ rest)) =
      (dlit D (of_int (if i < 0 then -1 else 1)), decimal (nat \<bar>i\<bar>) @ rest)"
      using minus by (simp add: show_int_def)
    have "dmul D (dlit D (of_int (if i < 0 then -1 else 1))) (dlit D (of_int \<bar>i\<bar>)) = dlit D (of_int i)"
      using exact_mul [OF D, of "if i < 0 then -1 else 1" "\<bar>i\<bar>"] b by (cases "i < 0") auto
    then show "dmul D (dmul D (dlit D (of_int (if i < 0 then -1 else 1))) (dlit D (of_nat (nat \<bar>i\<bar>))))
        (dpow D (dlit D 10) (dadd D (dlit D 0) (dlit D (of_int (0 * 1))))) = dlit D (of_int i)"
      unfolding one by (simp add: times_1)
  qed
  then show ?thesis .
qed

lemma print_exact_int:
  assumes D: "exact_integers D" and i: "INT_MIN \<le> i" "i \<le> INT_MAX"
  shows "snd (print_number D (Item k vs i (dlit D (of_int i)) nm cs)) = show_int i"
    and print_exact_int_size: "fst (print_number D (Item k vs i (dlit D (of_int i)) nm cs)) = 2 \<and> show_int i = [ZERO] \<or>
      fst (print_number D (Item k vs i (dlit D (of_int i)) nm cs)) = 21"
proof -
  have b: "\<bar>i\<bar> \<le> 2 ^ 53" using i by (simp add: INT_MIN_def INT_MAX_def)
  have "dle D (dabs D (dsub D (dlit D (of_int i)) (dlit D (of_int i)))) (dlit D DBL_EPSILON)"
    using exact_sub [OF D b b] exact_abs [OF D, of 0] exact_le [OF D, of 0 DBL_EPSILON] by (simp add: DBL_EPSILON_def)
  moreover have "dle D (dlit D (of_int i)) (dlit D (of_int INT_MAX))" "dle D (dlit D (of_int INT_MIN)) (dlit D (of_int i))"
    using exact_le [OF D] i by simp_all
  moreover have "deq D (dlit D (of_int i)) (dlit D 0) \<longleftrightarrow> i = 0" using exact_deq [OF D b, of 0] by simp
  moreover have "show_int 0 = [ZERO]" by (simp add: show_int_def decimal.simps [of 0])
  ultimately show "snd (print_number D (Item k vs i (dlit D (of_int i)) nm cs)) = show_int i"
    "fst (print_number D (Item k vs i (dlit D (of_int i)) nm cs)) = 2 \<and> show_int i = [ZERO] \<or>
      fst (print_number D (Item k vs i (dlit D (of_int i)) nm cs)) = 21"
    by (auto simp: print_number_def Let_def)
qed

section \<open>Items\<close>

fun integral :: "'d doubles \<Rightarrow> 'd cJSON \<Rightarrow> bool" where
  "integral D (Item k vs vi vd nm cs) \<longleftrightarrow>
     (k = cJSON_Number \<longrightarrow> INT_MIN \<le> vi \<and> vi \<le> INT_MAX \<and> vd = dlit D (of_int vi)) \<and>
     (\<forall>c \<in> set cs. integral D c)"

fun with_name :: "byte list option \<Rightarrow> 'd cJSON \<Rightarrow> 'd cJSON" where
  "with_name nm (Item k vs vi vd _ cs) = Item k vs vi vd nm cs"

lemma with_name_same [simp]: "with_name (item_name t) t = t"
  by (cases t) simp

text \<open>A parser that reads a text back, before anything that ends a number.\<close>

definition reads :: "'d doubles \<Rightarrow> 'd value_parser \<Rightarrow> 'd cJSON \<Rightarrow> byte list \<Rightarrow> bool" where
  "reads D pv t tx \<longleftrightarrow> tx \<noteq> [] \<and> \<not> hd tx \<le> 32 \<and> hd tx \<noteq> RBRACKET \<and>
     (\<forall>item rest. fresh_item D item \<longrightarrow> ends_number rest \<longrightarrow>
        pv item (tx @ rest) = Parsed (with_name (item_name item) t) rest)"

lemma skip_blanks: "list_all (\<lambda>c. c \<le> 32) ws \<Longrightarrow> skip (ws @ s) = skip s"
  by (induction ws) auto

lemma skip_text: "s \<noteq> [] \<Longrightarrow> \<not> hd s \<le> 32 \<Longrightarrow> skip (s @ r) = s @ r"
  by (cases s) auto

lemma points_to_Cons [simp]: "points_to (c # s) d \<longleftrightarrow> c = d"
  by (simp add: points_to_def)

lemma reads_skip: "reads D pv t tx \<Longrightarrow> list_all (\<lambda>c. c \<le> 32) ws \<Longrightarrow> skip (ws @ tx @ r) = tx @ r"
  by (simp add: skip_blanks skip_text reads_def)

lemma readsD: "reads D pv t tx \<Longrightarrow> fresh_item D item \<Longrightarrow> ends_number rest \<Longrightarrow>
    pv item (tx @ rest) = Parsed (with_name (item_name item) t) rest"
  by (simp add: reads_def)

subsection \<open>Arrays\<close>

abbreviation blank :: "bool \<Rightarrow> byte list" where
  "blank fmt \<equiv> (if fmt then [BLANK] else [])"

definition more_entries :: "bool \<Rightarrow> byte list list \<Rightarrow> byte list" where
  "more_entries fmt es = concat (map (\<lambda>e. COMMA # blank fmt @ e) es)"

lemma array_entries_more: "array_entries fmt (e # es) = e @ more_entries fmt es"
  by (induction es arbitrary: e) (auto simp: more_entries_def)

lemma more_entries_Cons: "more_entries fmt (e # es) = COMMA # blank fmt @ e @ more_entries fmt es"
  by (simp add: more_entries_def)

lemma length_more_entries: "length es \<le> length (more_entries fmt es)"
  by (induction es) (auto simp: more_entries_def)

lemma length_entry: "e \<in> set es \<Longrightarrow> length e \<le> length (array_entries fmt es)"
  by (induction fmt es rule: array_entries.induct) auto

lemma more_entries_head: "\<exists>c s. more_entries fmt es @ RBRACKET # rest = c # s \<and> c \<in> {COMMA, RBRACKET}"
  by (cases es) (auto simp: more_entries_def)

lemma ends_number_Cons: "c \<in> {COMMA, RBRACKET, RBRACE, NEWLINE, COLON} \<Longrightarrow> ends_number (c # s)"
  by (auto simp: ends_number_def is_digit_def)

lemma array_more: "ends_number (more_entries fmt es @ RBRACKET # rest)"
    "skip (more_entries fmt es @ RBRACKET # rest) = more_entries fmt es @ RBRACKET # rest"
proof -
  obtain c s where eq: "more_entries fmt es @ RBRACKET # rest = c # s" "c \<in> {COMMA, RBRACKET}"
    using more_entries_head by blast
  show "ends_number (more_entries fmt es @ RBRACKET # rest)"
    "skip (more_entries fmt es @ RBRACKET # rest) = more_entries fmt es @ RBRACKET # rest"
    unfolding eq(1) using eq(2) by (auto simp: ends_number_Cons)
qed

lemma array_loop_reads:
  assumes "list_all (\<lambda>(t, tx). reads D pv t tx \<and> item_name t = None) xs" and "length xs < n"
  shows "array_loop D pv n acc (more_entries fmt (map snd xs) @ RBRACKET # rest) =
    Parsed (acc @ map fst xs) rest"
  using assms
proof (induction xs arbitrary: n acc)
  case Nil
  then show ?case by (cases n) (auto simp: more_entries_def)
next
  case (Cons x xs)
  obtain t tx where x: "x = (t, tx)" by (cases x) auto
  obtain k where n: "n = Suc k" "length xs < k" using Cons.prems(2) by (cases n) auto
  let ?more = "more_entries fmt (map snd xs) @ RBRACKET # rest"
  have r: "reads D pv t tx" "item_name t = None" using Cons.prems(1) x by auto
  have "pv (cJSON_New_Item D) (tx @ ?more) = Parsed t ?more"
    using readsD [OF r(1) fresh_New_Item(1) array_more(1)] with_name_same [of t] by (simp add: fresh_New_Item r(2))
  moreover have "skip (blank fmt @ tx @ ?more) = tx @ ?more" by (rule reads_skip [OF r(1)]) simp
  moreover have "array_loop D pv k (acc @ [t]) ?more = Parsed ((acc @ [t]) @ map fst xs) rest"
    by (rule Cons.IH) (use Cons.prems(1) n(2) in auto)
  ultimately show ?case using x n(1) by (cases fmt) (simp_all add: more_entries_Cons array_more(2))
qed

lemma set_children_fresh:
  "fresh_item D item \<Longrightarrow> set_children k cs item = Item k None 0 (dlit D 0) (item_name item) cs"
  by (cases item) (simp add: fresh_item_def)

lemma parse_array_reads:
  assumes xs: "list_all (\<lambda>(t, tx). reads D pv t tx \<and> item_name t = None) xs" and n: "length xs \<le> n"
    and item: "fresh_item D item"
  shows "parse_array D pv n item (LBRACKET # array_entries fmt (map snd xs) @ RBRACKET # rest) =
    Parsed (Item cJSON_Array None 0 (dlit D 0) (item_name item) (map fst xs)) rest"
proof (cases xs)
  case Nil
  then show ?thesis using item
    by (simp add: parse_array_def set_type_children [OF item] set_children_fresh [OF item])
next
  case (Cons x ys)
  obtain t tx where x: "x = (t, tx)" by (cases x) auto
  have r: "reads D pv t tx" "item_name t = None" using xs Cons x by auto
  let ?more = "more_entries fmt (map snd ys) @ RBRACKET # rest"
  have "skip (tx @ ?more) = tx @ ?more" using reads_skip [OF r(1), of "[]" ?more] by simp
  moreover have "pv (cJSON_New_Item D) (tx @ ?more) = Parsed t ?more"
    using readsD [OF r(1) fresh_New_Item(1) array_more(1)] with_name_same [of t] by (simp add: fresh_New_Item r(2))
  moreover have "array_loop D pv n [t] ?more = Parsed ([t] @ map fst ys) rest"
    by (rule array_loop_reads) (use xs Cons n in auto)
  moreover have "\<not> points_to (tx @ ?more) RBRACKET" using r(1) by (simp add: reads_def points_to_def)
  ultimately show ?thesis using Cons x
    by (simp add: parse_array_def array_entries_more array_more(2) set_children_fresh [OF item])
qed

subsection \<open>Objects\<close>

abbreviation newline :: "bool \<Rightarrow> byte list" where
  "newline fmt \<equiv> (if fmt then [NEWLINE] else [])"

abbreviation tabs :: "bool \<Rightarrow> nat \<Rightarrow> byte list" where
  "tabs fmt n \<equiv> (if fmt then replicate n TAB else [])"

text \<open>The text behind a member, up to the end of the object.\<close>

definition object_tail :: "bool \<Rightarrow> nat \<Rightarrow> (byte list \<times> byte list) list \<Rightarrow> byte list \<Rightarrow> byte list" where
  "object_tail fmt d xs rest =
     (if xs = [] then [] else [COMMA]) @ newline fmt @ object_entries fmt (d + 1) xs @ tabs fmt d @ RBRACE # rest"

lemma object_entries_tail:
  "object_entries fmt (d + 1) ((name, e) # xs) @ tabs fmt d @ RBRACE # rest =
     tabs fmt (d + 1) @ name @ COLON # (if fmt then [TAB] else []) @ e @ object_tail fmt d xs rest"
  by (simp add: object_entry_def object_tail_def)

lemma length_object_member:
  "(name, e) \<in> set xs \<Longrightarrow> length e \<le> length (object_entries fmt d xs)"
  by (induction xs) (auto simp: object_entry_def)

lemma length_object_members: "length xs \<le> length (object_entries fmt d xs)"
  by (induction xs) (auto simp: object_entry_def)

lemma object_tail_ends: "ends_number (object_tail fmt d xs rest)"
  by (cases fmt; cases xs) (auto simp: object_tail_def ends_number_Cons)

definition reads_member :: "'d doubles \<Rightarrow> 'd value_parser \<Rightarrow> 'd cJSON \<times> byte list \<Rightarrow> bool" where
  "reads_member D pv = (\<lambda>(t, tx). reads D pv t tx \<and> (\<exists>s. item_name t = Some s \<and> c_string s))"

definition member_text :: "'d cJSON \<times> byte list \<Rightarrow> byte list \<times> byte list" where
  "member_text = (\<lambda>(t, tx). (snd (print_string_ptr (item_name t)), tx))"

lemma parse_member_reads:
  assumes "reads_member D pv (t, tx)" and "member_text (t, tx) = (name, tx)"
    and "list_all (\<lambda>c. c \<le> 32) ws"
  shows "parse_member D pv (skip (ws @ name @ COLON # (if fmt then [TAB] else []) @ tx @ object_tail fmt d xs rest)) =
    Parsed t (object_tail fmt d xs rest)"
proof -
  obtain s where s: "item_name t = Some s" "0 \<notin> set s" and r: "reads D pv t tx"
    using assms(1) by (auto simp: reads_member_def c_string_def)
  have name: "name = DQUOTE # escape s @ [DQUOTE]"
    using assms(2) s by (simp add: member_text_def print_string_ptr_text)
  let ?rest = "(if fmt then [TAB] else []) @ tx @ object_tail fmt d xs rest"
  have "skip (ws @ name @ COLON # ?rest) = name @ COLON # ?rest"
    using assms(3) by (simp add: skip_blanks name)
  moreover have "parse_string (name @ COLON # ?rest) = Parsed s (COLON # ?rest)"
    using parse_escape [OF s(2), of "COLON # ?rest"] by (simp add: name)
  moreover have "skip ?rest = tx @ object_tail fmt d xs rest" by (rule reads_skip [OF r]) simp
  moreover have "pv (string_as_key (set_string s (cJSON_New_Item D))) (tx @ object_tail fmt d xs rest) =
      Parsed t (object_tail fmt d xs rest)"
  proof -
    have "fresh_item D (string_as_key (set_string s (cJSON_New_Item D)))"
      by (simp add: fresh_item_def cJSON_New_Item_def)
    from readsD [OF r this object_tail_ends] show ?thesis
      using with_name_same [of t] s(1) by (simp add: cJSON_New_Item_def)
  qed
  ultimately show ?thesis by (simp add: parse_member_def Let_def)
qed

lemma object_loop_reads:
  assumes "list_all (reads_member D pv) xs" and "length xs < n"
  shows "object_loop D pv n acc (skip (object_tail fmt d (map member_text xs) rest)) =
    Parsed (acc @ map fst xs) rest"
  using assms
proof (induction xs arbitrary: n acc)
  case Nil
  have "skip (object_tail fmt d [] rest) = RBRACE # rest"
    using skip_blanks [of "newline fmt @ tabs fmt d" "RBRACE # rest"]
    by (cases fmt) (simp_all add: object_tail_def list_all_iff)
  then show ?case using Nil by (cases n) simp_all
next
  case (Cons x xs)
  obtain t tx where x: "x = (t, tx)" by (cases x) auto
  obtain k where n: "n = Suc k" "length xs < k" using Cons.prems(2) by (cases n) auto
  let ?tail = "object_tail fmt d (map member_text xs) rest"
  obtain name where m: "member_text x = (name, tx)" using x by (simp add: member_text_def)
  have tail: "object_tail fmt d (map member_text (x # xs)) rest =
      COMMA # (newline fmt @ tabs fmt (d + 1)) @ name @ COLON # (if fmt then [TAB] else []) @ tx @ ?tail"
    using object_entries_tail [of fmt d name tx "map member_text xs" rest]
    by (simp add: object_tail_def m del: object_entries.simps)
  have "parse_member D pv (skip ((newline fmt @ tabs fmt (d + 1)) @ name @ COLON # (if fmt then [TAB] else []) @ tx @ ?tail)) =
      Parsed t ?tail"
    by (rule parse_member_reads) (use Cons.prems(1) x m in \<open>auto simp: list_all_iff\<close>)
  moreover have "object_loop D pv k (acc @ [t]) (skip ?tail) = Parsed ((acc @ [t]) @ map fst xs) rest"
    by (rule Cons.IH) (use Cons.prems(1) n(2) in auto)
  moreover have "skip (COMMA # s) = COMMA # s" for s by simp
  ultimately show ?case unfolding tail n(1) using x
    by (simp only: object_loop.simps points_to_Cons if_True list.sel bind_parsed.simps) simp
qed

lemma parse_object_reads:
  assumes xs: "list_all (reads_member D pv) xs" and n: "length xs \<le> n" and item: "fresh_item D item"
    and "xs \<noteq> []"
  shows "parse_object D pv n item
      (LBRACE # newline fmt @ object_entries fmt (d + 1) (map member_text xs) @ tabs fmt d @ RBRACE # rest) =
    Parsed (Item cJSON_Object None 0 (dlit D 0) (item_name item) (map fst xs)) rest"
proof -
  obtain t tx ys where x: "xs = (t, tx) # ys" using assms(4) by (cases xs) auto
  let ?tail = "object_tail fmt d (map member_text ys) rest"
  obtain name where m: "member_text (t, tx) = (name, tx)" by (simp add: member_text_def)
  obtain s where s: "item_name t = Some s" "0 \<notin> set s"
    using xs x by (auto simp: reads_member_def c_string_def)
  have name: "name = DQUOTE # escape s @ [DQUOTE]"
    using m s by (simp add: member_text_def print_string_ptr_text)
  let ?body = "name @ COLON # (if fmt then [TAB] else []) @ tx @ ?tail"
  have eq: "LBRACE # newline fmt @ object_entries fmt (d + 1) (map member_text xs) @ tabs fmt d @ RBRACE # rest =
      LBRACE # (newline fmt @ tabs fmt (d + 1)) @ ?body"
    using object_entries_tail [of fmt d name tx "map member_text ys" rest]
    by (simp add: x m del: object_entries.simps)
  have "skip ((newline fmt @ tabs fmt (d + 1)) @ ?body) = ?body"
    by (subst skip_blanks) (auto simp: list_all_iff name)
  moreover have "parse_member D pv (skip ?body) = Parsed t ?tail"
    using parse_member_reads [of D pv t tx name "[]" fmt d "map member_text ys" rest] xs x m by simp
  moreover have "object_loop D pv n [t] (skip ?tail) = Parsed ([t] @ map fst ys) rest"
    by (rule object_loop_reads) (use xs x n in auto)
  moreover have "\<not> points_to ?body RBRACE" by (simp add: name)
  ultimately show ?thesis unfolding x [symmetric]
    by (subst eq, simp only: parse_object_def points_to_Cons list.sel Let_def bind_parsed.simps if_False not_True_eq_False)
      (simp add: set_children_fresh [OF item] x)
qed

subsection \<open>Values\<close>

lemma parse_value_start:
  "parse_value D (Suc n) item (DQUOTE # v) = bind_parsed (parse_string (DQUOTE # v)) (\<lambda>s rest. Parsed (set_string s item) rest)"
  "parse_value D (Suc n) item (LBRACKET # v) = parse_array D (parse_value D n) n item (LBRACKET # v)"
  "parse_value D (Suc n) item (LBRACE # v) = parse_object D (parse_value D n) n item (LBRACE # v)"
  "c = MINUS \<or> is_digit c \<Longrightarrow> parse_value D (Suc n) item (c # v) = parse_number D item (c # v)"
  by (auto simp: is_digit_def)

lemma show_int_head: "\<exists>c s. show_int i = c # s \<and> (c = MINUS \<or> is_digit c)"
proof (cases "i < 0")
  case False
  then show ?thesis using decimal_digits [of "nat i"] by (cases "decimal (nat i)") (auto simp: show_int_def)
qed (simp add: show_int_def)

lemma digit_range: "is_digit c \<Longrightarrow> \<not> c \<le> 32 \<and> c \<noteq> RBRACKET"
  by (auto simp: is_digit_def word_le_nat_alt)

lemma set_fresh:
  assumes "fresh_item D item"
  shows "set_type k item = Item k None 0 (dlit D 0) (item_name item) []"
    and "set_string s item = Item cJSON_String (Some s) 0 (dlit D 0) (item_name item) []"
    and "set_number d i item = Item cJSON_Number None i d (item_name item) []"
    and "set_true item = Item cJSON_True None 1 (dlit D 0) (item_name item) []"
  using assms by (cases item; simp add: fresh_item_def)+

lemma well_formed_fields:
  assumes "well_formed D (Item k vs vi vd nm cs)"
  shows "k \<noteq> cJSON_Array \<Longrightarrow> k \<noteq> cJSON_Object \<Longrightarrow> cs = []"
    and "k \<noteq> cJSON_String \<Longrightarrow> vs = None"
    and "k \<noteq> cJSON_Number \<Longrightarrow> vi = (if k = cJSON_True then 1 else 0) \<and> vd = dlit D 0"
    and "k = cJSON_String \<Longrightarrow> \<exists>s. vs = Some s \<and> 0 \<notin> set s"
  using assms by (auto simp: c_string_def split: option.splits)

lemma parse_value_reads:
  "exact_integers D \<Longrightarrow> well_formed D t \<Longrightarrow> integral D t \<Longrightarrow> length (json_text D fmt depth t) \<le> n \<Longrightarrow>
    reads D (parse_value D (Suc n)) t (json_text D fmt depth t)"
proof (induction D fmt depth t arbitrary: n rule: json_text.induct)
  case (1 D fmt depth k vs vi vd nm cs)
  note D = "1.prems"(1) and fields = well_formed_fields [OF "1.prems"(2)]
  show ?case
  proof (cases k)
    case cJSON_Number
    have vd: "vd = dlit D (of_int vi)" and vi: "INT_MIN \<le> vi" "vi \<le> INT_MAX"
      using "1.prems"(3) cJSON_Number by simp_all
    have tx: "json_text D fmt depth (Item k vs vi vd nm cs) = show_int vi"
      unfolding vd using cJSON_Number print_exact_int [OF D vi] by simp
    obtain c s where c: "show_int vi = c # s" "c = MINUS \<or> is_digit c" using show_int_head by blast
    have "parse_value D (Suc n) item (show_int vi @ rest) = Parsed (Item k vs vi vd (item_name item) cs) rest"
      if "fresh_item D item" "ends_number rest" for item rest
    proof -
      have "parse_value D (Suc n) item (show_int vi @ rest) = parse_number D item (show_int vi @ rest)"
        unfolding c(1) append_Cons by (rule parse_value_start(4)) (rule c(2))
      also have "\<dots> = Parsed (set_number (dlit D (of_int vi)) vi item) rest"
        by (rule parse_show_int [OF D vi that(2)])
      also have "\<dots> = Parsed (Item k vs vi vd (item_name item) cs) rest"
        using fields(1,2) cJSON_Number vd by (simp add: set_fresh [OF that(1)])
      finally show ?thesis .
    qed
    moreover have "\<not> c \<le> 32 \<and> c \<noteq> RBRACKET" using c(2) digit_range by auto
    ultimately show ?thesis unfolding tx using c(1) by (simp add: reads_def del: parse_value.simps)
  next
    case cJSON_String
    then obtain s where s: "vs = Some s" "0 \<notin> set s" using fields(4) by blast
    have tx: "json_text D fmt depth (Item k vs vi vd nm cs) = DQUOTE # escape s @ [DQUOTE]"
      using cJSON_String s by (simp add: print_string_ptr_text)
    have "parse_value D (Suc n) item ((DQUOTE # escape s @ [DQUOTE]) @ rest) = Parsed (Item k vs vi vd (item_name item) cs) rest"
      if "fresh_item D item" "ends_number rest" for item rest
      using parse_escape [OF s(2), of rest] fields(1,3) cJSON_String s
      by (simp add: parse_value_start set_fresh [OF that(1)] del: parse_value.simps)
    then show ?thesis unfolding tx by (simp add: reads_def)
  next
    case cJSON_Array
    let ?xs = "map (\<lambda>c. (c, json_text D fmt (depth + 1) c)) cs"
    have tx: "json_text D fmt depth (Item k vs vi vd nm cs) = LBRACKET # array_entries fmt (map snd ?xs) @ [RBRACKET]"
      using cJSON_Array by (simp add: comp_def)
    obtain m where m: "n = Suc m" "length (array_entries fmt (map snd ?xs)) \<le> m"
      using "1.prems"(4) unfolding tx by (cases n) auto
    have "reads D (parse_value D n) c (json_text D fmt (depth + 1) c) \<and> item_name c = None" if "c \<in> set cs" for c
    proof -
      have "length (json_text D fmt (depth + 1) c) \<le> m"
        using length_entry [of "json_text D fmt (depth + 1) c" "map snd ?xs" fmt] m(2) that by fastforce
      then show ?thesis
        using 1 cJSON_Array that m(1) by (fastforce split: option.splits)
    qed
    then have xs: "list_all (\<lambda>(t, tx). reads D (parse_value D n) t tx \<and> item_name t = None) ?xs"
      by (simp add: list_all_iff)
    have "length ?xs \<le> n"
    proof (cases cs)
      case (Cons c cs')
      then show ?thesis
        using m length_more_entries [of "map snd (tl ?xs)" fmt] by (simp add: array_entries_more comp_def)
    qed simp
    from parse_array_reads [OF xs this] show ?thesis unfolding tx
      using fields(2,3) cJSON_Array
      by (simp add: reads_def parse_value_start(2) comp_def m(1) del: parse_value.simps)
  next
    case cJSON_Object
    show ?thesis
    proof (cases "cs = []")
      case True
      have "skip ((newline fmt @ tabs fmt depth) @ RBRACE # rest) = RBRACE # rest" for rest
        by (subst skip_blanks) (auto simp: list_all_iff)
      from this [unfolded append_assoc] show ?thesis using fields(2,3) cJSON_Object True
        by (cases fmt) (simp_all add: reads_def empty_object_def parse_value_start(3) parse_object_def Let_def set_fresh
          del: parse_value.simps)
    next
      case False
      let ?xs = "map (\<lambda>c. (c, json_text D fmt (depth + 1) c)) cs"
      have tx: "json_text D fmt depth (Item k vs vi vd nm cs) =
          LBRACE # newline fmt @ object_entries fmt (depth + 1) (map member_text ?xs) @ tabs fmt depth @ [RBRACE]"
        using cJSON_Object False by (simp add: comp_def member_text_def)
      obtain m where m: "n = Suc m" "length (object_entries fmt (depth + 1) (map member_text ?xs)) \<le> m"
        using "1.prems"(4) unfolding tx by (cases n) auto
      have "reads_member D (parse_value D n) (c, json_text D fmt (depth + 1) c)" if "c \<in> set cs" for c
      proof -
        have "length (json_text D fmt (depth + 1) c) \<le> m"
          using length_object_member [of "snd (print_string_ptr (item_name c))" "json_text D fmt (depth + 1) c"
              "map member_text ?xs" fmt "depth + 1"] m(2) that by (fastforce simp: member_text_def)
        then show ?thesis
          using 1 cJSON_Object that False m(1) by (fastforce simp: reads_member_def split: option.splits)
      qed
      then have xs: "list_all (reads_member D (parse_value D n)) ?xs"
        by (simp add: list_all_iff)
      have "length ?xs \<le> n"
        using m length_object_members [of "map member_text ?xs" fmt "depth + 1"] by simp
      from parse_object_reads [OF xs this] show ?thesis unfolding tx
        using fields(2,3) cJSON_Object False
        by (simp add: reads_def parse_value_start(3) comp_def m(1) del: parse_value.simps)
    qed
  qed (use "1.prems" in \<open>auto simp: reads_def set_fresh split: option.splits\<close>)
qed

text \<open>What is printed can be printed: the digits fit the blocks \<open>print_number\<close> asks for.\<close>

lemma length_decimal: "n < 10 ^ k \<Longrightarrow> 0 < k \<Longrightarrow> length (decimal n) \<le> k"
proof (induction n arbitrary: k rule: decimal.induct)
  case (1 n)
  show ?case
  proof (cases "n < 10")
    case False
    obtain j where j: "k = Suc j" using "1.prems"(2) by (cases k) auto
    have "0 < j" using False "1.prems"(1) j by (cases j) auto
    note j = j this
    then have "length (decimal (n div 10)) \<le> j" using 1 False by (auto simp: less_mult_imp_div_less mult.commute)
    then show ?thesis using False j by (simp add: decimal.simps [of n])
  qed (use "1.prems" in \<open>simp add: decimal.simps [of n]\<close>)
qed

lemma integral_printable:
  "exact_integers D \<Longrightarrow> well_formed D t \<Longrightarrow> integral D t \<Longrightarrow> printable D t"
proof (induction D t rule: printable.induct)
  case (1 D k vs vi vd nm cs)
  note D = "1.prems"(1)
  have "text_fits (print_number D (Item k vs vi vd nm cs))" if k: "k = cJSON_Number"
  proof -
    have vd: "vd = dlit D (of_int vi)" and vi: "INT_MIN \<le> vi" "vi \<le> INT_MAX" using 1 k by simp_all
    have "nat \<bar>vi\<bar> < 10 ^ 10" using vi by (simp add: INT_MIN_def INT_MAX_def)
    from length_decimal [OF this] have len: "length (show_int vi) \<le> 11" by (auto simp: show_int_def)
    have "c_string (decimal n)" for n
      using decimal_digits [of n] by (auto simp: c_string_def list_all_iff is_digit_def)
    then have c: "c_string (show_int vi)" by (simp add: show_int_def)
    have need: "fst (print_number D (Item k vs vi vd nm cs)) = 2 \<and> show_int vi = [ZERO] \<or>
        fst (print_number D (Item k vs vi vd nm cs)) = 21"
      using print_exact_int_size [OF D vi] vd by simp
    have tx: "snd (print_number D (Item k vs vi vd nm cs)) = show_int vi"
      using print_exact_int [OF D vi] vd by simp
    show ?thesis using need tx len c by (cases "print_number D (Item k vs vi vd nm cs)") (auto simp: text_fits_def)
  qed
  moreover have "printable D c \<and> c_string_option (item_name c)" if "c \<in> set cs" for c
    using 1 that by (fastforce simp: c_string_option_def split: option.splits)
  moreover have "k \<noteq> Invalid" "c_string_option vs" using "1.prems"(2) by (auto simp: c_string_option_def split: option.splits)
  ultimately show ?case by simp
qed

lemma print_parse:
  assumes "exact_integers D" and "well_formed D t" and "integral D t" and "item_name t = None"
  shows "print_value D fmt 0 t = Inr (Some (json_text D fmt 0 t))" and "c_string (json_text D fmt 0 t)"
    and "cJSON_Parse D (json_text D fmt 0 t) = Inr (Some t, None)"
proof -
  let ?s = "json_text D fmt 0 t"
  note ok = integral_printable [OF assms(1-3)]
  show "print_value D fmt 0 t = Inr (Some ?s)" by (rule print_value_ok [OF ok])
  show "c_string ?s" using print_value_prints [OF length_replicate order_refl ok] by (simp add: prints_def)
  have r: "reads D (parse_value D (Suc (length ?s))) t ?s"
    by (rule parse_value_reads [OF assms(1-3) order_refl])
  have "parse_value D (Suc (length ?s)) (cJSON_New_Item D) ?s = Parsed t []"
    using readsD [OF r fresh_New_Item(1), of "[]"] with_name_same [of t] assms(4)
    by (simp add: ends_number_def fresh_New_Item del: parse_value.simps)
  moreover have "skip ?s = ?s" using reads_skip [OF r, of "[]" "[]"] by simp
  ultimately show "cJSON_Parse D ?s = Inr (Some t, None)"
    by (simp add: cJSON_Parse_def cJSON_ParseWithOpts_def enough_fuel_def del: parse_value.simps)
qed

section \<open>Properties\<close>

text \<open>
  C18: parsing undoes printing. An item as the parser builds it whose numbers are integers within
  \<open>int\<close> is printed to a text, formatted or not, from which \<open>cJSON_Parse\<close> rebuilds exactly the item, with
  every string, name, number and the order of all children, in any arithmetic that is exact on
  integers.
\<close>

theorem parse_print_roundtrip:
  assumes "exact_integers D" and "well_formed D t" and "integral D t" and "item_name t = None"
  shows "\<exists>s. (if fmt then cJSON_Print D t else cJSON_PrintUnformatted D t) = Inr (Some s) \<and>
    c_string s \<and> cJSON_Parse D s = Inr (Some t, None)"
  using print_parse [OF assms, of fmt] by (cases fmt) (auto simp: cJSON_Print_def cJSON_PrintUnformatted_def)

lemma parse_print_roundtrip_witness:
  "\<exists>s. cJSON_Print exact_doubles demo_item = Inr (Some s) \<and> c_string s \<and>
    cJSON_Parse exact_doubles s = Inr (Some demo_item, None)"
proof -
  have "well_formed exact_doubles demo_item" by code_simp
  moreover have "integral exact_doubles demo_item" by code_simp
  moreover have "item_name demo_item = None" by code_simp
  ultimately show ?thesis
    using parse_print_roundtrip [OF exact_doubles_exact, of demo_item True] by simp
qed

end
