(* ===== verification/CJson_Minify.thy ===== *)
theory CJson_Minify
  imports CJson_Roundtrip
begin

text \<open>
  \<open>cJSON_Minify\<close>, which strips blanks and comments from a text in place, and its effect on printed texts.
\<close>

section \<open>Minifying a text in place\<close>

abbreviation CR :: byte where "CR \<equiv> 13"
abbreviation STAR :: byte where "STAR \<equiv> 42"

text \<open>
  The loops of \<open>cJSON_Minify\<close> on the text before the NUL; what is left of it, or nothing when the loop steps over
  the NUL.
\<close>

fun skip_line :: "byte list \<Rightarrow> byte list" where
  "skip_line [] = []"
| "skip_line (c # json) = (if c \<noteq> NEWLINE then skip_line json else c # json)"

fun skip_comment :: "byte list \<Rightarrow> byte list option" where
  "skip_comment [] = None"
| "skip_comment (c # json) = (if c = STAR \<and> points_to json SLASH then Some (tl json) else skip_comment json)"

fun copy_literal :: "byte list \<Rightarrow> (byte list \<times> byte list) option" where
  "copy_literal [] = None"
| "copy_literal (c # json) =
     (if c = DQUOTE then Some ([c], json)
      else if c = BACKSLASH then
        (case json of
           [] \<Rightarrow> None
         | d # json \<Rightarrow> map_option (\<lambda>(out, rest). (c # d # out, rest)) (copy_literal json))
      else map_option (\<lambda>(out, rest). (c # out, rest)) (copy_literal json))"

lemma length_skip_line: "length (skip_line json) \<le> length json"
  by (induction json) auto

lemma length_skip_comment: "skip_comment json = Some rest \<Longrightarrow> length rest < length json"
  by (induction json) (auto simp: points_to_def split: if_splits)

lemma length_copy_literal: "copy_literal json = Some (out, rest) \<Longrightarrow> length out + length rest = length json"
  by (induction json arbitrary: out rest rule: copy_literal.induct) (auto split: if_splits list.splits)

text \<open>\<open>into\<close> never gets ahead of \<open>json\<close>, so that working in place and into a new list are the same.\<close>

function cJSON_Minify :: "byte list \<Rightarrow> fault + byte list" where
  "cJSON_Minify [] = Inr []"
| "cJSON_Minify (c # json) =
     (if c = BLANK \<or> c = TAB \<or> c = CR \<or> c = NEWLINE then cJSON_Minify json
      else if c = SLASH \<and> points_to json SLASH then cJSON_Minify (skip_line json)
      else if c = SLASH \<and> points_to json STAR then
        (case skip_comment json of None \<Rightarrow> Inl Undefined | Some rest \<Rightarrow> cJSON_Minify rest)
      else if c = DQUOTE then
        (case copy_literal json of
           None \<Rightarrow> Inl Undefined
         | Some (out, rest) \<Rightarrow> bind_res (cJSON_Minify rest) (\<lambda>s. Inr (c # out @ s)))
      else bind_res (cJSON_Minify json) (\<lambda>s. Inr (c # s)))"
  by pat_completeness auto
termination
proof (relation "measure length")
  show "(skip_line json, c # json) \<in> measure length" for json and c :: byte
    using length_skip_line [of json] by simp
next
  show "(x2, c # json) \<in> measure length" if "skip_comment json = Some x2" for json and c :: byte and x2
    using length_skip_comment [OF that] by simp
next
  show "(xb, c # json) \<in> measure length" if "copy_literal json = Some x2" "(x, xb) = x2" for json and c :: byte and x2 x xb
    using length_copy_literal [of json x xb] that by simp
qed simp_all

declare cJSON_Minify.simps(2) [simp del]

lemma Minify_length: "cJSON_Minify json = Inr s \<Longrightarrow> length s \<le> length json"
proof (induction json arbitrary: s rule: cJSON_Minify.induct)
  case (2 c json)
  note unfold = cJSON_Minify.simps(2) [of c json]
  consider (blank) "c = BLANK \<or> c = TAB \<or> c = CR \<or> c = NEWLINE"
    | (line) "\<not> (c = BLANK \<or> c = TAB \<or> c = CR \<or> c = NEWLINE)" "c = SLASH \<and> points_to json SLASH"
    | (comment) "\<not> (c = BLANK \<or> c = TAB \<or> c = CR \<or> c = NEWLINE)" "\<not> (c = SLASH \<and> points_to json SLASH)"
        "c = SLASH \<and> points_to json STAR"
    | (literal) "\<not> (c = BLANK \<or> c = TAB \<or> c = CR \<or> c = NEWLINE)" "\<not> (c = SLASH \<and> points_to json SLASH)"
        "\<not> (c = SLASH \<and> points_to json STAR)" "c = DQUOTE"
    | (other) "\<not> (c = BLANK \<or> c = TAB \<or> c = CR \<or> c = NEWLINE)" "\<not> (c = SLASH \<and> points_to json SLASH)"
        "\<not> (c = SLASH \<and> points_to json STAR)" "c \<noteq> DQUOTE"
    by blast
  then show ?case
  proof cases
    case blank
    then show ?thesis using "2.IH"(1) "2.prems" unfolding unfold by fastforce
  next
    case line
    then have "cJSON_Minify (skip_line json) = Inr s" using "2.prems" unfolding unfold by simp
    from "2.IH"(2) [OF line this] show ?thesis using length_skip_line [of json] by simp
  next
    case comment
    then obtain rest where "skip_comment json = Some rest" "cJSON_Minify rest = Inr s"
      using "2.prems" unfolding unfold by (auto split: option.splits)
    then show ?thesis using "2.IH"(3) [OF comment] length_skip_comment [of json rest] by fastforce
  next
    case literal
    then obtain out rest s' where "copy_literal json = Some (out, rest)" "cJSON_Minify rest = Inr s'" "s = c # out @ s'"
      using "2.prems" unfolding unfold by (auto simp: fault_simps split: option.splits)
    then show ?thesis using "2.IH"(4) [OF literal] length_copy_literal [of json out rest] by fastforce
  next
    case other
    then obtain s' where "cJSON_Minify json = Inr s'" "s = c # s'"
      using "2.prems" unfolding unfold by (auto simp: fault_simps)
    then show ?thesis using "2.IH"(5) [OF other] by fastforce
  qed
qed simp

section \<open>Printed texts\<close>

text \<open>\<open>minifies a b\<close>: in front of any text, \<open>a\<close> is replaced by \<open>b\<close>.\<close>

definition minifies :: "byte list \<Rightarrow> byte list \<Rightarrow> bool" where
  "minifies a b \<longleftrightarrow> (\<forall>rest. cJSON_Minify (a @ rest) = bind_res (cJSON_Minify rest) (\<lambda>s. Inr (b @ s)))"

lemma minifies_Nil [intro]: "minifies [] []"
  by (simp add: minifies_def) (metis bind_res.simps sum.exhaust)

lemma minifies_append [intro]: "minifies a b \<Longrightarrow> minifies a' b' \<Longrightarrow> minifies (a @ a') (b @ b')"
  by (simp add: minifies_def bind_res_assoc)

lemma minifies_Cons: "minifies [c] b \<Longrightarrow> minifies a' b' \<Longrightarrow> minifies (c # a') (b @ b')"
  using minifies_append [of "[c]" b a' b'] by simp

lemma minifies_blank:
  assumes "list_all (\<lambda>c. c \<in> {BLANK, TAB, CR, NEWLINE}) ws"
  shows "minifies ws []"
  using assms
proof (induction ws)
  case (Cons c ws)
  have "minifies [c] []"
    unfolding minifies_def
  proof
    fix rest
    show "cJSON_Minify ([c] @ rest) = bind_res (cJSON_Minify rest) (\<lambda>s. Inr ([] @ s))"
      using Cons.prems by (cases "cJSON_Minify rest") (auto simp: cJSON_Minify.simps(2))
  qed
  from minifies_Cons [OF this Cons.IH] Cons.prems show ?case by simp
qed auto

definition plain_byte :: "byte \<Rightarrow> bool" where
  "plain_byte c \<longleftrightarrow> c \<notin> {BLANK, TAB, CR, NEWLINE, SLASH, DQUOTE}"

lemma minifies_plain: "list_all plain_byte s \<Longrightarrow> minifies s s"
proof (induction s)
  case (Cons c s)
  have "minifies [c] [c]" using Cons.prems by (auto simp: minifies_def plain_byte_def cJSON_Minify.simps(2))
  from minifies_Cons [OF this Cons.IH] Cons.prems show ?case by simp
qed auto

lemma copy_plain: "DQUOTE \<notin> set xs \<Longrightarrow> BACKSLASH \<notin> set xs \<Longrightarrow>
    copy_literal (xs @ rest) = map_option (\<lambda>(out, r). (xs @ out, r)) (copy_literal rest)"
proof (induction xs)
  case Nil
  then show ?case by (cases "copy_literal rest") auto
next
  case (Cons x xs)
  then show ?case by (cases "copy_literal rest") auto
qed

lemma copy_escape_char:
  assumes "c \<noteq> 0"
  shows "copy_literal (escape_char c @ rest) = map_option (\<lambda>(out, r). (escape_char c @ out, r)) (copy_literal rest)"
  using assms
proof (cases c rule: escape_char_cases)
  case unicode
  obtain xs where xs: "u04x c = LETTER_U # xs" by (simp add: u04x_def)
  then have "DQUOTE \<notin> set xs" "BACKSLASH \<notin> set xs" using u04x_escape(4,5) [OF unicode(2) assms] by simp_all
  then have "copy_literal (xs @ rest) = map_option (\<lambda>(out, r). (xs @ out, r)) (copy_literal rest)" by (rule copy_plain)
  then show ?thesis using unicode(1) xs by (cases "copy_literal rest") auto
qed (cases "copy_literal rest"; auto)+

lemma copy_escape: "0 \<notin> set s \<Longrightarrow> copy_literal (escape s @ DQUOTE # rest) = Some (escape s @ [DQUOTE], rest)"
  by (induction s) (auto simp: copy_escape_char)

lemma minifies_literal: "c_string_option s \<Longrightarrow> minifies (snd (print_string_ptr s)) (snd (print_string_ptr s))"
proof (cases s)
  case None
  have "copy_literal (DQUOTE # rest) = Some ([DQUOTE], rest)" for rest by simp
  then show ?thesis using None by (simp add: minifies_def print_string_ptr_def cJSON_Minify.simps(2))
next
  case (Some t)
  assume "c_string_option s"
  then have t: "0 \<notin> set t" using Some by (simp add: c_string_option_def c_string_def)
  show ?thesis using copy_escape [OF t]
    by (simp add: Some minifies_def print_string_ptr_text [OF t] cJSON_Minify.simps(2))
qed

text \<open>Items all of whose numbers are written without blanks, slashes and quotes.\<close>

fun plain_numbers :: "'d doubles \<Rightarrow> 'd cJSON \<Rightarrow> bool" where
  "plain_numbers D (Item k vs vi vd nm cs) \<longleftrightarrow>
     (k = cJSON_Number \<longrightarrow> list_all plain_byte (snd (print_number D (Item k vs vi vd nm cs)))) \<and>
     (\<forall>c \<in> set cs. plain_numbers D c)"

lemma minifies_array_entries:
  "list_all2 minifies es fs \<Longrightarrow> minifies (array_entries True es) (array_entries False fs)"
proof (induction es fs rule: list_all2_induct)
  case (Cons e es f fs)
  have blank: "minifies [COMMA, BLANK] [COMMA]"
    using minifies_append [OF minifies_plain [of "[COMMA]"] minifies_blank [of "[BLANK]"]] by (simp add: plain_byte_def)
  show ?case
  proof (cases es)
    case Nil
    then show ?thesis using Cons by auto
  next
    case (Cons e' es')
    then obtain f' fs' where fs: "fs = f' # fs'" using \<open>list_all2 minifies es fs\<close> by (cases fs) auto
    have "minifies (e @ [COMMA, BLANK] @ array_entries True es) (f @ [COMMA] @ array_entries False fs)"
      using Cons.hyps Cons.IH blank by blast
    then show ?thesis using Cons fs by simp
  qed
qed auto

lemma minifies_object_entry:
  assumes "minifies name name" and "minifies e f"
  shows "minifies (object_entry True d is_last (name, e)) (object_entry False d' is_last (name, f))"
proof -
  have "minifies (replicate d TAB) []" by (rule minifies_blank) (simp add: list_all_iff)
  moreover have "minifies [COLON, TAB] [COLON]"
    using minifies_append [OF minifies_plain [of "[COLON]"] minifies_blank [of "[TAB]"]] by (simp add: plain_byte_def)
  moreover have "minifies ((if is_last then [] else [COMMA]) @ [NEWLINE]) ((if is_last then [] else [COMMA]) @ [])"
    by (intro minifies_append minifies_plain minifies_blank) (auto simp: plain_byte_def)
  ultimately have "minifies (replicate d TAB @ name @ [COLON, TAB] @ e @ (if is_last then [] else [COMMA]) @ [NEWLINE])
      ([] @ name @ [COLON] @ f @ (if is_last then [] else [COMMA]) @ [])"
    using assms by (intro minifies_append [of _ "[]" _ "name @ _"] minifies_append [of name name] minifies_append [of "[COLON, TAB]"]
      minifies_append [of e f])
  then show ?thesis by (simp add: object_entry_def)
qed

lemma minifies_object_entries:
  "list_all2 (\<lambda>(n, e) (m, f). n = m \<and> minifies n n \<and> minifies e f) xs ys \<Longrightarrow>
    minifies (object_entries True d xs) (object_entries False d' ys)"
proof (induction xs ys rule: list_all2_induct)
  case (Cons x xs y ys)
  have last: "xs = [] \<longleftrightarrow> ys = []" using Cons.hyps(2) by auto
  obtain n e f where "x = (n, e)" "y = (n, f)" "minifies n n" "minifies e f" using Cons.hyps(1) by auto
  then show ?case
    using minifies_append [OF minifies_object_entry Cons.IH, of n e f d "xs = []" d'] by (simp add: last)
qed auto

lemma minifies_json_text:
  "printable D t \<Longrightarrow> plain_numbers D t \<Longrightarrow> minifies (json_text D True d t) (json_text D False d' t)"
proof (induction D "True" d t arbitrary: d' rule: json_text.induct)
  case (1 D d k vs vi vd nm cs)
  have kids: "minifies (json_text D True (d + 1) c) (json_text D False (d' + 1) c)"
    if "c \<in> set cs" "k = cJSON_Array \<or> k = cJSON_Object" for c
  proof -
    have "cs \<noteq> []" using that(1) by auto
    then show ?thesis using 1 that by auto
  qed
  show ?case
  proof (cases k)
    case cJSON_Array
    have "list_all2 minifies (map (json_text D True (d + 1)) cs) (map (json_text D False (d' + 1)) cs)"
      using kids cJSON_Array by (auto simp: list.rel_map list_all2_same)
    then have "minifies ([LBRACKET] @ array_entries True (map (json_text D True (d + 1)) cs) @ [RBRACKET])
        ([LBRACKET] @ array_entries False (map (json_text D False (d' + 1)) cs) @ [RBRACKET])"
      by (intro minifies_append minifies_array_entries minifies_plain) (simp_all add: plain_byte_def)
    then show ?thesis using cJSON_Array by simp
  next
    case cJSON_Object
    show ?thesis
    proof (cases "cs = []")
      case True
      have "minifies ([LBRACE] @ (NEWLINE # replicate d TAB) @ [RBRACE]) ([LBRACE] @ [] @ [RBRACE])"
        by (intro minifies_append minifies_plain minifies_blank) (simp_all add: plain_byte_def list_all_iff)
      then show ?thesis using cJSON_Object True by (simp add: empty_object_def)
    next
      case False
      let ?xs = "\<lambda>fmt d. map (\<lambda>c. (snd (print_string_ptr (item_name c)), json_text D fmt (d + 1) c)) cs"
      have "list_all2 (\<lambda>(n, e) (m, f). n = m \<and> minifies n n \<and> minifies e f) (?xs True d) (?xs False d')"
        using kids cJSON_Object False "1.prems"(1) by (auto simp: list.rel_map list_all2_same minifies_literal)
      then have "minifies ([LBRACE] @ [NEWLINE] @ object_entries True (d + 1) (?xs True d) @ replicate d TAB @ [RBRACE])
          ([LBRACE] @ [] @ object_entries False (d' + 1) (?xs False d') @ [] @ [RBRACE])"
        by (intro minifies_append minifies_object_entries minifies_plain minifies_blank)
          (simp_all add: plain_byte_def list_all_iff)
      then show ?thesis using cJSON_Object False by simp
    qed
  next
    case cJSON_Number
    then show ?thesis using "1.prems" by (simp add: minifies_plain)
  next
    case cJSON_String
    then show ?thesis using "1.prems" by (simp add: minifies_literal)
  qed (use "1.prems" in \<open>simp_all add: minifies_plain plain_byte_def\<close>)
qed

section \<open>Properties\<close>

text \<open>
  C25: \<open>cJSON_Minify\<close> turns the formatted text of an item into its unformatted text: it removes
  exactly the blanks, tabs and ends of line that formatting added and nothing of any string,
  whatever quotes, backslashes, slashes and blanks the string has.
\<close>

theorem minify_unformats:
  assumes "printable D t" and "plain_numbers D t"
  shows "\<exists>s u. cJSON_Print D t = Inr (Some s) \<and> cJSON_PrintUnformatted D t = Inr (Some u) \<and>
    cJSON_Minify s = Inr u \<and> length u \<le> length s"
proof -
  have "cJSON_Minify (json_text D True 0 t @ []) = Inr (json_text D False 0 t)"
    using minifies_json_text [OF assms, of 0 0, unfolded minifies_def, rule_format, of "[]"] by simp
  then show ?thesis using Minify_length
    by (simp add: cJSON_Print_def cJSON_PrintUnformatted_def print_value_ok [OF assms(1)])
qed

definition spaced_item :: "rat cJSON" where
  "spaced_item = Item cJSON_Object None 0 0 None
     [Item cJSON_String (Some [SLASH, SLASH, BLANK, DQUOTE, BACKSLASH, NEWLINE]) 0 0 (Some [SLASH, STAR, BLANK]) [],
      Item cJSON_Array None 0 0 (Some [98]) [Item cJSON_Number None 7 7 None [], Item cJSON_NULL None 0 0 None []]]"

lemma minify_unformats_witness:
  "\<exists>s u. cJSON_Print exact_doubles spaced_item = Inr (Some s) \<and>
    cJSON_PrintUnformatted exact_doubles spaced_item = Inr (Some u) \<and> cJSON_Minify s = Inr u \<and> length u \<le> length s"
proof -
  have "printable exact_doubles spaced_item" by code_simp
  moreover have "plain_numbers exact_doubles spaced_item" by code_simp
  ultimately show ?thesis by (rule minify_unformats)
qed

text \<open>
  Texts that end within a literal or a comment lead it past the terminating NUL.
\<close>

lemma minify_overruns:
  "cJSON_Minify [DQUOTE, 97] = Inl Undefined" "cJSON_Minify [DQUOTE, BACKSLASH] = Inl Undefined"
  "cJSON_Minify [SLASH, STAR, STAR] = Inl Undefined"
  by (simp_all add: cJSON_Minify.simps(2) points_to_def)

end
