(* ===== verification/CJson_Heap.thy ===== *)
theory CJson_Heap
  imports CJson_Parse
begin

text \<open>
  The items of \<open>cJSON.c\<close> as the linked structs they are. A heap holds the nodes and the allocated
  strings; every operation that follows a pointer to nothing, frees twice or frees a literal ends in
  \<open>Invalid_Access\<close>. Loops over \<open>next\<close> are bounded by the number of blocks ever allocated; on an endless chain they
  end in \<open>Endless\<close>. Allocation is taken to succeed.
\<close>

section \<open>Memory\<close>

datatype text_ref = Allocated nat | Literal "byte list"

record 'd node =
  next_item :: "nat option"
  prev_item :: "nat option"
  child_item :: "nat option"
  node_kind :: kind
  is_reference :: bool
  string_is_const :: bool
  node_valuestring :: "text_ref option"
  node_valueint :: int
  node_valuedouble :: 'd
  node_string :: "text_ref option"

record 'd heap =
  nodes :: "nat \<Rightarrow> 'd node option"
  texts :: "nat \<Rightarrow> byte list option"
  blocks :: nat

datatype mem_error = Invalid_Access | Endless | Undefined_Conversion

definition load :: "'d heap \<Rightarrow> nat option \<Rightarrow> mem_error + 'd node" where
  "load h p =
     (case p of
        None \<Rightarrow> Inl Invalid_Access
      | Some a \<Rightarrow> (case nodes h a of None \<Rightarrow> Inl Invalid_Access | Some n \<Rightarrow> Inr n))"

definition set_node :: "'d heap \<Rightarrow> nat \<Rightarrow> 'd node \<Rightarrow> 'd heap" where
  "set_node h a n = h\<lparr>nodes := (nodes h)(a \<mapsto> n)\<rparr>"

definition modify :: "'d heap \<Rightarrow> nat option \<Rightarrow> ('d node \<Rightarrow> 'd node) \<Rightarrow> mem_error + 'd heap" where
  "modify h p f = bind_res (load h p) (\<lambda>n. Inr (set_node h (the p) (f n)))"

definition read_text :: "'d heap \<Rightarrow> text_ref \<Rightarrow> mem_error + byte list" where
  "read_text h r =
     (case r of
        Literal s \<Rightarrow> Inr s
      | Allocated a \<Rightarrow> (case texts h a of None \<Rightarrow> Inl Invalid_Access | Some s \<Rightarrow> Inr s))"

definition read_text_opt :: "'d heap \<Rightarrow> text_ref option \<Rightarrow> mem_error + byte list option" where
  "read_text_opt h r =
     (case r of None \<Rightarrow> Inr None | Some r \<Rightarrow> bind_res (read_text h r) (\<lambda>s. Inr (Some s)))"

definition free_text :: "'d heap \<Rightarrow> text_ref option \<Rightarrow> mem_error + 'd heap" where
  "free_text h r =
     (case r of
        None \<Rightarrow> Inr h
      | Some (Literal s) \<Rightarrow> Inl Invalid_Access
      | Some (Allocated a) \<Rightarrow>
          (case texts h a of None \<Rightarrow> Inl Invalid_Access | Some s \<Rightarrow> Inr (h\<lparr>texts := (texts h)(a := None)\<rparr>)))"

definition free_node :: "'d heap \<Rightarrow> nat \<Rightarrow> mem_error + 'd heap" where
  "free_node h a =
     (case nodes h a of None \<Rightarrow> Inl Invalid_Access | Some n \<Rightarrow> Inr (h\<lparr>nodes := (nodes h)(a := None)\<rparr>))"

definition cJSON_strdup :: "'d heap \<Rightarrow> text_ref \<Rightarrow> mem_error + text_ref \<times> 'd heap" where
  "cJSON_strdup h r =
     bind_res (read_text h r) (\<lambda>s.
     Inr (Allocated (blocks h), h\<lparr>texts := (texts h)(blocks h \<mapsto> s), blocks := blocks h + 1\<rparr>))"

definition zero_node :: "'d doubles \<Rightarrow> 'd node" where
  "zero_node D =
     \<lparr>next_item = None, prev_item = None, child_item = None, node_kind = Invalid, is_reference = False,
      string_is_const = False, node_valuestring = None, node_valueint = 0, node_valuedouble = dlit D 0,
      node_string = None\<rparr>"

definition new_node :: "'d heap \<Rightarrow> 'd node \<Rightarrow> nat \<times> 'd heap" where
  "new_node h n = (blocks h, h\<lparr>nodes := (nodes h)(blocks h \<mapsto> n), blocks := blocks h + 1\<rparr>)"

section \<open>Deleting\<close>

fun cJSON_Delete :: "nat \<Rightarrow> 'd heap \<Rightarrow> nat option \<Rightarrow> mem_error + 'd heap" where
  "cJSON_Delete n h None = Inr h"
| "cJSON_Delete 0 h (Some c) = Inl Endless"
| "cJSON_Delete (Suc n) h (Some c) =
     bind_res (load h (Some c)) (\<lambda>node.
     bind_res (if \<not> is_reference node then cJSON_Delete n h (child_item node) else Inr h) (\<lambda>h.
     bind_res (load h (Some c)) (\<lambda>node.
     bind_res (if \<not> is_reference node then free_text h (node_valuestring node) else Inr h) (\<lambda>h.
     bind_res (if \<not> string_is_const node then free_text h (node_string node) else Inr h) (\<lambda>h.
     bind_res (free_node h c) (\<lambda>h.
     cJSON_Delete n h (next_item node)))))))"

section \<open>Walking the children\<close>

fun count_items :: "nat \<Rightarrow> 'd heap \<Rightarrow> nat option \<Rightarrow> mem_error + nat" where
  "count_items n h None = Inr 0"
| "count_items 0 h (Some c) = Inl Endless"
| "count_items (Suc n) h (Some c) =
     bind_res (load h (Some c)) (\<lambda>node.
     bind_res (count_items n h (next_item node)) (\<lambda>i. Inr (i + 1)))"

definition cJSON_GetArraySize :: "'d heap \<Rightarrow> nat option \<Rightarrow> mem_error + nat" where
  "cJSON_GetArraySize h array =
     bind_res (load h array) (\<lambda>node. count_items (blocks h) h (child_item node))"

text \<open>\<open>while (c && which > 0)\<close>: a negative index is as good as 0.\<close>

fun nth_item :: "'d heap \<Rightarrow> nat option \<Rightarrow> nat \<Rightarrow> mem_error + nat option" where
  "nth_item h None k = Inr None"
| "nth_item h (Some c) 0 = Inr (Some c)"
| "nth_item h (Some c) (Suc k) = bind_res (load h (Some c)) (\<lambda>node. nth_item h (next_item node) k)"

definition cJSON_GetArrayItem :: "'d heap \<Rightarrow> nat option \<Rightarrow> int \<Rightarrow> mem_error + nat option" where
  "cJSON_GetArrayItem h array item =
     (if array = None then Inr None
      else bind_res (load h array) (\<lambda>node. nth_item h (child_item node) (nat item)))"

text \<open>\<open>while (c && cJSON_strcasecmp(c->string, string))\<close> with the number of steps.\<close>

fun find_item :: "nat \<Rightarrow> 'd heap \<Rightarrow> byte list \<Rightarrow> nat option \<Rightarrow> mem_error + nat \<times> nat option" where
  "find_item n h s None = Inr (0, None)"
| "find_item 0 h s (Some c) = Inl Endless"
| "find_item (Suc n) h s (Some c) =
     bind_res (load h (Some c)) (\<lambda>node.
     bind_res (read_text_opt h (node_string node)) (\<lambda>name.
     if cJSON_strcasecmp name (Some s) = 0 then Inr (0, Some c)
     else bind_res (find_item n h s (next_item node)) (\<lambda>(i, r). Inr (i + 1, r))))"

definition cJSON_GetObjectItem :: "'d heap \<Rightarrow> nat option \<Rightarrow> byte list \<Rightarrow> mem_error + nat option" where
  "cJSON_GetObjectItem h object s =
     (if object = None then Inr None
      else bind_res (load h object) (\<lambda>node.
        bind_res (find_item (blocks h) h s (child_item node)) (\<lambda>(_, c). Inr c)))"

definition cJSON_HasObjectItem :: "'d heap \<Rightarrow> nat option \<Rightarrow> byte list \<Rightarrow> mem_error + bool" where
  "cJSON_HasObjectItem h object s = bind_res (cJSON_GetObjectItem h object s) (\<lambda>c. Inr (c \<noteq> None))"

section \<open>Adding\<close>

definition suffix_object :: "'d heap \<Rightarrow> nat \<Rightarrow> nat \<Rightarrow> mem_error + 'd heap" where
  "suffix_object h prev item =
     bind_res (modify h (Some prev) (next_item_update (\<lambda>_. Some item))) (\<lambda>h.
     modify h (Some item) (prev_item_update (\<lambda>_. Some prev)))"

definition create_reference :: "'d heap \<Rightarrow> nat option \<Rightarrow> mem_error + nat \<times> 'd heap" where
  "create_reference h item =
     bind_res (load h item) (\<lambda>node.
     Inr (new_node h (node\<lparr>node_string := None, is_reference := True, next_item := None, prev_item := None\<rparr>)))"

fun last_item :: "nat \<Rightarrow> 'd heap \<Rightarrow> nat \<Rightarrow> mem_error + nat" where
  "last_item 0 h c = Inl Endless"
| "last_item (Suc n) h c =
     bind_res (load h (Some c)) (\<lambda>node.
     case next_item node of None \<Rightarrow> Inr c | Some d \<Rightarrow> last_item n h d)"

definition cJSON_AddItemToArray :: "'d heap \<Rightarrow> nat option \<Rightarrow> nat option \<Rightarrow> mem_error + 'd heap" where
  "cJSON_AddItemToArray h array item =
     bind_res (load h array) (\<lambda>node.
     case item of
       None \<Rightarrow> Inr h
     | Some i \<Rightarrow>
         (case child_item node of
            None \<Rightarrow> modify h array (child_item_update (\<lambda>_. Some i))
          | Some c \<Rightarrow> bind_res (last_item (blocks h) h c) (\<lambda>c. suffix_object h c i)))"

definition cJSON_AddItemToObject :: "'d heap \<Rightarrow> nat option \<Rightarrow> byte list \<Rightarrow> nat option \<Rightarrow> mem_error + 'd heap" where
  "cJSON_AddItemToObject h object s item =
     (if item = None then Inr h
      else
        bind_res (load h item) (\<lambda>node.
        bind_res (free_text h (node_string node)) (\<lambda>h.
        bind_res (cJSON_strdup h (Literal s)) (\<lambda>(key, h).
        bind_res (modify h item (node_string_update (\<lambda>_. Some key))) (\<lambda>h.
        cJSON_AddItemToArray h object item)))))"

definition cJSON_AddItemToObjectCS :: "'d heap \<Rightarrow> nat option \<Rightarrow> byte list \<Rightarrow> nat option \<Rightarrow> mem_error + 'd heap" where
  "cJSON_AddItemToObjectCS h object s item =
     (if item = None then Inr h
      else
        bind_res (load h item) (\<lambda>node.
        bind_res (if \<not> string_is_const node then free_text h (node_string node) else Inr h) (\<lambda>h.
        bind_res (modify h item (\<lambda>node. node\<lparr>node_string := Some (Literal s), string_is_const := True\<rparr>)) (\<lambda>h.
        cJSON_AddItemToArray h object item))))"

definition cJSON_AddItemReferenceToArray :: "'d heap \<Rightarrow> nat option \<Rightarrow> nat option \<Rightarrow> mem_error + 'd heap" where
  "cJSON_AddItemReferenceToArray h array item =
     bind_res (create_reference h item) (\<lambda>(ref, h). cJSON_AddItemToArray h array (Some ref))"

definition cJSON_AddItemReferenceToObject ::
  "'d heap \<Rightarrow> nat option \<Rightarrow> byte list \<Rightarrow> nat option \<Rightarrow> mem_error + 'd heap" where
  "cJSON_AddItemReferenceToObject h object s item =
     bind_res (create_reference h item) (\<lambda>(ref, h). cJSON_AddItemToObject h object s (Some ref))"

section \<open>Detaching, inserting and replacing\<close>

definition cJSON_DetachItemFromArray :: "'d heap \<Rightarrow> nat option \<Rightarrow> int \<Rightarrow> mem_error + nat option \<times> 'd heap" where
  "cJSON_DetachItemFromArray h array which =
     bind_res (load h array) (\<lambda>node.
     bind_res (nth_item h (child_item node) (nat which)) (\<lambda>c.
     if c = None then Inr (None, h)
     else
       bind_res (load h c) (\<lambda>node.
       bind_res (if prev_item node \<noteq> None
                 then modify h (prev_item node) (next_item_update (\<lambda>_. next_item node)) else Inr h) (\<lambda>h.
       bind_res (load h c) (\<lambda>node.
       bind_res (if next_item node \<noteq> None
                 then modify h (next_item node) (prev_item_update (\<lambda>_. prev_item node)) else Inr h) (\<lambda>h.
       bind_res (load h array) (\<lambda>arr.
       bind_res (load h c) (\<lambda>node.
       bind_res (if c = child_item arr then modify h array (child_item_update (\<lambda>_. next_item node)) else Inr h) (\<lambda>h.
       bind_res (modify h c (\<lambda>node. node\<lparr>prev_item := None, next_item := None\<rparr>)) (\<lambda>h.
       Inr (c, h)))))))))))"

definition cJSON_DeleteItemFromArray :: "'d heap \<Rightarrow> nat option \<Rightarrow> int \<Rightarrow> mem_error + 'd heap" where
  "cJSON_DeleteItemFromArray h array which =
     bind_res (cJSON_DetachItemFromArray h array which) (\<lambda>(c, h). cJSON_Delete (blocks h) h c)"

definition cJSON_DetachItemFromObject :: "'d heap \<Rightarrow> nat option \<Rightarrow> byte list \<Rightarrow> mem_error + nat option \<times> 'd heap" where
  "cJSON_DetachItemFromObject h object s =
     bind_res (load h object) (\<lambda>node.
     bind_res (find_item (blocks h) h s (child_item node)) (\<lambda>(i, c).
     if c \<noteq> None then cJSON_DetachItemFromArray h object (int i) else Inr (None, h)))"

definition cJSON_DeleteItemFromObject :: "'d heap \<Rightarrow> nat option \<Rightarrow> byte list \<Rightarrow> mem_error + 'd heap" where
  "cJSON_DeleteItemFromObject h object s =
     bind_res (cJSON_DetachItemFromObject h object s) (\<lambda>(c, h). cJSON_Delete (blocks h) h c)"

definition cJSON_InsertItemInArray :: "'d heap \<Rightarrow> nat option \<Rightarrow> int \<Rightarrow> nat option \<Rightarrow> mem_error + 'd heap" where
  "cJSON_InsertItemInArray h array which newitem =
     bind_res (load h array) (\<lambda>arr.
     bind_res (nth_item h (child_item arr) (nat which)) (\<lambda>c.
     if c = None then cJSON_AddItemToArray h array newitem
     else
       bind_res (modify h newitem (next_item_update (\<lambda>_. c))) (\<lambda>h.
       bind_res (load h c) (\<lambda>node.
       bind_res (modify h newitem (prev_item_update (\<lambda>_. prev_item node))) (\<lambda>h.
       bind_res (modify h c (prev_item_update (\<lambda>_. newitem))) (\<lambda>h.
       bind_res (load h array) (\<lambda>arr.
       if c = child_item arr then modify h array (child_item_update (\<lambda>_. newitem))
       else
         bind_res (load h newitem) (\<lambda>new.
         modify h (prev_item new) (next_item_update (\<lambda>_. newitem))))))))))"

definition cJSON_ReplaceItemInArray :: "'d heap \<Rightarrow> nat option \<Rightarrow> int \<Rightarrow> nat option \<Rightarrow> mem_error + 'd heap" where
  "cJSON_ReplaceItemInArray h array which newitem =
     bind_res (load h array) (\<lambda>arr.
     bind_res (nth_item h (child_item arr) (nat which)) (\<lambda>c.
     if c = None then Inr h
     else
       bind_res (load h c) (\<lambda>node.
       bind_res (modify h newitem (next_item_update (\<lambda>_. next_item node))) (\<lambda>h.
       bind_res (load h c) (\<lambda>node.
       bind_res (modify h newitem (prev_item_update (\<lambda>_. prev_item node))) (\<lambda>h.
       bind_res (load h newitem) (\<lambda>new.
       bind_res (if next_item new \<noteq> None
                 then modify h (next_item new) (prev_item_update (\<lambda>_. newitem)) else Inr h) (\<lambda>h.
       bind_res (load h array) (\<lambda>arr.
       bind_res (if c = child_item arr then modify h array (child_item_update (\<lambda>_. newitem))
                 else bind_res (load h newitem) (\<lambda>new.
                      modify h (prev_item new) (next_item_update (\<lambda>_. newitem)))) (\<lambda>h.
       bind_res (modify h c (\<lambda>node. node\<lparr>next_item := None, prev_item := None\<rparr>)) (\<lambda>h.
       cJSON_Delete (blocks h) h c)))))))))))"

definition cJSON_ReplaceItemInObject :: "'d heap \<Rightarrow> nat option \<Rightarrow> byte list \<Rightarrow> nat option \<Rightarrow> mem_error + 'd heap" where
  "cJSON_ReplaceItemInObject h object s newitem =
     bind_res (load h object) (\<lambda>node.
     bind_res (find_item (blocks h) h s (child_item node)) (\<lambda>(i, c).
     if c = None then Inr h
     else
       bind_res (load h newitem) (\<lambda>new.
       bind_res (if \<not> string_is_const new then free_text h (node_string new) else Inr h) (\<lambda>h.
       bind_res (cJSON_strdup h (Literal s)) (\<lambda>(key, h).
       bind_res (modify h newitem (node_string_update (\<lambda>_. Some key))) (\<lambda>h.
       cJSON_ReplaceItemInArray h object (int i) newitem))))))"

section \<open>Creating\<close>

definition cJSON_CreateNull :: "'d doubles \<Rightarrow> 'd heap \<Rightarrow> nat \<times> 'd heap" where
  "cJSON_CreateNull D h = new_node h ((zero_node D)\<lparr>node_kind := cJSON_NULL\<rparr>)"

definition cJSON_CreateTrue :: "'d doubles \<Rightarrow> 'd heap \<Rightarrow> nat \<times> 'd heap" where
  "cJSON_CreateTrue D h = new_node h ((zero_node D)\<lparr>node_kind := cJSON_True\<rparr>)"

definition cJSON_CreateFalse :: "'d doubles \<Rightarrow> 'd heap \<Rightarrow> nat \<times> 'd heap" where
  "cJSON_CreateFalse D h = new_node h ((zero_node D)\<lparr>node_kind := cJSON_False\<rparr>)"

definition cJSON_CreateBool :: "'d doubles \<Rightarrow> bool \<Rightarrow> 'd heap \<Rightarrow> nat \<times> 'd heap" where
  "cJSON_CreateBool D b h = new_node h ((zero_node D)\<lparr>node_kind := if b then cJSON_True else cJSON_False\<rparr>)"

definition cJSON_CreateNumber :: "'d doubles \<Rightarrow> 'd \<Rightarrow> 'd heap \<Rightarrow> mem_error + nat \<times> 'd heap" where
  "cJSON_CreateNumber D num h =
     (case dtoint D num of
        None \<Rightarrow> Inl Undefined_Conversion
      | Some i \<Rightarrow> Inr (new_node h ((zero_node D)\<lparr>node_kind := cJSON_Number, node_valuedouble := num, node_valueint := i\<rparr>)))"

definition cJSON_CreateString :: "'d doubles \<Rightarrow> byte list \<Rightarrow> 'd heap \<Rightarrow> mem_error + nat \<times> 'd heap" where
  "cJSON_CreateString D s h =
     (let (item, h) = new_node h ((zero_node D)\<lparr>node_kind := cJSON_String\<rparr>) in
      bind_res (cJSON_strdup h (Literal s)) (\<lambda>(r, h).
      bind_res (modify h (Some item) (node_valuestring_update (\<lambda>_. Some r))) (\<lambda>h.
      Inr (item, h))))"

definition cJSON_CreateArray :: "'d doubles \<Rightarrow> 'd heap \<Rightarrow> nat \<times> 'd heap" where
  "cJSON_CreateArray D h = new_node h ((zero_node D)\<lparr>node_kind := cJSON_Array\<rparr>)"

definition cJSON_CreateObject :: "'d doubles \<Rightarrow> 'd heap \<Rightarrow> nat \<times> 'd heap" where
  "cJSON_CreateObject D h = new_node h ((zero_node D)\<lparr>node_kind := cJSON_Object\<rparr>)"

text \<open>The loop of the functions that create an array: \<open>p\<close> is the item added last.\<close>

fun fill_array ::
  "('d heap \<Rightarrow> mem_error + nat \<times> 'd heap) list \<Rightarrow> nat \<Rightarrow> nat option \<Rightarrow> 'd heap \<Rightarrow> mem_error + 'd heap" where
  "fill_array [] a p h = Inr h"
| "fill_array (create # creates) a p h =
     bind_res (create h) (\<lambda>(n, h).
     bind_res (case p of
                 None \<Rightarrow> modify h (Some a) (child_item_update (\<lambda>_. Some n))
               | Some q \<Rightarrow> suffix_object h q n) (\<lambda>h.
     fill_array creates a (Some n) h))"

definition create_array ::
  "'d doubles \<Rightarrow> ('d heap \<Rightarrow> mem_error + nat \<times> 'd heap) list \<Rightarrow> int \<Rightarrow> 'd heap \<Rightarrow> mem_error + nat \<times> 'd heap" where
  "create_array D creates count h =
     (if int (length creates) < count then Inl Invalid_Access
      else
        let (a, h) = cJSON_CreateArray D h in
        bind_res (fill_array (take (nat count) creates) a None h) (\<lambda>h. Inr (a, h)))"

definition cJSON_CreateIntArray :: "'d doubles \<Rightarrow> int list \<Rightarrow> int \<Rightarrow> 'd heap \<Rightarrow> mem_error + nat \<times> 'd heap" where
  "cJSON_CreateIntArray D numbers = create_array D (map (\<lambda>i. cJSON_CreateNumber D (dlit D (of_int i))) numbers)"

text \<open>\<open>widen\<close> is the conversion of a \<open>float\<close> to a \<open>double\<close>.\<close>

definition cJSON_CreateFloatArray ::
  "('f \<Rightarrow> 'd) \<Rightarrow> 'd doubles \<Rightarrow> 'f list \<Rightarrow> int \<Rightarrow> 'd heap \<Rightarrow> mem_error + nat \<times> 'd heap" where
  "cJSON_CreateFloatArray widen D numbers = create_array D (map (\<lambda>f. cJSON_CreateNumber D (widen f)) numbers)"

definition cJSON_CreateDoubleArray :: "'d doubles \<Rightarrow> 'd list \<Rightarrow> int \<Rightarrow> 'd heap \<Rightarrow> mem_error + nat \<times> 'd heap" where
  "cJSON_CreateDoubleArray D numbers = create_array D (map (\<lambda>d. cJSON_CreateNumber D d) numbers)"

definition cJSON_CreateStringArray :: "'d doubles \<Rightarrow> byte list list \<Rightarrow> int \<Rightarrow> 'd heap \<Rightarrow> mem_error + nat \<times> 'd heap" where
  "cJSON_CreateStringArray D strings = create_array D (map (cJSON_CreateString D) strings)"

section \<open>Duplicating\<close>

definition copy_fields :: "'d doubles \<Rightarrow> 'd node \<Rightarrow> 'd heap \<Rightarrow> mem_error + nat \<times> 'd heap" where
  "copy_fields D item h =
     (let (newitem, h) = new_node h ((zero_node D)\<lparr>node_kind := node_kind item,
            string_is_const := string_is_const item, node_valueint := node_valueint item,
            node_valuedouble := node_valuedouble item\<rparr>) in
      bind_res (case node_valuestring item of
                  None \<Rightarrow> Inr h
                | Some r \<Rightarrow> bind_res (cJSON_strdup h r) (\<lambda>(r, h).
                    modify h (Some newitem) (node_valuestring_update (\<lambda>_. Some r)))) (\<lambda>h.
      bind_res (case node_string item of
                  None \<Rightarrow> Inr h
                | Some r \<Rightarrow>
                    if string_is_const item then modify h (Some newitem) (node_string_update (\<lambda>_. Some r))
                    else bind_res (cJSON_strdup h r) (\<lambda>(r, h).
                      modify h (Some newitem) (node_string_update (\<lambda>_. Some r)))) (\<lambda>h.
      Inr (newitem, h))))"

fun cJSON_Duplicate :: "'d doubles \<Rightarrow> nat \<Rightarrow> nat option \<Rightarrow> bool \<Rightarrow> 'd heap \<Rightarrow> mem_error + nat option \<times> 'd heap"
  and duplicate_children :: "'d doubles \<Rightarrow> nat \<Rightarrow> nat option \<Rightarrow> nat \<Rightarrow> nat option \<Rightarrow> 'd heap \<Rightarrow> mem_error + 'd heap" where
  "cJSON_Duplicate D n None recurse h = Inr (None, h)"
| "cJSON_Duplicate D 0 (Some a) recurse h = Inl Endless"
| "cJSON_Duplicate D (Suc n) (Some a) recurse h =
     bind_res (load h (Some a)) (\<lambda>item.
     bind_res (copy_fields D item h) (\<lambda>(newitem, h).
     if \<not> recurse then Inr (Some newitem, h)
     else
       bind_res (load h (Some a)) (\<lambda>item.
       bind_res (duplicate_children D n (child_item item) newitem None h) (\<lambda>h.
       Inr (Some newitem, h)))))"
| "duplicate_children D n None newitem nptr h = Inr h"
| "duplicate_children D 0 (Some cptr) newitem nptr h = Inl Endless"
| "duplicate_children D (Suc n) (Some cptr) newitem nptr h =
     bind_res (cJSON_Duplicate D n (Some cptr) True h) (\<lambda>(newchild, h).
     bind_res (case nptr of
                 Some p \<Rightarrow> bind_res (modify h (Some p) (next_item_update (\<lambda>_. newchild))) (\<lambda>h.
                   modify h newchild (prev_item_update (\<lambda>_. Some p)))
               | None \<Rightarrow> modify h (Some newitem) (child_item_update (\<lambda>_. newchild))) (\<lambda>h.
     bind_res (load h (Some cptr)) (\<lambda>node.
     duplicate_children D n (next_item node) newitem newchild h)))"

end
