(* ===== verification/CJson_Links.thy ===== *)
theory CJson_Links
  imports CJson_Heap
begin

text \<open>
  The doubly linked list of the children of an item, as the list of their addresses, and what the
  operations on arrays do to it.
\<close>

section \<open>Chains of siblings\<close>

text \<open>
  \<open>seg N q p xs e\<close>: from \<open>p\<close> the nodes \<open>xs\<close> are linked by \<open>next\<close> and back by \<open>prev\<close>; \<open>q\<close> is before the first and
  \<open>e\<close> after the last.
\<close>

fun seg :: "(nat \<Rightarrow> 'd node option) \<Rightarrow> nat option \<Rightarrow> nat option \<Rightarrow> nat list \<Rightarrow> nat option \<Rightarrow> bool" where
  "seg N q p [] e \<longleftrightarrow> p = e"
| "seg N q p (x # xs) e \<longleftrightarrow>
     p = Some x \<and> (case N x of None \<Rightarrow> False | Some n \<Rightarrow> prev_item n = q \<and> seg N (Some x) (next_item n) xs e)"

definition last_or :: "nat option \<Rightarrow> nat list \<Rightarrow> nat option" where
  "last_or q xs = (if xs = [] then q else Some (last xs))"

lemma last_or_simps [simp]:
  "last_or q [] = q" "last_or q (x # xs) = last_or (Some x) xs" "last_or q (xs @ [x]) = Some x"
  by (auto simp: last_or_def)

lemma last_or_append: "last_or q (xs @ ys) = last_or (last_or q xs) ys"
  by (auto simp: last_or_def)

lemma seg_cong: "(\<And>x. x \<in> set xs \<Longrightarrow> N' x = N x) \<Longrightarrow> seg N' q p xs e = seg N q p xs e"
  by (induction xs arbitrary: q p) (auto split: option.splits)

lemma seg_frame [simp]: "x \<notin> set xs \<Longrightarrow> seg (N(x := v)) q p xs e = seg N q p xs e"
  by (rule seg_cong) auto

lemma seg_append: "seg N q p (xs @ ys) e \<longleftrightarrow> (\<exists>m. seg N q p xs m \<and> seg N (last_or q xs) m ys e)"
  by (induction xs arbitrary: q p) (auto split: option.splits)

lemma seg_head: "seg N q p xs e \<Longrightarrow> p = (case xs of [] \<Rightarrow> e | x # _ \<Rightarrow> Some x)"
  by (cases xs) auto

lemma seg_present: "seg N q p xs e \<Longrightarrow> x \<in> set xs \<Longrightarrow> \<exists>n. N x = Some n"
  by (induction xs arbitrary: q p) (auto split: option.splits)

lemma seg_next:
  assumes "seg N q p (xs @ [x]) e" and "x \<notin> set xs" and "N x = Some n"
  shows "seg (N(x \<mapsto> n\<lparr>next_item := e'\<rparr>)) q p (xs @ [x]) e'"
  using assms by (auto simp: seg_append)

lemma seg_prev:
  assumes "seg N q p (y # ys) e" and "y \<notin> set ys" and "N y = Some n"
  shows "seg (N(y \<mapsto> n\<lparr>prev_item := q'\<rparr>)) q' p (y # ys) e"
  using assms by auto

text \<open>What precedes and what follows an element.\<close>

lemma seg_split:
  assumes "seg N q p (xs @ c # ys) e"
  obtains n where "N c = Some n" "prev_item n = last_or q xs" "seg N q p xs (Some c)"
    "seg N (Some c) (next_item n) ys e"
  using assms by (auto simp: seg_append split: option.splits)

section \<open>Walking\<close>

definition linked :: "'d heap \<Rightarrow> nat \<Rightarrow> nat list \<Rightarrow> bool" where
  "linked h a xs \<longleftrightarrow> distinct (a # xs) \<and> (\<exists>n. nodes h a = Some n \<and> seg (nodes h) None (child_item n) xs None)"

lemma load_Some [simp]: "nodes h a = Some n \<Longrightarrow> load h (Some a) = Inr n"
  by (simp add: load_def)

lemma modify_Some [simp]: "nodes h a = Some n \<Longrightarrow> modify h (Some a) f = Inr (set_node h a (f n))"
  by (simp add: modify_def)

lemma set_node_simps [simp]:
  "nodes (set_node h a n) = (nodes h)(a \<mapsto> n)" "texts (set_node h a n) = texts h" "blocks (set_node h a n) = blocks h"
  by (simp_all add: set_node_def)

lemma linkedE:
  assumes "linked h a xs"
  obtains n where "nodes h a = Some n" "seg (nodes h) None (child_item n) xs None" "distinct xs" "a \<notin> set xs"
  using assms by (auto simp: linked_def)

lemma count_items_seg: "seg (nodes h) q p xs None \<Longrightarrow> length xs \<le> n \<Longrightarrow> count_items n h p = Inr (length xs)"
proof (induction xs arbitrary: q p n)
  case (Cons x xs)
  then show ?case by (cases n) (auto split: option.splits)
qed simp

lemma nth_item_seg:
  "seg (nodes h) q p xs None \<Longrightarrow> nth_item h p k = Inr (if k < length xs then Some (xs ! k) else None)"
proof (induction xs arbitrary: q p k)
  case (Cons x xs)
  then show ?case by (cases k) (auto split: option.splits)
qed simp

lemma last_item_seg: "seg (nodes h) q (Some p) xs None \<Longrightarrow> length xs \<le> n \<Longrightarrow> last_item n h p = Inr (last xs)"
proof (induction xs arbitrary: q p n)
  case (Cons x xs)
  obtain m where n: "n = Suc m" using Cons.prems(2) by (cases n) auto
  obtain nd where x: "p = x" "nodes h x = Some nd" "seg (nodes h) (Some x) (next_item nd) xs None"
    using Cons.prems(1) by (auto split: option.splits)
  show ?case
  proof (cases xs)
    case Nil
    then show ?thesis using x n by simp
  next
    case (Cons y ys)
    then have "next_item nd = Some y" using x(3) by (simp split: option.splits)
    then show ?thesis using Cons.IH [of "Some x" y m] Cons.prems(2) x n Cons by simp
  qed
qed simp

text \<open>All addresses in use are those of blocks ever allocated, so chains are no longer than that.\<close>

definition heap_ok :: "'d heap \<Rightarrow> bool" where
  "heap_ok h \<longleftrightarrow> (\<forall>a. nodes h a \<noteq> None \<or> texts h a \<noteq> None \<longrightarrow> a < blocks h)"

lemma distinct_below:
  assumes "distinct xs" and "\<And>x. x \<in> set xs \<Longrightarrow> x < (n :: nat)"
  shows "length xs \<le> n"
proof -
  have "card (set xs) \<le> card {..<n}" by (rule card_mono) (use assms(2) in auto)
  then show ?thesis using distinct_card [OF assms(1)] by simp
qed

lemma seg_length:
  assumes "heap_ok h" and "seg (nodes h) q p xs e" and "distinct xs"
  shows "length xs \<le> blocks h"
proof (rule distinct_below [OF assms(3)])
  fix x assume "x \<in> set xs"
  then show "x < blocks h" using seg_present [OF assms(2)] assms(1) by (force simp: heap_ok_def)
qed

section \<open>Relinking\<close>

text \<open>
  What the operations on arrays leave alone: everything but the links of the array's items and the array's
  first child.
\<close>

definition strip :: "'d node \<Rightarrow> 'd node" where
  "strip n = n\<lparr>next_item := None, prev_item := None\<rparr>"

definition relinked :: "nat \<Rightarrow> nat set \<Rightarrow> 'd heap \<Rightarrow> 'd heap \<Rightarrow> bool" where
  "relinked a S h h' \<longleftrightarrow> texts h' = texts h \<and> blocks h' = blocks h \<and>
     (\<forall>x. x \<notin> insert a S \<longrightarrow> nodes h' x = nodes h x) \<and>
     (\<forall>x \<in> S. map_option strip (nodes h' x) = map_option strip (nodes h x)) \<and>
     (\<exists>n c. nodes h a = Some n \<and> nodes h' a = Some (n\<lparr>child_item := c\<rparr>))"

lemma strip_update [simp]:
  "strip (n\<lparr>next_item := p\<rparr>) = strip n" "strip (n\<lparr>prev_item := p\<rparr>) = strip n"
  "strip (n\<lparr>next_item := p, prev_item := q\<rparr>) = strip n" "strip (n\<lparr>prev_item := q, next_item := p\<rparr>) = strip n"
  by (simp_all add: strip_def)

lemma relinked_refl: "nodes h a = Some n \<Longrightarrow> relinked a S h h"
  unfolding relinked_def by (auto intro!: exI [of _ "child_item n"])

lemma relinked_trans: "relinked a S h h' \<Longrightarrow> relinked a S h' h'' \<Longrightarrow> a \<notin> S \<Longrightarrow> relinked a S h h''"
  by (auto simp: relinked_def)

lemma relinked_set_links:
  assumes "relinked a S h h'" and "nodes h' x = Some n" and "x \<in> S" and "a \<notin> S" and "strip n' = strip n"
  shows "relinked a S h (set_node h' x n')"
proof -
  have "x \<noteq> a" using assms(3,4) by auto
  moreover have "map_option strip (nodes h' x) = map_option strip (nodes h x)" using assms(1,3) by (simp add: relinked_def)
  then have "map_option strip (nodes h x) = Some (strip n)" using assms(2) by simp
  ultimately show ?thesis using assms(1,3,5) by (auto simp: relinked_def)
qed

lemma relinked_set_child:
  assumes "relinked a S h h'" and "nodes h' a = Some n" and "a \<notin> S"
  shows "relinked a S h (set_node h' a (n\<lparr>child_item := c\<rparr>))"
  using assms unfolding relinked_def by auto

lemma redirect_next:
  assumes "seg N q p xs e" and "distinct xs" and "xs \<noteq> []"
  obtains n where "N (last xs) = Some n" and "\<forall>e'. seg (N(last xs \<mapsto> n\<lparr>next_item := e'\<rparr>)) q p xs e'"
proof -
  obtain ys x where xs: "xs = ys @ [x]" using assms(3) by (cases xs rule: rev_cases) auto
  obtain n where n: "N x = Some n" using seg_present [OF assms(1), of x] xs by auto
  show thesis using seg_next [of N q p ys x e n] assms(1,2) n xs that by auto
qed

lemma redirect_prev:
  assumes "seg N q p ys e" and "distinct ys" and "ys \<noteq> []"
  obtains n where "p = Some (hd ys)" and "N (hd ys) = Some n"
    and "\<forall>q'. seg (N(hd ys \<mapsto> n\<lparr>prev_item := q'\<rparr>)) q' p ys e"
proof -
  obtain y zs where ys: "ys = y # zs" using assms(3) by (cases ys) auto
  obtain n where n: "N y = Some n" using seg_present [OF assms(1), of y] ys by auto
  have "p = Some y" using assms(1) ys by simp
  then show thesis using seg_prev [of N q p y zs e n] assms(1,2) n ys that by auto
qed

lemma relinked_if: "relinked a S h h1 \<Longrightarrow> relinked a S h h2 \<Longrightarrow> relinked a S h (if b then h1 else h2)"
  by simp

lemma seg_same: "seg N q p xs e \<Longrightarrow> \<forall>x \<in> set xs. N' x = N x \<Longrightarrow> seg N' q p xs e"
  using seg_cong [of xs N' N] by auto

section \<open>Operations on arrays\<close>

definition detached :: "'d heap \<Rightarrow> nat \<Rightarrow> bool" where
  "detached h i \<longleftrightarrow> (case nodes h i of None \<Rightarrow> False | Some n \<Rightarrow> next_item n = None \<and> prev_item n = None)"

lemma detachedE:
  assumes "detached h i"
  obtains n where "nodes h i = Some n" "next_item n = None" "prev_item n = None"
  using assms by (auto simp: detached_def split: option.splits)

lemma GetArraySize_linked: "heap_ok h \<Longrightarrow> linked h a xs \<Longrightarrow> cJSON_GetArraySize h (Some a) = Inr (length xs)"
  by (auto simp: cJSON_GetArraySize_def linked_def intro!: count_items_seg seg_length)

lemma GetArrayItem_linked: "linked h a xs \<Longrightarrow>
    cJSON_GetArrayItem h (Some a) i = Inr (if nat i < length xs then Some (xs ! nat i) else None)"
  by (auto simp: cJSON_GetArrayItem_def linked_def nth_item_seg)

text \<open>Linking an item behind the last one.\<close>

definition link_last :: "'d heap \<Rightarrow> nat \<Rightarrow> nat option \<Rightarrow> nat \<Rightarrow> mem_error + 'd heap" where
  "link_last h a p i =
     (case p of
        None \<Rightarrow> modify h (Some a) (child_item_update (\<lambda>_. Some i))
      | Some c \<Rightarrow> suffix_object h c i)"

lemma link_last_linked:
  assumes "linked h a xs" and "detached h i" and "i \<notin> insert a (set xs)"
  obtains h' where "link_last h a (last_or None xs) i = Inr h'" "linked h' a (xs @ [i])"
    "relinked a (insert i (set xs)) h h'"
proof -
  obtain na where a: "nodes h a = Some na" "seg (nodes h) None (child_item na) xs None" "distinct xs" "a \<notin> set xs"
    using assms(1) by (rule linkedE)
  obtain ni where i: "nodes h i = Some ni" "next_item ni = None" "prev_item ni = None"
    using assms(2) by (rule detachedE)
  have refl: "relinked a (insert i (set xs)) h h" using a(1) by (rule relinked_refl)
  have out: "a \<notin> insert i (set xs)" using a(4) assms(3) by auto
  show thesis
  proof (cases "xs = []")
    case True
    let ?h = "set_node h a (na\<lparr>child_item := Some i\<rparr>)"
    show thesis
    proof (rule that [of ?h])
      show "link_last h a (last_or None xs) i = Inr ?h" using a True by (simp add: link_last_def)
      show "linked ?h a (xs @ [i])" using True i assms(3) by (auto simp: linked_def)
      show "relinked a (insert i (set xs)) h ?h" by (rule relinked_set_child [OF refl a(1) out])
    qed
  next
    case False
    obtain nc where c: "nodes h (last xs) = Some nc"
      "\<forall>e'. seg ((nodes h)(last xs \<mapsto> nc\<lparr>next_item := e'\<rparr>)) None (child_item na) xs e'"
      by (rule redirect_next [OF a(2,3) False])
    have neq: "last xs \<noteq> i" "last xs \<noteq> a" "last xs \<in> set xs" using False assms(3) a(4) last_in_set [OF False] by auto
    let ?h1 = "set_node h (last xs) (nc\<lparr>next_item := Some i\<rparr>)"
    let ?h = "set_node ?h1 i (ni\<lparr>prev_item := Some (last xs)\<rparr>)"
    show thesis
    proof (rule that [of ?h])
      show "link_last h a (last_or None xs) i = Inr ?h"
        using False c(1) i(1) neq by (simp add: link_last_def last_or_def suffix_object_def)
      have "seg (nodes ?h) None (child_item na) xs (Some i)" using spec [OF c(2), of "Some i"] assms(3) by simp
      moreover have "seg (nodes ?h) (last_or None xs) (Some i) [i] None" using i False by (simp add: last_or_def)
      ultimately have "seg (nodes ?h) None (child_item na) (xs @ [i]) None" by (auto simp: seg_append)
      then show "linked ?h a (xs @ [i])" using a assms(3) neq by (auto simp: linked_def)
      show "relinked a (insert i (set xs)) h ?h"
      proof (rule relinked_set_links [OF _ _ _ out])
        show "relinked a (insert i (set xs)) h ?h1"
          by (rule relinked_set_links [OF refl c(1) _ out]) (use neq in auto)
        show "nodes ?h1 i = Some ni" using i neq by simp
      qed auto
    qed
  qed
qed

lemma AddItemToArray_link_last:
  assumes "heap_ok h" and "linked h a xs"
  shows "cJSON_AddItemToArray h (Some a) (Some i) = link_last h a (last_or None xs) i"
proof -
  obtain na where a: "nodes h a = Some na" "seg (nodes h) None (child_item na) xs None" "distinct xs"
    using assms(2) by (rule linkedE)
  show ?thesis
  proof (cases "xs = []")
    case True
    then show ?thesis using a by (simp add: cJSON_AddItemToArray_def link_last_def)
  next
    case False
    then obtain p where p: "child_item na = Some p" using a(2) by (cases xs) auto
    have "last_item (blocks h) h p = Inr (last xs)"
      by (rule last_item_seg [where q = None and xs = xs]) (use a p seg_length [OF assms(1) a(2,3)] in auto)
    then show ?thesis using a(1) p False by (simp add: cJSON_AddItemToArray_def link_last_def last_or_def)
  qed
qed

lemma AddItemToArray_linked:
  assumes "heap_ok h" and "linked h a xs" and "detached h i" and "i \<notin> insert a (set xs)"
  obtains h' where "cJSON_AddItemToArray h (Some a) (Some i) = Inr h'" "linked h' a (xs @ [i])"
    "relinked a (insert i (set xs)) h h'"
  using link_last_linked [OF assms(2-4)] AddItemToArray_link_last [OF assms(1,2)] by metis

lemma DetachItemFromArray_linked:
  assumes "linked h a (xs @ c # ys)" and "nat which = length xs"
  obtains h' where "cJSON_DetachItemFromArray h (Some a) which = Inr (Some c, h')" "linked h' a (xs @ ys)"
    "detached h' c" "relinked a (set (xs @ c # ys)) h h'"
proof -
  let ?S = "set (xs @ c # ys)"
  obtain na where a: "nodes h a = Some na" "seg (nodes h) None (child_item na) (xs @ c # ys) None"
      "distinct (xs @ c # ys)" "a \<notin> ?S"
    using assms(1) by (rule linkedE)
  obtain nc where c: "nodes h c = Some nc" "prev_item nc = last_or None xs" "seg (nodes h) None (child_item na) xs (Some c)"
      "seg (nodes h) (Some c) (next_item nc) ys None"
    using a(2) by (rule seg_split)
  have ne: "c \<notin> set xs" "c \<notin> set ys" "c \<noteq> a" "set xs \<inter> set ys = {}" "distinct xs" "distinct ys" "a \<notin> set xs" "a \<notin> set ys"
    using a(3,4) by auto
  have nth: "nth_item h (child_item na) (nat which) = Inr (Some c)"
    using nth_item_seg [OF a(2), of "length xs"] assms(2) by (simp add: nth_append)
  define p where "p = (if xs = [] then next_item nc else child_item na)"
  have "\<exists>h1. (if prev_item nc \<noteq> None then modify h (prev_item nc) (next_item_update (\<lambda>_. next_item nc)) else Inr h) = Inr h1 \<and>
      seg (nodes h1) None p xs (next_item nc) \<and> relinked a ?S h h1 \<and> (\<forall>x. x \<notin> set xs \<longrightarrow> nodes h1 x = nodes h x)"
  proof (cases "xs = []")
    case True
    then show ?thesis using c(2) relinked_refl [OF a(1)] by (simp add: p_def)
  next
    case False
    obtain n where n: "nodes h (last xs) = Some n"
      "\<forall>e'. seg ((nodes h)(last xs \<mapsto> n\<lparr>next_item := e'\<rparr>)) None (child_item na) xs e'"
      by (rule redirect_next [OF c(3) ne(5) False])
    have "relinked a ?S h (set_node h (last xs) (n\<lparr>next_item := next_item nc\<rparr>))"
      by (rule relinked_set_links [OF relinked_refl [OF a(1)] n(1)]) (use a(4) False in auto)
    then show ?thesis using False c(2) n by (auto simp: last_or_def p_def)
  qed
  then obtain h1 where h1: "(if prev_item nc \<noteq> None then modify h (prev_item nc) (next_item_update (\<lambda>_. next_item nc)) else Inr h) = Inr h1"
      "seg (nodes h1) None p xs (next_item nc)" "relinked a ?S h h1" "\<forall>x. x \<notin> set xs \<longrightarrow> nodes h1 x = nodes h x"
    by blast
  have ys1: "seg (nodes h1) (Some c) (next_item nc) ys None"
    using c(4) h1(4) ne(4) by (subst seg_cong [of _ _ "nodes h"]) auto
  have "\<exists>h2. (if next_item nc \<noteq> None then modify h1 (next_item nc) (prev_item_update (\<lambda>_. prev_item nc)) else Inr h1) = Inr h2 \<and>
      seg (nodes h2) (prev_item nc) (next_item nc) ys None \<and> relinked a ?S h h2 \<and> (\<forall>x. x \<notin> set ys \<longrightarrow> nodes h2 x = nodes h1 x)"
  proof (cases "ys = []")
    case True
    then show ?thesis using ys1 h1(3) by simp
  next
    case False
    obtain n where n: "next_item nc = Some (hd ys)" "nodes h1 (hd ys) = Some n"
      "\<forall>q'. seg ((nodes h1)(hd ys \<mapsto> n\<lparr>prev_item := q'\<rparr>)) q' (next_item nc) ys None"
      by (rule redirect_prev [OF ys1 ne(6) False])
    have "relinked a ?S h (set_node h1 (hd ys) (n\<lparr>prev_item := prev_item nc\<rparr>))"
      by (rule relinked_set_links [OF h1(3) n(2)]) (use a(4) False in auto)
    then show ?thesis using False n by auto
  qed
  then obtain h2 where h2: "(if next_item nc \<noteq> None then modify h1 (next_item nc) (prev_item_update (\<lambda>_. prev_item nc)) else Inr h1) = Inr h2"
      "seg (nodes h2) (prev_item nc) (next_item nc) ys None" "relinked a ?S h h2" "\<forall>x. x \<notin> set ys \<longrightarrow> nodes h2 x = nodes h1 x"
    by blast
  have same: "nodes h1 c = Some nc" "nodes h2 c = Some nc" "nodes h2 a = Some na"
    using h1(4) h2(4) ne a(1) c(1) by auto
  have xs2: "seg (nodes h2) None p xs (next_item nc)"
    using h1(2) h2(4) ne(4) by (subst seg_cong [of _ _ "nodes h1"]) auto
  have first: "Some c = child_item na \<longleftrightarrow> xs = []"
    using seg_head [OF a(2)] ne(1) by (cases xs) auto
  let ?h3 = "if xs = [] then set_node h2 a (na\<lparr>child_item := next_item nc\<rparr>) else h2"
  let ?h = "set_node ?h3 c (nc\<lparr>prev_item := None, next_item := None\<rparr>)"
  have run: "cJSON_DetachItemFromArray h (Some a) which = Inr (Some c, ?h)"
    unfolding cJSON_DetachItemFromArray_def using a(1) nth c(1) h1(1) h2(1) same first ne(3)
    by (simp only: load_Some bind_res.simps if_False option.distinct) (auto simp: same)
  have links: "seg (nodes ?h) None p (xs @ ys) None"
  proof -
    have "seg (nodes ?h) None p xs (next_item nc)" using xs2 ne by auto
    moreover have "seg (nodes ?h) (last_or None xs) (next_item nc) ys None" using h2(2) c(2) ne by auto
    ultimately show ?thesis by (auto simp: seg_append)
  qed
  show thesis
  proof (rule that [OF run])
    show "linked ?h a (xs @ ys)" using links ne same(3) a(3,4) by (auto simp: linked_def p_def)
    show "detached ?h c" by (simp add: detached_def)
    have "relinked a ?S h ?h3" by (rule relinked_if [OF relinked_set_child [OF h2(3) same(3) a(4)] h2(3)])
    then show "relinked a ?S h ?h"
      by (rule relinked_set_links [where n = nc]) (use same ne a(4) in auto)
  qed
qed

lemma InsertItemInArray_linked:
  assumes "linked h a (xs @ c # ys)" and "nat which = length xs" and "detached h i" and "i \<notin> insert a (set (xs @ c # ys))"
  obtains h' where "cJSON_InsertItemInArray h (Some a) which (Some i) = Inr h'" "linked h' a (xs @ i # c # ys)"
    "relinked a (insert i (set (xs @ c # ys))) h h'"
proof -
  let ?S = "insert i (set (xs @ c # ys))"
  obtain na where a: "nodes h a = Some na" "seg (nodes h) None (child_item na) (xs @ c # ys) None"
      "distinct (xs @ c # ys)" "a \<notin> set (xs @ c # ys)"
    using assms(1) by (rule linkedE)
  obtain nc where c: "nodes h c = Some nc" "prev_item nc = last_or None xs" "seg (nodes h) None (child_item na) xs (Some c)"
      "seg (nodes h) (Some c) (next_item nc) ys None"
    using a(2) by (rule seg_split)
  obtain ni where i: "nodes h i = Some ni" "next_item ni = None" "prev_item ni = None"
    using assms(3) by (rule detachedE)
  have ne: "c \<notin> set xs" "c \<notin> set ys" "c \<noteq> a" "set xs \<inter> set ys = {}" "distinct xs" "distinct ys" "a \<notin> set xs" "a \<notin> set ys"
      "i \<noteq> a" "i \<noteq> c" "i \<notin> set xs" "i \<notin> set ys"
    using a(3,4) assms(4) by auto
  have out: "a \<notin> ?S" using ne by auto
  have nth: "nth_item h (child_item na) (nat which) = Inr (Some c)"
    using nth_item_seg [OF a(2), of "length xs"] assms(2) by (simp add: nth_append)
  have first: "Some c = child_item na \<longleftrightarrow> xs = []"
    using seg_head [OF a(2)] ne(1) by (cases xs) auto
  define h1 where "h1 = set_node (set_node (set_node h i (ni\<lparr>next_item := Some c\<rparr>)) i
      (ni\<lparr>next_item := Some c, prev_item := prev_item nc\<rparr>)) c (nc\<lparr>prev_item := Some i\<rparr>)"
  have "relinked a ?S h (set_node h i (ni\<lparr>next_item := Some c\<rparr>))"
    by (rule relinked_set_links [OF relinked_refl [OF a(1)] i(1) _ out]) auto
  then have "relinked a ?S h (set_node (set_node h i (ni\<lparr>next_item := Some c\<rparr>)) i
      (ni\<lparr>next_item := Some c, prev_item := prev_item nc\<rparr>))"
    by (rule relinked_set_links [OF _ _ _ out, where n = "ni\<lparr>next_item := Some c\<rparr>"]) auto
  then have rel1: "relinked a ?S h h1"
    unfolding h1_def by (rule relinked_set_links [OF _ _ _ out, where n = nc]) (use c(1) ne in auto)
  have n1: "nodes h1 c = Some (nc\<lparr>prev_item := Some i\<rparr>)" "nodes h1 a = Some na"
      "nodes h1 i = Some (ni\<lparr>next_item := Some c, prev_item := prev_item nc\<rparr>)"
    and other: "\<forall>x. x \<noteq> c \<and> x \<noteq> i \<longrightarrow> nodes h1 x = nodes h x"
    using a(1) ne by (auto simp: h1_def)
  have tail: "seg (nodes h1) (last_or None xs) (Some i) (i # c # ys) None"
  proof -
    have "seg (nodes h1) (Some c) (next_item nc) ys None"
      by (rule seg_same [OF c(4)]) (use other ne in auto)
    then show ?thesis using n1 c(2) by simp
  qed
  have xs1: "seg (nodes h1) None (child_item na) xs (Some c)"
    by (rule seg_same [OF c(3)]) (use other ne in auto)
  have run: "cJSON_InsertItemInArray h (Some a) which (Some i) =
      (if xs = [] then modify h1 (Some a) (child_item_update (\<lambda>_. Some i))
       else modify h1 (prev_item nc) (next_item_update (\<lambda>_. Some i)))"
    unfolding cJSON_InsertItemInArray_def using a(1) nth c(1) i(1) ne n1 first
    by (simp add: h1_def)
  show thesis
  proof (cases "xs = []")
    case True
    let ?h = "set_node h1 a (na\<lparr>child_item := Some i\<rparr>)"
    show thesis
    proof (rule that [of ?h])
      show "cJSON_InsertItemInArray h (Some a) which (Some i) = Inr ?h" using run True n1 by simp
      have "seg (nodes ?h) None (Some i) (i # c # ys) None"
        by (rule seg_same [OF tail [unfolded True last_or_simps]]) (use ne in auto)
      then show "linked ?h a (xs @ i # c # ys)" using True a(3,4) ne by (auto simp: linked_def)
      show "relinked a ?S h ?h" by (rule relinked_set_child [OF rel1 n1(2) out])
    qed
  next
    case False
    obtain n where n: "nodes h1 (last xs) = Some n"
      "\<forall>e'. seg ((nodes h1)(last xs \<mapsto> n\<lparr>next_item := e'\<rparr>)) None (child_item na) xs e'"
      by (rule redirect_next [OF xs1 ne(5) False])
    let ?h = "set_node h1 (last xs) (n\<lparr>next_item := Some i\<rparr>)"
    have lx: "last xs \<in> set xs" using False by simp
    show thesis
    proof (rule that [of ?h])
      show "cJSON_InsertItemInArray h (Some a) which (Some i) = Inr ?h"
        using run False c(2) n(1) by (simp add: last_or_def)
      have "seg (nodes ?h) None (child_item na) xs (Some i)" using spec [OF n(2), of "Some i"] by simp
      moreover have "seg (nodes ?h) (last_or None xs) (Some i) (i # c # ys) None"
        by (rule seg_same [OF tail]) (use lx ne in auto)
      ultimately have "seg (nodes ?h) None (child_item na) (xs @ i # c # ys) None" by (auto simp: seg_append)
      moreover have "nodes ?h a = Some na" using n1(2) lx ne by auto
      ultimately show "linked ?h a (xs @ i # c # ys)" using a(3,4) ne by (auto simp: linked_def)
      show "relinked a ?S h ?h" by (rule relinked_set_links [OF rel1 n(1) _ out]) (use lx in auto)
    qed
  qed
qed

lemma InsertItemInArray_beyond:
  assumes "linked h a xs" and "length xs \<le> nat which"
  shows "cJSON_InsertItemInArray h (Some a) which i = cJSON_AddItemToArray h (Some a) i"
  using assms by (auto simp: cJSON_InsertItemInArray_def nth_item_seg elim!: linkedE)

lemma ReplaceItemInArray_linked:
  assumes "linked h a (xs @ c # ys)" and "nat which = length xs" and "detached h i" and "i \<notin> insert a (set (xs @ c # ys))"
  obtains h' where "cJSON_ReplaceItemInArray h (Some a) which (Some i) = cJSON_Delete (blocks h') h' (Some c)"
    "linked h' a (xs @ i # ys)" "detached h' c" "relinked a (insert i (set (xs @ c # ys))) h h'"
proof -
  let ?S = "insert i (set (xs @ c # ys))"
  obtain na where a: "nodes h a = Some na" "seg (nodes h) None (child_item na) (xs @ c # ys) None"
      "distinct (xs @ c # ys)" "a \<notin> set (xs @ c # ys)"
    using assms(1) by (rule linkedE)
  obtain nc where c: "nodes h c = Some nc" "prev_item nc = last_or None xs" "seg (nodes h) None (child_item na) xs (Some c)"
      "seg (nodes h) (Some c) (next_item nc) ys None"
    using a(2) by (rule seg_split)
  obtain ni where i: "nodes h i = Some ni" "next_item ni = None" "prev_item ni = None"
    using assms(3) by (rule detachedE)
  have ne: "c \<notin> set xs" "c \<notin> set ys" "c \<noteq> a" "set xs \<inter> set ys = {}" "distinct xs" "distinct ys" "a \<notin> set xs" "a \<notin> set ys"
      "i \<noteq> a" "i \<noteq> c" "i \<notin> set xs" "i \<notin> set ys"
    using a(3,4) assms(4) by auto
  have out: "a \<notin> ?S" using ne by auto
  have nth: "nth_item h (child_item na) (nat which) = Inr (Some c)"
    using nth_item_seg [OF a(2), of "length xs"] assms(2) by (simp add: nth_append)
  have first: "Some c = child_item na \<longleftrightarrow> xs = []"
    using seg_head [OF a(2)] ne(1) by (cases xs) auto
  let ?ni = "ni\<lparr>next_item := next_item nc, prev_item := prev_item nc\<rparr>"
  define h1 where "h1 = set_node (set_node h i (ni\<lparr>next_item := next_item nc\<rparr>)) i ?ni"
  have "relinked a ?S h (set_node h i (ni\<lparr>next_item := next_item nc\<rparr>))"
    by (rule relinked_set_links [OF relinked_refl [OF a(1)] i(1) _ out]) auto
  then have rel1: "relinked a ?S h h1"
    unfolding h1_def by (rule relinked_set_links [OF _ _ _ out, where n = "ni\<lparr>next_item := next_item nc\<rparr>"]) auto
  have n1: "nodes h1 c = Some nc" "nodes h1 a = Some na" "nodes h1 i = Some ?ni"
    and other: "\<forall>x. x \<noteq> i \<longrightarrow> nodes h1 x = nodes h x"
    using a(1) c(1) ne by (auto simp: h1_def)
  have ys1: "seg (nodes h1) (Some c) (next_item nc) ys None" by (rule seg_same [OF c(4)]) (use other ne in auto)
  have "\<exists>h2. (if next_item nc \<noteq> None then modify h1 (next_item nc) (prev_item_update (\<lambda>_. Some i)) else Inr h1) = Inr h2 \<and>
      seg (nodes h2) (Some i) (next_item nc) ys None \<and> relinked a ?S h h2 \<and> (\<forall>x. x \<notin> set ys \<longrightarrow> nodes h2 x = nodes h1 x)"
  proof (cases "ys = []")
    case True
    then show ?thesis using ys1 rel1 by simp
  next
    case False
    obtain n where n: "next_item nc = Some (hd ys)" "nodes h1 (hd ys) = Some n"
      "\<forall>q'. seg ((nodes h1)(hd ys \<mapsto> n\<lparr>prev_item := q'\<rparr>)) q' (next_item nc) ys None"
      by (rule redirect_prev [OF ys1 ne(6) False])
    have "relinked a ?S h (set_node h1 (hd ys) (n\<lparr>prev_item := Some i\<rparr>))"
      by (rule relinked_set_links [OF rel1 n(2) _ out]) (use False in auto)
    then show ?thesis using False n by auto
  qed
  then obtain h2 where h2: "(if next_item nc \<noteq> None then modify h1 (next_item nc) (prev_item_update (\<lambda>_. Some i)) else Inr h1) = Inr h2"
      "seg (nodes h2) (Some i) (next_item nc) ys None" "relinked a ?S h h2" "\<forall>x. x \<notin> set ys \<longrightarrow> nodes h2 x = nodes h1 x"
    by blast
  have n2: "nodes h2 c = Some nc" "nodes h2 a = Some na" "nodes h2 i = Some ?ni"
    using h2(4) ne n1 by auto
  have xs2: "seg (nodes h2) None (child_item na) xs (Some c)"
  proof (rule seg_same [OF c(3)], rule ballI)
    fix x assume "x \<in> set xs"
    then have "x \<notin> set ys" "x \<noteq> i" using ne by auto
    then show "nodes h2 x = nodes h x" using h2(4) other by simp
  qed
  define p where "p = (if xs = [] then Some i else child_item na)"
  have "\<exists>h3. (if xs = [] then modify h2 (Some a) (child_item_update (\<lambda>_. Some i))
        else modify h2 (prev_item nc) (next_item_update (\<lambda>_. Some i))) = Inr h3 \<and>
      seg (nodes h3) None p xs (Some i) \<and> relinked a ?S h h3 \<and> nodes h3 a = Some (na\<lparr>child_item := p\<rparr>) \<and>
      (\<forall>x. x \<notin> insert a (set xs) \<longrightarrow> nodes h3 x = nodes h2 x)"
  proof (cases "xs = []")
    case True
    have "relinked a ?S h (set_node h2 a (na\<lparr>child_item := Some i\<rparr>))" by (rule relinked_set_child [OF h2(3) n2(2) out])
    then show ?thesis using True n2 by (simp add: p_def)
  next
    case False
    obtain n where n: "nodes h2 (last xs) = Some n"
      "\<forall>e'. seg ((nodes h2)(last xs \<mapsto> n\<lparr>next_item := e'\<rparr>)) None (child_item na) xs e'"
      by (rule redirect_next [OF xs2 ne(5) False])
    have lx: "last xs \<in> set xs" "last xs \<noteq> a" using False ne by auto
    have "relinked a ?S h (set_node h2 (last xs) (n\<lparr>next_item := Some i\<rparr>))"
      by (rule relinked_set_links [OF h2(3) n(1) _ out]) (use lx in auto)
    then show ?thesis using False n n2 c(2) lx by (auto simp: p_def last_or_def)
  qed
  then obtain h3 where h3: "(if xs = [] then modify h2 (Some a) (child_item_update (\<lambda>_. Some i))
        else modify h2 (prev_item nc) (next_item_update (\<lambda>_. Some i))) = Inr h3"
      "seg (nodes h3) None p xs (Some i)" "relinked a ?S h h3" "nodes h3 a = Some (na\<lparr>child_item := p\<rparr>)"
      "\<forall>x. x \<notin> insert a (set xs) \<longrightarrow> nodes h3 x = nodes h2 x"
    by blast
  have n3: "nodes h3 c = Some nc" "nodes h3 i = Some ?ni" using h3(5) n2 ne by auto
  let ?h = "set_node h3 c (nc\<lparr>next_item := None, prev_item := None\<rparr>)"
  have "cJSON_ReplaceItemInArray h (Some a) which (Some i) =
      bind_res (if next_item nc \<noteq> None then modify h1 (next_item nc) (prev_item_update (\<lambda>_. Some i)) else Inr h1) (\<lambda>h.
       bind_res (load h (Some a)) (\<lambda>arr.
       bind_res (if Some c = child_item arr then modify h (Some a) (child_item_update (\<lambda>_. Some i))
                 else bind_res (load h (Some i)) (\<lambda>new.
                      modify h (prev_item new) (next_item_update (\<lambda>_. Some i)))) (\<lambda>h.
       bind_res (modify h (Some c) (\<lambda>node. node\<lparr>next_item := None, prev_item := None\<rparr>)) (\<lambda>h.
       cJSON_Delete (blocks h) h (Some c)))))"
    unfolding cJSON_ReplaceItemInArray_def using a(1) nth c(1) i(1) ne
    by (simp add: h1_def)
  also have "\<dots> = bind_res (if xs = [] then modify h2 (Some a) (child_item_update (\<lambda>_. Some i))
        else modify h2 (prev_item nc) (next_item_update (\<lambda>_. Some i))) (\<lambda>h.
       bind_res (modify h (Some c) (\<lambda>node. node\<lparr>next_item := None, prev_item := None\<rparr>)) (\<lambda>h.
       cJSON_Delete (blocks h) h (Some c)))"
    unfolding h2(1) using n2 first by simp
  also have "\<dots> = cJSON_Delete (blocks ?h) ?h (Some c)"
    unfolding h3(1) using n3 by simp
  finally have run: "cJSON_ReplaceItemInArray h (Some a) which (Some i) = cJSON_Delete (blocks ?h) ?h (Some c)" .
  show thesis
  proof (rule that [OF run])
    have "seg (nodes ?h) None p xs (Some i)" using h3(2) ne by auto
    moreover have "seg (nodes ?h) (last_or None xs) (Some i) (i # ys) None"
    proof -
      have "seg (nodes ?h) (Some i) (next_item nc) ys None" by (rule seg_same [OF h2(2)]) (use h3(5) ne in auto)
      then show ?thesis using n3 ne c(2) by simp
    qed
    ultimately have "seg (nodes ?h) None p (xs @ i # ys) None" by (auto simp: seg_append)
    then show "linked ?h a (xs @ i # ys)" using h3(4) a(3,4) ne by (auto simp: linked_def)
    show "detached ?h c" by (simp add: detached_def)
    show "relinked a ?S h ?h" by (rule relinked_set_links [OF h3(3) n3(1) _ out]) auto
  qed
qed

end
