(* ===== verification/CJson_Tree.thy ===== *)
theory CJson_Tree
  imports CJson_Links
begin

text \<open>
  The items of \<open>CJson_Parse\<close> as they lie in the memory of \<open>CJson_Heap\<close>: which nodes and texts hold an item, what the
  item depends on, and what \<open>cJSON_Delete\<close> frees.
\<close>

section \<open>Items in memory\<close>

text \<open>
  Where an item lies: its node, its two texts and its children. \<open>represents h l t\<close>: the memory at \<open>l\<close> holds the
  item \<open>t\<close>; the links of the topmost node to its siblings are left open.
\<close>

datatype place = Place (address: nat) (value_ref: "text_ref option") (name_ref: "text_ref option") (kids: "place list")

definition is_literal :: "text_ref option \<Rightarrow> bool" where
  "is_literal r \<longleftrightarrow> (case r of Some (Literal s) \<Rightarrow> True | _ \<Rightarrow> False)"

fun represents :: "'d heap \<Rightarrow> place \<Rightarrow> 'd cJSON \<Rightarrow> bool" where
  "represents h (Place a vr nr ls) (Item k vs vi vd nm cs) \<longleftrightarrow>
     (case nodes h a of
        None \<Rightarrow> False
      | Some n \<Rightarrow>
          node_kind n = k \<and> \<not> is_reference n \<and> string_is_const n = is_literal nr \<and>
          node_valuestring n = vr \<and> \<not> is_literal vr \<and> node_string n = nr \<and>
          node_valueint n = vi \<and> node_valuedouble n = vd \<and>
          read_text_opt h vr = Inr vs \<and> read_text_opt h nr = Inr nm \<and>
          seg (nodes h) None (child_item n) (map address ls) None) \<and>
     list_all2 (represents h) ls cs"

definition text_addr :: "text_ref option \<Rightarrow> nat list" where
  "text_addr r = (case r of Some (Allocated a) \<Rightarrow> [a] | _ \<Rightarrow> [])"

fun node_addrs :: "place \<Rightarrow> nat list" where
  "node_addrs (Place a vr nr ls) = a # concat (map node_addrs ls)"

fun text_addrs :: "place \<Rightarrow> nat list" where
  "text_addrs (Place a vr nr ls) = text_addr vr @ text_addr nr @ concat (map text_addrs ls)"

abbreviation all_nodes :: "place list \<Rightarrow> nat list" where
  "all_nodes ls \<equiv> concat (map node_addrs ls)"

abbreviation all_texts :: "place list \<Rightarrow> nat list" where
  "all_texts ls \<equiv> concat (map text_addrs ls)"

lemma address_in [simp]: "address l \<in> set (node_addrs l)"
  by (cases l) simp

lemma node_addrs_cases: "node_addrs l = address l # all_nodes (kids l)"
  by (cases l) simp

lemma read_text_frame:
  "(\<And>x. x \<in> set (text_addr r) \<Longrightarrow> texts h' x = texts h x) \<Longrightarrow> read_text_opt h' r = read_text_opt h r"
  by (auto simp: read_text_opt_def read_text_def text_addr_def split: option.splits text_ref.splits)

text \<open>What an item depends on.\<close>

definition same_node :: "'d node option \<Rightarrow> 'd node option \<Rightarrow> bool" where
  "same_node n n' \<longleftrightarrow> map_option strip n = map_option strip n'"

lemma strip_eq: "strip n = strip n' \<Longrightarrow>
    node_kind n = node_kind n' \<and> is_reference n = is_reference n' \<and> string_is_const n = string_is_const n' \<and>
    node_valuestring n = node_valuestring n' \<and> node_string n = node_string n' \<and> node_valueint n = node_valueint n' \<and>
    node_valuedouble n = node_valuedouble n' \<and> child_item n = child_item n'"
  by (cases n; cases n') (simp add: strip_def)

lemma represents_frame:
  "represents h l t \<Longrightarrow> same_node (nodes h' (address l)) (nodes h (address l)) \<Longrightarrow>
    (\<forall>x \<in> set (all_nodes (kids l)). nodes h' x = nodes h x) \<Longrightarrow>
    (\<forall>x \<in> set (text_addrs l). texts h' x = texts h x) \<Longrightarrow> represents h' l t"
proof (induction h l t rule: represents.induct)
  case (1 h a vr nr ls k vs vi vd nm cs)
  obtain n where n: "nodes h a = Some n" using "1.prems"(1) by (auto split: option.splits)
  obtain n' where n': "nodes h' a = Some n'" "strip n' = strip n"
    using "1.prems"(2) n by (auto simp: same_node_def)
  note eq = strip_eq [OF n'(2)]
  have links: "seg (nodes h') None (child_item n) (map address ls) None"
    by (rule seg_same [where N = "nodes h"]) (use "1.prems"(1,3) n in auto)
  have "list_all2 (represents h') ls cs"
  proof (rule list.rel_mono_strong [where R = "represents h"])
    show "list_all2 (represents h) ls cs" using "1.prems"(1) by simp
    fix l t assume lt: "l \<in> set ls" "t \<in> set cs" "represents h l t"
    show "represents h' l t"
    proof (rule "1.IH" [OF lt])
      show "same_node (nodes h' (address l)) (nodes h (address l))" using "1.prems"(3) lt(1) by (auto simp: same_node_def)
      show "\<forall>x\<in>set (all_nodes (kids l)). nodes h' x = nodes h x"
        using "1.prems"(3) lt(1) by (auto simp: node_addrs_cases [of l])
      show "\<forall>x\<in>set (text_addrs l). texts h' x = texts h x" using "1.prems"(4) lt(1) by auto
    qed
  qed
  moreover have "read_text_opt h' vr = read_text_opt h vr" "read_text_opt h' nr = read_text_opt h nr"
    using "1.prems"(4) by (auto intro!: read_text_frame)
  ultimately show ?case using "1.prems"(1) n n' eq links by simp
qed

lemma represents_same: "represents h l t \<Longrightarrow> (\<forall>x \<in> set (node_addrs l). nodes h' x = nodes h x) \<Longrightarrow>
    (\<forall>x \<in> set (text_addrs l). texts h' x = texts h x) \<Longrightarrow> represents h' l t"
  by (erule represents_frame) (auto simp: same_node_def node_addrs_cases [of l])

lemma represents_address: "represents h l t \<Longrightarrow> \<exists>n. nodes h (address l) = Some n"
  by (cases l; cases t) (auto split: option.splits)

lemma represents_name: "represents h l t \<Longrightarrow> nodes h (address l) = Some n \<Longrightarrow>
    read_text_opt h (node_string n) = Inr (item_name t) \<and> node_string n = name_ref l"
  by (cases l; cases t) auto

section \<open>Deleting\<close>

definition without_texts :: "'d heap \<Rightarrow> nat list \<Rightarrow> 'd heap" where
  "without_texts h as = h\<lparr>texts := (\<lambda>x. if x \<in> set as then None else texts h x)\<rparr>"

definition without_items :: "'d heap \<Rightarrow> place list \<Rightarrow> 'd heap" where
  "without_items h ls =
     h\<lparr>nodes := (\<lambda>x. if x \<in> set (all_nodes ls) then None else nodes h x),
       texts := (\<lambda>x. if x \<in> set (all_texts ls) then None else texts h x)\<rparr>"

lemma without_simps [simp]:
  "nodes (without_texts h as) = nodes h" "blocks (without_texts h as) = blocks h"
  "texts (without_texts h as) x = (if x \<in> set as then None else texts h x)"
  "nodes (without_items h ls) x = (if x \<in> set (all_nodes ls) then None else nodes h x)"
  "texts (without_items h ls) x = (if x \<in> set (all_texts ls) then None else texts h x)"
  "blocks (without_items h ls) = blocks h"
  by (simp_all add: without_texts_def without_items_def)

lemma without_Nil [simp]: "without_items h [] = h" "without_texts h [] = h"
  by (simp_all add: without_items_def without_texts_def)

lemma heap_eqI:
  "(\<And>x. nodes h x = nodes h' x) \<Longrightarrow> (\<And>x. texts h x = texts h' x) \<Longrightarrow> blocks h = blocks h' \<Longrightarrow> h = (h' :: 'd heap)"
  by (cases h; cases h') (auto simp: fun_eq_iff)

lemma free_text_ok:
  assumes "\<not> is_literal r" and "read_text_opt h r = Inr v"
  shows "free_text h r = Inr (without_texts h (text_addr r))"
proof (cases r)
  case (Some ref)
  then obtain a where a: "r = Some (Allocated a)" using assms(1) by (cases ref) (auto simp: is_literal_def)
  then obtain s where s: "texts h a = Some s"
    using assms(2) by (auto simp: read_text_opt_def read_text_def split: option.splits)
  have "h\<lparr>texts := (texts h)(a := None)\<rparr> = without_texts h [a]" by (rule heap_eqI) auto
  then show ?thesis using a s by (simp add: free_text_def text_addr_def)
qed (simp add: free_text_def text_addr_def)

lemma text_addr_literal: "is_literal r \<Longrightarrow> text_addr r = []"
  by (auto simp: is_literal_def text_addr_def split: option.splits text_ref.splits)

lemma Delete_items:
  "list_all2 (represents h) ls ts \<Longrightarrow> seg (nodes h) q p (map address ls) None \<Longrightarrow> distinct (all_nodes ls) \<Longrightarrow>
    distinct (all_texts ls) \<Longrightarrow> length (all_nodes ls) \<le> n \<Longrightarrow> cJSON_Delete n h p = Inr (without_items h ls)"
proof (induction n arbitrary: h q p ls ts)
  case 0
  have "node_addrs l \<noteq> []" for l by (cases l) simp
  then have "ls = []" using 0 by (cases ls) auto
  then show ?case using 0 by simp
next
  case (Suc n)
  show ?case
  proof (cases ls)
    case Nil
    then show ?thesis using Suc.prems by simp
  next
    case (Cons l ls')
    obtain t ts' where ts: "ts = t # ts'" "represents h l t" "list_all2 (represents h) ls' ts'"
      using Suc.prems(1) Cons by (auto simp: list_all2_Cons1)
    obtain a vr nr ks where l: "l = Place a vr nr ks" by (cases l)
    obtain k vs vi vd nm cs where t: "t = Item k vs vi vd nm cs" by (cases t)
    obtain nd where nd: "nodes h a = Some nd" "\<not> is_reference nd" "string_is_const nd = is_literal nr"
        "node_valuestring nd = vr" "\<not> is_literal vr" "node_string nd = nr" "read_text_opt h vr = Inr vs"
        "read_text_opt h nr = Inr nm" "seg (nodes h) None (child_item nd) (map address ks) None"
        "list_all2 (represents h) ks cs"
      using ts(2) unfolding l t by (auto split: option.splits)
    have p: "p = Some a" "seg (nodes h) (Some a) (next_item nd) (map address ls') None"
      using Suc.prems(2) Cons l nd(1) by auto
    have dn: "a \<notin> set (all_nodes ks)" "a \<notin> set (all_nodes ls')" "distinct (all_nodes ks)" "distinct (all_nodes ls')"
        "set (all_nodes ks) \<inter> set (all_nodes ls') = {}"
      using Suc.prems(3) Cons l by auto
    have dt: "distinct (all_texts ks)" "distinct (all_texts ls')" "set (text_addr vr) \<inter> set (all_texts ks) = {}"
        "set (text_addr nr) \<inter> set (all_texts ks) = {}" "set (text_addr vr) \<inter> set (text_addr nr) = {}"
        "(set (text_addr vr) \<union> set (text_addr nr) \<union> set (all_texts ks)) \<inter> set (all_texts ls') = {}"
      using Suc.prems(4) Cons l by auto
    have del_kids: "cJSON_Delete n h (child_item nd) = Inr (without_items h ks)"
      by (rule Suc.IH [OF nd(10,9) dn(3) dt(1)]) (use Suc.prems(5) Cons l in auto)
    let ?h1 = "without_items h ks"
    let ?h2 = "without_texts ?h1 (text_addr vr)"
    let ?h3 = "without_texts ?h2 (text_addr nr)"
    let ?h4 = "?h3\<lparr>nodes := (nodes ?h3)(a := None)\<rparr>"
    have "read_text_opt ?h1 vr = read_text_opt h vr" by (rule read_text_frame) (use dt(3) in auto)
    then have "read_text_opt ?h1 vr = Inr vs" using nd(7) by simp
    then have free_v: "free_text ?h1 vr = Inr ?h2" by (rule free_text_ok [OF nd(5)])
    have "read_text_opt ?h2 nr = read_text_opt h nr" by (rule read_text_frame) (use dt(4,5) in auto)
    then have "read_text_opt ?h2 nr = Inr nm" using nd(8) by simp
    then have free_s: "(if \<not> string_is_const nd then free_text ?h2 nr else Inr ?h2) = Inr ?h3"
      using free_text_ok [of nr ?h2] text_addr_literal [of nr] nd(3) by simp
    have "free_node ?h3 a = Inr ?h4" using nd(1) dn(1) by (simp add: free_node_def)
    then have step: "cJSON_Delete (Suc n) h p = cJSON_Delete n ?h4 (next_item nd)"
      using nd(1,2,4,6) dn(1) free_v free_s by (cases "string_is_const nd") (simp_all add: p(1) del_kids)
    have "cJSON_Delete n ?h4 (next_item nd) = Inr (without_items ?h4 ls')"
    proof (rule Suc.IH [OF _ _ dn(4) dt(2)])
      show "list_all2 (represents ?h4) ls' ts'"
      proof (rule list.rel_mono_strong [OF ts(3)])
        fix l' t' assume l': "l' \<in> set ls'" "represents h l' t'"
        show "represents ?h4 l' t'"
          by (rule represents_same [OF l'(2)]) (use l'(1) dn(2,5) dt(6) in auto)
      qed
      show "seg (nodes ?h4) (Some a) (next_item nd) (map address ls') None"
      proof (rule seg_same [OF p(2)], rule ballI)
        fix x assume "x \<in> set (map address ls')"
        then have "x \<in> set (all_nodes ls')" by force
        then show "nodes ?h4 x = nodes h x" using dn(2,5) by auto
      qed
      show "length (all_nodes ls') \<le> n" using Suc.prems(5) Cons l by simp
    qed
    moreover have "without_items ?h4 ls' = without_items h ls"
      unfolding Cons l by (rule heap_eqI) auto
    ultimately show ?thesis using step by simp
  qed
qed

end
