(* ===== verification/CJson_Items.thy ===== *)
theory CJson_Items
  imports CJson_Tree
begin

text \<open>
  Arrays of items in memory, what relinking them leaves intact, and \<open>cJSON_Duplicate\<close>, which makes a copy that
  shares nothing with the original.
\<close>

section \<open>Arrays of represented items\<close>

lemma ranges_join: "A \<subseteq> {lo..<m} \<Longrightarrow> B \<subseteq> {m..<k} \<Longrightarrow> lo \<le> m \<Longrightarrow> m \<le> k \<Longrightarrow> A \<union> B \<subseteq> {lo..<k}" for lo m :: nat
  by force

lemma disjoint_ranges: "A \<subseteq> {n..<k} \<Longrightarrow> B \<subseteq> {m..<n} \<Longrightarrow> A \<inter> B = {}" for n :: nat
  by force

definition array_at :: "'d heap \<Rightarrow> nat \<Rightarrow> place list \<Rightarrow> 'd cJSON list \<Rightarrow> bool" where
  "array_at h a ls ts \<longleftrightarrow> linked h a (map address ls) \<and> list_all2 (represents h) ls ts \<and>
     distinct (a # all_nodes ls) \<and> distinct (all_texts ls)"

lemma address_all: "l \<in> set ls \<Longrightarrow> address l \<in> set (all_nodes ls)"
  by force

lemma addresses_subset: "set (map address ls) \<subseteq> set (all_nodes ls)"
  by force

lemma represents_relinked:
  assumes "represents h l t" and "relinked a S h h'" and "a \<notin> set (node_addrs l)" and "S \<inter> set (all_nodes (kids l)) = {}"
  shows "represents h' l t"
proof (rule represents_frame [OF assms(1)])
  have a: "address l \<noteq> a" using assms(3) address_in [of l] by metis
  show "same_node (nodes h' (address l)) (nodes h (address l))"
    using assms(2) a by (cases "address l \<in> S") (auto simp: relinked_def same_node_def)
  show "\<forall>x\<in>set (all_nodes (kids l)). nodes h' x = nodes h x"
  proof
    fix x assume x: "x \<in> set (all_nodes (kids l))"
    then have "x \<notin> S" using assms(4) by auto
    moreover have "x \<noteq> a" using x assms(3) unfolding node_addrs_cases [of l] by auto
    ultimately show "nodes h' x = nodes h x" using assms(2) by (simp add: relinked_def)
  qed
  show "\<forall>x\<in>set (text_addrs l). texts h' x = texts h x" using assms(2) by (simp add: relinked_def)
qed

lemma kids_not_addresses:
  assumes "distinct (all_nodes ls)" and "l \<in> set ls"
  shows "set (map address ls) \<inter> set (all_nodes (kids l)) = {}"
  using assms
proof (induction ls)
  case (Cons m ls)
  have m: "set (node_addrs m) \<inter> set (all_nodes ls) = {}" "distinct (node_addrs m)" using Cons.prems(1) by auto
  have sub: "set (all_nodes (kids l)) \<subseteq> set (node_addrs l)" for l using node_addrs_cases [of l] by auto
  show ?case
  proof (cases "l = m")
    case True
    have "address m \<notin> set (all_nodes (kids m))" using m(2) node_addrs_cases [of m] by (metis distinct.simps(2))
    moreover have "set (map address ls) \<inter> set (all_nodes (kids m)) = {}"
      using m(1) sub [of m] addresses_subset [of ls] by blast
    ultimately show ?thesis using True by auto
  next
    case False
    then have l: "l \<in> set ls" using Cons.prems(2) by simp
    then have "set (all_nodes (kids l)) \<subseteq> set (all_nodes ls)" using sub [of l] by auto
    then have "address m \<notin> set (all_nodes (kids l))" using m(1) address_in [of m] by blast
    then show ?thesis using Cons.IH l Cons.prems(1) by auto
  qed
qed simp

lemma array_at_relinked:
  assumes "array_at h a ls ts" and "relinked a S h h'" and "linked h' a (map address ls')"
    and "S \<subseteq> set (map address ms)" and "distinct (a # all_nodes ms)"
    and "set ls' \<subseteq> set ms" and "list_all2 (represents h) ls' ts'" and "distinct (all_nodes ls')" "distinct (all_texts ls')"
  shows "array_at h' a ls' ts'"
proof -
  have "list_all2 (represents h') ls' ts'"
  proof (rule list.rel_mono_strong [OF assms(7)])
    fix l t assume l: "l \<in> set ls'" "represents h l t"
    then have lm: "l \<in> set ms" using assms(6) by auto
    show "represents h' l t"
    proof (rule represents_relinked [OF l(2) assms(2)])
      show "a \<notin> set (node_addrs l)" using assms(5) lm by auto
      show "S \<inter> set (all_nodes (kids l)) = {}" using kids_not_addresses [of ms l] assms(4,5) lm by auto
    qed
  qed
  moreover have "a \<notin> set (all_nodes ls')" using assms(5,6) by auto
  ultimately show ?thesis using assms(3,8,9) by (simp add: array_at_def)
qed

lemma link_last_array:
  assumes "array_at h a ls ts" and "represents h l t" and "detached h (address l)"
    and "distinct (a # all_nodes (ls @ [l]))" and "distinct (all_texts (ls @ [l]))"
  obtains h' where "link_last h a (last_or None (map address ls)) (address l) = Inr h'" "array_at h' a (ls @ [l]) (ts @ [t])"
    "relinked a (set (map address (ls @ [l]))) h h'"
proof -
  have ln: "linked h a (map address ls)" using assms(1) by (simp add: array_at_def)
  have "address l \<notin> set (all_nodes ls)" "address l \<noteq> a" using assms(4) address_in [of l] by auto
  then have "address l \<notin> insert a (set (map address ls))" using addresses_subset [of ls] by blast
  then obtain h' where h': "link_last h a (last_or None (map address ls)) (address l) = Inr h'"
      "linked h' a (map address ls @ [address l])" "relinked a (insert (address l) (set (map address ls))) h h'"
    by (rule link_last_linked [OF ln assms(3)])
  have S: "insert (address l) (set (map address ls)) = set (map address (ls @ [l]))" by auto
  have "array_at h' a (ls @ [l]) (ts @ [t])"
  proof (rule array_at_relinked [OF assms(1) h'(3)])
    show "list_all2 (represents h) (ls @ [l]) (ts @ [t])"
      using assms(1,2) by (simp add: array_at_def list_all2_appendI)
    show "insert (address l) (set (map address ls)) \<subseteq> set (map address (ls @ [l]))" by auto
  qed (use assms(4,5) h'(2) in auto)
  then show thesis using that h' S by metis
qed

lemma relinked_heap_ok: "relinked a S h h' \<Longrightarrow> heap_ok h \<Longrightarrow> heap_ok h'"
proof -
  assume r: "relinked a S h h'" and h: "heap_ok h"
  have "x < blocks h" if "nodes h' x \<noteq> None" for x
  proof -
    have "nodes h x \<noteq> None"
    proof (cases "x \<in> S")
      case True
      then have "map_option strip (nodes h' x) = map_option strip (nodes h x)" using r by (simp add: relinked_def)
      then show ?thesis using that by (cases "nodes h x") auto
    next
      case False
      then show ?thesis using r that by (cases "x = a") (auto simp: relinked_def)
    qed
    then show ?thesis using h by (simp add: heap_ok_def)
  qed
  then show ?thesis using r h by (auto simp: heap_ok_def relinked_def)
qed

section \<open>Duplicating\<close>

text \<open>Nothing below \<open>lo\<close> has changed; new blocks have been allocated above.\<close>

definition kept :: "nat \<Rightarrow> 'd heap \<Rightarrow> 'd heap \<Rightarrow> bool" where
  "kept lo h h' \<longleftrightarrow> heap_ok h' \<and> blocks h \<le> blocks h' \<and> (\<forall>x < lo. nodes h' x = nodes h x \<and> texts h' x = texts h x)"

lemma kept_trans: "kept lo h h' \<Longrightarrow> kept lo' h' h'' \<Longrightarrow> lo \<le> lo' \<Longrightarrow> kept lo h h''"
  by (auto simp: kept_def)

lemma represents_kept: "kept lo h h' \<Longrightarrow> represents h l t \<Longrightarrow> set (node_addrs l) \<subseteq> {..<lo} \<Longrightarrow> set (text_addrs l) \<subseteq> {..<lo} \<Longrightarrow>
    represents h' l t"
  by (rule represents_same) (auto simp: kept_def)

lemma read_text_below:
  assumes "heap_ok h" and "read_text_opt h r = Inr v" and "x \<in> set (text_addr r)"
  shows "x < blocks h"
proof -
  have "texts h x \<noteq> None"
    using assms(2,3)
    by (cases "texts h x") (auto simp: text_addr_def read_text_opt_def read_text_def split: option.splits text_ref.splits)
  then show ?thesis using assms(1) by (simp add: heap_ok_def)
qed

lemma represents_below:
  "represents h l t \<Longrightarrow> heap_ok h \<Longrightarrow> set (node_addrs l) \<union> set (text_addrs l) \<subseteq> {..<blocks h}"
proof (induction h l t rule: represents.induct)
  case (1 h a vr nr ls k vs vi vd nm cs)
  obtain n where n: "nodes h a = Some n" using "1.prems"(1) by (auto split: option.splits)
  have "read_text_opt h vr = Inr vs" "read_text_opt h nr = Inr nm" using "1.prems"(1) n by auto
  note below = read_text_below [OF "1.prems"(2) this(1)] read_text_below [OF "1.prems"(2) this(2)]
  have kids: "set (node_addrs l) \<union> set (text_addrs l) \<subseteq> {..<blocks h}" if l: "l \<in> set ls" for l
  proof -
    have "list_all2 (represents h) ls cs" using "1.prems"(1) by simp
    moreover obtain i where "i < length ls" "l = ls ! i" using l by (auto simp: in_set_conv_nth)
    ultimately have "represents h l (cs ! i)" "cs ! i \<in> set cs"
      by (auto dest: list_all2_nthD list_all2_lengthD)
    then show ?thesis using "1.IH" [OF l] "1.prems"(2) by blast
  qed
  have "a < blocks h" using n "1.prems"(2) by (simp add: heap_ok_def)
  then show ?case using kids below by auto
qed

lemma strdup_ok:
  assumes "heap_ok h" and "read_text h r = Inr s"
  obtains h' where "cJSON_strdup h r = Inr (Allocated (blocks h), h')" "read_text h' (Allocated (blocks h)) = Inr s"
    "kept (blocks h) h h'" "blocks h' = blocks h + 1" "nodes h' = nodes h"
proof -
  let ?h = "h\<lparr>texts := (texts h)(blocks h \<mapsto> s), blocks := blocks h + 1\<rparr>"
  have "kept (blocks h) h ?h" using assms(1) by (auto simp: kept_def heap_ok_def less_Suc_eq)
  then show thesis using that [of ?h] assms(2) by (simp add: cJSON_strdup_def read_text_def)
qed

lemma copy_text_ok:
  assumes "heap_ok h" and "read_text_opt h r = Inr v" and "\<not> is_literal r" and "nodes h b = Some n" and "b < blocks h"
  obtains r' h' where
    "(case r of None \<Rightarrow> Inr h
      | Some r \<Rightarrow> bind_res (cJSON_strdup h r) (\<lambda>(r, h). modify h (Some b) (field (\<lambda>_. Some r)))) = Inr h'"
    "read_text_opt h' r' = Inr v" "\<not> is_literal r'" "set (text_addr r') \<subseteq> {blocks h..<blocks h'}"
    "heap_ok h'" "blocks h \<le> blocks h'" "\<forall>x < blocks h. texts h' x = texts h x" "\<forall>x. x \<noteq> b \<longrightarrow> nodes h' x = nodes h x"
    "nodes h' b = Some (if r = None then n else field (\<lambda>_. r') n)" "r = None \<longleftrightarrow> r' = None"
proof (cases r)
  case None
  then show thesis using that [of h None] assms by (auto simp: text_addr_def)
next
  case (Some ref)
  then obtain s where s: "read_text h ref = Inr s" "v = Some s"
    using assms(2) by (auto simp: read_text_opt_def fault_simps)
  obtain h1 where h1: "cJSON_strdup h ref = Inr (Allocated (blocks h), h1)" "read_text h1 (Allocated (blocks h)) = Inr s"
    "kept (blocks h) h h1" "blocks h1 = blocks h + 1" "nodes h1 = nodes h"
    by (rule strdup_ok [OF assms(1) s(1)])
  let ?h = "set_node h1 b (field (\<lambda>_. Some (Allocated (blocks h))) n)"
  have "heap_ok ?h" using h1(3,4) assms(5) by (auto simp: kept_def heap_ok_def)
  moreover have "read_text_opt ?h (Some (Allocated (blocks h))) = Inr v"
    using h1(2) s(2) by (simp add: read_text_opt_def read_text_def)
  moreover have "\<forall>x < blocks h. texts ?h x = texts h x" using h1(3) by (simp add: kept_def)
  ultimately show thesis
    using that [of ?h "Some (Allocated (blocks h))"] Some h1 assms(4) by (auto simp: text_addr_def is_literal_def)
qed

lemma copy_fields_ok:
  assumes h: "heap_ok h" and nd: "node_valuestring nd = vr" "\<not> is_literal vr" "node_string nd = nr"
      "string_is_const nd = is_literal nr" "read_text_opt h vr = Inr vs" "read_text_opt h nr = Inr nm"
  obtains h' nb vr' nr' where "copy_fields D nd h = Inr (blocks h, h')" "nodes h' (blocks h) = Some nb"
    "node_kind nb = node_kind nd" "\<not> is_reference nb" "string_is_const nb = is_literal nr'" "node_valuestring nb = vr'"
    "\<not> is_literal vr'" "node_string nb = nr'" "node_valueint nb = node_valueint nd"
    "node_valuedouble nb = node_valuedouble nd" "read_text_opt h' vr' = Inr vs" "read_text_opt h' nr' = Inr nm"
    "child_item nb = None" "next_item nb = None" "prev_item nb = None" "kept (blocks h) h h'"
    "distinct (text_addr vr' @ text_addr nr')" "set (text_addr vr' @ text_addr nr') \<subseteq> {blocks h..<blocks h'}"
    "blocks h < blocks h'"
proof -
  let ?b = "blocks h"
  let ?n0 = "(zero_node D)\<lparr>node_kind := node_kind nd, string_is_const := string_is_const nd,
      node_valueint := node_valueint nd, node_valuedouble := node_valuedouble nd\<rparr>"
  let ?h0 = "h\<lparr>nodes := (nodes h)(?b \<mapsto> ?n0), blocks := ?b + 1\<rparr>"
  have ok0: "heap_ok ?h0" using h by (auto simp: heap_ok_def less_Suc_eq)
  have r0: "read_text_opt ?h0 r = read_text_opt h r" for r by (rule read_text_frame) simp
  have v0: "read_text_opt ?h0 vr = Inr vs" and n0: "nodes ?h0 ?b = Some ?n0" and b0: "?b < blocks ?h0"
    using nd(5) r0 [of vr] by simp_all
  obtain vr' h1 where h1: "(case vr of None \<Rightarrow> Inr ?h0
      | Some r \<Rightarrow> bind_res (cJSON_strdup ?h0 r) (\<lambda>(r, h). modify h (Some ?b) (node_valuestring_update (\<lambda>_. Some r)))) = Inr h1"
    "read_text_opt h1 vr' = Inr vs" "\<not> is_literal vr'" "set (text_addr vr') \<subseteq> {blocks ?h0..<blocks h1}"
    "heap_ok h1" "blocks ?h0 \<le> blocks h1" "\<forall>x < blocks ?h0. texts h1 x = texts ?h0 x" "\<forall>x. x \<noteq> ?b \<longrightarrow> nodes h1 x = nodes ?h0 x"
    "nodes h1 ?b = Some (if vr = None then ?n0 else node_valuestring_update (\<lambda>_. vr') ?n0)" "vr = None \<longleftrightarrow> vr' = None"
    by (rule copy_text_ok [OF ok0 v0 nd(2) n0 b0])
  let ?n1 = "?n0\<lparr>node_valuestring := vr'\<rparr>"
  have n1: "nodes h1 ?b = Some ?n1" using h1(9,10) by (auto simp: zero_node_def)
  have r1: "read_text_opt h1 nr = Inr nm"
  proof -
    have "x < blocks h" if "x \<in> set (text_addr nr)" for x by (rule read_text_below [OF h nd(6) that])
    then have "read_text_opt h1 nr = read_text_opt h nr" using h1(7) by (intro read_text_frame) (simp add: less_Suc_eq)
    then show ?thesis using nd(6) by simp
  qed
  have cf: "copy_fields D nd h = bind_res (case nr of
                  None \<Rightarrow> Inr h1
                | Some r \<Rightarrow>
                    if string_is_const nd then modify h1 (Some ?b) (node_string_update (\<lambda>_. Some r))
                    else bind_res (cJSON_strdup h1 r) (\<lambda>(r, h).
                      modify h (Some ?b) (node_string_update (\<lambda>_. Some r)))) (\<lambda>h. Inr (?b, h))"
    unfolding copy_fields_def new_node_def Let_def prod.case nd(1,3) h1(1) bind_res.simps ..
  show thesis
  proof (cases "is_literal nr")
    case True
    then obtain s where nr: "nr = Some (Literal s)" by (auto simp: is_literal_def split: option.splits text_ref.splits)
    let ?h = "set_node h1 ?b (?n1\<lparr>node_string := nr\<rparr>)"
    have rt: "read_text_opt ?h r = read_text_opt h1 r" for r by (rule read_text_frame) simp
    show thesis
    proof (rule that [of ?h "?n1\<lparr>node_string := nr\<rparr>" nr vr'])
      show "copy_fields D nd h = Inr (?b, ?h)" using n1 nd(4) True nr by (simp add: cf)
      show "kept ?b h ?h" using h1(5-8) n1 by (auto simp: kept_def heap_ok_def)
      show "set (text_addr vr' @ text_addr nr) \<subseteq> {blocks h..<blocks ?h}"
        using h1(4) nr by (auto simp: text_addr_def split: option.splits text_ref.splits)
      show "distinct (text_addr vr' @ text_addr nr)"
        using nr by (auto simp: text_addr_def split: option.splits text_ref.splits)
      show "read_text_opt ?h vr' = Inr vs" using rt h1(2) by simp
      show "read_text_opt ?h nr = Inr nm" using rt r1 by simp
      show "blocks h < blocks ?h" using h1(6) by simp
    qed (use h1(3) nd(4) True in \<open>simp_all add: zero_node_def\<close>)
  next
    case False
    have b1: "?b < blocks h1" using h1(6) by simp
    obtain nr' h2 where h2: "(case nr of None \<Rightarrow> Inr h1
        | Some r \<Rightarrow> bind_res (cJSON_strdup h1 r) (\<lambda>(r, h). modify h (Some ?b) (node_string_update (\<lambda>_. Some r)))) = Inr h2"
      "read_text_opt h2 nr' = Inr nm" "\<not> is_literal nr'" "set (text_addr nr') \<subseteq> {blocks h1..<blocks h2}"
      "heap_ok h2" "blocks h1 \<le> blocks h2" "\<forall>x < blocks h1. texts h2 x = texts h1 x" "\<forall>x. x \<noteq> ?b \<longrightarrow> nodes h2 x = nodes h1 x"
      "nodes h2 ?b = Some (if nr = None then ?n1 else node_string_update (\<lambda>_. nr') ?n1)" "nr = None \<longleftrightarrow> nr' = None"
      by (rule copy_text_ok [OF h1(5) r1 False n1 b1])
    have n2: "nodes h2 ?b = Some (?n1\<lparr>node_string := nr'\<rparr>)" using h2(9,10) by (auto simp: zero_node_def)
    show thesis
    proof (rule that [of h2 "?n1\<lparr>node_string := nr'\<rparr>" nr' vr'])
      show "copy_fields D nd h = Inr (?b, h2)" using h2(1) nd(4) False by (cases nr) (simp_all add: cf)
      show "kept ?b h h2" using h1(6-8) h2(5-8) by (auto simp: kept_def)
      have "read_text_opt h2 vr' = read_text_opt h1 vr'" using h1(4) h2(7) by (intro read_text_frame) auto
      then show "read_text_opt h2 vr' = Inr vs" using h1(2) by simp
      show "read_text_opt h2 nr' = Inr nm" by (rule h2(2))
      show "distinct (text_addr vr' @ text_addr nr')"
        using h1(4) h2(4) by (auto simp: text_addr_def split: option.splits text_ref.splits)
      show "set (text_addr vr' @ text_addr nr') \<subseteq> {blocks h..<blocks h2}" using h1(4,6) h2(4,6) by auto
      show "blocks h < blocks h2" using h1(6) h2(6) by simp
    qed (use n2 h1(3) h2(3) nd(4) False in \<open>simp_all add: zero_node_def\<close>)
  qed
qed

lemma duplicate_children_simp:
  "duplicate_children D (Suc n) (Some c) b nptr h =
     bind_res (cJSON_Duplicate D n (Some c) True h) (\<lambda>(newchild, h).
     bind_res (case newchild of None \<Rightarrow> Inl Invalid_Access | Some i \<Rightarrow> link_last h b nptr i) (\<lambda>h.
     bind_res (load h (Some c)) (\<lambda>node. duplicate_children D n (next_item node) b newchild h)))"
  if copied: "\<And>h'. cJSON_Duplicate D n (Some c) True h \<noteq> Inr (None, h')"
proof (cases "cJSON_Duplicate D n (Some c) True h")
  case (Inr r)
  obtain p h' where r: "r = (p, h')" by (rule prod.exhaust)
  then obtain i where "p = Some i" using Inr copied [of h'] by (cases p) auto
  note r [unfolded this]
  then show ?thesis using Inr by (cases nptr) (simp_all add: link_last_def suffix_object_def)
qed simp

lemma kept_above: "kept lo h h' \<Longrightarrow> lo' \<le> lo \<Longrightarrow> kept lo' h h'"
  by (auto simp: kept_def)

definition item_copied :: "'d doubles \<Rightarrow> nat \<Rightarrow> 'd heap \<Rightarrow> place \<Rightarrow> 'd cJSON \<Rightarrow> bool" where
  "item_copied D n h l t \<longleftrightarrow>
     (\<exists>l' h'. cJSON_Duplicate D n (Some (address l)) True h = Inr (Some (address l'), h') \<and>
        represents h' l' t \<and> detached h' (address l') \<and> kept (blocks h) h h' \<and>
        distinct (node_addrs l') \<and> distinct (text_addrs l') \<and>
        set (node_addrs l') \<union> set (text_addrs l') \<subseteq> {blocks h..<blocks h'})"

definition children_copied ::
  "'d doubles \<Rightarrow> nat \<Rightarrow> 'd heap \<Rightarrow> nat option \<Rightarrow> 'd cJSON list \<Rightarrow> nat \<Rightarrow> nat \<Rightarrow> place list \<Rightarrow> 'd cJSON list \<Rightarrow> bool" where
  "children_copied D n h c ts lo b ds us \<longleftrightarrow>
     (\<exists>ls h' nb ch. duplicate_children D n c b (last_or None (map address ds)) h = Inr h' \<and>
        array_at h' b (ds @ ls) (us @ ts) \<and> nodes h b = Some nb \<and> nodes h' b = Some (nb\<lparr>child_item := ch\<rparr>) \<and>
        kept lo h h' \<and> (\<forall>x < blocks h. texts h' x = texts h x) \<and>
        set (all_nodes ls) \<union> set (all_texts ls) \<subseteq> {blocks h..<blocks h'})"

lemma array_at_kept:
  assumes "array_at h a ls ts" and "kept (blocks h) h h'" and "heap_ok h"
  shows "array_at h' a ls ts"
proof -
  obtain n where n: "nodes h a = Some n" "seg (nodes h) None (child_item n) (map address ls) None"
    using assms(1) by (auto simp: array_at_def linked_def)
  have present: "nodes h' x = nodes h x" if "nodes h x \<noteq> None" for x
    using that assms(2,3) by (auto simp: kept_def heap_ok_def)
  have "seg (nodes h') None (child_item n) (map address ls) None"
    by (rule seg_same [OF n(2)]) (use seg_present [OF n(2)] present in force)
  moreover have "list_all2 (represents h') ls ts"
  proof (rule list.rel_mono_strong)
    show "list_all2 (represents h) ls ts" using assms(1) by (simp add: array_at_def)
    show "represents h' l t" if "represents h l t" for l t
      using represents_kept [OF assms(2) that] represents_below [OF that assms(3)] by simp
  qed
  ultimately show ?thesis using assms(1) n present [of a] by (simp add: array_at_def linked_def)
qed

lemma duplicate_ok:
  "(\<forall>h l t. heap_ok h \<and> represents h l t \<and> 2 * length (node_addrs l) \<le> n \<longrightarrow> item_copied D n h l t) \<and>
   (\<forall>h q c ls ts lo b ds us. heap_ok h \<and> list_all2 (represents h) ls ts \<and> seg (nodes h) q c (map address ls) None \<and>
      2 * length (all_nodes ls) < n \<and> set (all_nodes ls) \<union> set (all_texts ls) \<subseteq> {..<lo} \<and> lo \<le> b \<and> b < blocks h \<and>
      array_at h b ds us \<and> set (all_nodes ds) \<subseteq> {lo..<blocks h} \<and> set (all_texts ds) \<subseteq> {lo..<blocks h} \<longrightarrow>
      children_copied D n h c ts lo b ds us)"
proof (induction n)
  case 0
  have "node_addrs l \<noteq> []" for l by (cases l) simp
  then show ?case by auto
next
  case (Suc n)
  have item: "item_copied D (Suc n) h l t"
    if h: "heap_ok h" and r: "represents h l t" and len: "2 * length (node_addrs l) \<le> Suc n" for h l t
  proof -
    obtain a vr nr ks where l: "l = Place a vr nr ks" by (cases l)
    obtain k vs vi vd nm cs where t: "t = Item k vs vi vd nm cs" by (cases t)
    obtain nd where nd: "nodes h a = Some nd" "\<not> is_reference nd" "string_is_const nd = is_literal nr"
        "node_valuestring nd = vr" "\<not> is_literal vr" "node_string nd = nr" "read_text_opt h vr = Inr vs"
        "read_text_opt h nr = Inr nm" "seg (nodes h) None (child_item nd) (map address ks) None"
        "list_all2 (represents h) ks cs" "node_kind nd = k" "node_valueint nd = vi" "node_valuedouble nd = vd"
      using r unfolding l t by (auto split: option.splits)
    let ?b = "blocks h"
    obtain h1 nb nr' vr' where c: "copy_fields D nd h = Inr (?b, h1)" "nodes h1 ?b = Some nb"
      "node_kind nb = node_kind nd" "\<not> is_reference nb" "string_is_const nb = is_literal nr'" "node_valuestring nb = vr'"
      "\<not> is_literal vr'" "node_string nb = nr'" "node_valueint nb = node_valueint nd"
      "node_valuedouble nb = node_valuedouble nd" "read_text_opt h1 vr' = Inr vs" "read_text_opt h1 nr' = Inr nm"
      "child_item nb = None" "next_item nb = None" "prev_item nb = None" "kept ?b h h1"
      "distinct (text_addr vr' @ text_addr nr')" "set (text_addr vr' @ text_addr nr') \<subseteq> {?b..<blocks h1}"
      "?b < blocks h1"
      by (rule copy_fields_ok [OF h nd(4,5,6,3,7,8)])
    have below: "set (node_addrs l) \<union> set (text_addrs l) \<subseteq> {..<?b}" by (rule represents_below [OF r h])
    have a: "a < ?b" using below l by simp
    have nd1: "nodes h1 a = Some nd" using c(16) nd(1) a by (simp add: kept_def)
    have h1: "heap_ok h1" using c(16) by (simp add: kept_def)
    have kids1: "list_all2 (represents h1) ks cs"
    proof (rule list.rel_mono_strong [OF nd(10)])
      fix l' t' assume l': "l' \<in> set ks" "represents h l' t'"
      show "represents h1 l' t'"
        by (rule represents_kept [OF c(16) l'(2)]) (use below l l'(1) in auto)
    qed
    have seg1: "seg (nodes h1) None (child_item nd) (map address ks) None"
    proof (rule seg_same [OF nd(9)], rule ballI)
      fix x assume "x \<in> set (map address ks)"
      then have "x < ?b" using addresses_subset [of ks] below l by auto
      then show "nodes h1 x = nodes h x" using c(16) by (simp add: kept_def)
    qed
    have "array_at h1 ?b [] []" using c(2,13) by (simp add: array_at_def linked_def)
    moreover have "2 * length (all_nodes ks) < n" using len l by simp
    moreover have "set (all_nodes ks) \<union> set (all_texts ks) \<subseteq> {..<?b}" using below l by auto
    ultimately have "children_copied D n h1 (child_item nd) cs ?b ?b [] []"
      using Suc.IH h1 kids1 seg1 c(19) by fastforce
    then obtain ls h2 ch where d: "duplicate_children D n (child_item nd) ?b None h1 = Inr h2"
        "array_at h2 ?b ls cs" "nodes h2 ?b = Some (nb\<lparr>child_item := ch\<rparr>)" "kept ?b h1 h2"
        "\<forall>x < blocks h1. texts h2 x = texts h1 x" "set (all_nodes ls) \<union> set (all_texts ls) \<subseteq> {blocks h1..<blocks h2}"
      using c(2) by (auto simp: children_copied_def)
    let ?l = "Place ?b vr' nr' ls"
    have run: "cJSON_Duplicate D (Suc n) (Some (address l)) True h = Inr (Some (address ?l), h2)"
      using nd(1) nd1 c(1) d(1) l by simp
    have tx: "read_text_opt h2 vr' = Inr vs" "read_text_opt h2 nr' = Inr nm"
    proof -
      have "read_text_opt h2 vr' = read_text_opt h1 vr'" "read_text_opt h2 nr' = read_text_opt h1 nr'"
        using c(18) d(5) by (auto intro!: read_text_frame)
      then show "read_text_opt h2 vr' = Inr vs" "read_text_opt h2 nr' = Inr nm" using c(11,12) by simp_all
    qed
    have rep: "represents h2 ?l t"
      using d(2,3) c(3-10) nd(11-13) tx by (auto simp: t array_at_def linked_def)
    have "set (text_addr vr' @ text_addr nr') \<inter> set (all_texts ls) = {}" using d(6) c(18) by fastforce
    then have dist: "distinct (node_addrs ?l)" "distinct (text_addrs ?l)"
      using d(2) c(17) by (auto simp: array_at_def)
    have le: "blocks h1 \<le> blocks h2" using d(4) by (simp add: kept_def)
    have sub: "set (node_addrs ?l) \<union> set (text_addrs ?l) \<subseteq> {?b..<blocks h2}"
      using d(6) c(18,19) le by auto
    have "detached h2 ?b" using d(3) c(14,15) by (simp add: detached_def)
    then show ?thesis
      unfolding item_copied_def
      using run rep dist sub kept_trans [OF c(16) d(4) order_refl] by (intro exI [of _ ?l] exI [of _ h2]) simp
  qed
  have children: "children_copied D (Suc n) h c ts lo b ds us"
    if h: "heap_ok h" and r: "list_all2 (represents h) ls ts" and sg: "seg (nodes h) q c (map address ls) None"
      and len: "2 * length (all_nodes ls) < Suc n" and low: "set (all_nodes ls) \<union> set (all_texts ls) \<subseteq> {..<lo}"
      and b: "lo \<le> b" "b < blocks h" and ds: "array_at h b ds us" "set (all_nodes ds) \<subseteq> {lo..<blocks h}"
      "set (all_texts ds) \<subseteq> {lo..<blocks h}" for h q c ls ts lo b ds us
  proof -
    obtain nb where nb: "nodes h b = Some nb" using ds(1) by (auto simp: array_at_def linked_def)
    show ?thesis
    proof (cases ls)
      case Nil
      have "nodes h b = Some (nb\<lparr>child_item := child_item nb\<rparr>)" using nb by simp
      moreover have "kept lo h h" using h by (simp add: kept_def)
      ultimately show ?thesis unfolding children_copied_def
        using Nil r sg ds(1) nb by (intro exI [of _ "[]"] exI [of _ h] exI [of _ nb] exI [of _ "child_item nb"]) simp
    next
      case (Cons l ls')
      obtain t ts' where ts: "ts = t # ts'" "represents h l t" "list_all2 (represents h) ls' ts'"
        using r Cons by (auto simp: list_all2_Cons1)
      obtain nl where nl: "c = Some (address l)" "nodes h (address l) = Some nl"
          "seg (nodes h) (Some (address l)) (next_item nl) (map address ls') None"
        using sg Cons by (auto split: option.splits)
      have "2 * length (node_addrs l) \<le> n" "2 * length (all_nodes ls') < n"
      proof -
        have "node_addrs l \<noteq> []" by (cases l) simp
        then have "1 \<le> length (node_addrs l)" by (cases "node_addrs l") simp_all
        then show "2 * length (node_addrs l) \<le> n" "2 * length (all_nodes ls') < n" using len Cons by auto
      qed
      note len' = this
      have "item_copied D n h l t" using Suc.IH h ts(2) len'(1) by blast
      then obtain l' h1 where c1: "cJSON_Duplicate D n (Some (address l)) True h = Inr (Some (address l'), h1)"
          "represents h1 l' t" "detached h1 (address l')" "kept (blocks h) h h1" "distinct (node_addrs l')"
          "distinct (text_addrs l')" "set (node_addrs l') \<union> set (text_addrs l') \<subseteq> {blocks h..<blocks h1}"
        by (auto simp: item_copied_def)
      have a1: "array_at h1 b ds us" by (rule array_at_kept [OF ds(1) c1(4) h])
      have h1: "heap_ok h1" "blocks h \<le> blocks h1" using c1(4) by (simp_all add: kept_def)
      have new: "set (node_addrs l') \<subseteq> {blocks h..<blocks h1}" "set (text_addrs l') \<subseteq> {blocks h..<blocks h1}"
        using c1(7) by simp_all
      have fresh: "set (node_addrs l') \<inter> set (all_nodes ds) = {}" "set (text_addrs l') \<inter> set (all_texts ds) = {}"
        by (rule disjoint_ranges [OF new(1) ds(2)], rule disjoint_ranges [OF new(2) ds(3)])
      have "b \<notin> set (node_addrs l')" using new(1) b(2) by force
      note fresh = fresh this
      have d1: "distinct (b # all_nodes (ds @ [l']))" "distinct (all_texts (ds @ [l']))"
        using a1 c1(5,6) fresh by (simp_all add: array_at_def Int_commute)
      obtain h2 where c2: "link_last h1 b (last_or None (map address ds)) (address l') = Inr h2"
          "array_at h2 b (ds @ [l']) (us @ [t])" "relinked b (set (map address (ds @ [l']))) h1 h2"
        by (rule link_last_array [OF a1 c1(2,3) d1])
      have h2: "heap_ok h2" "blocks h2 = blocks h1" "texts h2 = texts h1"
        using relinked_heap_ok [OF c2(3) h1(1)] c2(3) by (auto simp: relinked_def)
      have k2: "kept lo h h2"
      proof -
        have "x \<notin> insert b (set (map address (ds @ [l'])))" if "x < lo" for x
        proof -
          have "set (all_nodes (ds @ [l'])) \<subseteq> {lo..<blocks h1}"
            using ranges_join [OF ds(2) new(1) _ h1(2)] b by simp
          then have "x \<notin> set (all_nodes (ds @ [l']))" using that by force
          moreover have "x \<noteq> b" using that b(1) by simp
          ultimately show ?thesis using addresses_subset [of "ds @ [l']"] by blast
        qed
        then have "nodes h2 x = nodes h1 x" if "x < lo" for x using that c2(3) by (simp add: relinked_def)
        then show ?thesis using c1(4) h1 h2 b by (simp add: kept_def)
      qed
      have "set (node_addrs l) \<subseteq> {..<lo}" using low Cons by simp
      then have "address l < lo" using address_in [of l] by blast
      then have nl2: "nodes h2 (address l) = Some nl" using k2 nl(2) by (simp add: kept_def)
      have "children_copied D n h2 (next_item nl) ts' lo b (ds @ [l']) (us @ [t])"
      proof -
        have "list_all2 (represents h2) ls' ts'"
        proof (rule list.rel_mono_strong [OF ts(3)])
          fix m u assume m: "m \<in> set ls'" "represents h m u"
          show "represents h2 m u" by (rule represents_kept [OF k2 m(2)]) (use low Cons m(1) in auto)
        qed
        moreover have "seg (nodes h2) (Some (address l)) (next_item nl) (map address ls') None"
        proof (rule seg_same [OF nl(3)], rule ballI)
          fix x assume "x \<in> set (map address ls')"
          then have "x < lo" using addresses_subset [of ls'] low Cons by auto
          then show "nodes h2 x = nodes h x" using k2 by (simp add: kept_def)
        qed
        moreover have "set (all_nodes ls') \<union> set (all_texts ls') \<subseteq> {..<lo}" using low Cons by auto
        moreover have "set (all_nodes (ds @ [l'])) \<subseteq> {lo..<blocks h2}" "set (all_texts (ds @ [l'])) \<subseteq> {lo..<blocks h2}"
          using ranges_join [OF ds(2) new(1) _ h1(2)] ranges_join [OF ds(3) new(2) _ h1(2)] h2(2) b by simp_all
        moreover have "b < blocks h2" using b(2) h1(2) h2(2) by simp
        ultimately show ?thesis using Suc.IH h2(1) len'(2) b(1) c2(2) by blast
      qed
      then obtain ls'' h3 nb2 ch where c3: "duplicate_children D n (next_item nl) b (Some (address l')) h2 = Inr h3"
          "array_at h3 b ((ds @ [l']) @ ls'') ((us @ [t]) @ ts')" "nodes h2 b = Some nb2" "nodes h3 b = Some (nb2\<lparr>child_item := ch\<rparr>)"
          "kept lo h2 h3" "\<forall>x < blocks h2. texts h3 x = texts h2 x" "set (all_nodes ls'') \<union> set (all_texts ls'') \<subseteq> {blocks h2..<blocks h3}"
        by (auto simp: children_copied_def last_or_append)
      have run: "duplicate_children D (Suc n) c b (last_or None (map address ds)) h = Inr h3"
        unfolding nl(1) using c1(1) c2(1) nl2 c3(1) by (subst duplicate_children_simp) simp_all
      have nb3: "nodes h3 b = Some (nb\<lparr>child_item := ch\<rparr>)"
      proof -
        have "nodes h1 b = Some nb" using c1(4) b(2) nb by (simp add: kept_def)
        then obtain c' where "nodes h2 b = Some (nb\<lparr>child_item := c'\<rparr>)" using c2(3) by (auto simp: relinked_def)
        then show ?thesis using c3(3,4) by simp
      qed
      have k3: "kept lo h h3" by (rule kept_trans [OF k2 c3(5) order_refl])
      have tx: "\<forall>x < blocks h. texts h3 x = texts h x" using c1(4) c3(6) h1(2) h2(2,3) by (simp add: kept_def)
      have le: "blocks h2 \<le> blocks h3" using c3(5) by (simp add: kept_def)
      have sub: "set (all_nodes (l' # ls'')) \<union> set (all_texts (l' # ls'')) \<subseteq> {blocks h..<blocks h3}"
        using ranges_join [OF c1(7) _ h1(2), of "set (all_nodes ls'') \<union> set (all_texts ls'')" "blocks h3"] c3(7) h2(2) le
        by auto
      show ?thesis unfolding children_copied_def
        using run c3(2) nb nb3 k3 tx sub ts(1)
        by (intro exI [of _ "l' # ls''"] exI [of _ h3] exI [of _ nb] exI [of _ ch]) simp
    qed
  qed
  show ?case using item children by blast
qed

end
