(* ===== verification/CJson_Arrays.thy ===== *)
theory CJson_Arrays
  imports CJson_Items
begin

text \<open>
  The operations that add, insert, replace, detach and delete elements of an array in memory are the operations on lists
  of items; and the properties of them and of \<open>cJSON_Duplicate\<close>.
\<close>

lemma Delete_detached:
  assumes h: "heap_ok h" and r: "represents h l t" and d: "detached h (address l)"
    and dist: "distinct (node_addrs l)" "distinct (text_addrs l)"
  shows "cJSON_Delete (blocks h) h (Some (address l)) = Inr (without_items h [l])"
proof (rule Delete_items)
  show "list_all2 (represents h) [l] [t]" using r by simp
  show "seg (nodes h) None (Some (address l)) (map address [l]) None"
    using d by (auto simp: detached_def split: option.splits)
  have "set (node_addrs l) \<subseteq> {..<blocks h}" using represents_below [OF r h] by simp
  then have "length (node_addrs l) \<le> blocks h" using dist(1) by (intro distinct_below) auto
  then show "length (all_nodes [l]) \<le> blocks h" by simp
qed (use dist in simp_all)

lemma array_at_without:
  assumes "array_at h a ls ts" and "set (node_addrs l) \<inter> set (a # all_nodes ls) = {}"
    and "set (text_addrs l) \<inter> set (all_texts ls) = {}"
  shows "array_at (without_items h [l]) a ls ts"
proof -
  obtain n where n: "nodes h a = Some n" "seg (nodes h) None (child_item n) (map address ls) None"
    using assms(1) by (auto simp: array_at_def linked_def)
  have "seg (nodes (without_items h [l])) None (child_item n) (map address ls) None"
  proof (rule seg_same [OF n(2)], rule ballI)
    fix x assume "x \<in> set (map address ls)"
    then have "x \<notin> set (node_addrs l)" using addresses_subset [of ls] assms(2) by auto
    then show "nodes (without_items h [l]) x = nodes h x" by simp
  qed
  moreover have "list_all2 (represents (without_items h [l])) ls ts"
  proof (rule list.rel_mono_strong)
    show "list_all2 (represents h) ls ts" using assms(1) by (simp add: array_at_def)
    fix m u assume m: "m \<in> set ls" "represents h m u"
    have "set (node_addrs m) \<subseteq> set (all_nodes ls)" "set (text_addrs m) \<subseteq> set (all_texts ls)" using m(1) by auto
    then have "x \<notin> set (node_addrs l)" if "x \<in> set (node_addrs m)" for x using that assms(2) by auto
    moreover have "x \<notin> set (text_addrs l)" if "x \<in> set (text_addrs m)" for x using that m(1) assms(3) by auto
    ultimately show "represents (without_items h [l]) m u" by (intro represents_same [OF m(2)]) auto
  qed
  ultimately show ?thesis using assms(1,2) n by (simp add: array_at_def linked_def)
qed

lemma without_items_ok: "heap_ok h \<Longrightarrow> heap_ok (without_items h ls)"
  by (auto simp: heap_ok_def)

section \<open>Operations on arrays\<close>

text \<open>The three operations that put the item \<open>i\<close> into the array \<open>a\<close>, and what they do to a list of items.\<close>

datatype array_op = Append | Insert int | Replace int

definition array_step :: "array_op \<Rightarrow> 'd heap \<Rightarrow> nat \<Rightarrow> nat \<Rightarrow> mem_error + 'd heap" where
  "array_step op h a i =
     (case op of
        Append \<Rightarrow> cJSON_AddItemToArray h (Some a) (Some i)
      | Insert k \<Rightarrow> cJSON_InsertItemInArray h (Some a) k (Some i)
      | Replace k \<Rightarrow> cJSON_ReplaceItemInArray h (Some a) k (Some i))"

definition list_step :: "array_op \<Rightarrow> 'x list \<Rightarrow> 'x \<Rightarrow> 'x list" where
  "list_step op xs x =
     (case op of
        Append \<Rightarrow> xs @ [x]
      | Insert k \<Rightarrow> take (nat k) xs @ x # drop (nat k) xs
      | Replace k \<Rightarrow> xs[nat k := x])"

text \<open>An item that is in no list and shares nothing with the array.\<close>

definition addable :: "'d heap \<Rightarrow> nat \<Rightarrow> place list \<Rightarrow> 'd cJSON list \<Rightarrow> place \<Rightarrow> 'd cJSON \<Rightarrow> bool" where
  "addable h a ls ts l t \<longleftrightarrow> heap_ok h \<and> array_at h a ls ts \<and> represents h l t \<and> detached h (address l) \<and>
     distinct (a # all_nodes (ls @ [l])) \<and> distinct (all_texts (ls @ [l]))"

definition array_grown :: "'d heap \<Rightarrow> nat \<Rightarrow> place list \<Rightarrow> place \<Rightarrow> 'd heap \<Rightarrow> place list \<Rightarrow> 'd cJSON list \<Rightarrow> bool" where
  "array_grown h a ls l h' ls' ts' \<longleftrightarrow> heap_ok h' \<and> array_at h' a ls' ts' \<and>
     (\<forall>x. x \<notin> set (a # all_nodes (ls @ [l])) \<longrightarrow> nodes h' x = nodes h x) \<and>
     (\<forall>x. x \<notin> set (all_texts ls) \<longrightarrow> texts h' x = texts h x) \<and> blocks h' = blocks h"

lemma relinked_grown:
  assumes "heap_ok h" and "array_at h a ls ts" and "relinked a S h h'" and "S \<subseteq> set (map address (ls @ [l]))" and "array_at h' a ls' ts'"
  shows "array_grown h a ls l h' ls' ts'"
proof -
  have "nodes h' x = nodes h x" if x: "x \<notin> set (a # all_nodes (ls @ [l]))" for x
  proof -
    have "x \<notin> set (all_nodes (ls @ [l]))" using x by (simp only: list.set insert_iff de_Morgan_disj simp_thms)
    then have "x \<notin> S" using subset_trans [OF assms(4) addresses_subset] by blast
    then show ?thesis using assms(3) x by (simp add: relinked_def)
  qed
  then show ?thesis using assms relinked_heap_ok [OF assms(3,1)] by (simp add: array_grown_def relinked_def)
qed

lemma split_list2:
  assumes "list_all2 P ls ts" and "k < length ls"
  obtains xs m ys us u vs where "ls = xs @ m # ys" "ts = us @ u # vs" "length xs = k" "length us = k"
    "list_all2 P xs us" "P m u" "list_all2 P ys vs"
proof (rule that [of "take k ls" "ls ! k" "drop (Suc k) ls" "take k ts" "ts ! k" "drop (Suc k) ts"])
  have len: "length ts = length ls" using assms(1) by (simp add: list_all2_lengthD)
  show "ls = take k ls @ ls ! k # drop (Suc k) ls" by (rule id_take_nth_drop [OF assms(2)])
  show "ts = take k ts @ ts ! k # drop (Suc k) ts" by (rule id_take_nth_drop) (simp add: assms(2) len)
  show "P (ls ! k) (ts ! k)" using assms by (rule list_all2_nthD)
  show "list_all2 P (take k ls) (take k ts)" "list_all2 P (drop (Suc k) ls) (drop (Suc k) ts)"
    using assms(1) by (simp_all add: list_all2_takeI list_all2_dropI)
  show "length (take k ls) = k" "length (take k ts) = k" using assms(2) len by simp_all
qed


lemma addable_fresh:
  assumes "addable h a ls ts l t"
  shows "address l \<notin> insert a (set (map address ls))"
proof -
  have "address l \<notin> set (all_nodes ls)" "address l \<noteq> a" using assms address_in [of l] by (auto simp: addable_def)
  then show ?thesis using addresses_subset [of ls] by blast
qed

lemma append_array:
  assumes ad: "addable h a ls ts l t"
  obtains h' where "cJSON_AddItemToArray h (Some a) (Some (address l)) = Inr h'" "array_grown h a ls l h' (ls @ [l]) (ts @ [t])"
proof -
  have p: "heap_ok h" "array_at h a ls ts" "represents h l t" "detached h (address l)"
      "distinct (a # all_nodes (ls @ [l]))" "distinct (all_texts (ls @ [l]))"
    using ad by (simp_all only: addable_def)
  then have ln: "linked h a (map address ls)" by (simp add: array_at_def)
  obtain h' where h': "link_last h a (last_or None (map address ls)) (address l) = Inr h'" "array_at h' a (ls @ [l]) (ts @ [t])"
      "relinked a (set (map address (ls @ [l]))) h h'"
    by (rule link_last_array [OF p(2-6)])
  show thesis
    using that [OF _ relinked_grown [OF p(1,2) h'(3) order_refl h'(2)]] h'(1) AddItemToArray_link_last [OF p(1) ln] by simp
qed

lemma insert_array:
  assumes ad: "addable h a ls ts l t" and k: "nat k < length ls"
  obtains h' ls' where "cJSON_InsertItemInArray h (Some a) k (Some (address l)) = Inr h'"
    "array_grown h a ls l h' ls' (take (nat k) ts @ t # drop (nat k) ts)"
proof -
  have p: "heap_ok h" "array_at h a ls ts" "represents h l t" "detached h (address l)"
      "distinct (a # all_nodes (ls @ [l]))" "distinct (all_texts (ls @ [l]))"
    using ad by (simp_all only: addable_def)
  then have ln: "linked h a (map address ls)" and lt: "list_all2 (represents h) ls ts" by (simp_all add: array_at_def)
  obtain xs m ys us u vs where s: "ls = xs @ m # ys" "ts = us @ u # vs" "length xs = nat k" "length us = nat k"
      "list_all2 (represents h) xs us" "represents h m u" "list_all2 (represents h) ys vs"
    by (rule split_list2 [OF lt k])
  let ?ls = "xs @ l # m # ys" and ?ts = "us @ t # u # vs"
  have "linked h a (map address xs @ address m # map address ys)" using ln s(1) by simp
  moreover have "nat k = length (map address xs)" using s(3) by simp
  moreover have "address l \<notin> insert a (set (map address xs @ address m # map address ys))" using addable_fresh [OF ad] s(1) by simp
  ultimately obtain h' where h': "cJSON_InsertItemInArray h (Some a) k (Some (address l)) = Inr h'"
      "linked h' a (map address xs @ address l # address m # map address ys)"
      "relinked a (insert (address l) (set (map address xs @ address m # map address ys))) h h'"
    by (metis InsertItemInArray_linked p(4))
  have S: "insert (address l) (set (map address xs @ address m # map address ys)) \<subseteq> set (map address (ls @ [l]))"
    using s(1) by auto
  have "array_at h' a ?ls ?ts"
  proof (rule array_at_relinked [OF p(2) h'(3) _ S p(5)])
    show "linked h' a (map address ?ls)" using h'(2) by simp
    show "list_all2 (represents h) ?ls ?ts" using s(5-7) p(3) by (simp add: list_all2_appendI)
    show "set ?ls \<subseteq> set (ls @ [l])" using s(1) by auto
    show "distinct (all_nodes ?ls)" using p(5) s(1) by auto
    show "distinct (all_texts ?ls)" using p(6) s(1) by auto
  qed
  moreover have "?ts = take (nat k) ts @ t # drop (nat k) ts" using s(2,4) by simp
  ultimately show thesis using that [OF h'(1) relinked_grown [OF p(1,2) h'(3) S]] by metis
qed


lemma grown_without:
  assumes g: "array_grown h a ls l h' ls' ts'" and m: "m \<in> set ls"
    and d: "set (node_addrs m) \<inter> set (a # all_nodes ls') = {}" "set (text_addrs m) \<inter> set (all_texts ls') = {}"
  shows "array_grown h a ls l (without_items h' [m]) ls' ts'"
proof -
  have "array_at (without_items h' [m]) a ls' ts'" using g by (intro array_at_without d) (simp add: array_grown_def)
  moreover have "set (node_addrs m) \<subseteq> set (all_nodes ls)" "set (text_addrs m) \<subseteq> set (all_texts ls)" using m by auto
  ultimately show ?thesis using g without_items_ok [of h' "[m]"] unfolding array_grown_def by auto
qed

lemma element_kept:
  assumes "relinked a S h h'" and "S \<subseteq> set (map address ms)" and "distinct (a # all_nodes ms)" and "m \<in> set ms" and "represents h m u"
  shows "represents h' m u"
proof (rule represents_relinked [OF assms(5,1)])
  show "a \<notin> set (node_addrs m)" using assms(3,4) by auto
  show "S \<inter> set (all_nodes (kids m)) = {}" using kids_not_addresses [of ms m] assms(2-4) by auto
qed

lemma replace_array:
  assumes ad: "addable h a ls ts l t" and k: "nat k < length ls"
  obtains h' ls' where "cJSON_ReplaceItemInArray h (Some a) k (Some (address l)) = Inr h'"
    "array_grown h a ls l h' ls' (ts[nat k := t])" "\<forall>x \<in> set (node_addrs (ls ! nat k)). nodes h' x = None"
    "\<forall>x \<in> set (text_addrs (ls ! nat k)). texts h' x = None"
proof -
  have p: "heap_ok h" "array_at h a ls ts" "represents h l t" "detached h (address l)"
      "distinct (a # all_nodes (ls @ [l]))" "distinct (all_texts (ls @ [l]))"
    using ad by (simp_all only: addable_def)
  then have ln: "linked h a (map address ls)" and lt: "list_all2 (represents h) ls ts" by (simp_all add: array_at_def)
  obtain xs m ys us u vs where s: "ls = xs @ m # ys" "ts = us @ u # vs" "length xs = nat k" "length us = nat k"
      "list_all2 (represents h) xs us" "represents h m u" "list_all2 (represents h) ys vs"
    by (rule split_list2 [OF lt k])
  let ?ls = "xs @ l # ys" and ?ts = "us @ t # vs"
  have "linked h a (map address xs @ address m # map address ys)" using ln s(1) by simp
  moreover have "nat k = length (map address xs)" using s(3) by simp
  moreover have "address l \<notin> insert a (set (map address xs @ address m # map address ys))" using addable_fresh [OF ad] s(1) by simp
  ultimately obtain h1 where h1: "cJSON_ReplaceItemInArray h (Some a) k (Some (address l)) = cJSON_Delete (blocks h1) h1 (Some (address m))"
      "linked h1 a (map address xs @ address l # map address ys)" "detached h1 (address m)"
      "relinked a (insert (address l) (set (map address xs @ address m # map address ys))) h h1"
    by (metis ReplaceItemInArray_linked p(4))
  have S: "insert (address l) (set (map address xs @ address m # map address ys)) \<subseteq> set (map address (ls @ [l]))"
    using s(1) by auto
  have "array_at h1 a ?ls ?ts"
  proof (rule array_at_relinked [OF p(2) h1(4) _ S p(5)])
    show "linked h1 a (map address ?ls)" using h1(2) by simp
    show "list_all2 (represents h) ?ls ?ts" using s(5,7) p(3) by (simp add: list_all2_appendI)
    show "set ?ls \<subseteq> set (ls @ [l])" using s(1) by auto
    show "distinct (all_nodes ?ls)" using p(5) s(1) by auto
    show "distinct (all_texts ?ls)" using p(6) s(1) by auto
  qed
  from relinked_grown [OF p(1,2) h1(4) S this] have g: "array_grown h a ls l h1 ?ls ?ts" .
  then have ok: "heap_ok h1" by (simp add: array_grown_def)
  have m: "represents h1 m u" by (rule element_kept [OF h1(4) S p(5) _ s(6)]) (simp add: s(1))
  have dm: "distinct (node_addrs m)" "distinct (text_addrs m)" using p(5,6) s(1) by simp_all
  have "cJSON_Delete (blocks h1) h1 (Some (address m)) = Inr (without_items h1 [m])"
    by (rule Delete_detached [OF ok m h1(3) dm])
  moreover have "array_grown h a ls l (without_items h1 [m]) ?ls ?ts"
    by (rule grown_without [OF g]) (use p(5,6) s(1) in auto)
  moreover have "?ts = ts[nat k := t]" "ls ! nat k = m" using s(1-4) by (simp_all add: list_update_append nth_append)
  ultimately show thesis using that [of "without_items h1 [m]" ?ls] h1(1) by simp
qed

lemma relinked_present: "relinked a S h h' \<Longrightarrow> nodes h' x = None \<longleftrightarrow> nodes h x = None"
proof (cases "x \<in> S")
  case True
  moreover assume "relinked a S h h'"
  ultimately have "map_option strip (nodes h' x) = map_option strip (nodes h x)" by (simp add: relinked_def)
  then show ?thesis by (cases "nodes h x"; cases "nodes h' x") simp_all
qed (cases "x = a"; auto simp: relinked_def)

lemma remove_array:
  assumes ok: "heap_ok h" and at: "array_at h a ls ts" and k: "nat k < length ls"
  obtains h' ls' where "cJSON_DetachItemFromArray h (Some a) k = Inr (Some (address (ls ! nat k)), h')"
    "ls' = take (nat k) ls @ drop (Suc (nat k)) ls" "array_grown h a ls (ls ! nat k) h' ls' (take (nat k) ts @ drop (Suc (nat k)) ts)"
    "represents h' (ls ! nat k) (ts ! nat k)" "detached h' (address (ls ! nat k))"
    "set (node_addrs (ls ! nat k)) \<inter> set (a # all_nodes ls') = {}" "set (text_addrs (ls ! nat k)) \<inter> set (all_texts ls') = {}"
    "distinct (node_addrs (ls ! nat k))" "distinct (text_addrs (ls ! nat k))"
    "\<forall>x. nodes h' x = None \<longleftrightarrow> nodes h x = None" "texts h' = texts h"
proof -
  have ln: "linked h a (map address ls)" and lt: "list_all2 (represents h) ls ts"
      and d: "distinct (a # all_nodes ls)" "distinct (all_texts ls)"
    using at by (simp_all add: array_at_def)
  obtain xs m ys us u vs where s: "ls = xs @ m # ys" "ts = us @ u # vs" "length xs = nat k" "length us = nat k"
      "list_all2 (represents h) xs us" "represents h m u" "list_all2 (represents h) ys vs"
    by (rule split_list2 [OF lt k])
  let ?ls = "xs @ ys" and ?ts = "us @ vs"
  have "linked h a (map address xs @ address m # map address ys)" using ln s(1) by simp
  moreover have "nat k = length (map address xs)" using s(3) by simp
  ultimately obtain h1 where h1: "cJSON_DetachItemFromArray h (Some a) k = Inr (Some (address m), h1)"
      "linked h1 a (map address xs @ map address ys)" "detached h1 (address m)"
      "relinked a (set (map address xs @ address m # map address ys)) h h1"
    by (metis DetachItemFromArray_linked)
  have S: "set (map address xs @ address m # map address ys) \<subseteq> set (map address ls)" using s(1) by auto
  have "array_at h1 a ?ls ?ts"
  proof (rule array_at_relinked [OF at h1(4) _ S d(1)])
    show "linked h1 a (map address ?ls)" using h1(2) by simp
    show "list_all2 (represents h) ?ls ?ts" using s(5,7) by (simp add: list_all2_appendI)
    show "set ?ls \<subseteq> set ls" using s(1) by auto
    show "distinct (all_nodes ?ls)" using d(1) s(1) by auto
    show "distinct (all_texts ?ls)" using d(2) s(1) by auto
  qed
  moreover have "set (map address xs @ address m # map address ys) \<subseteq> set (map address (ls @ [m]))" using S by auto
  ultimately have g: "array_grown h a ls m h1 ?ls ?ts" using relinked_grown [OF ok at h1(4)] by blast
  have m: "represents h1 m u" by (rule element_kept [OF h1(4) S d(1) _ s(6)]) (simp add: s(1))
  have eq: "ls ! nat k = m" "ts ! nat k = u" "take (nat k) ls @ drop (Suc (nat k)) ls = ?ls"
      "take (nat k) ts @ drop (Suc (nat k)) ts = ?ts"
    using s(1-4) by (simp_all add: nth_append)
  have dj: "set (node_addrs m) \<inter> set (a # all_nodes ?ls) = {}" "set (text_addrs m) \<inter> set (all_texts ?ls) = {}"
      "distinct (node_addrs m)" "distinct (text_addrs m)"
    using d s(1) by auto
  have pres: "\<forall>x. nodes h1 x = None \<longleftrightarrow> nodes h x = None" "texts h1 = texts h"
    using relinked_present [OF h1(4)] h1(4) by (simp_all add: relinked_def)
  show thesis by (rule that [of h1 ?ls]) (use h1(1,3) g m eq dj pres in simp_all)
qed


text \<open>
  \<open>cJSON_AddItemToObject\<close> frees the old name of the item without a look at \<open>cJSON_StringIsConst\<close>, so it
  frees the constant that \<open>cJSON_AddItemToObjectCS\<close> has put there.
\<close>

lemma AddItemToObject_frees_constant:
  assumes "nodes h i = Some n" and "is_literal (node_string n)"
  shows "cJSON_AddItemToObject h object s (Some i) = Inl Invalid_Access"
  using assms by (auto simp: cJSON_AddItemToObject_def free_text_def is_literal_def split: option.splits text_ref.splits)

section \<open>Properties\<close>

lemma append_step:
  assumes "addable h a ls ts l t"
  shows "\<exists>h' ls'. array_step Append h a (address l) = Inr h' \<and> array_grown h a ls l h' ls' (list_step Append ts t)"
proof -
  obtain h' where "cJSON_AddItemToArray h (Some a) (Some (address l)) = Inr h'" "array_grown h a ls l h' (ls @ [l]) (ts @ [t])"
    by (rule append_array [OF assms])
  then show ?thesis by (auto simp: array_step_def list_step_def)
qed

lemma insert_step:
  assumes "addable h a ls ts l t"
  shows "\<exists>h' ls'. array_step (Insert k) h a (address l) = Inr h' \<and> array_grown h a ls l h' ls' (list_step (Insert k) ts t)"
proof -
  have len: "length ts = length ls" "linked h a (map address ls)"
    using assms by (auto simp: addable_def array_at_def dest: list_all2_lengthD)
  show ?thesis
  proof (cases "nat k < length ls")
    case True
    obtain h' ls' where "cJSON_InsertItemInArray h (Some a) k (Some (address l)) = Inr h'"
      "array_grown h a ls l h' ls' (take (nat k) ts @ t # drop (nat k) ts)"
      by (rule insert_array [OF assms True])
    then show ?thesis by (auto simp: array_step_def list_step_def)
  next
    case False
    then show ?thesis
      using append_step [OF assms] len InsertItemInArray_beyond [OF len(2), of k] by (auto simp: array_step_def list_step_def)
  qed
qed

lemma replace_step:
  assumes "addable h a ls ts l t"
  shows "\<exists>h' ls'. array_step (Replace k) h a (address l) = Inr h' \<and> array_grown h a ls l h' ls' (list_step (Replace k) ts t) \<and>
    (nat k < length ls \<longrightarrow> (\<forall>x \<in> set (node_addrs (ls ! nat k)). nodes h' x = None) \<and>
      (\<forall>x \<in> set (text_addrs (ls ! nat k)). texts h' x = None))"
proof (cases "nat k < length ls")
  case True
  obtain h' ls' where h': "cJSON_ReplaceItemInArray h (Some a) k (Some (address l)) = Inr h'"
    "array_grown h a ls l h' ls' (ts[nat k := t])" "\<forall>x \<in> set (node_addrs (ls ! nat k)). nodes h' x = None"
    "\<forall>x \<in> set (text_addrs (ls ! nat k)). texts h' x = None"
    by (rule replace_array [OF assms True])
  then show ?thesis by (intro exI [of _ h'] exI [of _ ls']) (simp add: array_step_def list_step_def)
next
  case False
  have p: "heap_ok h" "array_at h a ls ts" "length ts = length ls" "linked h a (map address ls)"
    using assms by (auto simp: addable_def array_at_def dest: list_all2_lengthD)
  obtain n where n: "nodes h a = Some n" "seg (nodes h) None (child_item n) (map address ls) None"
    using p(4) by (auto simp: linked_def)
  have "cJSON_ReplaceItemInArray h (Some a) k (Some (address l)) = Inr h"
    using nth_item_seg [OF n(2), of "nat k"] n(1) False by (simp add: cJSON_ReplaceItemInArray_def)
  moreover have "array_grown h a ls l h ls (ts[nat k := t])"
    using p(1-3) False by (simp add: array_grown_def list_update_beyond)
  ultimately show ?thesis using False by (intro exI [of _ h] exI [of _ ls]) (simp add: array_step_def list_step_def)
qed

text \<open>
  C26: The operations on the linked children are the operations on lists. With an item \<open>t\<close> that is in no
  list and shares no memory with the array, \<open>cJSON_AddItemToArray\<close>, \<open>cJSON_InsertItemInArray\<close> and
  \<open>cJSON_ReplaceItemInArray\<close> never follow a dangling pointer and leave an array, well linked in
  both directions, of the items that appending, inserting (at the end if the index is too large) or replacing
  (nothing if the index is too large) gives; all other memory is as before. The replaced item is freed.
\<close>

theorem array_operations:
  assumes "addable h a ls ts l t"
  shows "\<exists>h' ls'. array_step op h a (address l) = Inr h' \<and> array_grown h a ls l h' ls' (list_step op ts t) \<and>
    (\<forall>k. op = Replace k \<and> nat k < length ls \<longrightarrow> (\<forall>x \<in> set (node_addrs (ls ! nat k)). nodes h' x = None) \<and>
      (\<forall>x \<in> set (text_addrs (ls ! nat k)). texts h' x = None))"
proof (cases op)
  case Append
  then show ?thesis using append_step [OF assms] by simp
next
  case (Insert k)
  then show ?thesis using insert_step [OF assms] by simp
next
  case (Replace k)
  then show ?thesis using replace_step [OF assms] by simp
qed

text \<open>The array [7, null] at block 0 and, in no list, the string "a" at block 3.\<close>

definition sample_heap :: "rat heap" where
  "sample_heap =
     (let z = zero_node exact_doubles in
      \<lparr>nodes = [0 \<mapsto> z\<lparr>node_kind := cJSON_Array, child_item := Some 1\<rparr>,
                1 \<mapsto> z\<lparr>node_kind := cJSON_Number, node_valueint := 7, node_valuedouble := 7, next_item := Some 2\<rparr>,
                2 \<mapsto> z\<lparr>node_kind := cJSON_NULL, prev_item := Some 1\<rparr>,
                3 \<mapsto> z\<lparr>node_kind := cJSON_String, node_valuestring := Some (Allocated 4)\<rparr>],
       texts = [4 \<mapsto> [97]], blocks = 5\<rparr>)"

definition sample_places :: "place list" where
  "sample_places = [Place 1 None None [], Place 2 None None []]"

definition sample_items :: "rat cJSON list" where
  "sample_items = [Item cJSON_Number None 7 7 None [], Item cJSON_NULL None 0 0 None []]"

lemma sample_ok:
  "heap_ok sample_heap" "array_at sample_heap 0 sample_places sample_items"
  "represents sample_heap (Place 0 None None sample_places) (Item cJSON_Array None 0 0 None sample_items)"
  "addable sample_heap 0 sample_places sample_items (Place 3 (Some (Allocated 4)) None []) (Item cJSON_String (Some [97]) 0 0 None [])"
proof -
  note defs = sample_heap_def sample_places_def sample_items_def zero_node_def exact_doubles_def
  show h: "heap_ok sample_heap" by (auto simp: heap_ok_def defs)
  show a: "array_at sample_heap 0 sample_places sample_items"
    by (simp add: array_at_def linked_def defs is_literal_def read_text_opt_def text_addr_def)
  show "represents sample_heap (Place 0 None None sample_places) (Item cJSON_Array None 0 0 None sample_items)"
    by (simp add: defs is_literal_def read_text_opt_def)
  show "addable sample_heap 0 sample_places sample_items (Place 3 (Some (Allocated 4)) None []) (Item cJSON_String (Some [97]) 0 0 None [])"
    unfolding addable_def using h a
    by (simp add: detached_def defs is_literal_def read_text_opt_def read_text_def text_addr_def fault_simps)
qed

lemma array_operations_witness:
  "\<exists>h' ls'. array_step (Insert 1) sample_heap 0 3 = Inr h' \<and>
    array_grown sample_heap 0 sample_places (Place 3 (Some (Allocated 4)) None []) h' ls'
      [Item cJSON_Number None 7 7 None [], Item cJSON_String (Some [97]) 0 0 None [], Item cJSON_NULL None 0 0 None []]"
  using array_operations [OF sample_ok(4), of "Insert 1"] by (auto simp: list_step_def sample_items_def)

text \<open>
  C27: \<open>cJSON_DeleteItemFromArray\<close> takes the element at the index out of the array and frees its nodes and
  texts, with those of its descendants, exactly once: no free fails, what belonged to the element is gone,
  everything else is as before, and the array holds the other elements in their order. With
  an index that is too large nothing happens.
\<close>

theorem delete_from_array:
  assumes "heap_ok h" and "array_at h a ls ts"
  shows "\<exists>h' ls'. cJSON_DeleteItemFromArray h (Some a) k = Inr h' \<and> heap_ok h' \<and>
    array_at h' a ls' (take (nat k) ts @ drop (Suc (nat k)) ts) \<and>
    (\<forall>x. nodes h' x = None \<longleftrightarrow> nodes h x = None \<or> (nat k < length ls \<and> x \<in> set (node_addrs (ls ! nat k)))) \<and>
    (\<forall>x. texts h' x = (if nat k < length ls \<and> x \<in> set (text_addrs (ls ! nat k)) then None else texts h x))"
proof (cases "nat k < length ls")
  case True
  obtain h1 ls' where h1: "cJSON_DetachItemFromArray h (Some a) k = Inr (Some (address (ls ! nat k)), h1)"
    "ls' = take (nat k) ls @ drop (Suc (nat k)) ls" "array_grown h a ls (ls ! nat k) h1 ls' (take (nat k) ts @ drop (Suc (nat k)) ts)"
    "represents h1 (ls ! nat k) (ts ! nat k)" "detached h1 (address (ls ! nat k))"
    "set (node_addrs (ls ! nat k)) \<inter> set (a # all_nodes ls') = {}" "set (text_addrs (ls ! nat k)) \<inter> set (all_texts ls') = {}"
    "distinct (node_addrs (ls ! nat k))" "distinct (text_addrs (ls ! nat k))"
    "\<forall>x. nodes h1 x = None \<longleftrightarrow> nodes h x = None" "texts h1 = texts h"
    by (rule remove_array [OF assms True])
  let ?h = "without_items h1 [ls ! nat k]"
  have "heap_ok h1" using h1(3) by (simp add: array_grown_def)
  then have "cJSON_DeleteItemFromArray h (Some a) k = Inr ?h"
    using Delete_detached [OF _ h1(4,5,8,9)] h1(1) by (simp add: cJSON_DeleteItemFromArray_def)
  moreover have "array_grown h a ls (ls ! nat k) ?h ls' (take (nat k) ts @ drop (Suc (nat k)) ts)"
    by (rule grown_without [OF h1(3) _ h1(6,7)]) (use True in simp)
  ultimately show ?thesis using h1(10,11) True
    by (intro exI [of _ ?h] exI [of _ ls']) (auto simp: array_grown_def)
next
  case False
  have p: "length ts = length ls" "linked h a (map address ls)"
    using assms by (auto simp: array_at_def dest: list_all2_lengthD)
  obtain n where n: "nodes h a = Some n" "seg (nodes h) None (child_item n) (map address ls) None"
    using p(2) by (auto simp: linked_def)
  have "cJSON_DeleteItemFromArray h (Some a) k = Inr h"
    using nth_item_seg [OF n(2), of "nat k"] n(1) False
    by (simp add: cJSON_DeleteItemFromArray_def cJSON_DetachItemFromArray_def)
  then show ?thesis using assms p(1) False by (intro exI [of _ h] exI [of _ ls]) simp
qed

lemma delete_from_array_witness:
  "\<exists>h' ls'. cJSON_DeleteItemFromArray sample_heap (Some 0) 0 = Inr h' \<and>
    array_at h' 0 ls' [Item cJSON_NULL None 0 0 None []] \<and> nodes h' 1 = None \<and> nodes h' 3 \<noteq> None"
proof -
  obtain h' ls' where h': "cJSON_DeleteItemFromArray sample_heap (Some 0) 0 = Inr h'"
      "array_at h' 0 ls' (take (nat 0) sample_items @ drop (Suc (nat 0)) sample_items)"
      "\<forall>x. nodes h' x = None \<longleftrightarrow> nodes sample_heap x = None \<or>
         (nat 0 < length sample_places \<and> x \<in> set (node_addrs (sample_places ! nat 0)))"
    using delete_from_array [OF sample_ok(1,2), of 0] by blast
  have "nodes h' 1 = None" "nodes h' 3 \<noteq> None"
    using h'(3) [rule_format, of 1] h'(3) [rule_format, of 3] by (auto simp: sample_places_def sample_heap_def Let_def)
  then show ?thesis using h'(1,2) by (intro exI [of _ h'] exI [of _ ls']) (simp add: sample_items_def)
qed

text \<open>
  C28: \<open>cJSON_Duplicate\<close> with recursion copies an item: the copy is the same item in blocks
  that were all allocated by it, linked to no sibling; nothing that was there before is changed, so the
  original is still the item it was. It needs calls no deeper than twice the number of nodes. The copy can be
  deleted again, which frees its blocks without touching the original.
\<close>

theorem duplicate_copies:
  assumes "heap_ok h" and "represents h l t" and "2 * length (node_addrs l) \<le> n"
  shows "\<exists>l' h'. cJSON_Duplicate D n (Some (address l)) True h = Inr (Some (address l'), h') \<and>
    represents h' l' t \<and> represents h' l t \<and> detached h' (address l') \<and>
    set (node_addrs l') \<union> set (text_addrs l') \<subseteq> {blocks h..<blocks h'} \<and>
    (\<forall>x < blocks h. nodes h' x = nodes h x \<and> texts h' x = texts h x) \<and>
    (\<exists>h''. cJSON_Delete (blocks h') h' (Some (address l')) = Inr h'' \<and> represents h'' l t \<and>
      (\<forall>x \<in> set (node_addrs l'). nodes h'' x = None) \<and> (\<forall>x \<in> set (text_addrs l'). texts h'' x = None))"
proof -
  have "item_copied D n h l t" using duplicate_ok assms by blast
  then obtain l' h' where d: "cJSON_Duplicate D n (Some (address l)) True h = Inr (Some (address l'), h')"
      "represents h' l' t" "detached h' (address l')" "kept (blocks h) h h'"
      "distinct (node_addrs l')" "distinct (text_addrs l')" "set (node_addrs l') \<union> set (text_addrs l') \<subseteq> {blocks h..<blocks h'}"
    by (auto simp: item_copied_def)
  have below: "set (node_addrs l) \<union> set (text_addrs l) \<subseteq> {..<blocks h}" by (rule represents_below [OF assms(2,1)])
  have orig: "represents h' l t" by (rule represents_kept [OF d(4) assms(2)]) (use below in simp_all)
  have ok: "heap_ok h'" using d(4) by (simp add: kept_def)
  have del: "cJSON_Delete (blocks h') h' (Some (address l')) = Inr (without_items h' [l'])"
    by (rule Delete_detached [OF ok d(2,3,5,6)])
  have "x \<notin> set (node_addrs l') \<and> x \<notin> set (text_addrs l')" if "x < blocks h" for x using d(7) that by force
  then have "represents (without_items h' [l']) l t"
    by (intro represents_same [OF orig]) (use below in auto)
  then show ?thesis using d orig del
    by (intro exI [of _ l'] exI [of _ h'] conjI exI [of _ "without_items h' [l']"]) (simp_all add: kept_def)
qed

lemma duplicate_copies_witness:
  "\<exists>l' h'. cJSON_Duplicate exact_doubles 6 (Some 0) True sample_heap = Inr (Some (address l'), h') \<and>
    represents h' l' (Item cJSON_Array None 0 0 None sample_items) \<and> set (node_addrs l') \<subseteq> {5..<blocks h'}"
  using duplicate_copies [OF sample_ok(1,3), of 6 exact_doubles] by (auto simp: sample_places_def sample_heap_def Let_def)

end
