(* ===== verification/CJson_Objects.thy ===== *)
theory CJson_Objects
  imports CJson_Arrays
begin

text \<open>
  Objects of strings: \<open>cJSON_AddStringToObject\<close> and \<open>cJSON_GetObjectItem\<close> in memory are what the clients of the
  library that work on trees take them for.
\<close>

section \<open>Objects as trees\<close>

definition string_item :: "'d doubles \<Rightarrow> byte list \<Rightarrow> byte list option \<Rightarrow> 'd cJSON" where
  "string_item D s name = Item cJSON_String (Some s) 0 (dlit D 0) name []"

fun add_item :: "'d cJSON \<Rightarrow> 'd cJSON \<Rightarrow> 'd cJSON" where
  "add_item (Item k vs vi vd nm cs) c = Item k vs vi vd nm (cs @ [c])"

definition same_name :: "byte list \<Rightarrow> 'd cJSON \<Rightarrow> bool" where
  "same_name s c \<longleftrightarrow> cJSON_strcasecmp (item_name c) (Some s) = 0"

definition get_object_item :: "'d cJSON option \<Rightarrow> byte list \<Rightarrow> 'd cJSON option" where
  "get_object_item item s = (case item of None \<Rightarrow> None | Some t \<Rightarrow> find (same_name s) (children t))"

section \<open>Objects in memory\<close>

definition cJSON_AddStringToObject ::
  "'d doubles \<Rightarrow> 'd heap \<Rightarrow> nat option \<Rightarrow> byte list \<Rightarrow> byte list \<Rightarrow> mem_error + 'd heap" where
  "cJSON_AddStringToObject D h object name s =
     bind_res (cJSON_CreateString D s h) (\<lambda>(item, h). cJSON_AddItemToObject h object name (Some item))"

fun add_strings :: "'d doubles \<Rightarrow> nat option \<Rightarrow> (byte list \<times> byte list) list \<Rightarrow> 'd heap \<Rightarrow> mem_error + 'd heap" where
  "add_strings D object [] h = Inr h"
| "add_strings D object ((name, s) # members) h =
     bind_res (cJSON_AddStringToObject D h object name s) (add_strings D object members)"

lemma find_item_represents:
  "list_all2 (represents h) ls ts \<Longrightarrow> seg (nodes h) q p (map address ls) None \<Longrightarrow> length ls \<le> n \<Longrightarrow>
    \<exists>i r. find_item n h s p = Inr (i, r) \<and>
      (case find (same_name s) ts of
         None \<Rightarrow> r = None
       | Some c \<Rightarrow> \<exists>m \<in> set ls. r = Some (address m) \<and> represents h m c)"
proof (induction ls arbitrary: ts q p n)
  case (Cons l ls)
  obtain t ts' where ts: "ts = t # ts'" "represents h l t" "list_all2 (represents h) ls ts'"
    using Cons.prems(1) by (auto simp: list_all2_Cons1)
  obtain n' where n: "n = Suc n'" "length ls \<le> n'" using Cons.prems(3) by (cases n) auto
  obtain nd where nd: "p = Some (address l)" "nodes h (address l) = Some nd"
      "seg (nodes h) (Some (address l)) (next_item nd) (map address ls) None"
    using Cons.prems(2) by (auto split: option.splits)
  have nm: "read_text_opt h (node_string nd) = Inr (item_name t)" using represents_name [OF ts(2) nd(2)] by (rule conjunct1)
  show ?case
  proof (cases "same_name s t")
    case True
    then show ?thesis using ts(1,2) n(1) nd(1,2) nm by (simp add: same_name_def)
  next
    case False
    obtain i r where ir: "find_item n' h s (next_item nd) = Inr (i, r)"
        "case find (same_name s) ts' of None \<Rightarrow> r = None | Some c \<Rightarrow> \<exists>m \<in> set ls. r = Some (address m) \<and> represents h m c"
      using Cons.IH [OF ts(3) nd(3) n(2)] by blast
    have "find_item n h s p = Inr (i + 1, r)" using False n(1) nd(1,2) nm ir(1) by (simp add: same_name_def)
    then show ?thesis using ir(2) ts(1) False by (auto split: option.splits)
  qed
qed simp

lemma represents_kids:
  assumes "represents h l t"
  obtains n where "nodes h (address l) = Some n" "seg (nodes h) None (child_item n) (map address (kids l)) None"
    "list_all2 (represents h) (kids l) (children t)"
  using assms by (cases l; cases t) (auto split: option.splits)

lemma distinct_addresses: "distinct (all_nodes ls) \<Longrightarrow> distinct (map address ls)"
proof (induction ls)
  case (Cons l ls)
  then have "set (node_addrs l) \<inter> set (all_nodes ls) = {}" by simp
  then have "address l \<notin> set (map address ls)" using addresses_subset [of ls] address_in [of l] by blast
  then show ?case using Cons by simp
qed simp

lemma GetObjectItem_represents:
  assumes "heap_ok h" and "represents h l t" and "distinct (node_addrs l)"
  shows "\<exists>r. cJSON_GetObjectItem h (Some (address l)) s = Inr r \<and>
    (case get_object_item (Some t) s of
       None \<Rightarrow> r = None
     | Some c \<Rightarrow> \<exists>m \<in> set (kids l). r = Some (address m) \<and> represents h m c)"
proof -
  obtain n where n: "nodes h (address l) = Some n" "seg (nodes h) None (child_item n) (map address (kids l)) None"
      "list_all2 (represents h) (kids l) (children t)"
    by (rule represents_kids [OF assms(2)])
  have "distinct (map address (kids l))" using assms(3) by (intro distinct_addresses) (cases l; simp)
  then have "length (kids l) \<le> blocks h" using seg_length [OF assms(1) n(2)] by simp
  from find_item_represents [OF n(3,2) this, of s] show ?thesis
    using n(1) by (auto simp: cJSON_GetObjectItem_def get_object_item_def split: option.splits)
qed


lemma string_member_heap:
  fixes h :: "'d heap"
  assumes h: "heap_ok h" and h': "h' = h\<lparr>nodes := (nodes h)(blocks h \<mapsto> n),
      texts := (texts h)(blocks h + 1 \<mapsto> s, blocks h + 2 \<mapsto> name), blocks := blocks h + 3\<rparr>"
  shows "kept (blocks h) h h'"
  using h unfolding h' kept_def heap_ok_def by (auto simp: less_Suc_eq)

lemma AddStringToObject_ok:
  assumes h: "heap_ok h" and r: "represents h l t" and d: "distinct (node_addrs l)" "distinct (text_addrs l)"
  obtains h' m where "cJSON_AddStringToObject D h (Some (address l)) name s = Inr h'"
    "represents h' (Place (address l) (value_ref l) (name_ref l) (kids l @ [m])) (add_item t (string_item D s (Some name)))"
    "heap_ok h'" "blocks h' = blocks h + 3" "node_addrs m = [blocks h]" "text_addrs m = [blocks h + 1, blocks h + 2]"
    "\<forall>x < blocks h. texts h' x = texts h x" "\<forall>x < blocks h. x \<notin> set (address l # map address (kids l)) \<longrightarrow> nodes h' x = nodes h x"
    "detached h (address l) \<longrightarrow> detached h' (address l)"
proof -
  obtain a vr nr ls where l: "l = Place a vr nr ls" by (cases l)
  obtain k vs vi vd nm cs where t: "t = Item k vs vi vd nm cs" by (cases t)
  obtain na where na: "nodes h a = Some na" "node_kind na = k" "\<not> is_reference na" "string_is_const na = is_literal nr"
      "node_valuestring na = vr" "\<not> is_literal vr" "node_string na = nr" "node_valueint na = vi" "node_valuedouble na = vd"
      "read_text_opt h vr = Inr vs" "read_text_opt h nr = Inr nm"
      "seg (nodes h) None (child_item na) (map address ls) None" "list_all2 (represents h) ls cs"
    using r unfolding l t by (auto split: option.splits)
  let ?b = "blocks h"
  let ?n = "(zero_node D)\<lparr>node_kind := cJSON_String, node_valuestring := Some (Allocated (?b + 1)), node_string := Some (Allocated (?b + 2))\<rparr>"
  let ?h = "h\<lparr>nodes := (nodes h)(?b \<mapsto> ?n), texts := (texts h)(?b + 1 \<mapsto> s, ?b + 2 \<mapsto> name), blocks := ?b + 3\<rparr>"
  let ?m = "Place ?b (Some (Allocated (?b + 1))) (Some (Allocated (?b + 2))) []"
  have kept: "kept ?b h ?h" by (rule string_member_heap [OF h refl])
  have below: "set (node_addrs l) \<union> set (text_addrs l) \<subseteq> {..<?b}" by (rule represents_below [OF r h])
  have "distinct (a # map address ls)"
    using distinct_addresses [of ls] addresses_subset [of ls] d(1) l by auto
  then have "array_at h a ls cs" using na(1,12,13) d l by (auto simp: array_at_def linked_def)
  then have at: "array_at ?h a ls cs" by (rule array_at_kept [OF _ kept h])
  have m: "represents ?h ?m (string_item D s (Some name))" "detached ?h (address ?m)"
    by (simp_all add: string_item_def is_literal_def zero_node_def read_text_opt_def read_text_def detached_def)
  have dist: "distinct (a # all_nodes (ls @ [?m]))" "distinct (all_texts (ls @ [?m]))"
    using d below l by (auto simp: text_addr_def)
  obtain h' where h': "link_last ?h a (last_or None (map address ls)) (address ?m) = Inr h'"
      "array_at h' a (ls @ [?m]) (cs @ [string_item D s (Some name)])" "relinked a (set (map address (ls @ [?m]))) ?h h'"
    by (rule link_last_array [OF at m dist])
  have ok: "heap_ok h'" "blocks h' = ?b + 3" "texts h' = texts ?h"
    using relinked_heap_ok [OF h'(3)] kept h'(3) by (simp_all add: kept_def relinked_def)
  have run: "cJSON_AddStringToObject D h (Some a) name s = Inr h'"
  proof -
    have ln: "linked ?h a (map address ls)" using at by (simp only: array_at_def)
    have okh: "heap_ok ?h" using kept by (simp only: kept_def)
    have "cJSON_AddItemToArray ?h (Some a) (Some ?b) = Inr h'"
      using h'(1) by (simp only: AddItemToArray_link_last [OF okh ln] place.sel)
    moreover have "cJSON_AddStringToObject D h (Some a) name s = cJSON_AddItemToArray ?h (Some a) (Some ?b)"
      by (cases h) (simp add: cJSON_AddStringToObject_def cJSON_CreateString_def cJSON_AddItemToObject_def new_node_def
          cJSON_strdup_def read_text_def free_text_def zero_node_def modify_def load_def set_node_def
          eval_nat_numeral)
    ultimately show ?thesis by simp
  qed
  obtain c where c: "nodes h' a = Some (na\<lparr>child_item := c\<rparr>)" 
  proof -
    have "nodes ?h a = Some na" using na(1) below l by simp
    then show thesis using h'(3) that by (auto simp: relinked_def)
  qed
  have tx: "texts h' x = texts h x" if "x < ?b" for x using ok(3) that by simp
  have "read_text_opt h' vr = Inr vs" "read_text_opt h' nr = Inr nm"
  proof -
    have "read_text_opt h' vr = read_text_opt h vr" "read_text_opt h' nr = read_text_opt h nr"
      using tx below l by (auto intro!: read_text_frame)
    then show "read_text_opt h' vr = Inr vs" "read_text_opt h' nr = Inr nm" using na(10,11) by simp_all
  qed
  moreover have "seg (nodes h') None c (map address (ls @ [?m])) None"
    using h'(2) c by (auto simp: array_at_def linked_def)
  moreover have "list_all2 (represents h') (ls @ [?m]) (cs @ [string_item D s (Some name)])"
    using h'(2) by (simp add: array_at_def)
  ultimately have rep: "represents h' (Place a vr nr (ls @ [?m])) (add_item t (string_item D s (Some name)))"
    using c na(2-9) t by simp
  have "nodes h' x = nodes h x" if "x < ?b" "x \<notin> set (a # map address ls)" for x
    using h'(3) that by (simp add: relinked_def)
  moreover have "detached h a \<longrightarrow> detached h' a" using c na(1) by (simp add: detached_def)
  ultimately show thesis using that [of h' ?m] run rep ok tx l by (simp add: text_addr_def)
qed

fun add_items :: "'d cJSON \<Rightarrow> 'd cJSON list \<Rightarrow> 'd cJSON" where
  "add_items t [] = t"
| "add_items t (c # cs) = add_items (add_item t c) cs"

definition string_members :: "'d doubles \<Rightarrow> (byte list \<times> byte list) list \<Rightarrow> 'd cJSON list" where
  "string_members D = map (\<lambda>(name, s). string_item D s (Some name))"

lemma add_items_children: "add_items (Item k vs vi vd nm cs) cs' = Item k vs vi vd nm (cs @ cs')"
  by (induction cs' arbitrary: cs) auto

definition owned :: "nat \<Rightarrow> 'd heap \<Rightarrow> place \<Rightarrow> 'd cJSON \<Rightarrow> bool" where
  "owned lo h l t \<longleftrightarrow> heap_ok h \<and> represents h l t \<and> distinct (node_addrs l) \<and> distinct (text_addrs l) \<and>
     set (node_addrs l) \<union> set (text_addrs l) \<subseteq> {lo..<blocks h} \<and> detached h (address l)"

lemma owned_add_string:
  assumes "owned lo h l t"
  obtains h' l' where "cJSON_AddStringToObject D h (Some (address l)) name s = Inr h'"
    "owned lo h' l' (add_item t (string_item D s (Some name)))" "address l' = address l" "kept lo h h'"
proof -
  have o: "heap_ok h" "represents h l t" "distinct (node_addrs l)" "distinct (text_addrs l)"
      "set (node_addrs l) \<union> set (text_addrs l) \<subseteq> {lo..<blocks h}" "detached h (address l)"
    using assms by (simp_all only: owned_def)
  obtain h' m where h': "cJSON_AddStringToObject D h (Some (address l)) name s = Inr h'"
    "represents h' (Place (address l) (value_ref l) (name_ref l) (kids l @ [m])) (add_item t (string_item D s (Some name)))"
    "heap_ok h'" "blocks h' = blocks h + 3" "node_addrs m = [blocks h]" "text_addrs m = [blocks h + 1, blocks h + 2]"
    "\<forall>x < blocks h. texts h' x = texts h x" "\<forall>x < blocks h. x \<notin> set (address l # map address (kids l)) \<longrightarrow> nodes h' x = nodes h x"
    "detached h (address l) \<longrightarrow> detached h' (address l)"
    by (rule AddStringToObject_ok [OF o(1-4)])
  let ?l = "Place (address l) (value_ref l) (name_ref l) (kids l @ [m])"
  have na: "node_addrs ?l = node_addrs l @ [blocks h]" using h'(5) by (cases l) simp
  have ta: "text_addrs ?l = text_addrs l @ [blocks h + 1, blocks h + 2]" using h'(6) by (cases l) simp
  have new: "blocks h \<notin> set (node_addrs l)" "blocks h + 1 \<notin> set (text_addrs l)" "blocks h + 2 \<notin> set (text_addrs l)"
    using o(5) by fastforce+
  have "address l \<in> {lo..<blocks h}" using o(5) address_in [of l] by blast
  then have lo: "lo < blocks h" by simp
  have own: "owned lo h' ?l (add_item t (string_item D s (Some name)))"
    unfolding owned_def na ta using o(3-6) h'(2-4,9) new lo by auto
  have "set (address l # map address (kids l)) \<subseteq> set (node_addrs l)"
    using addresses_subset [of "kids l"] node_addrs_cases [of l] by (simp add: subset_insertI2)
  then have "x \<notin> set (address l # map address (kids l))" if "x < lo" for x using o(5) that by fastforce
  then have "kept lo h h'" using h'(3,4,7,8) lo by (simp add: kept_def)
  then show thesis using that [OF h'(1) own] by simp
qed

lemma owned_add_strings:
  "owned lo h l t \<Longrightarrow> \<exists>h' l'. add_strings D (Some (address l)) members h = Inr h' \<and>
     owned lo h' l' (add_items t (string_members D members)) \<and> address l' = address l \<and> kept lo h h'"
proof (induction members arbitrary: h l t)
  case Nil
  then have "kept lo h h" by (simp add: kept_def owned_def)
  then show ?case using Nil by (auto simp: string_members_def)
next
  case (Cons m members)
  obtain name s where m: "m = (name, s)" by (cases m)
  obtain h1 l1 where h1: "cJSON_AddStringToObject D h (Some (address l)) name s = Inr h1"
    "owned lo h1 l1 (add_item t (string_item D s (Some name)))" "address l1 = address l" "kept lo h h1"
    by (rule owned_add_string [OF Cons.prems])
  obtain h2 l2 where h2: "add_strings D (Some (address l1)) members h1 = Inr h2"
    "owned lo h2 l2 (add_items (add_item t (string_item D s (Some name))) (string_members D members))"
    "address l2 = address l1" "kept lo h1 h2"
    using Cons.IH [OF h1(2)] by blast
  have "kept lo h h2" by (rule kept_trans [OF h1(4) h2(4) order_refl])
  then show ?case using m h1(1,3) h2(1-3) by (intro exI [of _ h2] exI [of _ l2]) (simp add: string_members_def)
qed

section \<open>Properties\<close>

text \<open>
  C29: An object built by \<open>cJSON_CreateObject\<close> and any sequence of \<open>cJSON_AddStringToObject\<close> is in
  memory the object of those strings in that order, in fresh blocks, and nothing that was there before is
  changed. \<open>cJSON_GetObjectItem\<close> on it finds the first member whose name is equal up to case, and NULL exactly if
  there is none; deleting it frees every block of it once.
\<close>

theorem objects_of_strings:
  fixes D :: "'d doubles"
  assumes "heap_ok h"
  shows "\<exists>h' l. (case cJSON_CreateObject D h of (obj, h) \<Rightarrow> add_strings D (Some obj) pairs h) = Inr h' \<and>
    address l = fst (cJSON_CreateObject D h) \<and>
    represents h' l (Item cJSON_Object None 0 (dlit D 0) None (string_members D pairs)) \<and>
    kept (blocks h) h h' \<and> cJSON_Delete (blocks h') h' (Some (address l)) = Inr (without_items h' [l]) \<and>
    (\<forall>s. \<exists>r. cJSON_GetObjectItem h' (Some (address l)) s = Inr r \<and>
      (case find (same_name s) (string_members D pairs) of
         None \<Rightarrow> r = None
       | Some c \<Rightarrow> \<exists>m \<in> set (kids l). r = Some (address m) \<and> represents h' m c))"
proof -
  let ?b = "blocks h"
  let ?h = "snd (cJSON_CreateObject D h)"
  let ?l = "Place ?b None None []" and ?o = "Item cJSON_Object None 0 (dlit D 0) None []"
  have cr: "cJSON_CreateObject D h = (?b, ?h)" by (simp add: cJSON_CreateObject_def new_node_def)
  have "owned ?b ?h ?l ?o" and k1: "kept ?b h ?h"
    using assms by (auto simp: owned_def kept_def heap_ok_def cJSON_CreateObject_def new_node_def zero_node_def
        is_literal_def read_text_opt_def text_addr_def detached_def less_Suc_eq)
  then obtain h' l where h': "add_strings D (Some ?b) pairs ?h = Inr h'"
      "owned ?b h' l (add_items ?o (string_members D pairs))" "address l = ?b" "kept ?b ?h h'"
    using owned_add_strings [of ?b ?h ?l ?o D pairs] by auto
  let ?t = "Item cJSON_Object None 0 (dlit D 0) None (string_members D pairs)"
  have o: "heap_ok h'" "represents h' l ?t" "distinct (node_addrs l)" "distinct (text_addrs l)" "detached h' (address l)"
    using h'(2) by (simp_all add: owned_def add_items_children)
  have get: "\<exists>r. cJSON_GetObjectItem h' (Some (address l)) s = Inr r \<and>
      (case find (same_name s) (string_members D pairs) of
         None \<Rightarrow> r = None
       | Some c \<Rightarrow> \<exists>m \<in> set (kids l). r = Some (address m) \<and> represents h' m c)" for s
    using GetObjectItem_represents [OF o(1-3), of s] by (simp add: get_object_item_def)
  have "cJSON_Delete (blocks h') h' (Some (address l)) = Inr (without_items h' [l])"
    by (rule Delete_detached [OF o(1,2,5,3,4)])
  moreover have "(case cJSON_CreateObject D h of (obj, h) \<Rightarrow> add_strings D (Some obj) pairs h) = Inr h'"
    by (subst cr) (simp add: h'(1))
  moreover have "address l = fst (cJSON_CreateObject D h)" by (subst cr) (simp add: h'(3))
  ultimately show ?thesis using o(2) kept_trans [OF k1 h'(4) order_refl] get by blast
qed

lemma objects_of_strings_witness:
  "\<exists>h' l. add_strings exact_doubles (Some 5) [([65], [66]), ([97], [67])] (snd (cJSON_CreateObject exact_doubles sample_heap)) = Inr h' \<and>
    (\<exists>m \<in> set (kids l). cJSON_GetObjectItem h' (Some 5) [97] = Inr (Some (address m)) \<and>
      represents h' m (Item cJSON_String (Some [66]) 0 0 (Some [65]) []))"
proof -
  let ?D = exact_doubles and ?ps = "[([65], [66]), ([97], [67])]"
  have cr: "cJSON_CreateObject ?D sample_heap = (5, snd (cJSON_CreateObject ?D sample_heap))"
    by (simp add: cJSON_CreateObject_def new_node_def sample_heap_def Let_def)
  obtain h' l where h': "(case cJSON_CreateObject ?D sample_heap of (obj, h) \<Rightarrow> add_strings ?D (Some obj) ?ps h) = Inr h'"
      "address l = fst (cJSON_CreateObject ?D sample_heap)"
      "\<forall>s. \<exists>r. cJSON_GetObjectItem h' (Some (address l)) s = Inr r \<and>
      (case find (same_name s) (string_members ?D ?ps) of
         None \<Rightarrow> r = None
       | Some c \<Rightarrow> \<exists>m \<in> set (kids l). r = Some (address m) \<and> represents h' m c)"
    using objects_of_strings [OF sample_ok(1), of ?D ?ps] by blast
  have f: "find (same_name [97]) (string_members ?D ?ps) = Some (Item cJSON_String (Some [66]) 0 0 (Some [65]) [])"
    by code_simp
  have a: "address l = 5" using h'(2) cr by (metis fst_conv)
  have "\<exists>m \<in> set (kids l). cJSON_GetObjectItem h' (Some 5) [97] = Inr (Some (address m)) \<and>
      represents h' m (Item cJSON_String (Some [66]) 0 0 (Some [65]) [])"
    using h'(3) [rule_format, of "[97]"] unfolding f a by auto
  moreover have "add_strings ?D (Some 5) ?ps (snd (cJSON_CreateObject ?D sample_heap)) = Inr h'"
    using h'(1) by (subst (asm) cr) simp
  ultimately show ?thesis by blast
qed

end
