(* ===== verification/Film_Db.thy ===== *)
theory Film_Db
  imports CJson_Objects CJson_Roundtrip Hash_Table
begin

text \<open>
  The film database of \<open>film.c\<close>, \<open>database.c\<close> and the request handlers of \<open>block5.c\<close>. A film is the record of its
  strings; JSON items are the trees of \<open>CJson_Parse\<close>, whose relation to the items in memory is the subject of
  \<open>CJson_Objects\<close>. What the \<open>onion\<close> library hands to a handler is the record \<open>http_request\<close>, and the response is
  the list of the calls made on it: the library sends the headers with the first bytes written, so a code or a header that
  is set later need not reach the client. Freeing is implicit in working with values; allocation
  is taken to succeed.
\<close>

definition text_of :: "string \<Rightarrow> byte list" where
  "text_of s = map of_char s"

section \<open>Films\<close>

definition DB_FIELDS :: nat where "DB_FIELDS = 6"
definition DB_MAX_FILMS :: int where "DB_MAX_FILMS = 1000"
definition MAX_ID_LEN :: nat where "MAX_ID_LEN = 10"

definition field_names :: "byte list list" where
  "field_names = map text_of
     [''title'', ''originalTitle'', ''productionYear'', ''length'', ''director'', ''actors'']"

datatype view = COMPACT | FULL

record stored_film =
  film_fields :: "byte list list"

abbreviation (input) film_title :: nat where "film_title \<equiv> 0"

text \<open>The loop of \<open>parse_film\<close>: nothing as soon as a field is missing or no string.\<close>

fun read_fields :: "'d cJSON option \<Rightarrow> byte list list \<Rightarrow> byte list list option" where
  "read_fields item [] = Some []"
| "read_fields item (field_name # names) =
     (case get_object_item item field_name of
        None \<Rightarrow> None
      | Some field \<Rightarrow>
          (case valuestring field of
             None \<Rightarrow> None
           | Some s \<Rightarrow> map_option ((#) s) (read_fields item names)))"

definition parse_film :: "'d doubles \<Rightarrow> byte list \<Rightarrow> fault + int \<times> stored_film option" where
  "parse_film D s =
     bind_res (cJSON_Parse D s) (\<lambda>(item, _).
     Inr (case read_fields item field_names of
            Some fs \<Rightarrow> (0, Some \<lparr>film_fields = fs\<rparr>)
          | None \<Rightarrow> (1, None)))"

definition film_json_view :: "'d doubles \<Rightarrow> stored_film \<Rightarrow> byte list \<Rightarrow> view \<Rightarrow> 'd cJSON" where
  "film_json_view D f href v =
     (let obj = Item cJSON_Object None 0 (dlit D 0) None [];
          obj = (case v of
                   COMPACT \<Rightarrow> add_item obj (string_item D (film_fields f ! film_title) (Some (field_names ! film_title)))
                 | FULL \<Rightarrow> add_items obj (string_members D (map (\<lambda>i. (field_names ! i, film_fields f ! i)) [0..<DB_FIELDS])))
      in add_item obj (string_item D href (Some (text_of ''href''))))"

section \<open>Database\<close>

record database =
  films :: "stored_film option list"
  id_map :: hash_table
  cur_films :: int

text \<open>The memory image of an \<open>int\<close>.\<close>

definition int_bytes :: "int \<Rightarrow> byte list" where
  "int_bytes i = map (\<lambda>k. word_of_int (i div 256 ^ k)) [0..<4]"

definition bytes_int :: "byte list \<Rightarrow> int" where
  "bytes_int bs = signed_take_bit 31 (\<Sum>k<4. uint (bs ! k) * 256 ^ k)"

text \<open>
  \<open>sscanf(s, "%d", &index)\<close>. Without a digit there is no conversion and \<open>index\<close> stays uninitialised; a number outside
  \<open>int\<close> is undefined too.
\<close>

definition is_space :: "byte \<Rightarrow> bool" where
  "is_space c \<longleftrightarrow> c = 32 \<or> (9 \<le> c \<and> c \<le> 13)"

definition digits_value :: "byte list \<Rightarrow> int" where
  "digits_value ds = foldl (\<lambda>n d. 10 * n + (uint d - 48)) 0 ds"

definition scan_index :: "byte list \<Rightarrow> fault + int" where
  "scan_index s =
     (let s = dropWhile is_space s;
          ds = takeWhile is_digit (if s \<noteq> [] \<and> hd s \<in> {43, 45} then tl s else s);
          i = (if s \<noteq> [] \<and> hd s = 45 then - digits_value ds else digits_value ds)
      in if ds = [] \<or> i < - (2 ^ 31) \<or> 2 ^ 31 \<le> i then Inl Undefined else Inr i)"

text \<open>\<open>db->films[i]\<close>, which is an access outside the array unless \<open>0 \<le> i < DB_MAX_FILMS\<close>.\<close>

definition film_at :: "database \<Rightarrow> int \<Rightarrow> fault + stored_film option" where
  "film_at db i = (if 0 \<le> i \<and> i < DB_MAX_FILMS then Inr (films db ! nat i) else Inl Undefined)"

definition set_film :: "database \<Rightarrow> int \<Rightarrow> stored_film option \<Rightarrow> fault + database" where
  "set_film db i f =
     (if 0 \<le> i \<and> i < DB_MAX_FILMS then Inr (db\<lparr>films := (films db)[nat i := f]\<rparr>) else Inl Undefined)"

definition db_get :: "database \<Rightarrow> byte list \<Rightarrow> fault + stored_film option" where
  "db_get db key =
     bind_res (scan_index key) (\<lambda>index.
     if index \<ge> cur_films db \<or> index < 0 then Inr None else film_at db index)"

definition db_contains :: "database \<Rightarrow> byte list \<Rightarrow> bool" where
  "db_contains db title = (snd (ht_get_value hash64 (id_map db) title) \<noteq> None)"

definition db_get_id :: "database \<Rightarrow> byte list \<Rightarrow> fault + int" where
  "db_get_id db title =
     (case snd (ht_get_value hash64 (id_map db) title) of
        None \<Rightarrow> Inr (-1)
      | Some v \<Rightarrow> bind_res (assert_c (length v = 4)) (\<lambda>_. Inr (bytes_int v)))"

definition db_add :: "database \<Rightarrow> byte list \<Rightarrow> stored_film option \<Rightarrow> fault + database" where
  "db_add db title value =
     (let db = db\<lparr>id_map := snd (ht_set_value hash64 (id_map db) title (int_bytes (cur_films db)))\<rparr> in
      bind_res (set_film db (cur_films db) value) (\<lambda>db.
      Inr (db\<lparr>cur_films := cur_films db + 1\<rparr>)))"

definition db_update :: "database \<Rightarrow> byte list \<Rightarrow> stored_film option \<Rightarrow> fault + database" where
  "db_update db title value =
     bind_res (db_get_id db title) (\<lambda>id.
     bind_res (film_at db id) (\<lambda>prev_film.
     case prev_film of
       None \<Rightarrow> Inl Undefined
     | Some prev_film \<Rightarrow>
         let prev_title = film_fields prev_film ! film_title;
             db = db\<lparr>id_map := snd (ht_delete_key hash64 (id_map db) prev_title)\<rparr>;
             db = db\<lparr>id_map := snd (ht_set_value hash64 (id_map db) title (int_bytes id))\<rparr>
         in set_film db id value))"

definition db_delete :: "database \<Rightarrow> byte list \<Rightarrow> fault + database" where
  "db_delete db key =
     bind_res (scan_index key) (\<lambda>index.
     if index \<ge> cur_films db \<or> index < 0 then Inr db
     else
       bind_res (film_at db index) (\<lambda>f.
       case f of
         None \<Rightarrow> Inr db
       | Some f \<Rightarrow>
           bind_res (set_film db index None) (\<lambda>db.
           let title = film_fields f ! film_title in
           Inr (db\<lparr>id_map := snd (ht_delete_key hash64 (id_map db) title)\<rparr>))))"

definition db_create :: database where
  "db_create = \<lparr>films = replicate (nat DB_MAX_FILMS) None, id_map = ht_create, cur_films = 0\<rparr>"

text \<open>
  The films that \<open>db_destroy\<close> destroys, one per slot_at below \<open>cur_films\<close>, and the blocks \<open>ht_destroy\<close> frees.
\<close>

definition db_destroy :: "database \<Rightarrow> stored_film list \<times> block list" where
  "db_destroy db =
     (List.map_filter id (take (nat (cur_films db)) (films db)), ht_destroy (id_map db))"

section \<open>Request handlers\<close>

definition BASE_URL :: "byte list" where
  "BASE_URL = text_of ''http://0.0.0.0:4711''"

definition OR_METHODS :: u32 where "OR_METHODS = 0x0F"
definition OR_GET :: u32 where "OR_GET = 0"
definition OR_POST :: u32 where "OR_POST = 1"
definition OR_PUT :: u32 where "OR_PUT = 5"
definition OR_DELETE :: u32 where "OR_DELETE = 6"

definition OCS_NOT_PROCESSED :: int where "OCS_NOT_PROCESSED = 0"
definition OCS_PROCESSED :: int where "OCS_PROCESSED = 2"

text \<open>
  A request: its flags, its path, what the second parenthesis of the URL pattern has matched, the block of posted data
  and the field \<open>data\<close> of a put.
\<close>

record http_request =
  req_flags :: u32
  fullpath :: "byte list"
  query1 :: "byte list"
  req_data :: "byte list"
  put_data :: "byte list option"

datatype response_call = Write "byte list" | Set_Code int | Set_Header "byte list" "byte list"

type_synonym response = "response_call list"

definition response_write :: "response \<Rightarrow> byte list \<Rightarrow> response" where
  "response_write res s = res @ [Write s]"

definition set_header :: "response \<Rightarrow> byte list \<Rightarrow> byte list \<Rightarrow> response" where
  "set_header res name s = res @ [Set_Header name s]"

definition set_code :: "response \<Rightarrow> int \<Rightarrow> response" where
  "set_code res code = res @ [Set_Code code]"

text \<open>The body, and what is set before it is begun.\<close>

fun resp_body :: "response \<Rightarrow> byte list" where
  "resp_body [] = []"
| "resp_body (Write s # res) = s @ resp_body res"
| "resp_body (_ # res) = resp_body res"

definition set_in_time :: "response \<Rightarrow> response" where
  "set_in_time res = takeWhile (\<lambda>c. case c of Write _ \<Rightarrow> False | _ \<Rightarrow> True) res"

text \<open>
  The macro \<open>ONION_INFO(fmt)\<close> passes a text as the format of a \<open>printf\<close> without arguments: a conversion other than
  \<open>%%\<close> has no defined behaviour.
\<close>

abbreviation PERCENT :: byte where "PERCENT \<equiv> 37"

fun no_conversions :: "byte list \<Rightarrow> bool" where
  "no_conversions [] = True"
| "no_conversions (c # cs) =
     (if c \<noteq> PERCENT then no_conversions cs
      else case cs of [] \<Rightarrow> False | d # ds \<Rightarrow> d = PERCENT \<and> no_conversions ds)"

definition ONION_INFO :: "byte list \<Rightarrow> fault + unit" where
  "ONION_INFO fmt = (if no_conversions fmt then Inr () else Inl Undefined)"

text \<open>What \<open>snprintf\<close> writes before the NUL into a block of \<open>n\<close> bytes.\<close>

definition snprintf :: "nat \<Rightarrow> byte list \<Rightarrow> byte list" where
  "snprintf n s = take (n - 1) s"

abbreviation SLASH_TEXT :: "byte list" where "SLASH_TEXT \<equiv> [SLASH]"

definition response_write_json :: "'d doubles \<Rightarrow> response \<Rightarrow> 'd cJSON \<Rightarrow> fault + response" where
  "response_write_json D res obj =
     bind_res (cJSON_Print D obj) (\<lambda>json_str.
     case json_str of
       None \<Rightarrow> Inl Undefined
     | Some s \<Rightarrow>
         let res = response_write res s;
             res = set_header res (text_of ''Content-Type'') (text_of ''application/json'')
         in Inr (set_header res (text_of ''Mime-Type'') (text_of ''application/json'')))"

definition collection_href :: "http_request \<Rightarrow> byte list" where
  "collection_href req = snprintf (length BASE_URL + length (fullpath req) + 1) (BASE_URL @ fullpath req)"

definition item_href :: "byte list \<Rightarrow> int \<Rightarrow> byte list" where
  "item_href href i = snprintf (length href + MAX_ID_LEN + 1) (href @ SLASH_TEXT @ show_int i)"

text \<open>The loop of \<open>list_films\<close> from \<open>i\<close> on, with \<open>n\<close> rounds to go.\<close>

fun list_items :: "'d doubles \<Rightarrow> database \<Rightarrow> byte list \<Rightarrow> nat \<Rightarrow> int \<Rightarrow> fault + 'd cJSON list" where
  "list_items D db href 0 i = Inr []"
| "list_items D db href (Suc n) i =
     bind_res (film_at db i) (\<lambda>f.
     bind_res (list_items D db href n (i + 1)) (\<lambda>rest.
     Inr (case f of
            None \<Rightarrow> rest
          | Some f \<Rightarrow> film_json_view D f (item_href href i) COMPACT # rest)))"

definition list_films :: "'d doubles \<Rightarrow> database \<Rightarrow> http_request \<Rightarrow> response \<Rightarrow> fault + response" where
  "list_films D db req res =
     (let href = collection_href req in
      bind_res (list_items D db href (nat (cur_films db)) 0) (\<lambda>items.
      let item = Item cJSON_Object None 0 (dlit D 0) None
            [Item cJSON_Array None 0 (dlit D 0) (Some (text_of ''items'')) items];
          item = add_item item (string_item D href (Some (text_of ''href''))) in
      bind_res (response_write_json D res item) (\<lambda>res.
      Inr (set_code res 200))))"

definition invalid_request :: "response \<Rightarrow> int \<times> response" where
  "invalid_request res =
     (OCS_PROCESSED, set_code (response_write res (text_of ''request failed'' @ [NEWLINE])) 404)"

type_synonym handled = "fault + int \<times> database \<times> response"

abbreviation refuse :: "database \<Rightarrow> response \<Rightarrow> handled" where
  "refuse db res \<equiv> Inr (fst (invalid_request res), db, snd (invalid_request res))"

definition add_film :: "'d doubles \<Rightarrow> database \<Rightarrow> http_request \<Rightarrow> response \<Rightarrow> handled" where
  "add_film D db req res =
     bind_res (ONION_INFO (req_data req)) (\<lambda>_.
     bind_res (parse_film D (req_data req)) (\<lambda>(status, f).
     if status < 0 \<or> f = None then refuse db res
     else
       let name = film_fields (the f) ! film_title in
       if db_contains db name then refuse db res
       else
         bind_res (db_add db name f) (\<lambda>db.
         bind_res (db_get_id db name) (\<lambda>id.
         let location = item_href (collection_href req) id;
             res = set_code res 201
         in Inr (OCS_PROCESSED, db, set_header res (text_of ''Location'') location)))))"

definition reset_db :: "database \<Rightarrow> response \<Rightarrow> handled" where
  "reset_db db res = Inr (OCS_PROCESSED, db_create, res)"

definition film_collection :: "'d doubles \<Rightarrow> database \<Rightarrow> http_request \<Rightarrow> response \<Rightarrow> handled" where
  "film_collection D db req res =
     (let method_flags = req_flags req AND OR_METHODS in
      if method_flags = OR_GET then
        bind_res (list_films D db req res) (\<lambda>res. Inr (OCS_PROCESSED, db, res))
      else if method_flags = OR_POST then
        bind_res (add_film D db req res) (\<lambda>(_, db, res). Inr (OCS_PROCESSED, db, res))
      else if method_flags = OR_DELETE then reset_db db res
      else refuse db res)"

definition film_resource_get :: "'d doubles \<Rightarrow> http_request \<Rightarrow> response \<Rightarrow> stored_film \<Rightarrow> fault + int \<times> response" where
  "film_resource_get D req res f =
     (let film_href = collection_href req in
      bind_res (ONION_INFO film_href) (\<lambda>_.
      bind_res (response_write_json D res (film_json_view D f film_href FULL)) (\<lambda>res.
      Inr (OCS_PROCESSED, res))))"

definition film_resource_update ::
  "'d doubles \<Rightarrow> database \<Rightarrow> http_request \<Rightarrow> response \<Rightarrow> stored_film \<Rightarrow> handled" where
  "film_resource_update D db req res f =
     bind_res (assert_c (req_flags req AND OR_PUT \<noteq> 0)) (\<lambda>_.
     case put_data req of
       None \<Rightarrow> Inr (0, db, res)
     | Some data \<Rightarrow>
         bind_res (ONION_INFO data) (\<lambda>_.
         bind_res (parse_film D data) (\<lambda>(status, updated_film).
         if status < 0 then refuse db res
         else
           bind_res (db_update db (film_fields f ! film_title) updated_film) (\<lambda>db.
           Inr (OCS_PROCESSED, db, res)))))"

definition film_resource_delete :: "database \<Rightarrow> http_request \<Rightarrow> response \<Rightarrow> handled" where
  "film_resource_delete db req res =
     bind_res (db_delete db (query1 req)) (\<lambda>db. Inr (OCS_PROCESSED, db, res))"

definition film_resource :: "'d doubles \<Rightarrow> database \<Rightarrow> http_request \<Rightarrow> response \<Rightarrow> handled" where
  "film_resource D db req res =
     bind_res (db_get db (query1 req)) (\<lambda>f.
     case f of
       None \<Rightarrow> refuse db res
     | Some f \<Rightarrow>
         let method_flags = req_flags req AND OR_METHODS in
         if method_flags = OR_GET then
           bind_res (film_resource_get D req res f) (\<lambda>(r, res). Inr (r, db, res))
         else if method_flags = OR_PUT then film_resource_update D db req res f
         else if method_flags = OR_DELETE then film_resource_delete db req res
         else refuse db res)"

text \<open>
  The two URL patterns of \<open>main\<close> and the loop of \<open>onion_listen\<close>: the database and the responses to a sequence of
  requests, each of which starts with a fresh response.
\<close>

datatype url = Films | Film

definition handle_url :: "'d doubles \<Rightarrow> database \<Rightarrow> url \<Rightarrow> http_request \<Rightarrow> response \<Rightarrow> handled" where
  "handle_url D db u req res =
     (case u of Films \<Rightarrow> film_collection D db req res | Film \<Rightarrow> film_resource D db req res)"

definition new_response :: response where
  "new_response = []"

fun film_server :: "'d doubles \<Rightarrow> database \<Rightarrow> (url \<times> http_request) list \<Rightarrow> fault + database \<times> response list" where
  "film_server D db [] = Inr (db, [])"
| "film_server D db ((u, req) # reqs) =
     bind_res (handle_url D db u req new_response) (\<lambda>(_, db, res).
     bind_res (film_server D db reqs) (\<lambda>(db, rs). Inr (db, res # rs)))"

end
