(* ===== verification/Film_Shop.thy ===== *)
theory Film_Shop
  imports Film_Db
begin

text \<open>
  What the film server does: the database is a sequence of slots, one for each film ever posted since the last reset, and
  the hash table is the index of its titles.
\<close>

section \<open>Views of a film\<close>

definition stored_film_ok :: "stored_film \<Rightarrow> bool" where
  "stored_film_ok f \<longleftrightarrow> length (film_fields f) = DB_FIELDS \<and> list_all c_string (film_fields f)"

abbreviation title_of :: "stored_film \<Rightarrow> byte list" where
  "title_of f \<equiv> film_fields f ! film_title"

lemma field_names_differ:
  "list_all (\<lambda>i. list_all (\<lambda>j. (cJSON_strcasecmp (Some (field_names ! j)) (Some (field_names ! i)) = 0) = (i = j)) [0..<6]) [0..<6]"
  by code_simp

lemma length_field_names: "length field_names = 6"
  by (simp add: field_names_def)

lemma same_field_name:
  "i < 6 \<Longrightarrow> j < 6 \<Longrightarrow> same_name (field_names ! i) (string_item D s (Some (field_names ! j))) \<longleftrightarrow> i = j"
  using field_names_differ by (simp add: list_all_iff same_name_def string_item_def)

lemma find_field:
  assumes "i < 6"
  shows "find (same_name (field_names ! i)) (string_members D (map (\<lambda>i. (field_names ! i, vs i)) [0..<6]) @ rest) =
    Some (string_item D (vs i) (Some (field_names ! i)))"
proof -
  have "[0..<6] = [0, 1, 2, 3, 4, 5::nat]" by code_simp
  moreover have "i \<in> set [0, 1, 2, 3, 4, 5]" using assms by auto
  ultimately show ?thesis using assms
    by (auto simp: string_members_def same_field_name)
qed

lemma read_fields_map:
  "(\<And>i. i \<in> set is \<Longrightarrow> i < 6) \<Longrightarrow>
    read_fields (Some (Item k v vi vd nm (string_members D (map (\<lambda>i. (field_names ! i, vs i)) [0..<6]) @ rest)))
      (map ((!) field_names) is) = Some (map vs is)"
  by (induction "is") (simp_all add: get_object_item_def find_field string_item_def)

lemma full_view:
  "film_json_view D f href FULL = Item cJSON_Object None 0 (dlit D 0) None
     (string_members D (map (\<lambda>i. (field_names ! i, film_fields f ! i)) [0..<6]) @ [string_item D href (Some (text_of ''href''))])"
  by (simp add: film_json_view_def DB_FIELDS_def add_items_children)

lemma read_full_view:
  assumes "stored_film_ok f"
  shows "read_fields (Some (film_json_view D f href FULL)) field_names = Some (film_fields f)"
proof -
  have "map ((!) field_names) [0..<6] = field_names" "map ((!) (film_fields f)) [0..<6] = film_fields f"
    using map_nth [of field_names] map_nth [of "film_fields f"] assms
    by (simp_all add: stored_film_ok_def DB_FIELDS_def length_field_names)
  then show ?thesis
    using read_fields_map [of "[0..<6]" cJSON_Object None 0 "dlit D 0" None D "(!) (film_fields f)"] by (simp add: full_view)
qed

lemma string_members_ok:
  assumes "\<forall>(n, s) \<in> set ps. c_string n \<and> c_string s" and "c \<in> set (string_members D ps)"
  shows "well_formed D c \<and> integral D c \<and> (\<exists>n. item_name c = Some n \<and> c_string n)"
  using assms by (auto simp: string_members_def string_item_def)

lemma literal_c_strings: "list_all c_string field_names" "c_string (text_of ''href'')" "c_string (text_of ''items'')" "c_string BASE_URL"
  by code_simp+

lemma full_view_ok:
  assumes "stored_film_ok f" and "c_string href"
  shows "well_formed D (film_json_view D f href FULL)" "integral D (film_json_view D f href FULL)"
    "item_name (film_json_view D f href FULL) = None"
proof -
  let ?ps = "map (\<lambda>i. (field_names ! i, film_fields f ! i)) [0..<6] @ [(text_of ''href'', href)]"
  have eq: "film_json_view D f href FULL = Item cJSON_Object None 0 (dlit D 0) None (string_members D ?ps)"
    by (simp add: full_view string_members_def)
  have "\<forall>(n, s) \<in> set ?ps. c_string n \<and> c_string s"
    using assms literal_c_strings by (auto simp: stored_film_ok_def list_all_length DB_FIELDS_def length_field_names)
  note ok = string_members_ok [OF this]
  show "well_formed D (film_json_view D f href FULL)" unfolding eq using ok [of _ D] by (fastforce split: option.splits)
  show "integral D (film_json_view D f href FULL)" unfolding eq using ok [of _ D] by auto
  show "item_name (film_json_view D f href FULL) = None" by (simp add: eq)
qed

definition json_response :: "'d doubles \<Rightarrow> response \<Rightarrow> 'd cJSON \<Rightarrow> response" where
  "json_response D res t = res @ [Write (json_text D True 0 t),
     Set_Header (text_of ''Content-Type'') (text_of ''application/json''), Set_Header (text_of ''Mime-Type'') (text_of ''application/json'')]"

lemma response_write_json_ok: "printable D t \<Longrightarrow> response_write_json D res t = Inr (json_response D res t)"
  by (simp add: response_write_json_def cJSON_Print_def print_value_ok json_response_def response_write_def set_header_def)

lemma no_conversions_append: "no_conversions s \<Longrightarrow> no_conversions (s @ t) \<longleftrightarrow> no_conversions t"
  by (induction s rule: no_conversions.induct) (auto split: if_splits list.splits)

lemma base_url_no_conversions: "no_conversions (BASE_URL @ path) \<longleftrightarrow> no_conversions path"
  by (rule no_conversions_append) code_simp

lemma collection_href_eq: "collection_href req = BASE_URL @ fullpath req"
  by (simp add: collection_href_def snprintf_def)

section \<open>The database as a sequence of slots\<close>

text \<open>The index of the titles holds the number of the slot of each film.\<close>

definition indexed :: "stored_film option list \<Rightarrow> (byte list \<rightharpoonup> byte list) \<Rightarrow> bool" where
  "indexed fs m \<longleftrightarrow>
     (\<forall>t v. m t = Some v \<longleftrightarrow> (\<exists>i < length fs. \<exists>f. fs ! i = Some f \<and> title_of f = t \<and> v = int_bytes (int i)))"

definition shop_of :: "database \<Rightarrow> stored_film option list \<Rightarrow> bool" where
  "shop_of db fs \<longleftrightarrow> ht_wf hash64 (id_map db) \<and> cur_films db = int (length fs) \<and> length (films db) = 1000 \<and>
     length fs \<le> 1000 \<and> take (length fs) (films db) = fs \<and> indexed fs (ht_map (id_map db)) \<and>
     (\<forall>f. Some f \<in> set fs \<longrightarrow> stored_film_ok f)"

lemma int_bytes_roundtrip:
  assumes "0 \<le> i" and "i < 2 ^ 31"
  shows "bytes_int (int_bytes i) = i" and "length (int_bytes i) = 4"
proof -
  have "[0..<4] = [0, 1, 2, 3::nat]" by code_simp
  then have b: "int_bytes i = [word_of_int i, word_of_int (i div 256), word_of_int (i div 65536), word_of_int (i div 16777216)]"
    by (simp add: int_bytes_def)
  have u: "uint (word_of_int k :: byte) = k mod 256" for k by (simp add: uint_word_of_int)
  have "{..<4} = {0, 1, 2, 3::nat}" by auto
  then have "bytes_int (int_bytes i) = signed_take_bit 31 (i mod 256 + (i div 256 mod 256) * 256 +
      (i div 65536 mod 256) * 65536 + (i div 16777216 mod 256) * 16777216)"
    by (simp add: b bytes_int_def u add.assoc)
  also have "i mod 256 + (i div 256 mod 256) * 256 + (i div 65536 mod 256) * 65536 + (i div 16777216 mod 256) * 16777216 = i"
  proof -
    have d: "i div 65536 = i div 256 div 256" "i div 16777216 = i div 65536 div 256"
      by (simp_all add: zdiv_zmult2_eq [symmetric])
    have "i div 16777216 mod 256 = i div 16777216" using assms by (intro mod_pos_pos_trivial) auto
    then show ?thesis
      using d div_mult_mod_eq [of i 256] div_mult_mod_eq [of "i div 256" 256] div_mult_mod_eq [of "i div 65536" 256]
      by linarith
  qed
  also have "signed_take_bit 31 i = i" using assms by (simp add: signed_take_bit_int_eq_self)
  finally show "bytes_int (int_bytes i) = i" .
  show "length (int_bytes i) = 4" by (simp add: int_bytes_def)
qed

lemma int_bytes_inject:
  assumes "0 \<le> i" "i < 1000" "0 \<le> j" "j < 1000" and "int_bytes i = int_bytes j"
  shows "i = j"
proof -
  have "i = bytes_int (int_bytes i)" using assms(1,2) by (intro int_bytes_roundtrip(1) [symmetric]) simp_all
  also have "\<dots> = j" unfolding assms(5) using assms(3,4) by (intro int_bytes_roundtrip(1)) simp_all
  finally show ?thesis .
qed

lemma nth_update_None: "j < length fs \<Longrightarrow> fs[i := None] ! j = Some g \<longleftrightarrow> j \<noteq> i \<and> fs ! j = Some g"
  by (cases "i = j") auto

lemma indexedD:
  assumes "indexed fs m" and "i < length fs" and "fs ! i = Some f"
  shows "m (title_of f) = Some (int_bytes (int i))"
  using assms unfolding indexed_def by blast

lemma indexed_unique:
  assumes "indexed fs m" and "length fs \<le> 1000" and "i < length fs" "fs ! i = Some f" and "j < length fs" "fs ! j = Some g"
    and "title_of f = title_of g"
  shows "i = j"
proof -
  have "int_bytes (int i) = int_bytes (int j)"
    using indexedD [OF assms(1,3,4)] indexedD [OF assms(1,5,6)] assms(7) by simp
  then show ?thesis using int_bytes_inject [of "int i" "int j"] assms(2,3,5) by linarith
qed

lemma indexed_append:
  assumes "indexed fs m" and "m (title_of f) = None"
  shows "indexed (fs @ [Some f]) (m(title_of f \<mapsto> int_bytes (int (length fs))))"
  unfolding indexed_def
proof (intro allI)
  fix t v
  show "((m(title_of f \<mapsto> int_bytes (int (length fs)))) t = Some v) \<longleftrightarrow>
      (\<exists>i<length (fs @ [Some f]). \<exists>g. (fs @ [Some f]) ! i = Some g \<and> title_of g = t \<and> v = int_bytes (int i))" (is "?l \<longleftrightarrow> ?r")
  proof (cases "t = title_of f")
    case True
    have "title_of g \<noteq> t" if "i < length fs" "fs ! i = Some g" for i g
      using indexedD [OF assms(1) that] assms(2) True by auto
    then have "?r \<longleftrightarrow> v = int_bytes (int (length fs))" using True by (auto simp: nth_append less_Suc_eq)
    then show ?thesis using True by auto
  next
    case False
    then have "?r \<longleftrightarrow> (\<exists>i<length fs. \<exists>g. fs ! i = Some g \<and> title_of g = t \<and> v = int_bytes (int i))"
      by (auto simp: nth_append less_Suc_eq)
    then show ?thesis using assms(1) False unfolding indexed_def by simp
  qed
qed

lemma indexed_remove:
  assumes "indexed fs m" and "length fs \<le> 1000" and i: "i < length fs" "fs ! i = Some f"
  shows "indexed (fs[i := None]) (m(title_of f := None))"
  unfolding indexed_def
proof (intro allI)
  fix t v
  show "((m(title_of f := None)) t = Some v) \<longleftrightarrow>
      (\<exists>j<length (fs[i := None]). \<exists>g. (fs[i := None]) ! j = Some g \<and> title_of g = t \<and> v = int_bytes (int j))" (is "?l \<longleftrightarrow> ?r")
  proof -
    have r: "?r \<longleftrightarrow> (\<exists>j<length fs. j \<noteq> i \<and> (\<exists>g. fs ! j = Some g \<and> title_of g = t \<and> v = int_bytes (int j)))"
      by (auto simp: nth_update_None)
    show ?thesis
    proof (cases "t = title_of f")
      case True
      then show ?thesis unfolding r using indexed_unique [OF assms(1,2) i] by auto
    next
      case False
      then show ?thesis unfolding r using assms(1) i by (auto simp: indexed_def)
    qed
  qed
qed

lemma indexed_replace:
  assumes "indexed fs m" and i: "i < length fs" "fs ! i = Some f" and "title_of g = title_of f"
  shows "indexed (fs[i := Some g]) m"
  unfolding indexed_def
proof (intro allI)
  fix t v
  have "(\<exists>j<length fs. \<exists>h. fs ! j = Some h \<and> title_of h = t \<and> v = int_bytes (int j)) \<longleftrightarrow>
      (\<exists>j<length (fs[i := Some g]). \<exists>h. fs[i := Some g] ! j = Some h \<and> title_of h = t \<and> v = int_bytes (int j))"
    using i assms(4) by (intro ex_cong1) (auto simp: nth_list_update)
  then show "(m t = Some v) \<longleftrightarrow>
      (\<exists>j<length (fs[i := Some g]). \<exists>h. fs[i := Some g] ! j = Some h \<and> title_of h = t \<and> v = int_bytes (int j))"
    using assms(1) unfolding indexed_def by simp
qed

section \<open>Operations of the database\<close>

lemma shopD:
  assumes "shop_of db fs"
  shows "ht_wf hash64 (id_map db)" "cur_films db = int (length fs)" "length fs \<le> 1000" "indexed fs (ht_map (id_map db))"
    "length (films db) = 1000" "take (length fs) (films db) = fs"
    "\<And>f. Some f \<in> set fs \<Longrightarrow> stored_film_ok f" "\<And>i. i < length fs \<Longrightarrow> films db ! i = fs ! i"
proof -
  show "films db ! i = fs ! i" if "i < length fs" for i
    using that assms nth_take [OF that, of "films db"] by (simp add: shop_of_def)
qed (use assms in \<open>simp_all add: shop_of_def\<close>)

lemma lookup_title:
  "shop_of db fs \<Longrightarrow> snd (ht_get_value hash64 (id_map db) t) = ht_map (id_map db) t"
  using ht.lookup_content [of hash64 "id_map db" t] by (simp add: ht_lookup_def shop_of_def)

lemma has_title: "shop_of db fs \<Longrightarrow> db_contains db t \<longleftrightarrow> (\<exists>f. Some f \<in> set fs \<and> title_of f = t)"
  using shopD(4) [of db fs] by (force simp: db_contains_def lookup_title indexed_def in_set_conv_nth)

lemma film_at_shop: "shop_of db fs \<Longrightarrow> i < length fs \<Longrightarrow> film_at db (int i) = Inr (fs ! i)"
  using shopD(3,8) [of db fs] by (simp add: film_at_def DB_MAX_FILMS_def)

definition slot_at :: "stored_film option list \<Rightarrow> int \<Rightarrow> stored_film option" where
  "slot_at fs i = (if 0 \<le> i \<and> i < int (length fs) then fs ! nat i else None)"

lemma db_get_shop: "shop_of db fs \<Longrightarrow> scan_index key = Inr i \<Longrightarrow> db_get db key = Inr (slot_at fs i)"
  using film_at_shop [of db fs "nat i"] shopD(2) [of db fs] by (auto simp: db_get_def slot_at_def)

lemma slotD:
  assumes "slot_at fs i = Some f"
  shows "nat i < length fs" "fs ! nat i = Some f" "int (nat i) = i" "0 \<le> i" "i < int (length fs)"
  using assms by (auto simp: slot_at_def split: if_splits)

lemma db_create_shop: "shop_of db_create []"
  by (simp add: shop_of_def db_create_def DB_MAX_FILMS_def ht_wf_create indexed_def ht_map_create)

lemma db_add_shop:
  assumes db: "shop_of db fs" and f: "stored_film_ok f" and new: "\<not> db_contains db (title_of f)" and n: "length fs < 1000"
    and room: "ht_room (Suc k) (id_map db)"
  obtains db' where "db_add db (title_of f) (Some f) = Inr db'" "shop_of db' (fs @ [Some f])" "ht_room k (id_map db')"
    "db_get_id db' (title_of f) = Inr (int (length fs))"
proof -
  note d = shopD [OF db]
  let ?m = "ht_put hash64 (id_map db) (title_of f) (int_bytes (int (length fs)))"
  let ?db = "db\<lparr>id_map := ?m, films := (films db)[length fs := Some f], cur_films := int (length fs) + 1\<rparr>"
  have run: "db_add db (title_of f) (Some f) = Inr ?db"
    using d(2) n by (simp add: db_add_def set_film_def DB_MAX_FILMS_def ht_put_def)
  note put = ht.put_content [OF d(1) room, of "title_of f" "int_bytes (int (length fs))"]
    ht.put_inv [OF d(1) room, of "title_of f" "int_bytes (int (length fs))"]
    ht.put_room [OF d(1) room, of "title_of f" "int_bytes (int (length fs))"]
  have none: "ht_map (id_map db) (title_of f) = None" using new by (simp add: db_contains_def lookup_title [OF db])
  have "take (Suc (length fs)) ((films db)[length fs := Some f]) = fs @ [Some f]"
    using n d(5,6) by (simp add: take_Suc_conv_app_nth)
  moreover have "indexed (fs @ [Some f]) (ht_map ?m)" unfolding put(1) by (rule indexed_append [OF d(4) none])
  ultimately have "shop_of ?db (fs @ [Some f])"
    using put(2) n d(5,7) f by (auto simp: shop_of_def)
  moreover from this have "db_get_id ?db (title_of f) = Inr (int (length fs))"
    using lookup_title [of ?db "fs @ [Some f]" "title_of f"] put(1) int_bytes_roundtrip [of "int (length fs)"] n
    by (simp add: db_get_id_def)
  ultimately show thesis using that [of ?db] run put(3) by simp
qed

lemma db_update_run:
  assumes db: "shop_of db fs" and f: "slot_at fs i = Some f" and room: "ht_room (Suc k) (id_map db)"
  obtains m where "db_update db (title_of f) g = Inr (db\<lparr>id_map := m, films := (films db)[nat i := g]\<rparr>)"
    "ht_wf hash64 m" "ht_map m = ht_map (id_map db)" "ht_room k m"
proof -
  note d = shopD [OF db]
  note i = slotD [OF f]
  let ?t = "title_of f"
  have idx: "ht_map (id_map db) ?t = Some (int_bytes i)" using indexedD [OF d(4) i(1,2)] by (simp only: i(3))
  have id: "db_get_id db ?t = Inr i"
    using idx int_bytes_roundtrip [of i] i(4,5) d(3) by (simp add: db_get_id_def lookup_title [OF db])
  have at: "film_at db i = Inr (Some f)" using film_at_shop [OF db i(1)] by (simp only: i(2,3))
  let ?m1 = "ht_del hash64 (id_map db) ?t"
  let ?m = "ht_put hash64 ?m1 ?t (int_bytes i)"
  have run: "db_update db ?t g = Inr (db\<lparr>id_map := ?m, films := (films db)[nat i := g]\<rparr>)"
    using i(4,5) d(3) by (simp add: db_update_def id at set_film_def DB_MAX_FILMS_def ht_put_def ht_del_def Let_def)
  note del = ht.del_content [OF d(1), of ?t] ht.del_inv [OF d(1), of ?t] ht.del_room [OF d(1) room, of ?t]
  note put = ht.put_content [OF del(2,3), of ?t "int_bytes i"] ht.put_inv [OF del(2,3), of ?t "int_bytes i"]
    ht.put_room [OF del(2,3), of ?t "int_bytes i"]
  have "ht_map ?m = ht_map (id_map db)" using idx by (auto simp: put(1) del(1))
  then show thesis using that [OF run put(2)] put(3) by simp
qed

lemma db_update_shop:
  assumes db: "shop_of db fs" and f: "slot_at fs i = Some f" and g: "stored_film_ok g" "title_of g = title_of f"
    and room: "ht_room (Suc k) (id_map db)"
  obtains db' where "db_update db (title_of f) (Some g) = Inr db'" "shop_of db' (fs[nat i := Some g])" "ht_room k (id_map db')"
proof -
  note d = shopD [OF db]
  note i = slotD [OF f]
  obtain m where m: "db_update db (title_of f) (Some g) = Inr (db\<lparr>id_map := m, films := (films db)[nat i := Some g]\<rparr>)"
    "ht_wf hash64 m" "ht_map m = ht_map (id_map db)" "ht_room k m"
    by (rule db_update_run [OF db f room])
  have "indexed (fs[nat i := Some g]) (ht_map m)" using indexed_replace [OF d(4) i(1,2) g(2)] m(3) by simp
  moreover have "take (length fs) ((films db)[nat i := Some g]) = fs[nat i := Some g]"
    using d(6) by (simp add: take_update_swap)
  moreover have "stored_film_ok h" if "Some h \<in> set (fs[nat i := Some g])" for h
    using that d(7) g(1) set_update_subset_insert [of fs "nat i" "Some g"] by auto
  ultimately have "shop_of (db\<lparr>id_map := m, films := (films db)[nat i := Some g]\<rparr>) (fs[nat i := Some g])"
    using m(2) d(2,3,5) by (simp add: shop_of_def)
  then show thesis using that m(1,4) by simp
qed

lemma db_delete_shop:
  assumes db: "shop_of db fs" and key: "scan_index key = Inr i" and f: "slot_at fs i = Some f" and room: "ht_room k (id_map db)"
  obtains db' where "db_delete db key = Inr db'" "shop_of db' (fs[nat i := None])" "ht_room k (id_map db')"
proof -
  note d = shopD [OF db]
  note i = slotD [OF f]
  have at: "film_at db i = Inr (Some f)" using film_at_shop [OF db i(1)] by (simp only: i(2,3))
  let ?m = "ht_del hash64 (id_map db) (title_of f)"
  let ?db = "db\<lparr>films := (films db)[nat i := None], id_map := ?m\<rparr>"
  have run: "db_delete db key = Inr ?db"
    using i(4,5) d(2,3) key by (simp add: db_delete_def at set_film_def DB_MAX_FILMS_def ht_del_def)
  note del = ht.del_content [OF d(1), of "title_of f"] ht.del_inv [OF d(1), of "title_of f"] ht.del_room [OF d(1) room, of "title_of f"]
  have "indexed (fs[nat i := None]) (ht_map ?m)" unfolding del(1) by (rule indexed_remove [OF d(4,3) i(1,2)])
  moreover have "take (length fs) ((films db)[nat i := None]) = fs[nat i := None]"
    using d(6) by (simp add: take_update_swap)
  moreover have "stored_film_ok h" if "Some h \<in> set (fs[nat i := None])" for h
    using that d(7) set_update_subset_insert [of fs "nat i" None] by auto
  ultimately have "shop_of ?db (fs[nat i := None])" using del(2) d(2,3,5) by (simp add: shop_of_def)
  then show thesis using that [of ?db] run del(3) by simp
qed

end
