(* ===== verification/Film_Server.thy ===== *)
theory Film_Server
  imports Film_Shop
begin

text \<open>
  The specification of the film server over the sequence of slots of \<open>Film_Shop\<close>, the proof that the handlers
  keep it, and where they do not: puts that change the title or bring no film.
\<close>

section \<open>What the server promises\<close>

text \<open>The film in a posted text, if there is one.\<close>

definition film_in :: "'d doubles \<Rightarrow> byte list \<Rightarrow> stored_film option" where
  "film_in D s = (case parse_film D s of Inr (_, f) \<Rightarrow> f | Inl _ \<Rightarrow> None)"

fun listed :: "'d doubles \<Rightarrow> byte list \<Rightarrow> int \<Rightarrow> stored_film option list \<Rightarrow> 'd cJSON list" where
  "listed D href i [] = []"
| "listed D href i (None # fs) = listed D href (i + 1) fs"
| "listed D href i (Some f # fs) = film_json_view D f (href @ [SLASH] @ show_int i) COMPACT # listed D href (i + 1) fs"

definition listing :: "'d doubles \<Rightarrow> byte list \<Rightarrow> stored_film option list \<Rightarrow> 'd cJSON" where
  "listing D href fs = Item cJSON_Object None 0 (dlit D 0) None
     [Item cJSON_Array None 0 (dlit D 0) (Some (text_of ''items'')) (listed D href 0 fs),
      string_item D href (Some (text_of ''href''))]"

definition not_found :: response where
  "not_found = [Write (text_of ''request failed'' @ [NEWLINE]), Set_Code 404]"

definition created :: "byte list \<Rightarrow> response" where
  "created location = [Set_Code 201, Set_Header (text_of ''Location'') location]"

definition spec_films :: "'d doubles \<Rightarrow> stored_film option list \<Rightarrow> http_request \<Rightarrow> stored_film option list \<times> response" where
  "spec_films D fs req =
     (let m = req_flags req AND OR_METHODS; href = BASE_URL @ fullpath req in
      if m = OR_GET then (fs, json_response D [] (listing D href fs) @ [Set_Code 200])
      else if m = OR_POST then
        (case film_in D (req_data req) of
           None \<Rightarrow> (fs, not_found)
         | Some f \<Rightarrow>
             if \<exists>g \<in> set fs. map_option title_of g = Some (title_of f) then (fs, not_found)
             else (fs @ [Some f], created (href @ [SLASH] @ show_int (int (length fs)))))
      else if m = OR_DELETE then ([], [])
      else (fs, not_found))"

definition spec_film :: "'d doubles \<Rightarrow> stored_film option list \<Rightarrow> int \<Rightarrow> http_request \<Rightarrow> stored_film option list \<times> response" where
  "spec_film D fs i req =
     (let m = req_flags req AND OR_METHODS in
      case slot_at fs i of
        None \<Rightarrow> (fs, not_found)
      | Some f \<Rightarrow>
          if m = OR_GET then (fs, json_response D [] (film_json_view D f (BASE_URL @ fullpath req) FULL))
          else if m = OR_PUT then
            (case put_data req of None \<Rightarrow> (fs, []) | Some s \<Rightarrow> (fs[nat i := film_in D s], []))
          else if m = OR_DELETE then (fs[nat i := None], [])
          else (fs, not_found))"

definition spec_handle ::
  "'d doubles \<Rightarrow> stored_film option list \<Rightarrow> url \<Rightarrow> http_request \<Rightarrow> stored_film option list \<times> response" where
  "spec_handle D fs u req =
     (case u of
        Films \<Rightarrow> spec_films D fs req
      | Film \<Rightarrow> (case scan_index (query1 req) of Inr i \<Rightarrow> spec_film D fs i req | Inl _ \<Rightarrow> (fs, not_found)))"

fun spec_server :: "'d doubles \<Rightarrow> stored_film option list \<Rightarrow> (url \<times> http_request) list \<Rightarrow> stored_film option list \<times> response list" where
  "spec_server D fs [] = (fs, [])"
| "spec_server D fs ((u, req) # reqs) =
     (let (fs, r) = spec_handle D fs u req; (fs, rs) = spec_server D fs reqs in (fs, r # rs))"

text \<open>
  What a request must keep to: the number of a film is a number, there is room for one more film, posted data has no
  number and no exponent outside \<open>int\<close>, what is logged (the data of a post and of a put to a film, the path of a get
  of a film) has no conversion of \<open>printf\<close>, and a put has a film that keeps the title.
\<close>

definition fair :: "'d doubles \<Rightarrow> stored_film option list \<Rightarrow> url \<Rightarrow> http_request \<Rightarrow> bool" where
  "fair D fs u req \<longleftrightarrow>
     c_string (fullpath req) \<and>
     (case u of
        Films \<Rightarrow> req_flags req AND OR_METHODS = OR_POST \<longrightarrow>
          length fs < 1000 \<and> c_string (req_data req) \<and> no_conversions (req_data req) \<and> \<not> isl (parse_film D (req_data req))
      | Film \<Rightarrow> (case scan_index (query1 req) of
          Inl _ \<Rightarrow> False
        | Inr i \<Rightarrow>
            (case slot_at fs i of
               None \<Rightarrow> True
             | Some f \<Rightarrow>
                 (req_flags req AND OR_METHODS = OR_GET \<longrightarrow> no_conversions (fullpath req)) \<and>
                 (req_flags req AND OR_METHODS = OR_PUT \<longrightarrow>
                    (case put_data req of
                       None \<Rightarrow> True
                     | Some s \<Rightarrow> c_string s \<and> no_conversions s \<and> map_option title_of (film_in D s) = Some (title_of f))))))"

fun fair_run :: "'d doubles \<Rightarrow> stored_film option list \<Rightarrow> (url \<times> http_request) list \<Rightarrow> bool" where
  "fair_run D fs [] = True"
| "fair_run D fs ((u, req) # reqs) = (fair D fs u req \<and> fair_run D (fst (spec_handle D fs u req)) reqs)"

subsection \<open>Parsed films and pages\<close>

lemma read_fields_ok:
  "well_formed D t \<Longrightarrow> read_fields (Some t) names = Some fs \<Longrightarrow> length fs = length names \<and> list_all c_string fs"
proof (induction names arbitrary: fs)
  case (Cons n names)
  obtain c s fs' where c: "find (same_name n) (children t) = Some c" "valuestring c = Some s"
      "read_fields (Some t) names = Some fs'" "fs = s # fs'"
    using Cons.prems(2) by (auto simp: get_object_item_def split: option.splits)
  have "c \<in> set (children t)" using c(1) by (auto simp: find_Some_iff)
  then have "well_formed D c" using Cons.prems(1) by (cases t) auto
  then have "c_string s" using c(2) by (cases c) auto
  then show ?case using Cons.IH [OF Cons.prems(1) c(3)] c(4) by simp
qed simp

lemma parse_film_cases:
  assumes "c_string s"
  shows "parse_film D s = Inl Undefined \<or> parse_film D s = Inr (1, None) \<or> (\<exists>f. parse_film D s = Inr (0, Some f) \<and> stored_film_ok f)"
proof -
  have none: "read_fields None field_names = (None :: byte list list option)"
    by (simp add: field_names_def get_object_item_def)
  have "case cJSON_Parse D s of Inr (Some t, ep) \<Rightarrow> well_formed D t | Inr (None, ep) \<Rightarrow> True | Inl f \<Rightarrow> f = Undefined"
    using ParseWithOpts_well_formed [OF assms, of D False False]
    by (auto simp: cJSON_Parse_def split: sum.splits prod.splits option.splits)
  then show ?thesis
    using read_fields_ok [of D _ field_names] none
    by (cases "cJSON_Parse D s")
      (fastforce simp: parse_film_def stored_film_ok_def DB_FIELDS_def length_field_names split: option.splits prod.splits)+
qed

lemma c_string_show_int: "c_string (show_int i)"
proof -
  have "c_string (decimal n)" for n
    using decimal_digits [of n] by (auto simp: c_string_def list_all_iff is_digit_def)
  then show ?thesis by (simp add: show_int_def)
qed

lemma item_href_eq:
  assumes "0 \<le> i" "i < 1000"
  shows "item_href href i = href @ [SLASH] @ show_int i"
proof -
  have "nat i < 10 ^ 3" using assms by simp
  then have "length (decimal (nat i)) \<le> 3" by (rule length_decimal) simp
  then show ?thesis using assms by (simp add: item_href_def snprintf_def MAX_ID_LEN_def show_int_def)
qed

lemma list_items_listed:
  "shop_of db (fs1 @ fs2) \<Longrightarrow> list_items D db href (length fs2) (int (length fs1)) = Inr (listed D href (int (length fs1)) fs2)"
proof (induction fs2 arbitrary: fs1)
  case (Cons f fs2)
  have at: "film_at db (int (length fs1)) = Inr f" using film_at_shop [OF Cons.prems, of "length fs1"] by simp
  have rest: "list_items D db href (length fs2) (int (length fs1) + 1) = Inr (listed D href (int (length fs1) + 1) fs2)"
    using Cons.IH [of "fs1 @ [f]"] Cons.prems by (simp add: add.commute)
  have "int (length fs1) < 1000" using shopD(3) [OF Cons.prems] by simp
  then show ?case using at rest by (cases f) (simp_all add: item_href_eq)
qed simp

lemma printable_string_item: "c_string s \<Longrightarrow> printable D (string_item D s nm)"
  by (simp add: string_item_def c_string_option_def)

lemma film_title_c_string: "stored_film_ok f \<Longrightarrow> c_string (title_of f)"
  by (auto simp: stored_film_ok_def DB_FIELDS_def list_all_length)

lemma printable_listed:
  "c_string href \<Longrightarrow> (\<And>f. Some f \<in> set fs \<Longrightarrow> stored_film_ok f) \<Longrightarrow> c \<in> set (listed D href i fs) \<Longrightarrow> printable D c \<and> item_name c = None"
proof (induction D href i fs rule: listed.induct)
  case (3 D href i f fs)
  have "c_string (title_of f)" using "3.prems"(2) film_title_c_string by simp
  then have "printable D (film_json_view D f (href @ [SLASH] @ show_int i) COMPACT)"
    using "3.prems"(1) literal_c_strings
    by (simp add: film_json_view_def printable_string_item c_string_show_int)
      (simp add: string_item_def c_string_option_def list_all_length length_field_names)
  moreover have "item_name (film_json_view D f h COMPACT) = None" for h by (simp add: film_json_view_def)
  ultimately show ?case using 3 by auto
qed auto

lemma printable_listing:
  assumes "c_string href" and "\<And>f. Some f \<in> set fs \<Longrightarrow> stored_film_ok f"
  shows "printable D (listing D href fs)"
  using printable_listed [OF assms, where D = D and i = 0] assms(1) literal_c_strings
  by (auto simp: listing_def printable_string_item c_string_option_def) (simp_all add: string_item_def)

lemma full_view_printable: "stored_film_ok f \<Longrightarrow> c_string href \<Longrightarrow> printable D (film_json_view D f href FULL)"
proof -
  assume f: "stored_film_ok f" "c_string href"
  have "printable D c \<and> c_string_option (item_name c)" if "c \<in> set (children (film_json_view D f href FULL))" for c
    using that f literal_c_strings
    by (auto simp: full_view string_members_def string_item_def c_string_option_def stored_film_ok_def DB_FIELDS_def
        list_all_length length_field_names)
  then show ?thesis by (simp add: full_view c_string_option_def)
qed

section \<open>The server keeps its promise\<close>

lemma refuse_eq: "refuse db new_response = Inr (OCS_PROCESSED, db, not_found)"
  by (simp add: invalid_request_def new_response_def not_found_def response_write_def set_code_def)

lemma has_title_eq: "(\<exists>g \<in> set fs. map_option title_of g = Some t) \<longleftrightarrow> (\<exists>f. Some f \<in> set fs \<and> title_of f = t)"
  by force

definition handled_as :: "'d doubles \<Rightarrow> database \<Rightarrow> url \<Rightarrow> http_request \<Rightarrow> stored_film option list \<times> response \<Rightarrow> nat \<Rightarrow> bool" where
  "handled_as D db u req p k \<longleftrightarrow>
     (\<exists>r db'. handle_url D db u req new_response = Inr (r, db', snd p) \<and> shop_of db' (fst p) \<and> ht_room k (id_map db'))"

lemma method_differ [simp]:
  "OR_GET \<noteq> OR_POST" "OR_GET \<noteq> OR_DELETE" "OR_POST \<noteq> OR_DELETE" "OR_GET \<noteq> OR_PUT" "OR_PUT \<noteq> OR_DELETE" "OR_POST \<noteq> OR_GET"
  "OR_DELETE \<noteq> OR_GET" "OR_DELETE \<noteq> OR_POST" "OR_PUT \<noteq> OR_GET" "OR_DELETE \<noteq> OR_PUT"
  by (simp_all add: OR_GET_def OR_POST_def OR_DELETE_def OR_PUT_def)

lemma put_flag:
  assumes "flags AND OR_METHODS = OR_PUT"
  shows "flags AND OR_PUT \<noteq> 0"
proof -
  have "flags AND OR_PUT = (flags AND OR_METHODS) AND OR_PUT" by (simp add: OR_METHODS_def OR_PUT_def and.assoc)
  also have "\<dots> = OR_PUT" using assms by (simp add: OR_PUT_def)
  finally show ?thesis by (simp add: OR_PUT_def)
qed

lemma put_handled:
  assumes "db_get db (query1 req) = Inr (Some f)" and "req_flags req AND OR_METHODS = OR_PUT" and "put_data req = Some s"
    and "no_conversions s" and "parse_film D s = Inr (st, g)" and "0 \<le> st"
  shows "handle_url D db Film req new_response =
    bind_res (db_update db (title_of f) g) (\<lambda>db. Inr (OCS_PROCESSED, db, new_response))"
  using assms put_flag [OF assms(2)] by (simp add: handle_url_def film_resource_def film_resource_update_def ONION_INFO_def)

text \<open>The database after a put of \<open>g\<close>, whatever it is, to slot \<open>i\<close>.\<close>

lemma put_slot:
  assumes db: "shop_of db fs" "ht_room 1 (id_map db)" and f: "slot_at fs i = Some f" and req: "req_flags req AND OR_METHODS = OR_PUT"
      "scan_index (query1 req) = Inr i" "put_data req = Some s" "no_conversions s" "parse_film D s = Inr (st, g)" "0 \<le> st"
  obtains db' where "handle_url D db Film req new_response = Inr (OCS_PROCESSED, db', new_response)"
    "\<forall>key. scan_index key = Inr i \<longrightarrow> db_get db' key = Inr g"
    "\<forall>t. snd (ht_get_value hash64 (id_map db') t) = snd (ht_get_value hash64 (id_map db) t)"
proof -
  note d = shopD [OF db(1)]
  note i = slotD [OF f]
  have room: "ht_room (Suc 0) (id_map db)" using db(2) by simp
  obtain m where m: "db_update db (title_of f) g = Inr (db\<lparr>id_map := m, films := (films db)[nat i := g]\<rparr>)"
    "ht_wf hash64 m" "ht_map m = ht_map (id_map db)" "ht_room 0 m"
    by (rule db_update_run [OF db(1) f room])
  let ?db = "db\<lparr>id_map := m, films := (films db)[nat i := g]\<rparr>"
  have "db_get db (query1 req) = Inr (Some f)" using db_get_shop [OF db(1) req(2)] f by simp
  from put_handled [OF this req(1,3-6)] m(1)
  have "handle_url D db Film req new_response = Inr (OCS_PROCESSED, ?db, new_response)" by simp
  moreover have "db_get ?db key = Inr g" if "scan_index key = Inr i" for key
    using that i(1,4,5) d(2,3,5) by (simp add: db_get_def film_at_def DB_MAX_FILMS_def)
  moreover have "snd (ht_get_value hash64 (id_map ?db) t) = snd (ht_get_value hash64 (id_map db) t)" for t
    using ht.lookup_content [OF m(2), of t] lookup_title [OF db(1), of t] m(3) by (simp add: ht_lookup_def)
  ultimately show thesis using that [of ?db] by blast
qed

lemma collection_handled:
  assumes db: "shop_of db fs" and room: "ht_room (Suc k) (id_map db)" and fair: "fair D fs Films req"
  shows "handled_as D db Films req (spec_handle D fs Films req) k"
proof -
  let ?m = "req_flags req AND OR_METHODS" and ?href = "BASE_URL @ fullpath req"
  note d = shopD [OF db]
  note room' = ht.room_mono [OF room]
  have href: "c_string ?href" using fair literal_c_strings(4) by (simp add: fair_def)
  consider (get) "?m = OR_GET" | (post) "?m = OR_POST" | (del) "?m = OR_DELETE"
    | (other) "?m \<noteq> OR_GET" "?m \<noteq> OR_POST" "?m \<noteq> OR_DELETE" by blast
  then show ?thesis
  proof cases
    case get
    have "list_items D db ?href (length fs) 0 = Inr (listed D ?href 0 fs)"
      using list_items_listed [of db "[]" fs] db by simp
    moreover have "printable D (listing D ?href fs)" by (rule printable_listing [OF href d(7)])
    ultimately have "list_films D db req new_response = Inr (json_response D new_response (listing D ?href fs) @ [Set_Code 200])"
      using response_write_json_ok [of D "listing D ?href fs" new_response]
      by (simp add: list_films_def collection_href_eq d(2) listing_def Let_def set_code_def)
    then show ?thesis using get db room'
      by (simp add: handled_as_def handle_url_def film_collection_def spec_handle_def spec_films_def new_response_def)
  next
    case post
    have data: "c_string (req_data req)" "\<not> isl (parse_film D (req_data req))" "length fs < 1000" "no_conversions (req_data req)"
      using fair post by (simp_all add: fair_def)
    then have log: "ONION_INFO (req_data req) = Inr ()" by (simp add: ONION_INFO_def)
    from parse_film_cases [OF data(1), of D] data(2)
    consider (none) "parse_film D (req_data req) = Inr (1, None)"
      | (film) f where "parse_film D (req_data req) = Inr (0, Some f)" "stored_film_ok f" by auto
    then show ?thesis
    proof cases
      case none
      then show ?thesis using post db room' refuse_eq [of db] log
        by (simp add: handled_as_def handle_url_def film_collection_def spec_handle_def spec_films_def add_film_def film_in_def)
    next
      case film
      show ?thesis
      proof (cases "db_contains db (title_of f)")
        case True
        then have "\<exists>g \<in> set fs. map_option title_of g = Some (title_of f)" using has_title [OF db] has_title_eq by blast
        then show ?thesis using True film post db room' refuse_eq [of db] log
          by (simp add: handled_as_def handle_url_def film_collection_def spec_handle_def spec_films_def add_film_def film_in_def)
      next
        case False
        then have new: "\<not> (\<exists>g \<in> set fs. map_option title_of g = Some (title_of f))" using has_title [OF db] has_title_eq by blast
        obtain db' where db': "db_add db (title_of f) (Some f) = Inr db'" "shop_of db' (fs @ [Some f])" "ht_room k (id_map db')"
            "db_get_id db' (title_of f) = Inr (int (length fs))"
          by (rule db_add_shop [OF db film(2) False data(3) room])
        have "set_header (set_code new_response 201) (text_of ''Location'') l = created l" for l
          by (simp add: set_header_def set_code_def new_response_def created_def)
        then show ?thesis using False new film post db' data(3) log
          by (auto simp: handled_as_def handle_url_def film_collection_def spec_handle_def spec_films_def add_film_def film_in_def
              item_href_eq collection_href_eq)
      qed
    qed
  next
    case del
    have "ht_room k ht_create" using room by (intro ht_room_create) (simp add: ht_room_def)
    then show ?thesis using del db_create_shop
      by (simp add: handled_as_def handle_url_def film_collection_def spec_handle_def spec_films_def reset_db_def new_response_def)
        (simp add: db_create_def)
  next
    case other
    then show ?thesis using db room' refuse_eq [of db]
      by (simp add: handled_as_def handle_url_def film_collection_def spec_handle_def spec_films_def)
  qed
qed

lemma resource_handled:
  assumes db: "shop_of db fs" and room: "ht_room (Suc k) (id_map db)" and fair: "fair D fs Film req"
  shows "handled_as D db Film req (spec_handle D fs Film req) k"
proof -
  let ?m = "req_flags req AND OR_METHODS" and ?href = "BASE_URL @ fullpath req"
  note d = shopD [OF db]
  note room' = ht.room_mono [OF room]
  have href: "c_string ?href" using fair literal_c_strings(4) by (simp add: fair_def)
  obtain i where i: "scan_index (query1 req) = Inr i" using fair by (auto simp: fair_def split: sum.splits)
  note get = db_get_shop [OF db i]
  note defs = handled_as_def handle_url_def film_resource_def spec_handle_def spec_film_def
  show ?thesis
  proof (cases "slot_at fs i")
    case None
    then show ?thesis using db room' i get refuse_eq [of db] by (simp add: defs)
  next
    case (Some f)
    note f = slotD [OF Some]
    have fok: "stored_film_ok f" using d(7) f(1,2) by (metis nth_mem)
    consider (get) "?m = OR_GET" | (put) "?m = OR_PUT" | (del) "?m = OR_DELETE"
      | (other) "?m \<noteq> OR_GET" "?m \<noteq> OR_PUT" "?m \<noteq> OR_DELETE" by blast
    then show ?thesis
    proof cases
      case get
      then have "ONION_INFO ?href = Inr ()" using fair i Some by (simp add: fair_def ONION_INFO_def base_url_no_conversions)
      then show ?thesis using get db room' i Some db_get_shop [OF db i] response_write_json_ok [OF full_view_printable [OF fok href, of D]]
        by (simp add: defs film_resource_get_def collection_href_eq new_response_def)
    next
      case put
      note flag = put_flag [OF put]
      show ?thesis
      proof (cases "put_data req")
        case None
        then show ?thesis using put flag db room' i \<open>slot_at fs i = Some f\<close> db_get_shop [OF db i] by (simp add: defs film_resource_update_def new_response_def)
      next
        case (Some s)
        obtain g where g: "c_string s" "film_in D s = Some g" "title_of g = title_of f" "no_conversions s"
          using fair put i Some \<open>slot_at fs i = Some f\<close> by (auto simp: fair_def)
        then have g': "parse_film D s = Inr (0, Some g)" "stored_film_ok g"
          using parse_film_cases [OF g(1), of D] by (auto simp: film_in_def)
        obtain db' where db': "db_update db (title_of f) (Some g) = Inr db'" "shop_of db' (fs[nat i := Some g])" "ht_room k (id_map db')"
          by (rule db_update_shop [OF db \<open>slot_at fs i = Some f\<close> g'(2) g(3) room])
        then show ?thesis using put flag i Some \<open>slot_at fs i = Some f\<close> db_get_shop [OF db i] g(2,4) g'(1)
          by (simp add: defs film_resource_update_def ONION_INFO_def new_response_def)
      qed
    next
      case del
      obtain db' where "db_delete db (query1 req) = Inr db'" "shop_of db' (fs[nat i := None])" "ht_room k (id_map db')"
        by (rule db_delete_shop [OF db i Some room'])
      then show ?thesis using del i Some db_get_shop [OF db i] by (simp add: defs film_resource_delete_def new_response_def)
    next
      case other
      then show ?thesis using db room' i Some db_get_shop [OF db i] refuse_eq [of db] by (simp add: defs)
    qed
  qed
qed

lemma server_runs:
  "shop_of db fs \<Longrightarrow> ht_room (length reqs) (id_map db) \<Longrightarrow> fair_run D fs reqs \<Longrightarrow>
    \<exists>db'. film_server D db reqs = Inr (db', snd (spec_server D fs reqs)) \<and> shop_of db' (fst (spec_server D fs reqs))"
proof (induction reqs arbitrary: db fs)
  case (Cons r reqs)
  obtain u req where r: "r = (u, req)" by (cases r)
  obtain fs1 res where p: "spec_handle D fs u req = (fs1, res)" by (cases "spec_handle D fs u req")
  have "handled_as D db u req (fs1, res) (length reqs)"
    using Cons.prems collection_handled [of db fs "length reqs" D req] resource_handled [of db fs "length reqs" D req] p
    by (cases u) (simp_all add: r)
  then obtain c db1 where db1: "handle_url D db u req new_response = Inr (c, db1, res)" "shop_of db1 fs1" "ht_room (length reqs) (id_map db1)"
    by (auto simp: handled_as_def)
  have "fair_run D fs1 reqs" using Cons.prems(3) by (simp add: r p)
  from Cons.IH [OF db1(2,3) this] show ?case using db1(1) by (auto simp: r p split: prod.splits)
qed simp

section \<open>Properties\<close>

text \<open>
  C30: The film server is a sequence of slots. Any sequence of requests that names films by numbers,
  posts at most 1000 films between two resets, keeps the title in every put, has no conversion of \<open>printf\<close> in the texts
  that are logged and no number outside \<open>int\<close> in posted data is answered by exactly the calls on the response that the
  specification lists, in this order: a post appends a film with a new title and answers with its location, a get of
  the collection writes the list of the films that are left with their links, a get of a film writes all its fields, a put
  replaces the film, a delete empties its slot for good, a delete of the collection forgets everything, and everything
  else writes the text of a failure and then asks for 404. The hash table stays the index of the titles.
\<close>

theorem film_server_refines:
  assumes "fair_run D [] reqs" and "length reqs < 2 ^ 58"
  shows "\<exists>db. film_server D db_create reqs = Inr (db, snd (spec_server D [] reqs)) \<and>
    shop_of db (fst (spec_server D [] reqs))"
proof (rule server_runs [OF db_create_shop _ assms(1)])
  show "ht_room (length reqs) (id_map db_create)" using ht_room_create [OF assms(2)] by (simp add: db_create_def)
qed

text \<open>A film, with a quote and a backslash in its second field, and the text that a get of it delivers.\<close>

definition demo_film :: stored_film where
  "demo_film = \<lparr>film_fields = [text_of ''A'', [66, 34, 92], text_of ''1999'', text_of ''90'', text_of ''C'', text_of ''D'']\<rparr>"

definition demo_text :: "byte list" where
  "demo_text = json_text exact_doubles True 0 (film_json_view exact_doubles demo_film [] FULL)"

definition demo_request :: "u32 \<Rightarrow> byte list \<Rightarrow> http_request" where
  "demo_request flags data = \<lparr>req_flags = flags, fullpath = text_of ''/films'', query1 = text_of ''0'', req_data = data, put_data = Some data\<rparr>"

lemma demo_film_ok: "stored_film_ok demo_film"
  by code_simp

lemma demo_index: "scan_index (text_of ''0'') = Inr 0"
  by code_simp

lemma view_parses:
  assumes "exact_integers D" and "stored_film_ok f" and "c_string href"
  shows "parse_film D (json_text D True 0 (film_json_view D f href FULL)) = Inr (0, Some f)"
    and "c_string (json_text D True 0 (film_json_view D f href FULL))"
  using print_parse [OF assms(1) full_view_ok [OF assms(2,3)], of True] read_full_view [OF assms(2), of D href]
  by (simp_all add: parse_film_def)

lemma demo_text_log: "no_conversions demo_text"
  by code_simp

lemma demo_text_ok: "parse_film exact_doubles demo_text = Inr (0, Some demo_film)" "c_string demo_text" "no_conversions demo_text"
  using view_parses [OF exact_doubles_exact demo_film_ok, of "[]"] demo_text_log by (simp_all add: demo_text_def)

lemma flag_masks [simp]:
  "(0 :: u32) AND OR_METHODS = OR_GET" "(1 :: u32) AND OR_METHODS = OR_POST" "(5 :: u32) AND OR_METHODS = OR_PUT"
  "(6 :: u32) AND OR_METHODS = OR_DELETE" "(5 :: u32) AND OR_PUT \<noteq> 0"
  by (simp_all add: OR_METHODS_def OR_GET_def OR_POST_def OR_PUT_def OR_DELETE_def)

lemma demo_path: "c_string (text_of ''/films'')" "no_conversions (text_of ''/films'')"
  by code_simp+

lemma demo_location: "BASE_URL @ text_of ''/films'' @ SLASH # show_int 0 = text_of ''http://0.0.0.0:4711/films/0''"
  by code_simp

lemma film_server_refines_witness:
  "\<exists>db rs. film_server exact_doubles db_create
      [(Films, demo_request 1 demo_text), (Films, demo_request 1 demo_text), (Film, demo_request 5 demo_text),
       (Film, demo_request 6 []), (Film, demo_request 0 [])] = Inr (db, rs) \<and>
    rs = [[Set_Code 201, Set_Header (text_of ''Location'') (text_of ''http://0.0.0.0:4711/films/0'')],
      not_found, [], [], not_found] \<and> shop_of db [None]"
proof -
  let ?reqs = "[(Films, demo_request 1 demo_text), (Films, demo_request 1 demo_text), (Film, demo_request 5 demo_text),
       (Film, demo_request 6 []), (Film, demo_request 0 [])]"
  note defs = demo_request_def spec_handle_def spec_films_def spec_film_def film_in_def demo_text_ok demo_index slot_at_def
    created_def
  have "fair_run exact_doubles [] ?reqs" by (simp add: fair_def defs demo_path)
  then obtain db where "film_server exact_doubles db_create ?reqs = Inr (db, snd (spec_server exact_doubles [] ?reqs))"
      "shop_of db (fst (spec_server exact_doubles [] ?reqs))"
    using film_server_refines [of exact_doubles ?reqs] by auto
  moreover have "snd (spec_server exact_doubles [] ?reqs) =
      [[Set_Code 201, Set_Header (text_of ''Location'') (text_of ''http://0.0.0.0:4711/films/0'')], not_found, [], [], not_found]"
    "fst (spec_server exact_doubles [] ?reqs) = [None]"
    by (simp_all add: defs demo_location)
  ultimately show ?thesis by auto
qed



text \<open>
  A put that changes the title leaves the index with the old one. The put itself succeeds and a get shows the new
  film, but the next put to that film, whatever parsable film it brings, looks the new title up, finds nothing
  and takes \<open>films[-1]\<close>: undefined behaviour.
\<close>

lemma second_put_after_retitle:
  assumes "shop_of db fs" and "ht_room 1 (id_map db)" and "slot_at fs i = Some f"
    and "\<forall>h. Some h \<in> set fs \<longrightarrow> title_of h \<noteq> title_of g"
    and "req_flags req AND OR_METHODS = OR_PUT" "scan_index (query1 req) = Inr i"
      "put_data req = Some s" "no_conversions s" "parse_film D s = Inr (0, Some g)"
    and "req_flags req' AND OR_METHODS = OR_PUT" "scan_index (query1 req') = Inr i"
      "put_data req' = Some s'" "no_conversions s'" "parse_film D s' = Inr (0, Some g')"
  shows "\<exists>db'. handle_url D db Film req new_response = Inr (OCS_PROCESSED, db', new_response) \<and>
    db_get db' (query1 req) = Inr (Some g) \<and> handle_url D db' Film req' new_response = Inl Undefined"
proof -
  obtain db' where db': "handle_url D db Film req new_response = Inr (OCS_PROCESSED, db', new_response)"
    "\<forall>key. scan_index key = Inr i \<longrightarrow> db_get db' key = Inr (Some g)"
    "\<forall>t. snd (ht_get_value hash64 (id_map db') t) = snd (ht_get_value hash64 (id_map db) t)"
    by (rule put_slot [OF assms(1,2,3,5-9)]) simp
  have "\<not> db_contains db (title_of g)" using has_title [OF assms(1)] assms(4) by blast
  then have "snd (ht_get_value hash64 (id_map db') (title_of g)) = None" using db'(3) by (simp add: db_contains_def)
  then have "db_update db' (title_of g) (Some g') = Inl Undefined" by (simp add: db_update_def db_get_id_def film_at_def)
  moreover have get: "db_get db' (query1 req') = Inr (Some g)" "db_get db' (query1 req) = Inr (Some g)"
    using db'(2) assms(6,11) by simp_all
  ultimately have "handle_url D db' Film req' new_response = Inl Undefined"
    using put_handled [OF get(1) assms(10,12-14)] by simp
  then show ?thesis using db'(1) get(2) by blast
qed

lemma demo_database: "\<exists>db. shop_of db [Some demo_film] \<and> ht_room 1 (id_map db)"
proof -
  have new: "\<not> db_contains db_create (title_of demo_film)" using has_title [OF db_create_shop] by simp
  have room: "ht_room (Suc 1) (id_map db_create)" using ht_room_create [of "Suc 1"] by (simp add: db_create_def)
  have len: "length ([] :: stored_film option list) < 1000" by simp
  obtain db where "shop_of db ([] @ [Some demo_film])" "ht_room 1 (id_map db)"
    by (rule db_add_shop [OF db_create_shop demo_film_ok new len room])
  then show ?thesis by auto
qed

definition other_film :: stored_film where
  "other_film = demo_film\<lparr>film_fields := (film_fields demo_film)[0 := text_of ''Z'']\<rparr>"

definition other_text :: "byte list" where
  "other_text = json_text exact_doubles True 0 (film_json_view exact_doubles other_film [] FULL)"

lemma other_film_ok: "stored_film_ok other_film" "title_of demo_film \<noteq> title_of other_film"
  by code_simp+

lemma other_text_log: "no_conversions other_text"
  by code_simp

lemma other_text_ok: "parse_film exact_doubles other_text = Inr (0, Some other_film)"
  using view_parses(1) [OF exact_doubles_exact other_film_ok(1), of "[]"] by (simp add: other_text_def)

lemma second_put_after_retitle_witness:
  "\<exists>db db'. shop_of db [Some demo_film] \<and>
    handle_url exact_doubles db Film (demo_request 5 other_text) new_response = Inr (OCS_PROCESSED, db', new_response) \<and>
    handle_url exact_doubles db' Film (demo_request 5 demo_text) new_response = Inl Undefined"
proof -
  obtain db where db: "shop_of db [Some demo_film]" "ht_room 1 (id_map db)" using demo_database by blast
  have s: "slot_at [Some demo_film] 0 = Some demo_film" by (simp add: slot_at_def)
  have t: "\<forall>h. Some h \<in> set [Some demo_film] \<longrightarrow> title_of h \<noteq> title_of other_film" using other_film_ok(2) by simp
  have r: "req_flags (demo_request 5 d) AND OR_METHODS = OR_PUT" "scan_index (query1 (demo_request 5 d)) = Inr 0"
    "put_data (demo_request 5 d) = Some d" for d
    by (simp_all add: demo_request_def demo_index)
  show ?thesis
    using second_put_after_retitle [OF db s t r other_text_log other_text_ok r demo_text_log demo_text_ok(1)] db(1) by blast
qed

text \<open>
  A put of a text that is no film is not refused: the handler tests the old film for NULL instead of the
  new one. The film is lost, every request to it is answered with 404, and its title stays taken: a film of that title
  cannot be posted any more.
\<close>

lemma bad_put_blocks_title:
  assumes "shop_of db fs" and "ht_room 1 (id_map db)" and "slot_at fs i = Some f"
    and "req_flags req AND OR_METHODS = OR_PUT" "scan_index (query1 req) = Inr i"
      "put_data req = Some s" "no_conversions s" "parse_film D s = Inr (1, None)"
  shows "\<exists>db'. handle_url D db Film req new_response = Inr (OCS_PROCESSED, db', new_response) \<and>
    (\<forall>req'. scan_index (query1 req') = Inr i \<longrightarrow> handle_url D db' Film req' new_response = Inr (OCS_PROCESSED, db', not_found)) \<and>
    (\<forall>req' g. req_flags req' AND OR_METHODS = OR_POST \<and> no_conversions (req_data req') \<and> parse_film D (req_data req') = Inr (0, Some g) \<and>
       title_of g = title_of f \<longrightarrow> handle_url D db' Films req' new_response = Inr (OCS_PROCESSED, db', not_found))"
proof -
  obtain db' where db': "handle_url D db Film req new_response = Inr (OCS_PROCESSED, db', new_response)"
    "\<forall>key. scan_index key = Inr i \<longrightarrow> db_get db' key = Inr None"
    "\<forall>t. snd (ht_get_value hash64 (id_map db') t) = snd (ht_get_value hash64 (id_map db) t)"
    by (rule put_slot [OF assms]) simp
  have "handle_url D db' Film req' new_response = Inr (OCS_PROCESSED, db', not_found)"
    if "scan_index (query1 req') = Inr i" for req'
    using db'(2) that refuse_eq [of db'] by (simp add: handle_url_def film_resource_def)
  moreover have "handle_url D db' Films req' new_response = Inr (OCS_PROCESSED, db', not_found)"
    if "req_flags req' AND OR_METHODS = OR_POST" "no_conversions (req_data req')" "parse_film D (req_data req') = Inr (0, Some g)" "title_of g = title_of f" for req' g
  proof -
    have "Some f \<in> set fs" using slotD(1,2) [OF assms(3)] by (metis nth_mem)
    then have "db_contains db (title_of g)" using has_title [OF assms(1)] that(4) by auto
    then have "db_contains db' (title_of g)" using db'(3) by (simp add: db_contains_def)
    then show ?thesis using that(1-3) refuse_eq [of db']
      by (simp add: handle_url_def film_collection_def add_film_def ONION_INFO_def)
  qed
  ultimately show ?thesis using db'(1) by blast
qed

lemma bad_put_blocks_title_witness:
  "\<exists>db db'. shop_of db [Some demo_film] \<and>
    handle_url exact_doubles db Film (demo_request 5 []) new_response = Inr (OCS_PROCESSED, db', new_response) \<and>
    handle_url exact_doubles db' Film (demo_request 0 []) new_response = Inr (OCS_PROCESSED, db', not_found) \<and>
    handle_url exact_doubles db' Films (demo_request 1 demo_text) new_response = Inr (OCS_PROCESSED, db', not_found)"
proof -
  obtain db where db: "shop_of db [Some demo_film]" "ht_room 1 (id_map db)" using demo_database by blast
  have s: "slot_at [Some demo_film] 0 = Some demo_film" by (simp add: slot_at_def)
  have r: "req_flags (demo_request 5 []) AND OR_METHODS = OR_PUT" "scan_index (query1 (demo_request 5 [])) = Inr 0"
    "put_data (demo_request 5 []) = Some []"
    by (simp_all add: demo_request_def demo_index)
  have "cJSON_Parse exact_doubles [] = Inr (None, Some [])"
    by (simp add: cJSON_Parse_def cJSON_ParseWithOpts_def enough_fuel_def points_to_def)
  then have none: "parse_film exact_doubles [] = Inr (1, None)"
    by (simp add: parse_film_def field_names_def get_object_item_def)
  obtain db' where db': "handle_url exact_doubles db Film (demo_request 5 []) new_response = Inr (OCS_PROCESSED, db', new_response)"
    "\<forall>req'. scan_index (query1 req') = Inr 0 \<longrightarrow>
       handle_url exact_doubles db' Film req' new_response = Inr (OCS_PROCESSED, db', not_found)"
    "\<forall>req' g. req_flags req' AND OR_METHODS = OR_POST \<and> no_conversions (req_data req') \<and> parse_film exact_doubles (req_data req') = Inr (0, Some g) \<and>
       title_of g = title_of demo_film \<longrightarrow>
       handle_url exact_doubles db' Films req' new_response = Inr (OCS_PROCESSED, db', not_found)"
    using bad_put_blocks_title [OF db s r no_conversions.simps(1) [THEN iffD2, OF TrueI] none] by blast
  have "handle_url exact_doubles db' Film (demo_request 0 []) new_response = Inr (OCS_PROCESSED, db', not_found)"
    by (rule db'(2) [rule_format]) (simp add: demo_request_def demo_index)
  moreover have "handle_url exact_doubles db' Films (demo_request 1 demo_text) new_response = Inr (OCS_PROCESSED, db', not_found)"
    by (rule db'(3) [rule_format, of _ demo_film]) (simp add: demo_request_def demo_text_ok)
  ultimately show ?thesis using db(1) db'(1) by blast
qed

end
