(* ===== verification/Ntp_Client.thy ===== *)
theory Ntp_Client
  imports Net_Prelude
begin

text \<open>
  The NTP client of \<open>NTP Time Server/client.c\<close>: time stamps in 64-bit fixed point, the request, parsing the response,
  the offset of the clock, and the choice among the servers. Signed 64-bit arithmetic is on integers with the overflow
  written out. What the network and the clock do for one server is a record; printing is left out.
\<close>

section \<open>Time stamps\<close>

definition MAX_STRATUM :: int where "MAX_STRATUM = 0xFF"
definition PACK_LEN :: nat where "PACK_LEN = 12"
definition NTP_HEADER :: u32 where "NTP_HEADER = push_bit 24 3 OR push_bit 27 4"
definition NTP_OFFSET :: u64 where "NTP_OFFSET = 2208988800"

text \<open>\<open>a - b\<close>, \<open>a + b\<close> and \<open>a / 2\<close> on \<open>int64_t\<close>.\<close>

definition int64 :: "int \<Rightarrow> fault + int" where
  "int64 i = (if - (2 ^ 63) \<le> i \<and> i < 2 ^ 63 then Inr i else Inl Undefined)"

definition half :: "int \<Rightarrow> int" where
  "half i = (if i < 0 then - (- i div 2) else i div 2)"

definition time_offset :: "int \<Rightarrow> int \<Rightarrow> int \<Rightarrow> int \<Rightarrow> fault + int" where
  "time_offset t1 t2 t3 t4 =
     bind_res (int64 (t2 - t1)) (\<lambda>a.
     bind_res (int64 (t3 - t4)) (\<lambda>b.
     bind_res (int64 (a + b)) (\<lambda>s. Inr (half s))))"

definition time_delay :: "int \<Rightarrow> int \<Rightarrow> int \<Rightarrow> int \<Rightarrow> fault + int" where
  "time_delay t1 t2 t3 t4 =
     bind_res (int64 (t4 - t1)) (\<lambda>a.
     bind_res (int64 (t3 - t2)) (\<lambda>b.
     int64 (a + b)))"

definition to_ntp :: "int \<Rightarrow> int" where
  "to_ntp unix_timestamp = sint (push_bit 32 (word_of_int unix_timestamp + NTP_OFFSET))"

definition to_unix :: "int \<Rightarrow> int" where
  "to_unix timestamp = sint (drop_bit 32 (word_of_int timestamp) - NTP_OFFSET)"

text \<open>The seconds of a time stamp, which are those of the floor for a negative one.\<close>

definition seconds :: "int \<Rightarrow> int" where
  "seconds t = sint (ucast (drop_bit 32 (word_of_int t :: u64)) :: u32)"

section \<open>One exchange\<close>

record ntp_result =
  server_name :: string
  stratum :: int
  root_dispersion :: int
  offset :: int

text \<open>
  What happens to the query of one server: whether name, socket, sending and closing work, what \<open>time(NULL)\<close> gives
  when sending and after receiving, and the datagram that comes back in time.
\<close>

record exchange =
  resolves :: bool
  opens :: bool
  sends :: bool
  time_sent :: int
  reply :: "byte list option"
  time_received :: int
  closes :: bool

definition request_package :: "byte list" where
  "request_package = map (\<lambda>k. ucast (drop_bit (8 * (3 - k)) NTP_HEADER)) [0..<4] @ replicate (4 * PACK_LEN - 4) 0"

text \<open>The status, the package that is sent and \<open>*client_transmit\<close>, which the package does not hold.\<close>

definition send_ntp_request :: "exchange \<Rightarrow> int \<times> byte list \<times> int" where
  "send_ntp_request x = (if sends x then 0 else 5, request_package, to_ntp (time_sent x))"

text \<open>A big-endian number.\<close>

definition big_endian :: "byte list \<Rightarrow> int" where
  "big_endian bs = foldl (\<lambda>n b. 256 * n + uint b) 0 bs"

definition be32 :: "byte list \<Rightarrow> int" where
  "be32 bs = sint (word_of_int (big_endian (take 4 bs)) :: u32)"

definition be64 :: "byte list \<Rightarrow> int" where
  "be64 bs = sint (word_of_int (big_endian (take 8 bs)) :: u64)"

record response_fields =
  client_receive :: int
  resp_stratum :: int
  resp_dispersion :: int
  server_receive :: int
  server_transmit :: int

text \<open>
  The status and, if it is 0, the fields. \<open>recvfrom\<close> cuts a longer datagram down to the buffer. The words of the
  message are header, root delay, root dispersion, reference id and four time stamps.
\<close>

definition recv_ntp_response :: "exchange \<Rightarrow> fault + int \<times> response_fields option" where
  "recv_ntp_response x =
     (case reply x of
        None \<Rightarrow> Inr (6, None)
      | Some d \<Rightarrow>
          let msg = take (4 * PACK_LEN) d in
          bind_res (assert_c (length msg = 4 * PACK_LEN)) (\<lambda>_.
          let word = \<lambda>k. drop (4 * k) msg;
              m = \<lparr>client_receive = to_ntp (time_received x),
                   resp_stratum = be32 (word 0) div 2 ^ 16 mod 2 ^ 8,
                   resp_dispersion = be32 (word 2),
                   server_receive = be64 (word 8),
                   server_transmit = be64 (word 10)\<rparr>
          in bind_res (assert_c (server_transmit m \<ge> server_receive m)) (\<lambda>_. Inr (0, Some m))))"

definition get_time :: "string \<Rightarrow> exchange \<Rightarrow> fault + int \<times> ntp_result option" where
  "get_time domain_name x =
     (if \<not> resolves x then Inr (2, None)
      else if \<not> opens x then Inr (3, None)
      else
        let (status, _, client_transmit) = send_ntp_request x in
        if status \<noteq> 0 then Inr (1, None)
        else
          bind_res (recv_ntp_response x) (\<lambda>(status, m).
          case m of
            None \<Rightarrow> Inr (1, None)
          | Some m \<Rightarrow>
              bind_res (time_offset client_transmit (server_receive m) (server_transmit m) (client_receive m)) (\<lambda>offs.
              let res = \<lparr>server_name = domain_name, stratum = resp_stratum m, root_dispersion = resp_dispersion m,
                    offset = offs\<rparr>
              in Inr (if closes x then 0 else 7, Some res))))"

section \<open>Choosing a server\<close>

text \<open>
  The loop of \<open>main\<close>: \<open>None\<close> is the best result before the first response, whose stratum is above \<open>MAX_STRATUM\<close>. The
  result is the best one, to be printed with exit code 0, or nothing, with exit code 1.
\<close>

definition better :: "ntp_result \<Rightarrow> ntp_result option \<Rightarrow> bool" where
  "better res best =
     (case best of
        None \<Rightarrow> stratum res < MAX_STRATUM + 1
      | Some b \<Rightarrow> stratum res < stratum b \<or> root_dispersion res < root_dispersion b)"

fun query_servers :: "(string \<times> exchange) list \<Rightarrow> ntp_result option \<Rightarrow> fault + ntp_result option" where
  "query_servers [] best = Inr best"
| "query_servers ((name, x) # servers) best =
     bind_res (get_time name x) (\<lambda>(status, res).
     if status \<noteq> 0 then query_servers servers best
     else
       case res of
         None \<Rightarrow> query_servers servers best
       | Some res \<Rightarrow> query_servers servers (if better res best then Some res else best))"

definition main_result :: "(string \<times> exchange) list \<Rightarrow> fault + int \<times> ntp_result option" where
  "main_result servers =
     bind_res (query_servers servers None) (\<lambda>best.
     Inr (if best = None then 1 else 0, best))"

section \<open>The clock\<close>

lemma sint_era:
  assumes "2 ^ 63 \<le> i" "i < 2 ^ 64"
  shows "sint (word_of_int i :: u64) = i - 2 ^ 64"
proof -
  have "sint (word_of_int i :: u64) = (i - 2 ^ 63 + 2 ^ 64) mod 2 ^ 64 - 2 ^ 63" by (simp add: int_word_sint add.commute)
  also have "(i - 2 ^ 63 + 2 ^ 64) mod 2 ^ 64 = (i - 2 ^ 63) mod 2 ^ 64" by (rule mod_add_self2)
  also have "\<dots> = i - 2 ^ 63" using assms by (intro mod_pos_pos_trivial) auto
  finally show ?thesis by simp
qed

lemma uint_small: "0 \<le> i \<Longrightarrow> i < 2 ^ 64 \<Longrightarrow> uint (word_of_int i :: u64) = i"
  by (simp add: uint_word_of_int)

lemma sint_small: "0 \<le> i \<Longrightarrow> i < 2 ^ 63 \<Longrightarrow> sint (word_of_int i :: u64) = i"
  by (simp add: int_word_sint)

lemma to_ntp_eq: "to_ntp t = sint (word_of_int ((t + 2208988800) * 2 ^ 32) :: u64)"
proof -
  have "push_bit 32 (word_of_int t + NTP_OFFSET) = (word_of_int ((t + 2208988800) * 2 ^ 32) :: u64)"
    by (simp add: NTP_OFFSET_def push_bit_eq_mult wi_hom_syms)
  then show ?thesis by (simp add: to_ntp_def)
qed

text \<open>A whole second of the era.\<close>

lemma to_ntp_second:
  assumes "2 ^ 63 \<le> L" "L < 2 ^ 64"
  shows "to_ntp (L div 2 ^ 32 - 2208988800) = L - L mod 2 ^ 32 - 2 ^ 64"
proof -
  have "2 ^ 63 div 2 ^ 32 \<le> L div 2 ^ 32" by (rule zdiv_mono1) (use assms in auto)
  then have "2 ^ 63 \<le> L div 2 ^ 32 * 2 ^ 32" by simp
  moreover have "L div 2 ^ 32 * 2 ^ 32 = L - L mod 2 ^ 32" by (simp add: minus_mod_eq_div_mult)
  moreover have "0 \<le> L mod 2 ^ 32" by simp
  ultimately show ?thesis using assms sint_era [of "L - L mod 2 ^ 32"] by (simp add: to_ntp_eq)
qed

lemma uint_drop: "uint (drop_bit 32 w) = uint w div 2 ^ 32" for w :: u64
  using uint_lt2p [of w] by (subst unsigned_drop_bit_eq) (simp add: drop_bit_eq_div take_bit_int_eq_self)

text \<open>\<open>to_unix\<close> undoes \<open>to_ntp\<close> until the end of the era in February 2036.\<close>

lemma to_unix_to_ntp:
  assumes "0 \<le> t" "t < 2085978496"
  shows "to_unix (to_ntp t) = t"
proof -
  let ?w = "word_of_int ((t + 2208988800) * 2 ^ 32) :: u64"
  have "drop_bit 32 ?w = word_of_int (t + 2208988800)"
  proof -
    have u: "uint ?w = (t + 2208988800) * 2 ^ 32" by (rule uint_small) (use assms in simp_all)
    have "uint (drop_bit 32 ?w) = t + 2208988800" unfolding uint_drop u by simp
    moreover have "uint (word_of_int (t + 2208988800) :: u64) = t + 2208988800" by (rule uint_small) (use assms in simp_all)
    ultimately show ?thesis by (simp add: word_uint_eq_iff)
  qed
  then have "to_unix (to_ntp t) = sint (word_of_int t :: u64)"
    by (simp add: to_unix_def to_ntp_eq NTP_OFFSET_def wi_hom_syms)
  also have "\<dots> = t" by (rule sint_small) (use assms in simp_all)
  finally show ?thesis .
qed

text \<open>The bytes a server sends for a time stamp.\<close>

fun be_bytes :: "nat \<Rightarrow> int \<Rightarrow> byte list" where
  "be_bytes 0 i = []"
| "be_bytes (Suc n) i = be_bytes n (i div 256) @ [word_of_int i]"

lemma length_be_bytes [simp]: "length (be_bytes n i) = n"
  by (induction n arbitrary: i) auto

lemma big_endian_be_bytes: "0 \<le> i \<Longrightarrow> i < 256 ^ n \<Longrightarrow> big_endian (be_bytes n i) = i"
proof (induction n arbitrary: i)
  case (Suc n)
  have "i div 256 < 256 ^ n" using Suc.prems by (simp add: div_less_iff_less_mult mult.commute)
  then have "big_endian (be_bytes n (i div 256)) = i div 256" using Suc.IH Suc.prems(1) by simp
  then show ?case by (simp add: big_endian_def uint_word_of_int)
qed (simp add: big_endian_def)

definition ntp_message :: "byte list \<Rightarrow> int \<Rightarrow> int \<Rightarrow> byte list" where
  "ntp_message head t2 t3 = head @ be_bytes 8 t2 @ be_bytes 8 t3"

lemma message_times:
  assumes "length head = 32" and "2 ^ 63 \<le> t2" "t2 < 2 ^ 64" "2 ^ 63 \<le> t3" "t3 < 2 ^ 64"
  shows "be64 (drop 32 (ntp_message head t2 t3)) = t2 - 2 ^ 64" "be64 (drop 40 (ntp_message head t2 t3)) = t3 - 2 ^ 64"
    "length (ntp_message head t2 t3) = 48"
proof -
  have "take 8 (drop 32 (ntp_message head t2 t3)) = be_bytes 8 t2" "take 8 (drop 40 (ntp_message head t2 t3)) = be_bytes 8 t3"
    using assms(1) by (simp_all add: ntp_message_def)
  then show "be64 (drop 32 (ntp_message head t2 t3)) = t2 - 2 ^ 64" "be64 (drop 40 (ntp_message head t2 t3)) = t3 - 2 ^ 64"
    using assms(2-5) big_endian_be_bytes [of t2 8] big_endian_be_bytes [of t3 8] by (simp_all add: be64_def sint_era)
  show "length (ntp_message head t2 t3) = 48" using assms(1) by (simp add: ntp_message_def)
qed

lemma half_bounds: "i - 1 \<le> 2 * half i" "2 * half i \<le> i + 1"
  by (simp_all add: half_def) presburger+

lemma int64_ok: "- (2 ^ 63) \<le> i \<Longrightarrow> i < 2 ^ 63 \<Longrightarrow> int64 i = Inr i"
  by (simp add: int64_def)

section \<open>Properties\<close>

text \<open>
  C31: The offset that one exchange measures. \<open>L1\<close> to \<open>L4\<close> are the readings of the local clock, in units of \<open>2 ^ -32\<close>
  seconds since 1900, when the request leaves, reaches the server, the response leaves and arrives; the server's clock is ahead by \<open>d\<close>. Within
  the era that ends in 2036 no 64-bit expression overflows, no assertion fails, and the offset differs from \<open>d\<close> by
  at most half the delay on the network, but for the truncation of \<open>time\<close> to whole seconds, which
  makes it up to one second too large, and the last bit.
\<close>

theorem offset_error:
  assumes "2 ^ 63 \<le> L1" "L1 \<le> L2" "L2 \<le> L3" "L3 \<le> L4" "L4 < 2 ^ 64" and "L4 - L1 < 2 ^ 61"
    and "2 ^ 63 \<le> L2 + d" "L3 + d < 2 ^ 64" and "\<bar>d\<bar> < 2 ^ 61"
    and "resolves x" "opens x" "sends x" "closes x"
    and "time_sent x = L1 div 2 ^ 32 - 2208988800" "time_received x = L4 div 2 ^ 32 - 2208988800"
    and "reply x = Some (ntp_message head (L2 + d) (L3 + d))" "length head = 32"
  shows "\<exists>res. get_time name x = Inr (0, Some res) \<and> server_name res = name \<and>
    2 * (offset res - d) \<le> (L4 - L1) - (L3 - L2) + 2 ^ 33 - 1 \<and>
    - ((L4 - L1) - (L3 - L2)) - 1 \<le> 2 * (offset res - d)"
proof -
  define f1 f4 where f: "f1 = L1 mod 2 ^ 32" "f4 = L4 mod 2 ^ 32"
  have fb: "0 \<le> f1" "f1 < 2 ^ 32" "0 \<le> f4" "f4 < 2 ^ 32" by (simp_all add: f)
  let ?t1 = "L1 - f1 - 2 ^ 64" and ?t4 = "L4 - f4 - 2 ^ 64" and ?t2 = "L2 + d - 2 ^ 64" and ?t3 = "L3 + d - 2 ^ 64"
  have t14: "to_ntp (time_sent x) = ?t1" "to_ntp (time_received x) = ?t4"
    using to_ntp_second [of L1] to_ntp_second [of L4] assms(1-5,14,15) by (simp_all add: f)
  have msg: "be64 (drop 32 (ntp_message head (L2 + d) (L3 + d))) = ?t2" "be64 (drop 40 (ntp_message head (L2 + d) (L3 + d))) = ?t3"
    "length (ntp_message head (L2 + d) (L3 + d)) = 48"
    by (rule message_times [OF assms(17)]; use assms(3,7,8) in linarith)+
  let ?s = "(L2 + d - L1 + f1) + (L3 + d - L4 + f4)"
  have "time_offset ?t1 ?t2 ?t3 ?t4 = Inr (half ?s)"
  proof -
    have d: "d < 2 ^ 61" "- (2 ^ 61) < d" using assms(9) by simp_all
    note bounds = assms(2-4,6) fb d
    have "int64 (?t2 - ?t1) = Inr (?t2 - ?t1)" by (rule int64_ok) (use bounds in simp_all)
    moreover have "int64 (?t3 - ?t4) = Inr (?t3 - ?t4)" by (rule int64_ok) (use bounds in simp_all)
    moreover have "int64 ((?t2 - ?t1) + (?t3 - ?t4)) = Inr ((?t2 - ?t1) + (?t3 - ?t4))"
      by (rule int64_ok) (use bounds in simp_all)
    moreover have "(?t2 - ?t1) + (?t3 - ?t4) = ?s" by simp
    ultimately show ?thesis unfolding time_offset_def by (simp only: bind_res.simps)
  qed
  then have res: "\<exists>res. get_time name x = Inr (0, Some res) \<and> server_name res = name \<and> offset res = half ?s"
    using assms(3,10-13,16) t14 msg
    by (simp add: get_time_def send_ntp_request_def recv_ntp_response_def PACK_LEN_def Let_def)
  have p: "(2 :: int) ^ 33 = 8589934592" "f1 \<le> 4294967295" "f4 \<le> 4294967295" using fb by simp_all
  moreover have "2 * (half ?s - d) \<le> (L4 - L1) - (L3 - L2) + 2 ^ 33 - 1"
    unfolding p(1) right_diff_distrib using half_bounds [of ?s] p(2,3) assms(2-4) by linarith
  moreover have "- ((L4 - L1) - (L3 - L2)) - 1 \<le> 2 * (half ?s - d)"
    unfolding right_diff_distrib using half_bounds [of ?s] fb(1,3) assms(2-4) by linarith
  ultimately show ?thesis using res by auto
qed

text \<open>
  A true time of 2018 with a server that is 2 seconds ahead, 1/8 second on the way to it, nothing spent there and 1/4 second on the way back.
\<close>

lemma offset_error_witness:
  "\<exists>res. get_time ''s'' \<lparr>resolves = True, opens = True, sends = True, time_sent = 1500000000,
      reply = Some (ntp_message (replicate 32 0) (3708988800 * 2 ^ 32 + 2 ^ 29 + 2 ^ 33) (3708988800 * 2 ^ 32 + 2 ^ 29 + 2 ^ 33)),
      time_received = 1500000000, closes = True\<rparr> = Inr (0, Some res) \<and>
    2 * (offset res - 2 ^ 33) \<le> 3 * 2 ^ 29 + 2 ^ 33 - 1 \<and> - (3 * 2 ^ 29) - 1 \<le> 2 * (offset res - 2 ^ 33)"
  using offset_error [of "3708988800 * 2 ^ 32" "3708988800 * 2 ^ 32 + 2 ^ 29" "3708988800 * 2 ^ 32 + 2 ^ 29"
      "3708988800 * 2 ^ 32 + 3 * 2 ^ 29" "2 ^ 33"
      "\<lparr>resolves = True, opens = True, sends = True, time_sent = 1500000000,
      reply = Some (ntp_message (replicate 32 0) (3708988800 * 2 ^ 32 + 2 ^ 29 + 2 ^ 33) (3708988800 * 2 ^ 32 + 2 ^ 29 + 2 ^ 33)),
      time_received = 1500000000, closes = True\<rparr>" "replicate 32 0" "''s''"]
  by auto

text \<open>The results of the servers that respond, in the order of the queries.\<close>

definition response_of :: "string \<times> exchange \<Rightarrow> ntp_result option" where
  "response_of s = (case get_time (fst s) (snd s) of Inr (st, r) \<Rightarrow> if st = 0 then r else None | Inl _ \<Rightarrow> None)"

definition responses :: "(string \<times> exchange) list \<Rightarrow> ntp_result list" where
  "responses servers = List.map_filter response_of servers"

lemma stratum_bound: "get_time name x = Inr (0, r) \<Longrightarrow> \<exists>res. r = Some res \<and> stratum res \<le> MAX_STRATUM"
proof -
  assume g: "get_time name x = Inr (0, r)"
  have "be32 w div 2 ^ 16 mod 2 ^ 8 < 2 ^ 8" for w by (rule pos_mod_bound) simp
  then have "be32 w div 2 ^ 16 mod 2 ^ 8 \<le> MAX_STRATUM" for w by (simp add: MAX_STRATUM_def)
  then show ?thesis using g
    by (auto simp: get_time_def send_ntp_request_def recv_ntp_response_def fault_simps Let_def
        split: if_splits option.splits)
qed

lemma better_first: "get_time name x = Inr (0, r) \<Longrightarrow> \<exists>res. r = Some res \<and> better res None"
  using stratum_bound [of name x r] by (auto simp: better_def)

lemma query_servers_step:
  "get_time name x = Inr (st, r) \<Longrightarrow>
    query_servers ((name, x) # servers) best =
      query_servers servers (case response_of (name, x) of None \<Rightarrow> best | Some res \<Rightarrow> if better res best then Some res else best)"
  by (auto simp: response_of_def split: option.splits)

lemma query_servers_choice:
  "\<forall>s \<in> set servers. \<not> isl (get_time (fst s) (snd s)) \<Longrightarrow>
    query_servers servers best = Inr (foldl (\<lambda>b r. if better r b then Some r else b) best (responses servers))"
proof (induction servers arbitrary: best)
  case (Cons s servers)
  obtain name x where s: "s = (name, x)" by (cases s)
  obtain st r where g: "get_time name x = Inr (st, r)" using Cons.prems by (auto simp: s isl_def) (metis Cons.prems list.set_intros(1) s fst_conv snd_conv sum.exhaust_sel prod.exhaust)
  show ?case
    using Cons.IH Cons.prems unfolding s query_servers_step [OF g]
    by (cases "response_of (name, x)") (simp_all add: responses_def List.map_filter_def)
qed (simp add: responses_def List.map_filter_def)

lemma choice_last:
  "rs \<noteq> [] \<Longrightarrow> (\<forall>r \<in> set rs. stratum r \<le> MAX_STRATUM) \<Longrightarrow>
    \<exists>pre r post. rs = pre @ r # post \<and> foldl (\<lambda>b r. if better r b then Some r else b) None rs = Some r \<and>
      (\<forall>r' \<in> set post. stratum r \<le> stratum r' \<and> root_dispersion r \<le> root_dispersion r')"
proof (induction rs rule: rev_induct)
  case (snoc x rs)
  show ?case
  proof (cases "rs = []")
    case True
    then show ?thesis using snoc.prems by (intro exI [of _ "[]"] exI [of _ x]) (simp add: better_def)
  next
    case False
    have "\<forall>r \<in> set rs. stratum r \<le> MAX_STRATUM" using snoc.prems(2) by simp
    from snoc.IH [OF False this] obtain pre r post where r: "rs = pre @ r # post" "foldl (\<lambda>b r. if better r b then Some r else b) None rs = Some r"
      "\<forall>r' \<in> set post. stratum r \<le> stratum r' \<and> root_dispersion r \<le> root_dispersion r'"
      by blast
    show ?thesis
    proof (cases "better x (Some r)")
      case True
      then show ?thesis using r(2) by (intro exI [of _ rs] exI [of _ x] exI [of _ "[]"]) simp
    next
      case False
      then show ?thesis using r by (intro exI [of _ pre] exI [of _ r] exI [of _ "post @ [x]"]) (auto simp: better_def)
    qed
  qed
qed simp

text \<open>
  The server that the client picks. If no response makes it abort, the exit code is 1 exactly if no server
  has responded; otherwise the result printed is one of the responses, and no later response has a smaller stratum or a smaller
  dispersion. Nothing is promised about the earlier ones.
\<close>

lemma server_choice:
  assumes "\<forall>s \<in> set servers. \<not> isl (get_time (fst s) (snd s))"
  shows "if responses servers = [] then main_result servers = Inr (1, None)
    else \<exists>pre r post. responses servers = pre @ r # post \<and> main_result servers = Inr (0, Some r) \<and>
      (\<forall>r' \<in> set post. stratum r \<le> stratum r' \<and> root_dispersion r \<le> root_dispersion r')"
proof -
  have "stratum r \<le> MAX_STRATUM" if "r \<in> set (responses servers)" for r
    using that stratum_bound by (fastforce simp: responses_def List.map_filter_def response_of_def split: sum.splits if_splits)
  then show ?thesis
    using query_servers_choice [OF assms, of None] choice_last [of "responses servers"]
    by (cases "responses servers = []") (auto simp: main_result_def)
qed

text \<open>
  A server whose stratum and dispersion are both beaten by another one's may be chosen: the condition is a
  disjunction, so the choice depends on the order.
\<close>

definition demo_server :: "string \<Rightarrow> int \<Rightarrow> int \<Rightarrow> string \<times> exchange" where
  "demo_server name st disp = (name, \<lparr>resolves = True, opens = True, sends = True, time_sent = 0,
      reply = Some (ntp_message ([0, word_of_int st, 0, 0] @ replicate 4 0 @ be_bytes 4 disp @ replicate 20 0)
        (2208988800 * 2 ^ 32) (2208988800 * 2 ^ 32)), time_received = 0, closes = True\<rparr>)"

definition demo_servers :: "(string \<times> exchange) list" where
  "demo_servers = [demo_server ''a'' 1 10, demo_server ''b'' 3 5, demo_server ''c'' 2 20]"

lemma demo_responses:
  "responses demo_servers =
    [\<lparr>server_name = ''a'', stratum = 1, root_dispersion = 10, offset = 0\<rparr>,
     \<lparr>server_name = ''b'', stratum = 3, root_dispersion = 5, offset = 0\<rparr>,
     \<lparr>server_name = ''c'', stratum = 2, root_dispersion = 20, offset = 0\<rparr>]"
  by code_simp

lemma choice_not_best:
  "main_result demo_servers = Inr (0, Some \<lparr>server_name = ''c'', stratum = 2, root_dispersion = 20, offset = 0\<rparr>)"
  by code_simp

lemma demo_servers_respond: "\<forall>s \<in> set demo_servers. \<not> isl (get_time (fst s) (snd s))"
  by code_simp

lemma server_choice_witness:
  "\<exists>pre r post. responses demo_servers = pre @ r # post \<and> main_result demo_servers = Inr (0, Some r) \<and>
      (\<forall>r' \<in> set post. stratum r \<le> stratum r' \<and> root_dispersion r \<le> root_dispersion r')"
  using server_choice [OF demo_servers_respond] by (simp add: demo_responses)

end
