(* ===== verification/Http_Reader.thy ===== *)
theory Http_Reader
  imports Net_Prelude
begin

text \<open>
  The news reader of \<open>TCP_IP_and_Drgramms/ex7.c\<close>: looking for the end of the HTTP header by peeking, the chunked body
  and the fields of the first entry. The socket is the list of the bytes that arrive, all of them before the first
  call, after which the peer closes; so \<open>recv\<close> gives what is asked for or all that is left.
\<close>

section \<open>Chunk lengths\<close>

definition MAX_MSG_LEN_ex7 :: nat where "MAX_MSG_LEN_ex7 = 512000"
definition PEEK_LEN :: nat where "PEEK_LEN = 128"

abbreviation (input) CRET :: byte where "CRET \<equiv> 13"
abbreviation (input) LFEED :: byte where "LFEED \<equiv> 10"

text \<open>
  The loop that peeks for the carriage return; \<open>length\<close> has ten bytes, zero where nothing has arrived.
\<close>

function peek_digits :: "byte list \<Rightarrow> nat \<Rightarrow> fault + nat" where
  "peek_digits sock received =
     (if 10 \<le> received then Inl Undefined
      else if (if received < length sock then sock ! received else 0) = CRET then Inr received
      else peek_digits sock (received + 1))"
  by pat_completeness auto
termination
  by (relation "measure (\<lambda>(sock, received). 10 - received)") auto

declare peek_digits.simps [simp del]

text \<open>\<open>char\<close> is signed, and shifting a negative number or out of \<open>int\<close> is undefined.\<close>

definition convert :: "byte \<Rightarrow> int" where
  "convert c = (if sint c \<le> 57 then sint c - 48 else sint c - 87)"

definition shift_left :: "int \<Rightarrow> nat \<Rightarrow> fault + int" where
  "shift_left v k = (if v < 0 \<or> 32 \<le> k \<or> 2 ^ 31 \<le> v * 2 ^ k then Inl Undefined else Inr (v * 2 ^ k))"

fun add_digits :: "int \<Rightarrow> byte list \<Rightarrow> fault + int" where
  "add_digits result [] = Inr result"
| "add_digits result (c # cs) =
     bind_res (shift_left (convert c) (length cs * 4)) (\<lambda>d.
     if 2 ^ 31 \<le> result + d then Inl Undefined else add_digits (result + d) cs)"

definition get_chunk_len :: "byte list \<Rightarrow> fault + int \<times> byte list" where
  "get_chunk_len sock =
     bind_res (peek_digits sock 0) (\<lambda>received.
     bind_res (add_digits 0 (take received sock)) (\<lambda>result.
     if 10 < received + 2 then Inl Undefined else Inr (result, drop (received + 2) sock)))"

section \<open>The header\<close>

definition HEADER_END :: "byte list" where
  "HEADER_END = [CRET, LFEED, CRET, LFEED]"

definition header_end_at :: "byte list \<Rightarrow> nat \<Rightarrow> bool" where
  "header_end_at buffer p \<longleftrightarrow> take 4 (drop p buffer) = HEADER_END"

text \<open>The inner loop: the first position from \<open>peaked\<close> on at which the header ends, or the first one behind \<open>status\<close>.\<close>

function scan_header :: "byte list \<Rightarrow> nat \<Rightarrow> nat \<Rightarrow> nat" where
  "scan_header buffer status peaked =
     (if \<not> header_end_at buffer peaked \<and> peaked \<le> status then scan_header buffer status (peaked + 1) else peaked)"
  by pat_completeness auto
termination
  by (relation "measure (\<lambda>(buffer, status, peaked). status + 1 - peaked)") auto

declare scan_header.simps [simp del]

lemma scan_header_ge: "peaked \<le> scan_header buffer status peaked"
  by (induction buffer status peaked rule: scan_header.induct) (subst scan_header.simps, auto)

text \<open>The outer loop. A round that does not get on is repeated for ever.\<close>

function find_header :: "byte list \<Rightarrow> nat \<Rightarrow> fault + nat" where
  "find_header sock peaked =
     (if MAX_MSG_LEN_ex7 + 1 < PEEK_LEN + peaked then Inl Undefined
      else
        let buffer = take (PEEK_LEN + peaked) sock;
            p = scan_header buffer (length buffer) peaked
        in if header_end_at buffer p then Inr (p + 4)
           else if p = peaked then Inl Blocked
           else find_header sock p)"
  by pat_completeness auto
termination
proof (relation "measure (\<lambda>(sock, peaked). MAX_MSG_LEN_ex7 + 1 - peaked)")
  fix sock :: "byte list" and peaked x xa
  assume a: "\<not> MAX_MSG_LEN_ex7 + 1 < PEEK_LEN + peaked" "x = take (PEEK_LEN + peaked) sock"
    "xa = scan_header x (length x) peaked" "\<not> header_end_at x xa" "xa \<noteq> peaked"
  then have "peaked < xa" using scan_header_ge [of peaked x "length x"] by simp
  then show "((sock, xa), sock, peaked) \<in> measure (\<lambda>(sock, peaked). MAX_MSG_LEN_ex7 + 1 - peaked)"
    using a(1) by (simp add: PEEK_LEN_def)
qed simp

declare find_header.simps [simp del]

section \<open>The body\<close>

text \<open>\<open>buffer\<close> has \<open>MAX_MSG_LEN_ex7 + 1\<close> bytes.\<close>

definition store :: "byte list \<Rightarrow> nat \<Rightarrow> byte list \<Rightarrow> byte list" where
  "store buffer p d = take p buffer @ d @ drop (p + length d) buffer"

lemma peek_digits_CR: "peek_digits sock n = Inr k \<Longrightarrow> n \<le> k \<and> k < 10 \<and> k < length sock \<and> sock ! k = CRET"
  by (induction sock n rule: peek_digits.induct) (subst (asm) (2) peek_digits.simps, auto split: if_splits)

lemma get_chunk_len_shorter: "get_chunk_len sock = Inr (n, rest) \<Longrightarrow> length rest < length sock"
  by (auto simp: get_chunk_len_def fault_simps split: if_splits dest!: peek_digits_CR)

text \<open>The loop over the chunks; \<open>chunk_len\<close> has been read.\<close>

function read_chunks :: "int \<Rightarrow> byte list \<Rightarrow> byte list \<Rightarrow> nat \<Rightarrow> fault + byte list \<times> nat \<times> byte list" where
  "read_chunks chunk_len sock buffer peaked =
     (if chunk_len = 0 then Inr (buffer, peaked, sock)
      else if chunk_len < 0 \<or> MAX_MSG_LEN_ex7 + 1 < peaked + nat chunk_len then Inl Undefined
      else
        let buffer = store buffer peaked (take (nat chunk_len) sock);
            peaked = peaked + nat chunk_len
        in case get_chunk_len (drop (nat chunk_len) sock) of
             Inl e \<Rightarrow> Inl e
           | Inr (chunk_len, sock) \<Rightarrow> read_chunks chunk_len sock buffer peaked)"
  by pat_completeness auto
termination
  by (relation "measure (\<lambda>(chunk_len, sock, buffer, peaked). length sock)")
    (auto dest!: get_chunk_len_shorter)

declare read_chunks.simps [simp del]

text \<open>
  Receiving header and body. At the end the code puts a NUL behind the body and another one at the length of the
  header.
\<close>

definition get_http_body :: "byte list \<Rightarrow> fault + byte list" where
  "get_http_body sock =
     bind_res (find_header sock 0) (\<lambda>peaked.
     let status = min peaked (length sock);
         buffer = store (replicate (MAX_MSG_LEN_ex7 + 1) 0) 0 (take peaked sock)
     in bind_res (get_chunk_len (drop peaked sock)) (\<lambda>(chunk_len, sock).
        bind_res (read_chunks chunk_len sock buffer 0) (\<lambda>(buffer, peaked, _).
        if MAX_MSG_LEN_ex7 < peaked then Inl Undefined
        else
          bind_res (assert_c (status \<le> MAX_MSG_LEN_ex7)) (\<lambda>_.
          Inr (buffer[peaked := 0, status := 0])))))"

section \<open>The first entry\<close>

text \<open>\<open>while (strncmp(buffer+progress, tag, strlen(tag)) != 0) progress++\<close>, which does not stop at the end of the buffer.\<close>

fun seek :: "byte list \<Rightarrow> byte list \<Rightarrow> nat \<Rightarrow> fault + nat" where
  "seek tag [] progress = Inl Undefined"
| "seek tag (c # cs) progress =
     (if take (length tag) (c # cs) = tag then Inr progress else seek tag cs (progress + 1))"

abbreviation (input) LESS :: byte where "LESS \<equiv> 60"

text \<open>\<open>strtok(buffer+progress, "<")\<close>: the token, if there is one, and the buffer with a NUL behind it.\<close>

definition strtok_less :: "byte list \<Rightarrow> nat \<Rightarrow> byte list option \<times> byte list" where
  "strtok_less buffer progress =
     (let s = drop progress buffer;
          skipped = length (takeWhile (\<lambda>c. c = LESS) s);
          token = takeWhile (\<lambda>c. c \<noteq> LESS \<and> c \<noteq> 0) (drop skipped s)
      in if token = [] then (None, buffer)
         else (Some token, buffer[progress + skipped + length token := 0]))"

definition next_field :: "byte list \<Rightarrow> byte list \<Rightarrow> nat \<Rightarrow> fault + byte list option \<times> byte list \<times> nat" where
  "next_field tag buffer progress =
     bind_res (seek tag (drop progress buffer) progress) (\<lambda>progress.
     let progress = progress + length tag;
         (token, buffer) = strtok_less buffer progress
     in Inr (token, buffer, progress))"

definition tag_of :: "string \<Rightarrow> byte list" where
  "tag_of s = map of_char s"

text \<open>Title, link, description and date.\<close>

definition first_entry :: "byte list \<Rightarrow> fault + byte list option list" where
  "first_entry buffer =
     bind_res (seek (tag_of ''<item>'') buffer 0) (\<lambda>progress.
     bind_res (next_field (tag_of ''<title>'') buffer progress) (\<lambda>(title, buffer, progress).
     bind_res (next_field (tag_of ''<link>'') buffer progress) (\<lambda>(link, buffer, progress).
     bind_res (next_field (tag_of ''<description>'') buffer progress) (\<lambda>(description, buffer, progress).
     bind_res (next_field (tag_of ''<pubDate>'') buffer progress) (\<lambda>(date, buffer, progress).
     Inr [title, link, description, date])))))"

definition get_http :: "byte list \<Rightarrow> fault + byte list option list" where
  "get_http sock = bind_res (get_http_body sock) first_entry"

section \<open>Chunks written by a server\<close>

definition hex_char :: "nat \<Rightarrow> byte" where
  "hex_char k = word_of_nat (if k < 10 then 48 + k else 87 + k)"

fun hex_number :: "nat \<Rightarrow> nat list" where
  "hex_number n = (if n < 16 then [n] else hex_number (n div 16) @ [n mod 16])"

declare hex_number.simps [simp del]

definition CRLF :: "byte list" where "CRLF = [CRET, LFEED]"

definition chunk :: "byte list \<Rightarrow> byte list" where
  "chunk d = map hex_char (hex_number (length d)) @ CRLF @ d @ CRLF"

fun hex_value :: "nat list \<Rightarrow> int" where
  "hex_value [] = 0"
| "hex_value (k # ks) = int k * 2 ^ (length ks * 4) + hex_value ks"

lemma hex_value_snoc: "hex_value (ks @ [k]) = hex_value ks * 16 + int k"
  by (induction ks) (simp_all add: power_add algebra_simps)

lemma hex_value_nonneg: "0 \<le> hex_value ks"
  by (induction ks) simp_all

lemma hex_number_value: "hex_value (hex_number n) = int n"
proof (induction n rule: hex_number.induct)
  case (1 n)
  show ?case
  proof (cases "n < 16")
    case True
    then show ?thesis by (simp add: hex_number.simps [of n])
  next
    case False
    then have "hex_value (hex_number n) = int (n div 16) * 16 + int (n mod 16)"
      using 1 by (simp add: hex_number.simps [of n] hex_value_snoc)
    also have "\<dots> = int (n div 16 * 16 + n mod 16)" by (simp only: of_nat_add of_nat_mult of_nat_numeral)
    also have "\<dots> = int n" by (simp only: div_mult_mod_eq)
    finally show ?thesis .
  qed
qed

lemma hex_number_digits: "\<forall>k \<in> set (hex_number n). k < 16"
proof (induction n rule: hex_number.induct)
  case (1 n)
  then show ?case by (cases "n < 16") (simp_all add: hex_number.simps [of n])
qed

lemma hex_number_length: "n < 16 ^ k \<Longrightarrow> 0 < k \<Longrightarrow> length (hex_number n) \<le> k"
proof (induction n arbitrary: k rule: hex_number.induct)
  case (1 n)
  show ?case
  proof (cases "n < 16")
    case False
    then obtain j where j: "k = Suc j" "0 < j" using "1.prems" by (cases k; cases "k - 1") auto
    then have "n div 16 < 16 ^ j" using "1.prems"(1) by (simp add: div_less_iff_less_mult mult.commute)
    then show ?thesis using 1(1) [OF False _ j(2)] False j(1) by (simp add: hex_number.simps [of n])
  qed (use "1.prems" in \<open>simp add: hex_number.simps [of n]\<close>)
qed

lemma hex_number_nonempty: "hex_number n \<noteq> []"
  by (simp add: hex_number.simps [of n])

lemma hex_chars: "list_all (\<lambda>k. convert (hex_char k) = int k \<and> hex_char k \<noteq> CRET) [0..<16]"
  by code_simp

lemma hex_char_ok: "k < 16 \<Longrightarrow> convert (hex_char k) = int k" "k < 16 \<Longrightarrow> hex_char k \<noteq> CRET"
  using hex_chars by (simp_all add: list_all_iff)

lemma add_digits_hex:
  "\<forall>k \<in> set ks. k < 16 \<Longrightarrow> length ks \<le> 8 \<Longrightarrow> 0 \<le> r \<Longrightarrow> r + hex_value ks < 2 ^ 31 \<Longrightarrow>
    add_digits r (map hex_char ks) = Inr (r + hex_value ks)"
proof (induction ks arbitrary: r)
  case (Cons k ks)
  have v: "int k * 2 ^ (length ks * 4) \<ge> 0" "0 \<le> hex_value ks" by (simp_all add: hex_value_nonneg)
  then have "shift_left (convert (hex_char k)) (length ks * 4) = Inr (int k * 2 ^ (length ks * 4))"
    using Cons.prems by (simp add: shift_left_def hex_char_ok)
  moreover have "add_digits (r + int k * 2 ^ (length ks * 4)) (map hex_char ks) = Inr (r + int k * 2 ^ (length ks * 4) + hex_value ks)"
    using Cons.IH [of "r + int k * 2 ^ (length ks * 4)"] Cons.prems v by simp
  ultimately show ?case using Cons.prems v by (simp add: add.assoc)
qed simp

lemma peek_digits_skip:
  "(\<forall>i < k. sock ! (n + i) \<noteq> CRET) \<Longrightarrow> n + k < 10 \<Longrightarrow> n + k < length sock \<Longrightarrow> sock ! (n + k) = CRET \<Longrightarrow>
    peek_digits sock n = Inr (n + k)"
proof (induction k arbitrary: n)
  case 0
  then show ?case by (simp add: peek_digits.simps [of sock n])
next
  case (Suc k)
  have "peek_digits sock n = peek_digits sock (n + 1)"
    using Suc.prems(1) [rule_format, of 0] Suc.prems(2,3) by (simp add: peek_digits.simps [of sock n])
  moreover have "sock ! (n + 1 + i) \<noteq> CRET" if "i < k" for i using Suc.prems(1) [rule_format, of "Suc i"] that by simp
  ultimately show ?case using Suc.IH [of "n + 1"] Suc.prems by simp
qed

text \<open>A chunk length in small letters is read back.\<close>

lemma get_chunk_len_hex:
  assumes "n < 2 ^ 28"
  shows "get_chunk_len (map hex_char (hex_number n) @ CRLF @ rest) = Inr (int n, rest)"
proof -
  let ?ks = "hex_number n"
  let ?sock = "map hex_char ?ks @ CRLF @ rest"
  have len: "length ?ks \<le> 7" using hex_number_length [of n 7] assms by simp
  have "peek_digits ?sock 0 = Inr (0 + length ?ks)"
  proof (rule peek_digits_skip)
    show "\<forall>i<length ?ks. ?sock ! (0 + i) \<noteq> CRET"
      using hex_number_digits [of n] hex_char_ok(2) by (simp add: nth_append)
  qed (use len in \<open>simp_all add: CRLF_def nth_append\<close>)
  moreover have "add_digits 0 (map hex_char ?ks) = Inr (int n)"
    using add_digits_hex [of ?ks 0] hex_number_digits [of n] len assms by (simp add: hex_number_value)
  ultimately show ?thesis using len by (simp add: get_chunk_len_def CRLF_def)
qed

text \<open>But the line end behind the data of a chunk is taken for a length as well: 0.\<close>

lemma get_chunk_len_CRLF: "get_chunk_len (CRLF @ rest) = Inr (0, rest)"
  by (simp add: get_chunk_len_def CRLF_def peek_digits.simps)

lemma read_first_chunk:
  assumes "d \<noteq> []" and "length d \<le> MAX_MSG_LEN_ex7"
  shows "read_chunks (int (length d)) (d @ CRLF @ rest) buffer 0 = Inr (store buffer 0 d, length d, rest)"
  using assms by (subst read_chunks.simps) (simp add: get_chunk_len_CRLF Let_def, subst read_chunks.simps, simp)

section \<open>Finding the header\<close>

lemma header_end_prefix: "header_end_at (take k sock) p \<Longrightarrow> header_end_at sock p"
proof -
  assume a: "header_end_at (take k sock) p"
  then have t: "take 4 (take (k - p) (drop p sock)) = HEADER_END" by (simp add: header_end_at_def drop_take)
  then have "length (take 4 (take (k - p) (drop p sock))) = 4" by (simp add: HEADER_END_def)
  then have "4 \<le> k - p" by simp
  then show ?thesis using t by (simp add: header_end_at_def min_def)
qed

lemma header_end_take: "p + 4 \<le> k \<Longrightarrow> header_end_at (take k sock) p \<longleftrightarrow> header_end_at sock p"
  by (simp add: header_end_at_def drop_take min_def)

lemma header_end_length: "header_end_at sock p \<Longrightarrow> p + 4 \<le> length sock"
proof -
  assume "header_end_at sock p"
  then have "length (take 4 (drop p sock)) = 4" by (simp add: header_end_at_def HEADER_END_def)
  then show ?thesis by simp
qed

lemma header_end_nth: "header_end_at sock p \<Longrightarrow> i < 4 \<Longrightarrow> sock ! (p + i) = HEADER_END ! i"
proof -
  assume h: "header_end_at sock p" and i: "i < 4"
  have "take 4 (drop p sock) ! i = sock ! (p + i)" using i header_end_length [OF h] by simp
  then show ?thesis using h by (simp add: header_end_at_def)
qed

lemma scan_header_found:
  "header_end_at b (n + k) \<Longrightarrow> (\<forall>i < k. \<not> header_end_at b (n + i)) \<Longrightarrow> n + k \<le> status + 1 \<Longrightarrow> scan_header b status n = n + k"
proof (induction k arbitrary: n)
  case 0
  then show ?case by (simp add: scan_header.simps [of b status n])
next
  case (Suc k)
  have "scan_header b status n = scan_header b status (n + 1)"
    using Suc.prems(2) [rule_format, of 0] Suc.prems(3) by (simp add: scan_header.simps [of b status n])
  moreover have "\<not> header_end_at b (n + 1 + i)" if "i < k" for i using Suc.prems(2) [rule_format, of "Suc i"] that by simp
  ultimately show ?case using Suc.IH [of "n + 1"] Suc.prems by simp
qed

lemma scan_header_none:
  "(\<forall>p \<ge> n. \<not> header_end_at b p) \<Longrightarrow> scan_header b status n = (if n \<le> status then status + 1 else n)"
  by (induction b status n rule: scan_header.induct) (subst scan_header.simps, auto)

lemma find_header_never:
  "\<forall>p \<ge> peaked. \<not> header_end_at sock p \<Longrightarrow> peaked \<le> length sock + 1 \<Longrightarrow> length sock + PEEK_LEN \<le> MAX_MSG_LEN_ex7 \<Longrightarrow>
    find_header sock peaked = Inl Blocked"
proof (induction sock peaked rule: find_header.induct)
  case (1 sock peaked)
  let ?b = "take (PEEK_LEN + peaked) sock"
  have none: "\<forall>p \<ge> peaked. \<not> header_end_at ?b p" using "1.prems"(1) header_end_prefix by blast
  have room: "\<not> MAX_MSG_LEN_ex7 + 1 < PEEK_LEN + peaked" using "1.prems"(2,3) by simp
  show ?case
  proof (cases "peaked \<le> length ?b")
    case True
    let ?p = "length ?b + 1"
    have p: "scan_header ?b (length ?b) peaked = ?p" using scan_header_none [OF none, of "length ?b"] True by simp
    have np: "\<not> header_end_at ?b ?p" using none True by simp
    have "find_header sock ?p = Inl Blocked"
    proof (rule "1.IH" [OF room refl p [symmetric] np])
      show "\<forall>q \<ge> ?p. \<not> header_end_at sock q" using "1.prems"(1) True by simp
    qed (use True "1.prems"(3) in auto)
    then show ?thesis using room np p True by (subst find_header.simps) (simp add: Let_def)
  next
    case False
    then have "scan_header ?b (length ?b) peaked = peaked" using scan_header_none [OF none, of "length ?b"] by simp
    then show ?thesis using room none by (subst find_header.simps) (simp add: Let_def)
  qed
qed

text \<open>
  A round of the search sees 128 bytes and the next one starts 129 bytes further, so an end of the header at the
  distances 125 to 128 is stepped over.
\<close>

lemma find_header_here:
  assumes "header_end_at sock h" and "\<forall>p. peaked \<le> p \<and> p < h \<longrightarrow> \<not> header_end_at sock p" and "peaked \<le> h" "h \<le> peaked + 124"
    and "peaked + PEEK_LEN \<le> MAX_MSG_LEN_ex7 + 1"
  shows "find_header sock peaked = Inr (h + 4)"
proof -
  let ?b = "take (PEEK_LEN + peaked) sock"
  have buf: "header_end_at ?b p \<longleftrightarrow> header_end_at sock p" if "p \<le> h" for p
    using that assms(4) by (intro header_end_take) (simp add: PEEK_LEN_def)
  have "h + 4 \<le> length ?b" using header_end_length [OF assms(1)] assms(4) by (simp add: PEEK_LEN_def)
  moreover obtain k where k: "h = peaked + k" using assms(3) le_Suc_ex by blast
  ultimately have "scan_header ?b (length ?b) peaked = peaked + k"
    using assms(1,2) buf by (intro scan_header_found) auto
  then show ?thesis using buf [of h] assms(1,5) k by (subst find_header.simps) (simp add: Let_def)
qed

lemma find_header_step:
  assumes "header_end_at sock h" and "\<forall>p. peaked \<le> p \<and> p < h \<longrightarrow> \<not> header_end_at sock p" and "peaked + 125 \<le> h"
    and "peaked + PEEK_LEN \<le> MAX_MSG_LEN_ex7 + 1"
  shows "find_header sock peaked = find_header sock (peaked + 129)"
proof -
  let ?b = "take (PEEK_LEN + peaked) sock"
  have len: "length ?b = peaked + 128" using header_end_length [OF assms(1)] assms(3) by (simp add: PEEK_LEN_def)
  have none: "\<not> header_end_at ?b p" if "peaked \<le> p" for p
  proof
    assume a: "header_end_at ?b p"
    have "p + 4 \<le> length ?b" by (rule header_end_length [OF a])
    then have "p < h" using assms(3) unfolding len by simp
    then show False using assms(2) that header_end_prefix [OF a] by blast
  qed
  then have "scan_header ?b (length ?b) peaked = peaked + 129" using scan_header_none [of peaked ?b "length ?b"] len by simp
  then show ?thesis using none assms(4) by (subst find_header.simps) (simp add: Let_def)
qed

lemma find_header_found:
  assumes "header_end_at sock h" and "m \<le> 124" and "h + PEEK_LEN \<le> MAX_MSG_LEN_ex7 + 1"
  shows "h = peaked + 129 * j + m \<Longrightarrow> \<forall>p. peaked \<le> p \<and> p < h \<longrightarrow> \<not> header_end_at sock p \<Longrightarrow>
    find_header sock peaked = Inr (h + 4)"
proof (induction j arbitrary: peaked)
  case 0
  then show ?case using find_header_here [OF assms(1) "0.prems"(2)] assms(2,3) by simp
next
  case (Suc j)
  have "find_header sock peaked = find_header sock (peaked + 129)"
    by (rule find_header_step [OF assms(1) Suc.prems(2)]) (use Suc.prems(1) assms(3) in auto)
  then show ?case using Suc.IH [of "peaked + 129"] Suc.prems by simp
qed

lemma find_header_missed:
  assumes "\<forall>p. header_end_at sock p \<longleftrightarrow> p = h" and "125 \<le> m" "m \<le> 128" and "length sock + PEEK_LEN \<le> MAX_MSG_LEN_ex7"
  shows "h = peaked + 129 * j + m \<Longrightarrow> find_header sock peaked = Inl Blocked"
proof (induction j arbitrary: peaked)
  case 0
  have len: "h + 4 \<le> length sock" using header_end_length assms(1) by blast
  have "find_header sock peaked = find_header sock (peaked + 129)"
    by (rule find_header_step [of _ h]) (use 0 assms len in auto)
  also have "\<dots> = Inl Blocked" by (rule find_header_never) (use 0 assms len in auto)
  finally show ?case .
next
  case (Suc j)
  have len: "h + 4 \<le> length sock" using header_end_length assms(1) by blast
  have "find_header sock peaked = find_header sock (peaked + 129)"
    by (rule find_header_step [of _ h]) (use Suc.prems assms len in auto)
  then show ?case using Suc.IH [of "peaked + 129"] Suc.prems by simp
qed

lemma body_first_chunk:
  assumes sock: "sock = head @ HEADER_END @ chunk d @ rest" and head: "find_header sock 0 = Inr (length head + 4)"
    and d: "d \<noteq> []" "length d \<le> MAX_MSG_LEN_ex7" and h: "length head + 4 \<le> MAX_MSG_LEN_ex7"
  shows "\<exists>buffer. get_http_body sock = Inr buffer \<and> length buffer = MAX_MSG_LEN_ex7 + 1 \<and>
    take (length d) buffer = d[length head + 4 := 0] \<and> buffer ! length d = 0"
proof -
  let ?p = "length head + 4"
  let ?zero = "store (replicate (MAX_MSG_LEN_ex7 + 1) 0) 0 (take ?p sock)"
  have e4: "length HEADER_END = 4" by (simp add: HEADER_END_def)
  have "drop ?p sock = map hex_char (hex_number (length d)) @ CRLF @ d @ CRLF @ rest"
    using sock e4 by (simp add: chunk_def)
  moreover have "length d < 2 ^ 28" using d(2) by (simp add: MAX_MSG_LEN_ex7_def)
  ultimately have len: "get_chunk_len (drop ?p sock) = Inr (int (length d), d @ CRLF @ rest)"
    using get_chunk_len_hex [of "length d" "d @ CRLF @ rest"] by simp
  have "length sock \<ge> ?p" using sock e4 by simp
  then have run: "get_http_body sock = Inr ((store ?zero 0 d)[length d := 0, ?p := 0])"
    using head len read_first_chunk [OF d, of rest ?zero] h d(2) by (simp add: get_http_body_def Let_def)
  have l0: "length ?zero = MAX_MSG_LEN_ex7 + 1" using h by (simp add: store_def)
  have st: "store ?zero 0 d = d @ drop (length d) ?zero" by (simp add: store_def)
  have l1: "length (store ?zero 0 d) = MAX_MSG_LEN_ex7 + 1" using l0 d(2) unfolding st by simp
  have "take (length d) ((store ?zero 0 d)[length d := 0, ?p := 0]) = d[?p := 0]"
    unfolding st by (simp add: take_update_swap list_update_beyond)
  moreover have "((store ?zero 0 d)[length d := 0, ?p := 0]) ! length d = 0"
    using l1 d(2) by (cases "?p = length d") simp_all
  ultimately show ?thesis using run l1 by simp
qed

section \<open>Properties\<close>

text \<open>
  C39: The end of the header and the first chunk of a chunked body, when everything has arrived before the first peek and fits
  the buffer. The search looks at 128 bytes at a time and goes on 129 bytes further, so it finds the end of a header
  of \<open>h\<close> bytes unless \<open>h mod 129\<close> is 125 or more; an end that it steps over, with no other one behind it, makes it
  peek for ever. When the end is found, the length of the first chunk, in small hexadecimal digits, is decoded
  exactly and its data stored; but the line end behind the data is then taken for a chunk of length 0, so whatever chunks
  follow make no difference. And the byte of the data at the length of the header is overwritten with NUL.
\<close>

theorem first_chunk_only:
  assumes "sock = head @ HEADER_END @ chunk d @ rest" and "\<forall>p < length head. \<not> header_end_at sock p"
    and "d \<noteq> []" and "length d \<le> MAX_MSG_LEN_ex7" and "length head + PEEK_LEN \<le> MAX_MSG_LEN_ex7"
  shows "(length head mod 129 < 125 \<longrightarrow>
      (\<exists>buffer. get_http_body sock = Inr buffer \<and> length buffer = MAX_MSG_LEN_ex7 + 1 \<and>
        take (length d) buffer = d[length head + 4 := 0] \<and> buffer ! length d = 0)) \<and>
    (125 \<le> length head mod 129 \<and> (\<forall>p > length head. \<not> header_end_at sock p) \<and>
      length sock + PEEK_LEN \<le> MAX_MSG_LEN_ex7 \<longrightarrow> get_http_body sock = Inl Blocked)"
proof -
  let ?h = "length head"
  have at: "header_end_at sock ?h" using assms(1) by (simp add: header_end_at_def HEADER_END_def)
  have h: "?h = 0 + 129 * (?h div 129) + ?h mod 129" by simp
  have "\<exists>buffer. get_http_body sock = Inr buffer \<and> length buffer = MAX_MSG_LEN_ex7 + 1 \<and>
        take (length d) buffer = d[length head + 4 := 0] \<and> buffer ! length d = 0" if "?h mod 129 < 125"
  proof (rule body_first_chunk [OF assms(1) _ assms(3,4)])
    show "find_header sock 0 = Inr (?h + 4)"
      by (rule find_header_found [OF at _ _ h]) (use that assms(2,5) in auto)
  qed (use assms(5) in \<open>simp add: PEEK_LEN_def\<close>)
  moreover have "get_http_body sock = Inl Blocked"
    if "125 \<le> ?h mod 129" "\<forall>p > ?h. \<not> header_end_at sock p" "length sock + PEEK_LEN \<le> MAX_MSG_LEN_ex7"
  proof -
    have "\<forall>p. header_end_at sock p \<longleftrightarrow> p = ?h" using at assms(2) that(2) by (metis linorder_neqE_nat)
    moreover have "?h mod 129 \<le> 128" using mod_less_divisor [of 129 ?h] by linarith
    ultimately have "find_header sock 0 = Inl Blocked" using that(1,3) h by (intro find_header_missed [OF _ _ _ _ h])
    then show ?thesis by (simp add: get_http_body_def)
  qed
  ultimately show ?thesis by blast
qed

lemma demo_header: "\<not> header_end_at (replicate 300 65 @ s) p" if "p < 300"
proof
  assume h: "header_end_at (replicate 300 65 @ s) p"
  have "(replicate 300 65 @ s) ! p = CRET" using header_end_nth [OF h, of 0] by (simp add: HEADER_END_def)
  then show False using that by (simp add: nth_append)
qed

text \<open>A header of 300 bytes.\<close>

lemma first_chunk_only_witness:
  "\<exists>buffer. get_http_body (replicate 300 65 @ HEADER_END @ chunk [60, 105, 116, 101, 109, 62, 33] @ chunk [65, 66, 67] @ chunk []) =
      Inr buffer \<and> take 7 buffer = [60, 105, 116, 101, 109, 62, 33]"
proof -
  let ?d = "[60, 105, 116, 101, 109, 62, 33] :: byte list" and ?rest = "chunk [65, 66, 67] @ chunk []"
  let ?head = "replicate 300 65 :: byte list" and ?sock = "replicate 300 65 @ HEADER_END @ chunk ?d @ ?rest"
  have none: "\<forall>p < length ?head. \<not> header_end_at ?sock p" using demo_header by simp
  have "length ?head mod 129 < 125 \<longrightarrow>
      (\<exists>buffer. get_http_body ?sock = Inr buffer \<and> length buffer = MAX_MSG_LEN_ex7 + 1 \<and>
        take (length ?d) buffer = ?d[length ?head + 4 := 0] \<and> buffer ! length ?d = 0)"
    by (rule first_chunk_only [OF refl none, THEN conjunct1]) (simp_all add: MAX_MSG_LEN_ex7_def PEEK_LEN_def)
  moreover have "length ?head mod 129 < 125" by simp
  ultimately obtain buffer where b: "get_http_body ?sock = Inr buffer" "take (length ?d) buffer = ?d[length ?head + 4 := 0]" by blast
  moreover have "?d[length ?head + 4 := 0] = ?d" by (rule list_update_beyond) simp
  moreover have "length ?d = 7" by simp
  ultimately show ?thesis by metis
qed

end
