(* ===== verification/Quote_Server.thy ===== *)
theory Quote_Server
  imports Net_Prelude
begin

text \<open>
  The quote of the day: the server of \<open>TCP_IP_and_Drgramms/ex5.c\<close>, which reads its quotes from the lines of a file
  and answers every byte it receives with one of them, and the client \<open>ex4.c\<close>, which prints what one
  \<open>recv\<close> delivers. \<open>rand\<close>, the bytes received and the success of \<open>send\<close> are arguments.
\<close>

section \<open>Reading the quotes\<close>

definition MAX_QUOTES :: nat where "MAX_QUOTES = 1000"
definition MAX_MSG_LEN_ex5 :: nat where "MAX_MSG_LEN_ex5 = 512"

abbreviation (input) LF :: byte where "LF \<equiv> 10"

text \<open>\<open>getline\<close>: a line with its newline, if it has one; \<open>None\<close> at the end of the file.\<close>

definition getline :: "byte list \<Rightarrow> (byte list \<times> byte list) option" where
  "getline s =
     (if s = [] then None
      else let n = Suc (length (takeWhile (\<lambda>c. c \<noteq> LF) s)) in Some (take n s, drop n s))"

text \<open>
  A buffer of \<open>quotes\<close>, zero before, after \<open>strncpy\<close> of the line, which stops at a NUL and pads with NUL.
\<close>

definition quote_buffer :: "byte list \<Rightarrow> byte list" where
  "quote_buffer line =
     (let s = takeWhile (\<lambda>c. c \<noteq> 0) line in s @ replicate (MAX_MSG_LEN_ex5 + 1 - length s) 0)"

text \<open>The loop; \<open>quotes\<close> holds the first \<open>nquotes\<close> buffers, the others are zero.\<close>

function read_lines :: "byte list \<Rightarrow> byte list list \<Rightarrow> fault + byte list list" where
  "read_lines stream quotes =
     (case getline stream of
        None \<Rightarrow> Inr quotes
      | Some (line, stream) \<Rightarrow>
          if length quotes < MAX_QUOTES then
            bind_res (assert_c (length line \<le> MAX_MSG_LEN_ex5)) (\<lambda>_.
            read_lines stream (quotes @ [quote_buffer line]))
          else Inr quotes)"
  by pat_completeness auto
termination
  by (relation "measure (\<lambda>(stream, quotes). length stream)") (auto simp: getline_def Let_def split: if_splits)

declare read_lines.simps [simp del]

text \<open>
  The return value and the buffers. If \<open>fopen\<close> fails the code prints a message and goes on with a null stream.
\<close>

definition read_quotes :: "byte list option \<Rightarrow> fault + int \<times> byte list list" where
  "read_quotes opened =
     (case opened of
        None \<Rightarrow> Inl Undefined
      | Some stream \<Rightarrow>
          bind_res (read_lines stream []) (\<lambda>quotes.
          Inr (if length quotes = 0 then 1 else 0, quotes)))"

section \<open>The server\<close>

definition strlen_ex5 :: "byte list \<Rightarrow> fault + nat" where
  "strlen_ex5 s = (if 0 \<in> set s then Inr (length (takeWhile (\<lambda>c. c \<noteq> 0) s)) else Inl Undefined)"

text \<open>
  One connection: what \<open>recv\<close> returns, byte by byte, \<open>None\<close> for an error; at the end the client has closed. The result is
  what has been sent and the number of quotes drawn by then; \<open>rnd k\<close> is the \<open>k\<close>-th result of \<open>rand\<close>,
  \<open>sends k\<close> whether the \<open>k\<close>-th \<open>send\<close> succeeds.
\<close>

fun serve_connection ::
  "byte list list \<Rightarrow> (nat \<Rightarrow> nat) \<Rightarrow> (nat \<Rightarrow> bool) \<Rightarrow> nat \<Rightarrow> byte option list \<Rightarrow> fault + byte list \<times> nat" where
  "serve_connection quotes rnd sends k [] = Inr ([], k)"
| "serve_connection quotes rnd sends k (None # _) = Inr ([], k)"
| "serve_connection quotes rnd sends k (Some _ # received) =
     bind_res (assert_c (length quotes \<le> MAX_QUOTES)) (\<lambda>_.
     if quotes = [] then Inl Undefined
     else
       let msg = quotes ! (rnd k mod length quotes)
       in bind_res (strlen_ex5 msg) (\<lambda>len.
          bind_res (assert_c (len \<le> MAX_MSG_LEN_ex5)) (\<lambda>_.
          if sends k then
            bind_res (serve_connection quotes rnd sends (k + 1) received) (\<lambda>(out, k).
            Inr (take (len + 1) msg @ out, k))
          else Inr ([], k + 1))))"

text \<open>The server loop over the connections accepted until \<open>accept\<close> fails, with what was sent to each.\<close>

fun run_quote_server ::
  "byte list list \<Rightarrow> (nat \<Rightarrow> nat) \<Rightarrow> (nat \<Rightarrow> bool) \<Rightarrow> nat \<Rightarrow> byte option list list \<Rightarrow> fault + int \<times> byte list list" where
  "run_quote_server quotes rnd sends k [] = Inr (6, [])"
| "run_quote_server quotes rnd sends k (conn # conns) =
     bind_res (serve_connection quotes rnd sends k conn) (\<lambda>(out, k).
     bind_res (run_quote_server quotes rnd sends k conns) (\<lambda>(code, outs).
     Inr (code, out # outs)))"

text \<open>\<open>main\<close>: the server only starts if there are quotes.\<close>

definition quote_server ::
  "byte list option \<Rightarrow> (nat \<Rightarrow> nat) \<Rightarrow> (nat \<Rightarrow> bool) \<Rightarrow> byte option list list \<Rightarrow> fault + int \<times> byte list list" where
  "quote_server opened rnd sends conns =
     bind_res (read_quotes opened) (\<lambda>(status, quotes).
     if status \<noteq> 0 then Inr (1, []) else run_quote_server quotes rnd sends 0 conns)"

section \<open>The client\<close>

text \<open>The message sent, \<open>hallo\<close> with its NUL.\<close>

definition greeting :: "byte list" where
  "greeting = map of_char ''hallo'' @ [0]"

text \<open>Which of the calls before \<open>recv\<close> succeed, and whether \<open>close\<close> does.\<close>

record calls =
  resolved :: bool
  opened :: bool
  connected :: bool
  sent :: bool
  closed :: bool

text \<open>The return value and what is printed; \<open>received\<close> is what \<open>recv\<close> delivers.\<close>

definition print_quote :: "calls \<Rightarrow> byte list option \<Rightarrow> fault + int \<times> byte list" where
  "print_quote c received =
     (if \<not> resolved c then Inr (2, [])
      else if \<not> opened c then Inr (3, [])
      else if \<not> connected c then Inr (4, [])
      else if \<not> sent c then Inr (5, [])
      else case received of
        None \<Rightarrow> Inr (6, [])
      | Some d \<Rightarrow>
          let status = length (take MAX_MSG_LEN_ex5 d);
              msg_buffer = take MAX_MSG_LEN_ex5 d @ replicate (MAX_MSG_LEN_ex5 + 1 - status) 0
          in bind_res (assert_c (status \<le> MAX_MSG_LEN_ex5)) (\<lambda>_.
             let msg_buffer = msg_buffer[status := 0];
                 printed = takeWhile (\<lambda>c. c \<noteq> 0) msg_buffer
             in Inr (if closed c then 0 else 7, printed)))"

section \<open>The lines of a file\<close>

function file_lines :: "byte list \<Rightarrow> byte list list" where
  "file_lines [] = []"
| "file_lines (c # cs) =
     (let n = length (takeWhile (\<lambda>c. c \<noteq> LF) (c # cs)) in take (Suc n) (c # cs) # file_lines (drop (Suc n) (c # cs)))"
  by pat_completeness auto
termination
  by (relation "measure length") auto

declare file_lines.simps(2) [simp del]

lemma file_lines_getline:
  "file_lines s = (case getline s of None \<Rightarrow> [] | Some (line, rest) \<Rightarrow> line # file_lines rest)"
  by (cases s) (simp_all add: getline_def Let_def file_lines.simps(2))

lemma concat_file_lines: "concat (file_lines s) = s"
  by (induction s rule: file_lines.induct) (simp_all add: file_lines.simps(2) Let_def)

lemma file_lines_nonempty: "[] \<notin> set (file_lines s)"
  by (induction s rule: file_lines.induct) (simp_all add: file_lines.simps(2) Let_def)

lemma file_lines_eq_Nil [simp]: "file_lines s = [] \<longleftrightarrow> s = []"
  by (cases s) (simp_all add: file_lines.simps(2) Let_def)

text \<open>The loop reads the first lines, at most as many as there are buffers, and trips the assertion on a longer one.\<close>

definition short_lines :: "byte list list \<Rightarrow> bool" where
  "short_lines ls \<longleftrightarrow> (\<forall>l \<in> set ls. length l \<le> MAX_MSG_LEN_ex5)"

lemma read_lines_file_lines:
  assumes "length quotes \<le> MAX_QUOTES"
  shows "read_lines s quotes =
    (let ls = take (MAX_QUOTES - length quotes) (file_lines s)
     in if short_lines ls then Inr (quotes @ map quote_buffer ls) else Inl Assertion)"
  using assms
proof (induction s quotes rule: read_lines.induct)
  case (1 s quotes)
  show ?case
  proof (cases "getline s")
    case None
    then show ?thesis by (simp add: read_lines.simps [of s] file_lines_getline [of s] short_lines_def)
  next
    case (Some p)
    obtain line rest where p: "p = (line, rest)" by (cases p)
    show ?thesis
    proof (cases "length quotes < MAX_QUOTES \<and> length line \<le> MAX_MSG_LEN_ex5")
      case True
      then obtain m where m: "MAX_QUOTES - length quotes = Suc m" "MAX_QUOTES - Suc (length quotes) = m"
        by (metis Suc_diff_Suc)
      show ?thesis
        using 1(1) [OF Some p [symmetric]] True Some p m
        by (simp add: read_lines.simps [of s] file_lines_getline [of s] Let_def short_lines_def)
    next
      case False
      then show ?thesis
        using "1.prems" Some p
        by (cases "MAX_QUOTES - length quotes") (auto simp: read_lines.simps [of s] file_lines_getline [of s] Let_def short_lines_def)
    qed
  qed
qed


section \<open>An exchange\<close>

lemma takeWhile_NUL: "takeWhile (\<lambda>c. c \<noteq> 0) (s @ replicate n 0) = takeWhile (\<lambda>c. c \<noteq> 0) s" for s :: "byte list"
  by (induction s) simp_all

lemma quote_buffer_text: "takeWhile (\<lambda>c. c \<noteq> 0) (quote_buffer line) = takeWhile (\<lambda>c. c \<noteq> 0) line"
  by (simp add: quote_buffer_def Let_def takeWhile_NUL)

lemma NUL_in_quote_buffer: "length line \<le> MAX_MSG_LEN_ex5 \<Longrightarrow> 0 \<in> set (quote_buffer line)"
  using length_takeWhile_le [of "\<lambda>c. c \<noteq> 0" line] by (simp add: quote_buffer_def Let_def)

lemma strlen_ex5_quote_buffer:
  "length line \<le> MAX_MSG_LEN_ex5 \<Longrightarrow> strlen_ex5 (quote_buffer line) = Inr (length (takeWhile (\<lambda>c. c \<noteq> 0) line))"
  by (simp add: strlen_ex5_def quote_buffer_text NUL_in_quote_buffer)

lemma take_quote_buffer:
  "length line \<le> MAX_MSG_LEN_ex5 \<Longrightarrow>
    take (length (takeWhile (\<lambda>c. c \<noteq> 0) line) + 1) (quote_buffer line) = takeWhile (\<lambda>c. c \<noteq> 0) line @ [0]"
  using length_takeWhile_le [of "\<lambda>c. c \<noteq> 0" line]
  by (cases "MAX_MSG_LEN_ex5 + 1 - length (takeWhile (\<lambda>c. c \<noteq> 0) line)")
    (simp_all add: quote_buffer_def Let_def)

text \<open>The quote for the \<open>k\<close>-th draw.\<close>

definition drawn :: "byte list list \<Rightarrow> (nat \<Rightarrow> nat) \<Rightarrow> nat \<Rightarrow> byte list" where
  "drawn ls rnd k = takeWhile (\<lambda>c. c \<noteq> 0) (ls ! (rnd k mod length ls))"

lemma serve_connection_draws:
  assumes "short_lines ls" and "ls \<noteq> []" and "length ls \<le> MAX_QUOTES" and "\<forall>i. sends i"
  shows "serve_connection (map quote_buffer ls) rnd sends k (map Some msg) =
    Inr (concat (map (\<lambda>i. drawn ls rnd i @ [0]) [k..<k + length msg]), k + length msg)"
proof (induction msg arbitrary: k)
  case (Cons b msg)
  let ?l = "ls ! (rnd k mod length ls)"
  have l: "length ?l \<le> MAX_MSG_LEN_ex5" using assms(1,2) by (simp add: short_lines_def)
  have "[k..<k + length (b # msg)] = k # [k + 1..<k + 1 + length msg]" by (subst upt_conv_Cons) simp_all
  then show ?case
    using assms Cons.IH [of "k + 1"] strlen_ex5_quote_buffer [OF l] take_quote_buffer [OF l] l
      le_trans [OF length_takeWhile_le l]
    by (simp add: drawn_def Let_def)
qed simp

lemma print_quote_text:
  assumes "resolved c" "opened c" "connected c" "sent c" and "length d \<le> MAX_MSG_LEN_ex5"
  shows "print_quote c (Some d) = Inr (if closed c then 0 else 7, takeWhile (\<lambda>c. c \<noteq> 0) d)"
proof -
  have "(d @ replicate (MAX_MSG_LEN_ex5 + 1 - length d) 0)[length d := 0] = d @ replicate (MAX_MSG_LEN_ex5 + 1 - length d) 0"
    using assms(5) by (cases "MAX_MSG_LEN_ex5 + 1 - length d") (simp_all add: list_update_append)
  then show ?thesis using assms by (simp add: print_quote_def Let_def takeWhile_NUL)
qed

lemma takeWhile_take_NUL:
  "0 \<notin> set s \<Longrightarrow> takeWhile (\<lambda>c. c \<noteq> 0) (take n (s @ 0 # rest)) = take n s" for s :: "byte list"
proof (induction s arbitrary: n)
  case Nil
  then show ?case by (cases n) simp_all
next
  case (Cons c s)
  then show ?case by (cases n) auto
qed

lemma length_greeting [simp]: "length greeting = 6"
  by (simp add: greeting_def)

text \<open>
  C40: A quote is a line of the file, with its newline, and not longer than 512 bytes; only the first 1000 lines count. If these
  are short enough, the server answers each of the six bytes of the client's greeting with a quote, and whatever
  number of bytes \<open>recv\<close> of the client delivers, up to 512, the client prints as much of the quote drawn first; so it
  prints the whole line as soon as that has arrived.
\<close>

theorem quote_exchange:
  assumes "stream \<noteq> []" and "ls = take MAX_QUOTES (file_lines stream)" and "short_lines ls"
    and "\<forall>l \<in> set ls. 0 \<notin> set l" and "\<forall>i. sends i"
    and "resolved c" "opened c" "connected c" "sent c" "closed c" and "n \<le> MAX_MSG_LEN_ex5"
  shows "\<exists>out. quote_server (Some stream) rnd sends [map Some greeting] = Inr (6, [out]) \<and>
    print_quote c (Some (take n out)) = Inr (0, take n (ls ! (rnd 0 mod length ls))) \<and>
    concat (file_lines stream) = stream"
proof -
  have ne: "ls \<noteq> []" using assms(1,2) by (simp add: MAX_QUOTES_def)
  have le: "length ls \<le> MAX_QUOTES" using assms(2) by simp
  let ?l = "ls ! (rnd 0 mod length ls)"
  let ?out = "concat (map (\<lambda>i. drawn ls rnd i @ [0]) [0..<0 + length greeting])"
  have l: "?l \<in> set ls" using ne by simp
  have "read_quotes (Some stream) = Inr (0, map quote_buffer ls)"
    using assms(2,3) ne read_lines_file_lines [of "[]" stream] by (auto simp: read_quotes_def Let_def)
  then have server: "quote_server (Some stream) rnd sends [map Some greeting] = Inr (6, [?out])"
    using serve_connection_draws [OF assms(3) ne le assms(5), of rnd 0 greeting] by (simp add: quote_server_def)
  have "drawn ls rnd 0 = ?l" using assms(4) l by (auto simp: drawn_def takeWhile_eq_all_conv)
  then have "?out = ?l @ 0 # concat (map (\<lambda>i. drawn ls rnd i @ [0]) [1..<6])"
    by (simp add: upt_conv_Cons)
  then have "takeWhile (\<lambda>c. c \<noteq> 0) (take n ?out) = take n ?l"
    using takeWhile_take_NUL [of ?l n] assms(4) l by simp
  then have "print_quote c (Some (take n ?out)) = Inr (0, take n ?l)"
    using print_quote_text [of c "take n ?out"] assms(6-11) by simp
  then show ?thesis using server concat_file_lines [of stream] by blast
qed

lemma quote_exchange_witness:
  "\<exists>out. quote_server (Some [72, 105, 10, 89, 111]) (\<lambda>i. i + 1) (\<lambda>_. True) [map Some greeting] = Inr (6, [out]) \<and>
    print_quote \<lparr>resolved = True, opened = True, connected = True, sent = True, closed = True\<rparr> (Some (take 20 out)) = Inr (0, [89, 111])"
proof -
  have ls: "take MAX_QUOTES (file_lines [72, 105, 10, 89, 111]) = [[72, 105, 10], [89, 111]]"
    by (simp add: file_lines.simps(2) Let_def MAX_QUOTES_def)
  show ?thesis
    using quote_exchange [of "[72, 105, 10, 89, 111]" "[[72, 105, 10], [89, 111]]" "\<lambda>_. True"
        "\<lparr>resolved = True, opened = True, connected = True, sent = True, closed = True\<rparr>" 20 "\<lambda>i. i + 1"]
    by (auto simp: ls short_lines_def MAX_MSG_LEN_ex5_def)
qed

end
