(* ===== verification/Std_Map.thy ===== *)
theory Std_Map
  imports Net_Prelude
begin

text \<open>
  \<open>std::map\<close> of the C++ simulator in \<open>GoBackN/protsim\<close>: an association list in ascending order of the keys,
  which is the order its iterators visit the elements in. The laws the rest of the simulator uses are those of the
  locale \<open>assoc_container\<close>.
\<close>

type_synonym ('k, 'v) std_map = "('k \<times> 'v) list"

section \<open>Operations\<close>

text \<open>\<open>m[k] = v\<close>\<close>

fun assign :: "'k :: linorder \<Rightarrow> 'v \<Rightarrow> ('k, 'v) std_map \<Rightarrow> ('k, 'v) std_map" where
  "assign k v [] = [(k, v)]"
| "assign k v ((a, b) # m) =
     (if k < a then (k, v) # (a, b) # m
      else if k = a then (k, v) # m
      else (a, b) # assign k v m)"

text \<open>\<open>m.erase(k)\<close>\<close>

definition erase :: "'k \<Rightarrow> ('k, 'v) std_map \<Rightarrow> ('k, 'v) std_map" where
  "erase k m = filter (\<lambda>(a, b). a \<noteq> k) m"

text \<open>Reading \<open>m[k]\<close> puts a default value into the map if there is none.\<close>

definition subscript :: "'v \<Rightarrow> 'k :: linorder \<Rightarrow> ('k, 'v) std_map \<Rightarrow> 'v \<times> ('k, 'v) std_map" where
  "subscript dflt k m = (case map_of m k of Some v \<Rightarrow> (v, m) | None \<Rightarrow> (dflt, assign k dflt m))"

definition keys :: "('k, 'v) std_map \<Rightarrow> 'k list" where
  "keys m = map fst m"

definition ascending :: "('k :: linorder, 'v) std_map \<Rightarrow> bool" where
  "ascending m \<longleftrightarrow> sorted_wrt (<) (keys m)"

section \<open>The interface\<close>

locale assoc_container =
  fixes find :: "'m \<Rightarrow> 'k \<Rightarrow> 'v option"
    and put :: "'k \<Rightarrow> 'v \<Rightarrow> 'm \<Rightarrow> 'm"
    and drop_key :: "'k \<Rightarrow> 'm \<Rightarrow> 'm"
    and ordered :: "'m \<Rightarrow> bool"
  assumes find_put: "find (put k v m) = (find m)(k \<mapsto> v)"
    and find_drop_key: "find (drop_key k m) = (find m)(k := None)"
    and ordered_put: "ordered m \<Longrightarrow> ordered (put k v m)"
    and ordered_drop_key: "ordered m \<Longrightarrow> ordered (drop_key k m)"
    and ordered_unique: "ordered m \<Longrightarrow> ordered m' \<Longrightarrow> find m = find m' \<Longrightarrow> m = m'"
begin

lemma find_puts: "find (foldl (\<lambda>m (k, v). put k v m) m kvs) = find m ++ map_of (rev kvs)"
  by (induction kvs arbitrary: m) (auto simp: find_put)

lemma ordered_puts: "ordered m \<Longrightarrow> ordered (foldl (\<lambda>m (k, v). put k v m) m kvs)"
  by (induction kvs arbitrary: m) (auto simp: ordered_put)

lemma put_drop_key: "ordered m \<Longrightarrow> find m k = None \<Longrightarrow> drop_key k (put k v m) = m"
  by (rule ordered_unique) (simp_all add: ordered_put ordered_drop_key find_put find_drop_key fun_upd_idem)

lemma put_same: "ordered m \<Longrightarrow> find m k = Some v \<Longrightarrow> put k v m = m"
  by (rule ordered_unique) (simp_all add: ordered_put find_put fun_upd_idem)

lemma put_again: "ordered m \<Longrightarrow> put k v (put k u m) = put k v m"
  by (rule ordered_unique) (simp_all add: ordered_put find_put)

end

section \<open>The laws\<close>

lemma map_of_assign: "map_of (assign k v m) = (map_of m)(k \<mapsto> v)"
  by (induction k v m rule: assign.induct) auto

lemma map_of_erase: "map_of (erase k m) = (map_of m)(k := None)"
  by (induction m) (auto simp: erase_def)

lemma keys_simps [simp]: "keys [] = []" "keys ((k, v) # m) = k # keys m"
  by (simp_all add: keys_def)

lemma set_keys_assign [simp]: "set (keys (assign k v m)) = insert k (set (keys m))"
  by (induction k v m rule: assign.induct) auto

lemma ascending_Cons [simp]: "ascending ((k, v) # m) \<longleftrightarrow> (\<forall>x \<in> set (keys m). k < x) \<and> ascending m"
  by (auto simp: ascending_def keys_def)

lemma ascending_Nil [simp]: "ascending []"
  by (simp add: ascending_def keys_def)

lemma ascending_assign: "ascending m \<Longrightarrow> ascending (assign k v m)"
  by (induction k v m rule: assign.induct) auto

lemma ascending_erase: "ascending m \<Longrightarrow> ascending (erase k m)"
  by (induction m) (auto simp: erase_def keys_def)

lemma ascending_distinct: "ascending m \<Longrightarrow> distinct (keys m)"
  by (induction m) auto

lemma map_of_keys: "map_of m k = None \<longleftrightarrow> k \<notin> set (keys m)"
  by (simp add: keys_def map_of_eq_None_iff)

lemma ascending_unique: "ascending m \<Longrightarrow> ascending m' \<Longrightarrow> map_of m = map_of m' \<Longrightarrow> m = m'"
proof (induction m arbitrary: m')
  case Nil
  then have "map_of m' = Map.empty" by (metis map_of.simps(1))
  then show ?case by simp
next
  case (Cons p m)
  obtain k v where p: "p = (k, v)" by (cases p)
  obtain k' v' r where m': "m' = (k', v') # r"
  proof (cases m')
    case Nil
    then have "map_of (p # m) k = None" by (simp only: Cons.prems(3)) simp
    then show ?thesis by (simp add: p)
  next
    case (Cons q r)
    then show ?thesis using that by (cases q) auto
  qed
  have fresh: "map_of m k = None" "map_of r k' = None"
    using Cons.prems(1,2) by (auto simp: map_of_keys p m')
  have "k = k'"
  proof (rule ccontr)
    assume ne: "k \<noteq> k'"
    have "map_of m' k \<noteq> None" by (simp only: Cons.prems(3) [symmetric]) (simp add: p)
    moreover have "map_of (p # m) k' \<noteq> None" by (simp only: Cons.prems(3)) (simp add: m')
    ultimately
    have "k \<in> set (keys r)" "k' \<in> set (keys m)" using ne by (auto simp: map_of_keys m' p split: if_splits)
    then show False using Cons.prems(1,2) by (auto simp: p m' dest: less_trans)
  qed
  then have "v = v'" using fun_cong [OF Cons.prems(3), of k] by (simp add: p m')
  moreover have "map_of m = map_of r"
  proof
    fix x
    show "map_of m x = map_of r x"
      using fun_cong [OF Cons.prems(3), of x] fresh \<open>k = k'\<close> by (cases "x = k") (simp_all add: p m')
  qed
  ultimately show ?case using Cons.IH [of r] Cons.prems(1,2) \<open>k = k'\<close> by (simp add: p m')
qed

lemma map_of_rev_keys: "distinct (keys m) \<Longrightarrow> map_of (rev m) = map_of m"
proof (induction m)
  case (Cons p m)
  obtain k v where p: "p = (k, v)" by (cases p)
  have "map_of m k = None" using Cons.prems by (simp add: p map_of_keys)
  then show ?case using Cons by (auto simp: p map_add_def fun_eq_iff split: option.split)
qed simp

interpretation std: assoc_container map_of assign erase ascending
  by unfold_locales
    (simp_all add: map_of_assign map_of_erase ascending_assign ascending_erase ascending_unique)

lemma subscript_found: "map_of m k = Some v \<Longrightarrow> subscript d k m = (v, m)"
  by (simp add: subscript_def)

end
