(* ===== verification/Sim_Time.thy ===== *)
theory Sim_Time
  imports Net_Prelude
begin

text \<open>
  Time in the simulator. Simulation time is counted in whole ticks. A timer is the time it is scheduled for, if it is; OMNeT++
  stops the simulation with an error when a message is scheduled twice or for the past.
\<close>

datatype sim_time = At int | Never

fun earlier :: "sim_time \<Rightarrow> sim_time \<Rightarrow> bool" where
  "earlier (At a) (At b) \<longleftrightarrow> a < b"
| "earlier (At a) Never \<longleftrightarrow> True"
| "earlier Never t \<longleftrightarrow> False"

definition scheduleAt :: "int \<Rightarrow> sim_time \<Rightarrow> int option \<Rightarrow> fault + int option" where
  "scheduleAt now t timer =
     (case t of
        At a \<Rightarrow> if timer = None \<and> now \<le> a then Inr (Some a) else Inl (Exit 1)
      | Never \<Rightarrow> Inl (Exit 1))"

end
