(* ===== verification/Sim_Arq.thy ===== *)
theory Sim_Arq
  imports Std_Map Sim_Time
begin

text \<open>
  Go-back-N inside the simulator: the applications \<open>GoBackNSender.cc\<close> and \<open>GoBackNReceiver.cc\<close> of \<open>GoBackN/protsim/userapps\<close>.
\<close>

section \<open>The sender\<close>

text \<open>A buffered packet is known by its sequence number.\<close>

record packet_info =
  stored :: "int option"
  expires :: sim_time

record arq_params =
  packetSize :: int
  timeout :: int
  interval :: int
  window :: int

record arq_sender =
  packetBuffer :: "(int, packet_info) std_map"
  lastAckSeqNo :: int
  nextSendSeqNo :: int
  nextSendTime :: sim_time
  timerExpiration :: sim_time
  nextSendTimer :: "int option"
  expirationTimer :: "int option"
  sentBytes :: int
  ackBytes :: int

definition new_info :: packet_info where
  "new_info = \<lparr>stored = None, expires = At (-1)\<rparr>"

definition getDataPacket :: "arq_params \<Rightarrow> int \<Rightarrow> arq_sender \<Rightarrow> fault + int \<times> arq_sender" where
  "getDataPacket cfg seqNo s =
     bind_res (assert_c (case packetBuffer s of [] \<Rightarrow> True | (oldest, _) # _ \<Rightarrow> oldest \<le> seqNo)) (\<lambda>_.
     let (info, buf) = subscript new_info seqNo (packetBuffer s)
     in bind_res (assert_c (int (length buf) \<le> window cfg)) (\<lambda>_.
        let info = (if stored info = None then info\<lparr>stored := Some seqNo\<rparr> else info)
        in Inr (the (stored info), s\<lparr>packetBuffer := assign seqNo info buf\<rparr>)))"

function free_from :: "int \<Rightarrow> int \<Rightarrow> (int, packet_info) std_map \<Rightarrow> fault + (int, packet_info) std_map" where
  "free_from i end_no buf =
     (if i \<le> end_no then
        bind_res (assert_c (map_of buf i \<noteq> None)) (\<lambda>_. free_from (i + 1) end_no (erase i buf))
      else Inr buf)"
  by pat_completeness auto
termination
  by (relation "measure (\<lambda>(i, end_no, buf). nat (end_no + 1 - i))") auto

declare free_from.simps [simp del]

definition freeBuffers :: "int \<Rightarrow> int \<Rightarrow> arq_sender \<Rightarrow> fault + arq_sender" where
  "freeBuffers start end_no s =
     bind_res (assert_c (start \<le> end_no)) (\<lambda>_.
     bind_res (free_from start end_no (packetBuffer s)) (\<lambda>buf. Inr (s\<lparr>packetBuffer := buf\<rparr>)))"

definition reset_timers :: "arq_sender \<Rightarrow> arq_sender" where
  "reset_timers s =
     s\<lparr>timerExpiration := Never,
       packetBuffer := map (\<lambda>(k, info). (k, info\<lparr>expires := Never\<rparr>)) (packetBuffer s),
       expirationTimer := None\<rparr>"

text \<open>The state after \<open>initialize\<close> at time 0, if sending is not disabled.\<close>

definition initialize :: "arq_params \<Rightarrow> fault + arq_sender" where
  "initialize cfg =
     bind_res (assert_c (0 < window cfg)) (\<lambda>_.
     bind_res (if packetSize cfg \<le> 0 then Inr None else scheduleAt 0 (At 0) None) (\<lambda>timer.
     Inr \<lparr>packetBuffer = [], lastAckSeqNo = 0, nextSendSeqNo = 0, nextSendTime = At 0, timerExpiration = Never,
          nextSendTimer = timer, expirationTimer = None, sentBytes = 0, ackBytes = 0\<rparr>))"

text \<open>The branch \<open>eTIMER0\<close>: the packet sent and the new state. The timer has just gone off.\<close>

definition handle_send :: "arq_params \<Rightarrow> int \<Rightarrow> arq_sender \<Rightarrow> fault + int \<times> arq_sender" where
  "handle_send cfg now s =
     bind_res (assert_c (At now = nextSendTime s)) (\<lambda>_.
     bind_res (assert_c (nextSendSeqNo s < lastAckSeqNo s + window cfg)) (\<lambda>_.
     bind_res (getDataPacket cfg (nextSendSeqNo s) (s\<lparr>nextSendTimer := None\<rparr>)) (\<lambda>(data, s).
     let s = s\<lparr>sentBytes := sentBytes s + packetSize cfg div 8\<rparr>;
         nextTimer = At (now + timeout cfg);
         (info, buf) = subscript new_info (nextSendSeqNo s) (packetBuffer s);
         s = s\<lparr>packetBuffer := assign (nextSendSeqNo s) (info\<lparr>expires := nextTimer\<rparr>) buf,
               nextSendSeqNo := nextSendSeqNo s + 1\<rparr>
     in bind_res
          (if earlier nextTimer (timerExpiration s) then
             bind_res (scheduleAt now nextTimer None) (\<lambda>timer.
             Inr (s\<lparr>timerExpiration := nextTimer, expirationTimer := timer\<rparr>))
           else Inr s) (\<lambda>s.
        if lastAckSeqNo s + window cfg \<le> nextSendSeqNo s then Inr (data, s\<lparr>nextSendTime := Never\<rparr>)
        else
          bind_res (scheduleAt now (At (now + interval cfg)) (nextSendTimer s)) (\<lambda>timer.
          Inr (data, s\<lparr>nextSendTime := At (now + interval cfg), nextSendTimer := timer\<rparr>))))))"

text \<open>\<open>if (nextSendTime == INFINITY)\<close> the next packet is sent at once.\<close>

definition resume :: "int \<Rightarrow> arq_sender \<Rightarrow> fault + arq_sender" where
  "resume now s =
     (if nextSendTime s = Never then
        bind_res (scheduleAt now (At now) (nextSendTimer s)) (\<lambda>timer.
        Inr (s\<lparr>nextSendTime := At now, nextSendTimer := timer\<rparr>))
      else Inr s)"

text \<open>The branch \<open>eTIMER1\<close>\<close>

definition handle_expiration :: "int \<Rightarrow> arq_sender \<Rightarrow> fault + arq_sender" where
  "handle_expiration now s =
     bind_res (assert_c (At now = timerExpiration s)) (\<lambda>_.
     bind_res (resume now (s\<lparr>expirationTimer := None\<rparr>)) (\<lambda>s.
     Inr (reset_timers (s\<lparr>nextSendSeqNo := lastAckSeqNo s\<rparr>))))"

text \<open>The branch \<open>eNETWORK_PACKET\<close>\<close>

definition handle_acknowledgement :: "arq_params \<Rightarrow> int \<Rightarrow> bool \<Rightarrow> int \<Rightarrow> arq_sender \<Rightarrow> fault + arq_sender" where
  "handle_acknowledgement cfg now hasBitError seqNoExpected s =
     (if hasBitError then Inr s
      else if seqNoExpected = lastAckSeqNo s then
        bind_res (resume now s) (\<lambda>s. Inr (s\<lparr>nextSendSeqNo := lastAckSeqNo s\<rparr>))
      else
        bind_res (assert_c (lastAckSeqNo s < seqNoExpected)) (\<lambda>_.
        bind_res (freeBuffers (lastAckSeqNo s) (seqNoExpected - 1) s) (\<lambda>s.
        let s = s\<lparr>ackBytes := ackBytes s + packetSize cfg div 8 * (seqNoExpected - lastAckSeqNo s),
                  lastAckSeqNo := seqNoExpected, expirationTimer := None\<rparr>
        in bind_res
             (if lastAckSeqNo s < nextSendSeqNo s then
                let (info, buf) = subscript new_info (lastAckSeqNo s) (packetBuffer s);
                    s = s\<lparr>packetBuffer := buf, timerExpiration := expires info\<rparr>
                in bind_res (assert_c (earlier (At 0) (timerExpiration s))) (\<lambda>_.
                   bind_res (assert_c (earlier (At now) (timerExpiration s))) (\<lambda>_.
                   bind_res (scheduleAt now (timerExpiration s) (expirationTimer s)) (\<lambda>timer.
                   Inr (s\<lparr>expirationTimer := timer\<rparr>))))
              else
                Inr (s\<lparr>timerExpiration := Never,
                       nextSendSeqNo := (if nextSendSeqNo s < lastAckSeqNo s then lastAckSeqNo s else nextSendSeqNo s)\<rparr>))
             (resume now))))"

section \<open>The receiver\<close>

record arq_receiver =
  lastReceivedSeqNo :: int
  totalBytes :: int
  goodBytes :: int

definition start_receiver :: arq_receiver where
  "start_receiver = \<lparr>lastReceivedSeqNo = -1, totalBytes = 0, goodBytes = 0\<rparr>"

text \<open>\<open>handleMessage\<close> of the receiver: the acknowledgements it sends; \<open>size\<close> is the length of the packet in bits.\<close>

definition receive_data :: "bool \<Rightarrow> int \<Rightarrow> bool \<Rightarrow> int \<Rightarrow> arq_receiver \<Rightarrow> int list \<times> arq_receiver" where
  "receive_data sendNack bits hasBitError seqNo r =
     (let r = r\<lparr>totalBytes := totalBytes r + bits div 8\<rparr>
      in if hasBitError then ([], r)
         else if seqNo = lastReceivedSeqNo r + 1 then
           ([seqNo + 1], r\<lparr>goodBytes := goodBytes r + bits div 8, lastReceivedSeqNo := seqNo\<rparr>)
         else if lastReceivedSeqNo r + 1 < seqNo \<and> sendNack \<and> seqNo = lastReceivedSeqNo r + 2 then
           ([lastReceivedSeqNo r + 1], r)
         else ([], r))"


section \<open>The state of a sender\<close>

fun due_by :: "int \<Rightarrow> int \<Rightarrow> sim_time \<Rightarrow> bool" where
  "due_by a b (At t) \<longleftrightarrow> a \<le> t \<and> t \<le> b"
| "due_by a b Never \<longleftrightarrow> False"

text \<open>A timer variable and its message agree; nothing is due in the past.\<close>

definition timer_ok :: "int \<Rightarrow> sim_time \<Rightarrow> int option \<Rightarrow> bool" where
  "timer_ok now t timer \<longleftrightarrow> (case t of Never \<Rightarrow> timer = None | At a \<Rightarrow> timer = Some a \<and> now \<le> a)"

definition expiry :: "arq_sender \<Rightarrow> int \<Rightarrow> sim_time" where
  "expiry s k = (case map_of (packetBuffer s) k of Some i \<Rightarrow> expires i | None \<Rightarrow> Never)"

text \<open>
  The buffer holds the packets from the first unacknowledged one up to \<open>hi\<close>, which are at most a window. Those sent since the
  sender last went back expire in the order they were sent in, and the timer is set for the first of them or earlier.
\<close>

definition arq_ok :: "arq_params \<Rightarrow> int \<Rightarrow> int \<Rightarrow> arq_sender \<Rightarrow> bool" where
  "arq_ok cfg now hi s \<longleftrightarrow>
     ascending (packetBuffer s) \<and> dom (map_of (packetBuffer s)) = {lastAckSeqNo s..<hi} \<and>
     (\<forall>k i. map_of (packetBuffer s) k = Some i \<longrightarrow> stored i = Some k) \<and>
     0 \<le> lastAckSeqNo s \<and> lastAckSeqNo s \<le> nextSendSeqNo s \<and> nextSendSeqNo s \<le> hi \<and> hi \<le> lastAckSeqNo s + window cfg \<and>
     timer_ok now (nextSendTime s) (nextSendTimer s) \<and>
     (nextSendTime s = Never \<longleftrightarrow> nextSendSeqNo s = lastAckSeqNo s + window cfg) \<and>
     timer_ok now (timerExpiration s) (expirationTimer s) \<and>
     (\<forall>e. timerExpiration s = At e \<longrightarrow> e \<le> now + timeout cfg) \<and>
     (\<forall>k. lastAckSeqNo s \<le> k \<and> k < nextSendSeqNo s \<longrightarrow>
       (\<exists>e. timerExpiration s = At e \<and> due_by e (now + timeout cfg) (expiry s k)) \<and>
       (\<forall>j. lastAckSeqNo s \<le> j \<and> j < k \<longrightarrow> \<not> earlier (expiry s k) (expiry s j)))"

lemma card_keys: "ascending m \<Longrightarrow> length m = card (dom (map_of m))"
  using distinct_card [of "keys m"] ascending_distinct [of m] by (simp add: keys_def dom_map_of_conv_image_fst)

lemma ascending_hd: "ascending ((k, v) # m) \<Longrightarrow> j \<in> dom (map_of ((k, v) # m)) \<Longrightarrow> k \<le> j"
  using map_of_keys [of m j] by (auto split: if_splits)

lemma resume_ok:
  assumes "timer_ok now (nextSendTime s) (nextSendTimer s)"
  shows "\<exists>t. resume now s = Inr (s\<lparr>nextSendTime := At t, nextSendTimer := Some t\<rparr>) \<and> now \<le> t"
proof (cases "nextSendTime s")
  case (At a)
  then have t: "nextSendTimer s = Some a" "now \<le> a" using assms by (simp_all add: timer_ok_def)
  have "s\<lparr>nextSendTime := At a, nextSendTimer := Some a\<rparr> = s"
    by (rule arq_sender.equality) (simp_all add: At t)
  moreover have "resume now s = Inr s" by (simp add: resume_def At)
  ultimately show ?thesis using t(2) by metis
next
  case Never
  then show ?thesis using assms by (auto simp: resume_def timer_ok_def scheduleAt_def)
qed

lemma stored_again: "stored info = Some k \<Longrightarrow> info\<lparr>stored := Some k\<rparr> = info"
  by (rule packet_info.equality) simp_all

lemma getDataPacket_ok:
  assumes "ascending (packetBuffer s)" and "dom (map_of (packetBuffer s)) = {lastAckSeqNo s..<hi}"
    and "\<forall>k i. map_of (packetBuffer s) k = Some i \<longrightarrow> stored i = Some k"
    and "lastAckSeqNo s \<le> k" "k \<le> hi" "k < lastAckSeqNo s + window cfg" "hi \<le> lastAckSeqNo s + window cfg"
  shows "\<exists>buf info. getDataPacket cfg k s = Inr (k, s\<lparr>packetBuffer := buf\<rparr>) \<and> ascending buf \<and>
    map_of buf = (map_of (packetBuffer s))(k \<mapsto> info) \<and> stored info = Some k"
proof -
  let ?m = "packetBuffer s"
  have oldest: "case ?m of [] \<Rightarrow> True | (oldest, _) # _ \<Rightarrow> oldest \<le> k"
  proof (cases ?m)
    case (Cons p m)
    obtain a b where p: "p = (a, b)" by (cases p)
    have "a \<in> dom (map_of ?m)" by (simp add: Cons p)
    then have "lastAckSeqNo s \<in> dom (map_of ?m)" unfolding assms(2) by simp
    then have "a \<le> lastAckSeqNo s" using ascending_hd [of a b m] assms(1) unfolding Cons p by blast
    then show ?thesis using assms(4) by (simp add: Cons p)
  qed simp
  obtain info buf where sub: "subscript new_info k ?m = (info, buf)" by fastforce
  have buf: "ascending buf" "map_of buf = (map_of ?m)(k \<mapsto> info)" "stored info = None \<or> stored info = Some k"
    using sub assms(1,3) ascending_assign [of ?m k new_info]
    by (auto simp: subscript_def new_info_def map_of_assign split: option.splits)
  have "int (length buf) \<le> window cfg"
  proof -
    have "length buf = card (insert k {lastAckSeqNo s..<hi})"
      using card_keys [OF buf(1)] buf(2) assms(2) by simp
    also have "\<dots> \<le> card {lastAckSeqNo s..<lastAckSeqNo s + window cfg}"
      using assms(4-7) by (intro card_mono) auto
    finally show ?thesis using assms(4,6) by simp
  qed
  then have "getDataPacket cfg k s = Inr (k, s\<lparr>packetBuffer := assign k (info\<lparr>stored := Some k\<rparr>) buf\<rparr>)"
    using buf(3) oldest sub by (cases "stored info") (simp_all add: getDataPacket_def stored_again)
  moreover have "map_of (assign k (info\<lparr>stored := Some k\<rparr>) buf) = (map_of ?m)(k \<mapsto> info\<lparr>stored := Some k\<rparr>)"
    using buf(2) by (simp add: map_of_assign)
  ultimately show ?thesis using ascending_assign [OF buf(1)] by fastforce
qed

lemma free_from_ok:
  assumes "\<forall>i. a \<le> i \<and> i \<le> end_no \<longrightarrow> map_of buf i \<noteq> None" and "ascending buf"
  shows "\<exists>buf'. free_from a end_no buf = Inr buf' \<and> ascending buf' \<and>
    map_of buf' = (\<lambda>k. if a \<le> k \<and> k \<le> end_no then None else map_of buf k)"
  using assms
proof (induction a end_no buf rule: free_from.induct)
  case (1 a end_no buf)
  show ?case
  proof (cases "a \<le> end_no")
    case True
    have ex: "map_of buf a \<noteq> None" using "1.prems"(1) True by simp
    have "\<forall>i. a + 1 \<le> i \<and> i \<le> end_no \<longrightarrow> map_of (erase a buf) i \<noteq> None"
      using "1.prems"(1) by (simp add: map_of_erase)
    then obtain buf' where "free_from (a + 1) end_no (erase a buf) = Inr buf'" "ascending buf'"
        "map_of buf' = (\<lambda>k. if a + 1 \<le> k \<and> k \<le> end_no then None else map_of (erase a buf) k)"
      using "1.IH" [OF True] ascending_erase [OF "1.prems"(2)] by auto
    moreover have "free_from a end_no buf = free_from (a + 1) end_no (erase a buf)"
      using True ex by (simp add: free_from.simps [of a])
    ultimately show ?thesis using True by (auto simp: map_of_erase fun_eq_iff)
  next
    case False
    then show ?thesis using "1.prems" by (auto simp: free_from.simps [of a] fun_eq_iff)
  qed
qed

lemma map_of_reset_timers:
  "map_of (packetBuffer (reset_timers s)) k = map_option (\<lambda>i. i\<lparr>expires := Never\<rparr>) (map_of (packetBuffer s) k)"
  by (simp add: reset_timers_def map_of_map)

lemma ascending_reset_timers: "ascending (packetBuffer (reset_timers s)) = ascending (packetBuffer s)"
  by (simp add: reset_timers_def ascending_def keys_def comp_def case_prod_unfold)


section \<open>The branches of the sender\<close>

definition params_ok :: "arq_params \<Rightarrow> bool" where
  "params_ok cfg \<longleftrightarrow> 0 < window cfg \<and> 0 \<le> interval cfg \<and> 0 < timeout cfg \<and> 0 < packetSize cfg"

lemma arq_okD:
  assumes "arq_ok cfg now hi s"
  shows "ascending (packetBuffer s)" "dom (map_of (packetBuffer s)) = {lastAckSeqNo s..<hi}"
    "\<forall>k i. map_of (packetBuffer s) k = Some i \<longrightarrow> stored i = Some k"
    "0 \<le> lastAckSeqNo s" "lastAckSeqNo s \<le> nextSendSeqNo s" "nextSendSeqNo s \<le> hi" "hi \<le> lastAckSeqNo s + window cfg"
    "timer_ok now (nextSendTime s) (nextSendTimer s)"
    "nextSendTime s = Never \<longleftrightarrow> nextSendSeqNo s = lastAckSeqNo s + window cfg"
    "timer_ok now (timerExpiration s) (expirationTimer s)"
    "\<forall>e. timerExpiration s = At e \<longrightarrow> e \<le> now + timeout cfg"
    "\<forall>k. lastAckSeqNo s \<le> k \<and> k < nextSendSeqNo s \<longrightarrow>
       (\<exists>e. timerExpiration s = At e \<and> due_by e (now + timeout cfg) (expiry s k)) \<and>
       (\<forall>j. lastAckSeqNo s \<le> j \<and> j < k \<longrightarrow> \<not> earlier (expiry s k) (expiry s j))"
  using assms unfolding arq_ok_def by blast+

lemma handle_send_ok:
  assumes ok: "arq_ok cfg now hi s" and cfg: "params_ok cfg" and due: "nextSendTimer s = Some now"
  shows "\<exists>s'. handle_send cfg now s = Inr (nextSendSeqNo s, s') \<and> arq_ok cfg now (max hi (nextSendSeqNo s + 1)) s' \<and>
    lastAckSeqNo s' = lastAckSeqNo s \<and> sentBytes s' = sentBytes s + packetSize cfg div 8 \<and> ackBytes s' = ackBytes s"
proof -
  note D = arq_okD [OF ok]
  let ?n = "nextSendSeqNo s" and ?T = "now + timeout cfg" and ?hi = "max hi (nextSendSeqNo s + 1)"
  have time: "nextSendTime s = At now" using D(8) due by (auto simp: timer_ok_def split: sim_time.splits)
  then have room: "?n < lastAckSeqNo s + window cfg" using D(6,7,9) by auto
  obtain buf info where g: "getDataPacket cfg ?n (s\<lparr>nextSendTimer := None\<rparr>) = Inr (?n, s\<lparr>nextSendTimer := None, packetBuffer := buf\<rparr>)"
    and buf: "ascending buf" "map_of buf = (map_of (packetBuffer s))(?n \<mapsto> info)" "stored info = Some ?n"
    using getDataPacket_ok [of "s\<lparr>nextSendTimer := None\<rparr>" hi ?n cfg] D(1-3,5-7) room by auto
  let ?buf = "assign ?n (info\<lparr>expires := At ?T\<rparr>) buf"
  let ?e = "if timerExpiration s = Never then At ?T else timerExpiration s"
  let ?x = "if timerExpiration s = Never then Some ?T else expirationTimer s"
  let ?s = "s\<lparr>nextSendTimer := None, packetBuffer := ?buf, sentBytes := sentBytes s + packetSize cfg div 8, nextSendSeqNo := ?n + 1,
    timerExpiration := ?e, expirationTimer := ?x\<rparr>"
  have sub: "subscript new_info ?n buf = (info, buf)" using buf(2) by (simp add: subscript_found)
  have never: "\<not> earlier (At ?T) (timerExpiration s)" if "timerExpiration s \<noteq> Never"
    using D(11) that by (cases "timerExpiration s") auto
  define s' where "s' = (if lastAckSeqNo s + window cfg \<le> ?n + 1 then ?s\<lparr>nextSendTime := Never\<rparr>
    else ?s\<lparr>nextSendTime := At (now + interval cfg), nextSendTimer := Some (now + interval cfg)\<rparr>)"
  have run: "handle_send cfg now s = Inr (?n, s')"
  proof (cases "timerExpiration s = Never")
    case True
    then show ?thesis
      using cfg room by (simp add: handle_send_def time g sub scheduleAt_def s'_def params_ok_def Let_def)
  next
    case False
    then show ?thesis
      using cfg room never by (simp add: handle_send_def time g sub scheduleAt_def s'_def params_ok_def Let_def)
  qed
  have fields: "packetBuffer s' = ?buf" "lastAckSeqNo s' = lastAckSeqNo s" "nextSendSeqNo s' = ?n + 1"
    "timerExpiration s' = ?e" "expirationTimer s' = ?x" "sentBytes s' = sentBytes s + packetSize cfg div 8" "ackBytes s' = ackBytes s"
    by (simp_all add: s'_def)
  have map: "map_of ?buf = (map_of (packetBuffer s))(?n \<mapsto> info\<lparr>expires := At ?T\<rparr>)"
    by (simp add: map_of_assign buf(2))
  have ex: "expiry s' k = (if k = ?n then At ?T else expiry s k)" for k
    by (simp add: expiry_def fields map)
  have e: "\<exists>e. ?e = At e \<and> e \<le> ?T \<and> now \<le> e \<and> (timerExpiration s = At e \<or> timerExpiration s = Never)"
    using D(10,11) cfg by (cases "timerExpiration s") (auto simp: timer_ok_def params_ok_def)
  have sent: "(\<exists>e. ?e = At e \<and> due_by e ?T (expiry s' k)) \<and>
      (\<forall>j. lastAckSeqNo s \<le> j \<and> j < k \<longrightarrow> \<not> earlier (expiry s' k) (expiry s' j))"
    if k: "lastAckSeqNo s \<le> k" "k < ?n + 1" for k
  proof (cases "k = ?n")
    case True
    have "\<not> earlier (At ?T) (expiry s j)" if "lastAckSeqNo s \<le> j" "j < ?n" for j
    proof -
      have "\<exists>e. due_by e ?T (expiry s j)" using D(12) that by blast
      then show ?thesis by (cases "expiry s j") auto
    qed
    then show ?thesis using True e by (auto simp: ex)
  next
    case False
    then have "k < ?n" using k by simp
    then show ?thesis using D(12) k False by (auto simp: ex)
  qed
  have "dom (map_of ?buf) = {lastAckSeqNo s..<?hi}" unfolding map using D(2,5,6) by (auto simp: max_def)
  moreover have "timer_ok now (nextSendTime s') (nextSendTimer s')"
    using cfg by (simp add: s'_def timer_ok_def params_ok_def)
  moreover have "nextSendTime s' = Never \<longleftrightarrow> ?n + 1 = lastAckSeqNo s + window cfg"
    using room by (auto simp: s'_def)
  moreover have "timer_ok now ?e ?x" using D(10) cfg by (auto simp: timer_ok_def params_ok_def)
  moreover have "\<forall>k i. map_of ?buf k = Some i \<longrightarrow> stored i = Some k" unfolding map using D(3) buf(3) by auto
  ultimately have "arq_ok cfg now ?hi s'"
    unfolding arq_ok_def fields using D(4-7) room sent e ascending_assign [OF buf(1)] by auto
  then show ?thesis using run fields by blast
qed


lemma handle_expiration_ok:
  assumes ok: "arq_ok cfg now hi s" and cfg: "params_ok cfg" and due: "expirationTimer s = Some now"
  shows "\<exists>s'. handle_expiration now s = Inr s' \<and> arq_ok cfg now hi s' \<and>
    lastAckSeqNo s' = lastAckSeqNo s \<and> sentBytes s' = sentBytes s \<and> ackBytes s' = ackBytes s"
proof -
  note D = arq_okD [OF ok]
  have time: "timerExpiration s = At now" using D(10) due by (auto simp: timer_ok_def split: sim_time.splits)
  obtain t where t: "resume now (s\<lparr>expirationTimer := None\<rparr>) =
      Inr (s\<lparr>expirationTimer := None, nextSendTime := At t, nextSendTimer := Some t\<rparr>)" "now \<le> t"
    using resume_ok [of now "s\<lparr>expirationTimer := None\<rparr>"] D(8) by auto
  let ?s = "reset_timers (s\<lparr>expirationTimer := None, nextSendTime := At t, nextSendTimer := Some t, nextSendSeqNo := lastAckSeqNo s\<rparr>)"
  have "handle_expiration now s = Inr ?s" by (simp add: handle_expiration_def time t)
  moreover have "dom (map_of (packetBuffer ?s)) = dom (map_of (packetBuffer s))"
    by (auto simp: map_of_reset_timers dom_def)
  moreover have "ascending (packetBuffer ?s)" using D(1) by (simp add: ascending_reset_timers)
  moreover have "\<forall>k i. map_of (packetBuffer ?s) k = Some i \<longrightarrow> stored i = Some k"
    using D(3) by (auto simp: map_of_reset_timers)
  ultimately have "arq_ok cfg now hi ?s"
    using D(2,4-7) cfg t(2) unfolding arq_ok_def by (simp add: reset_timers_def timer_ok_def params_ok_def)
  moreover have "lastAckSeqNo ?s = lastAckSeqNo s" "sentBytes ?s = sentBytes s" "ackBytes ?s = ackBytes s"
    by (simp_all add: reset_timers_def)
  ultimately show ?thesis using \<open>handle_expiration now s = Inr ?s\<close> by blast
qed

lemma handle_reject_ok:
  assumes ok: "arq_ok cfg now hi s" and cfg: "params_ok cfg"
  shows "\<exists>s'. handle_acknowledgement cfg now False (lastAckSeqNo s) s = Inr s' \<and> arq_ok cfg now hi s' \<and>
    lastAckSeqNo s' = lastAckSeqNo s \<and> sentBytes s' = sentBytes s \<and> ackBytes s' = ackBytes s"
proof -
  note D = arq_okD [OF ok]
  obtain t where t: "resume now s = Inr (s\<lparr>nextSendTime := At t, nextSendTimer := Some t\<rparr>)" "now \<le> t"
    using resume_ok D(8) by blast
  let ?s = "s\<lparr>nextSendTime := At t, nextSendTimer := Some t, nextSendSeqNo := lastAckSeqNo s\<rparr>"
  have "arq_ok cfg now hi ?s"
    using D(1-7,10,11) cfg t(2) unfolding arq_ok_def by (auto simp: timer_ok_def params_ok_def)
  then show ?thesis using t(1) by (intro exI [of _ ?s]) (simp add: handle_acknowledgement_def)
qed

lemma free_acknowledged:
  assumes ok: "arq_ok cfg now hi s" and e: "lastAckSeqNo s < e" "e \<le> hi"
  shows "\<exists>buf. freeBuffers (lastAckSeqNo s) (e - 1) s = Inr (s\<lparr>packetBuffer := buf\<rparr>) \<and> ascending buf \<and>
    map_of buf = (\<lambda>k. if e \<le> k then map_of (packetBuffer s) k else None)"
proof -
  note D = arq_okD [OF ok]
  have "map_of (packetBuffer s) i \<noteq> None" if "lastAckSeqNo s \<le> i" "i \<le> e - 1" for i
  proof -
    have "i \<in> dom (map_of (packetBuffer s))" using that e(2) unfolding D(2) by simp
    then show ?thesis by blast
  qed
  then obtain buf where buf: "free_from (lastAckSeqNo s) (e - 1) (packetBuffer s) = Inr buf" "ascending buf"
      "map_of buf = (\<lambda>k. if lastAckSeqNo s \<le> k \<and> k \<le> e - 1 then None else map_of (packetBuffer s) k)"
    using free_from_ok [OF _ D(1), of "lastAckSeqNo s" "e - 1"] by blast
  have "map_of (packetBuffer s) k = None" if "k < lastAckSeqNo s" for k
    using D(2) that by (metis atLeastLessThan_iff domI not_le option.exhaust)
  then have "map_of buf = (\<lambda>k. if e \<le> k then map_of (packetBuffer s) k else None)"
    unfolding buf(3) using e(1) by (auto simp: fun_eq_iff)
  then show ?thesis using buf(1,2) e(1) by (intro exI [of _ buf]) (simp add: freeBuffers_def)
qed

lemma handle_new_ack_ok:
  assumes ok: "arq_ok cfg now hi s" and cfg: "params_ok cfg" and e: "lastAckSeqNo s < e" "e \<le> hi"
    and now: "0 \<le> now" "\<not> (e < nextSendSeqNo s \<and> expiry s e = At now)"
  shows "\<exists>s'. handle_acknowledgement cfg now False e s = Inr s' \<and> arq_ok cfg now hi s' \<and>
    lastAckSeqNo s' = e \<and> sentBytes s' = sentBytes s \<and>
    ackBytes s' = ackBytes s + packetSize cfg div 8 * (e - lastAckSeqNo s)"
proof -
  note D = arq_okD [OF ok]
  let ?ack = "ackBytes s + packetSize cfg div 8 * (e - lastAckSeqNo s)"
  obtain buf where free: "freeBuffers (lastAckSeqNo s) (e - 1) s = Inr (s\<lparr>packetBuffer := buf\<rparr>)"
    and buf: "ascending buf" "map_of buf = (\<lambda>k. if e \<le> k then map_of (packetBuffer s) k else None)"
    using free_acknowledged [OF ok e] by blast
  have dom: "dom (map_of buf) = {e..<hi}"
  proof -
    have "dom (map_of buf) = {k \<in> dom (map_of (packetBuffer s)). e \<le> k}" unfolding buf(2) by (auto split: if_splits)
    then show ?thesis unfolding D(2) using e(1) by auto
  qed
  have stored: "\<forall>k i. map_of buf k = Some i \<longrightarrow> stored i = Some k" unfolding buf(2) using D(3) by auto
  let ?s = "s\<lparr>packetBuffer := buf, ackBytes := ?ack, lastAckSeqNo := e, expirationTimer := None\<rparr>"
  have ex: "expiry (s\<lparr>packetBuffer := buf\<rparr>) k = expiry s k" if "e \<le> k" for k
    using that by (simp add: expiry_def buf(2))
  have final: "\<exists>s''. resume now s' = Inr s'' \<and> arq_ok cfg now hi s'' \<and> lastAckSeqNo s'' = e \<and> sentBytes s'' = sentBytes s \<and> ackBytes s'' = ?ack"
    if s': "s' = ?s\<lparr>timerExpiration := t, expirationTimer := x, nextSendSeqNo := n\<rparr>" and t: "timer_ok now t x"
      and n: "e \<le> n" "n \<le> hi" "n < e + window cfg" and T: "\<forall>d. t = At d \<longrightarrow> d \<le> now + timeout cfg"
      and sent: "\<forall>k. e \<le> k \<and> k < n \<longrightarrow> (\<exists>d. t = At d \<and> due_by d (now + timeout cfg) (expiry s k)) \<and>
        (\<forall>j. e \<le> j \<and> j < k \<longrightarrow> \<not> earlier (expiry s k) (expiry s j))" for s' t x n
  proof -
    obtain a where a: "resume now s' = Inr (s'\<lparr>nextSendTime := At a, nextSendTimer := Some a\<rparr>)" "now \<le> a"
      using resume_ok [of now s'] D(8) by (auto simp: s')
    have "expiry (s'\<lparr>nextSendTime := At a, nextSendTimer := Some a\<rparr>) k = expiry s k" if "e \<le> k" for k
      using ex [OF that] by (simp add: expiry_def s')
    then have "arq_ok cfg now hi (s'\<lparr>nextSendTime := At a, nextSendTimer := Some a\<rparr>)"
      using buf(1) dom stored D(4,7) e n t T sent a(2) cfg unfolding arq_ok_def
      by (simp add: s' timer_ok_def [of _ "At a"] params_ok_def)
    then show ?thesis using a(1) by (simp add: s')
  qed
  show ?thesis
  proof (cases "e < nextSendSeqNo s")
    case True
    then have "e \<in> dom (map_of buf)" using dom D(6) by auto
    then obtain info where info: "map_of buf e = Some info" by blast
    have "expiry s e = expires info" using ex [of e] info by (simp add: expiry_def)
    then obtain t where t: "expires info = At t" "expiry s e = At t" "now < t" "t \<le> now + timeout cfg"
    proof -
      assume a: "\<And>t. expires info = At t \<Longrightarrow> expiry s e = At t \<Longrightarrow> now < t \<Longrightarrow> t \<le> now + timeout cfg \<Longrightarrow> thesis"
      obtain d where d: "timerExpiration s = At d" "due_by d (now + timeout cfg) (expiry s e)" 
        using D(12) [rule_format, of e] e(1) True by force
      moreover have "now \<le> d" using D(10) d(1) by (auto simp: timer_ok_def)
      moreover have "expires info \<noteq> At now" using now(2) True \<open>expiry s e = expires info\<close> by simp
      ultimately show thesis using a \<open>expiry s e = expires info\<close> by (cases "expires info") auto
    qed
    have sent: "(\<exists>d. At t = At d \<and> due_by d (now + timeout cfg) (expiry s k)) \<and>
        (\<forall>j. e \<le> j \<and> j < k \<longrightarrow> \<not> earlier (expiry s k) (expiry s j))" if k: "e \<le> k \<and> k < nextSendSeqNo s" for k
    proof -
      have "lastAckSeqNo s \<le> k \<and> k < nextSendSeqNo s" using k e(1) by simp
      then have all: "\<forall>j. lastAckSeqNo s \<le> j \<and> j < k \<longrightarrow> \<not> earlier (expiry s k) (expiry s j)"
        and due: "\<exists>d. due_by d (now + timeout cfg) (expiry s k)" using D(12) by blast+
      then have "due_by t (now + timeout cfg) (expiry s k)"
        using t k e(1) all [rule_format, of e] by (cases "k = e"; cases "expiry s k") auto
      then show ?thesis using all e(1) by auto
    qed
    have "handle_acknowledgement cfg now False e s = resume now (?s\<lparr>timerExpiration := At t, expirationTimer := Some t, nextSendSeqNo := nextSendSeqNo s\<rparr>)"
      using e(1) True now(1) t
      by (simp add: handle_acknowledgement_def free subscript_found [OF info] scheduleAt_def Let_def, cases s, simp)
    then show ?thesis
      using final [OF refl, of "At t" "Some t" "nextSendSeqNo s"] sent t True D(6,7) e by (auto simp: timer_ok_def)
  next
    case False
    have "handle_acknowledgement cfg now False e s = resume now (?s\<lparr>timerExpiration := Never, expirationTimer := None, nextSendSeqNo := e\<rparr>)"
      using e(1) False by (auto simp: handle_acknowledgement_def free Let_def) (cases s, simp)+
    then show ?thesis
      using final [OF refl, of Never None e] e cfg by (auto simp: timer_ok_def params_ok_def)
  qed
qed


lemma handle_new_ack_fails:
  assumes ok: "arq_ok cfg now hi s" and e: "lastAckSeqNo s < e" "e \<le> hi" "e < nextSendSeqNo s" "expiry s e = At now"
  shows "handle_acknowledgement cfg now False e s = Inl Assertion"
proof -
  note D = arq_okD [OF ok]
  obtain buf where free: "freeBuffers (lastAckSeqNo s) (e - 1) s = Inr (s\<lparr>packetBuffer := buf\<rparr>)"
    and buf: "map_of buf = (\<lambda>k. if e \<le> k then map_of (packetBuffer s) k else None)"
    using free_acknowledged [OF ok e(1,2)] by blast
  have "e \<in> dom (map_of (packetBuffer s))" using D(2,6) e by simp
  then obtain info where info: "map_of buf e = Some info" "expires info = At now"
    using e(4) by (auto simp: buf expiry_def)
  show ?thesis
    using e(1,3) info(2) by (simp add: handle_acknowledgement_def free subscript_found [OF info(1)] Let_def assert_c_def)
qed


section \<open>Sender and receiver connected\<close>

text \<open>
  Packets and acknowledgements in flight may be lost, delayed, repeated and overtake each other, and at the time a timer
  is due they may be handled before or after it. Time does not pass a timer that is due.
\<close>

record arq_system =
  clock :: int
  sender :: arq_sender
  receiver :: arq_receiver
  data :: "int list"
  acks :: "int list"

datatype event = Tick int | Send_Timer | Expiration_Timer | Data_Arrives nat bool | Ack_Arrives nat bool | Ack_Lost nat

fun not_before :: "int option \<Rightarrow> int \<Rightarrow> bool" where
  "not_before None t \<longleftrightarrow> True"
| "not_before (Some a) t \<longleftrightarrow> t \<le> a"

fun possible :: "arq_system \<Rightarrow> event \<Rightarrow> bool" where
  "possible n (Tick t) \<longleftrightarrow> clock n \<le> t \<and> not_before (nextSendTimer (sender n)) t \<and> not_before (expirationTimer (sender n)) t"
| "possible n Send_Timer \<longleftrightarrow> nextSendTimer (sender n) = Some (clock n)"
| "possible n Expiration_Timer \<longleftrightarrow> expirationTimer (sender n) = Some (clock n)"
| "possible n (Data_Arrives i e) \<longleftrightarrow> i < length (data n)"
| "possible n (Ack_Arrives i e) \<longleftrightarrow> i < length (acks n)"
| "possible n (Ack_Lost i) \<longleftrightarrow> i < length (acks n)"

fun perform :: "arq_params \<Rightarrow> bool \<Rightarrow> arq_system \<Rightarrow> event \<Rightarrow> fault + arq_system" where
  "perform cfg nack n (Tick t) = Inr (n\<lparr>clock := t\<rparr>)"
| "perform cfg nack n Send_Timer =
     bind_res (handle_send cfg (clock n) (sender n)) (\<lambda>(k, s). Inr (n\<lparr>sender := s, data := k # data n\<rparr>))"
| "perform cfg nack n Expiration_Timer =
     bind_res (handle_expiration (clock n) (sender n)) (\<lambda>s. Inr (n\<lparr>sender := s\<rparr>))"
| "perform cfg nack n (Data_Arrives i e) =
     (let (as, r) = receive_data nack (packetSize cfg) e (data n ! i) (receiver n)
      in Inr (n\<lparr>receiver := r, acks := acks n @ as\<rparr>))"
| "perform cfg nack n (Ack_Arrives i e) =
     bind_res (handle_acknowledgement cfg (clock n) e (acks n ! i) (sender n)) (\<lambda>s. Inr (n\<lparr>sender := s\<rparr>))"
| "perform cfg nack n (Ack_Lost i) = Inr (n\<lparr>acks := take i (acks n) @ drop (Suc i) (acks n)\<rparr>)"

text \<open>
  The acknowledgements that trip an assertion: one without bit error that is older than the last one handled, or whose
  next packet, already sent, expires at this very time.
\<close>

fun ack_trips :: "arq_system \<Rightarrow> event \<Rightarrow> bool" where
  "ack_trips n (Ack_Arrives i e) \<longleftrightarrow>
     \<not> e \<and> (acks n ! i < lastAckSeqNo (sender n) \<or>
       lastAckSeqNo (sender n) < acks n ! i \<and> acks n ! i < nextSendSeqNo (sender n) \<and>
       expiry (sender n) (acks n ! i) = At (clock n))"
| "ack_trips n _ \<longleftrightarrow> False"

inductive reached :: "arq_params \<Rightarrow> bool \<Rightarrow> arq_system \<Rightarrow> bool" for cfg nack where
  start: "initialize cfg = Inr s \<Longrightarrow> reached cfg nack \<lparr>clock = 0, sender = s, receiver = start_receiver, data = [], acks = []\<rparr>"
| step: "reached cfg nack n \<Longrightarrow> possible n ev \<Longrightarrow> perform cfg nack n ev = Inr n' \<Longrightarrow> reached cfg nack n'"

text \<open>What sender, receiver and the packets in flight know of each other.\<close>

definition system_ok :: "arq_params \<Rightarrow> arq_system \<Rightarrow> bool" where
  "system_ok cfg n \<longleftrightarrow> 0 \<le> clock n \<and>
     (\<exists>hi. arq_ok cfg (clock n) hi (sender n) \<and> (\<forall>k \<in> set (data n). 0 \<le> k \<and> k < hi) \<and>
       lastReceivedSeqNo (receiver n) + 1 \<le> hi \<and> packetSize cfg div 8 * hi \<le> sentBytes (sender n)) \<and>
     lastAckSeqNo (sender n) \<le> lastReceivedSeqNo (receiver n) + 1 \<and>
     (\<forall>a \<in> set (acks n). a \<le> lastReceivedSeqNo (receiver n) + 1) \<and>
     goodBytes (receiver n) = packetSize cfg div 8 * (lastReceivedSeqNo (receiver n) + 1) \<and>
     ackBytes (sender n) = packetSize cfg div 8 * lastAckSeqNo (sender n)"

lemma timer_ok_later: "timer_ok now t x \<Longrightarrow> not_before x later \<Longrightarrow> timer_ok later t x"
  by (cases t) (auto simp: timer_ok_def)

lemma due_by_later: "due_by e b t \<Longrightarrow> b \<le> c \<Longrightarrow> due_by e c t"
  by (cases t) auto

lemma arq_ok_later:
  assumes "arq_ok cfg now hi s" and "now \<le> later" and "not_before (nextSendTimer s) later" and "not_before (expirationTimer s) later"
  shows "arq_ok cfg later hi s"
proof -
  note D = arq_okD [OF assms(1)]
  have "now + timeout cfg \<le> later + timeout cfg" using assms(2) by simp
  then have "\<forall>k. lastAckSeqNo s \<le> k \<and> k < nextSendSeqNo s \<longrightarrow>
      (\<exists>e. timerExpiration s = At e \<and> due_by e (later + timeout cfg) (expiry s k)) \<and>
      (\<forall>j. lastAckSeqNo s \<le> j \<and> j < k \<longrightarrow> \<not> earlier (expiry s k) (expiry s j))"
    using D(12) due_by_later by blast
  then show ?thesis
    using D(1-7,9,11) timer_ok_later [OF D(8) assms(3)] timer_ok_later [OF D(10) assms(4)] assms(2)
    unfolding arq_ok_def by fastforce
qed

lemma system_start:
  assumes "params_ok cfg" and "initialize cfg = Inr s"
  shows "system_ok cfg \<lparr>clock = 0, sender = s, receiver = start_receiver, data = [], acks = []\<rparr>"
proof -
  have s: "s = \<lparr>packetBuffer = [], lastAckSeqNo = 0, nextSendSeqNo = 0, nextSendTime = At 0, timerExpiration = Never,
      nextSendTimer = Some 0, expirationTimer = None, sentBytes = 0, ackBytes = 0\<rparr>"
    using assms by (simp add: initialize_def params_ok_def scheduleAt_def)
  have "arq_ok cfg 0 0 s" using assms(1) by (simp add: s arq_ok_def timer_ok_def params_ok_def)
  then show ?thesis by (auto simp: system_ok_def start_receiver_def s intro!: exI [of _ 0])
qed

lemma system_step:
  assumes ok: "system_ok cfg n" and cfg: "params_ok cfg" and ev: "possible n ev"
  shows "if ack_trips n ev then perform cfg nack n ev = Inl Assertion
    else \<exists>n'. perform cfg nack n ev = Inr n' \<and> system_ok cfg n'"
proof -
  obtain hi where hi: "arq_ok cfg (clock n) hi (sender n)" "\<forall>k \<in> set (data n). 0 \<le> k \<and> k < hi"
      "lastReceivedSeqNo (receiver n) + 1 \<le> hi" "packetSize cfg div 8 * hi \<le> sentBytes (sender n)"
    and now: "0 \<le> clock n" and bytes: "goodBytes (receiver n) = packetSize cfg div 8 * (lastReceivedSeqNo (receiver n) + 1)"
      "ackBytes (sender n) = packetSize cfg div 8 * lastAckSeqNo (sender n)"
    and acked: "lastAckSeqNo (sender n) \<le> lastReceivedSeqNo (receiver n) + 1"
      "\<forall>a \<in> set (acks n). a \<le> lastReceivedSeqNo (receiver n) + 1"
    using ok unfolding system_ok_def by blast
  note D = arq_okD [OF hi(1)]
  show ?thesis
  proof (cases ev)
    case (Tick t)
    then have "arq_ok cfg t hi (sender n)" using ev arq_ok_later [OF hi(1)] by simp
    then show ?thesis using Tick ev hi now bytes acked by (auto simp: system_ok_def)
  next
    case Send_Timer
    then obtain s' where s': "handle_send cfg (clock n) (sender n) = Inr (nextSendSeqNo (sender n), s')"
        "arq_ok cfg (clock n) (max hi (nextSendSeqNo (sender n) + 1)) s'" "lastAckSeqNo s' = lastAckSeqNo (sender n)"
        "sentBytes s' = sentBytes (sender n) + packetSize cfg div 8" "ackBytes s' = ackBytes (sender n)"
      using handle_send_ok [OF hi(1) cfg] ev by auto
    let ?hi = "max hi (nextSendSeqNo (sender n) + 1)"
    have "packetSize cfg div 8 * ?hi \<le> packetSize cfg div 8 * (hi + 1)"
      using D(6) cfg by (intro mult_left_mono) (auto simp: params_ok_def)
    then have "packetSize cfg div 8 * ?hi \<le> sentBytes s'" using hi(4) s'(4) by (simp add: distrib_left)
    then show ?thesis
      using Send_Timer s' hi now bytes acked D(4,5) by (auto simp: system_ok_def intro!: exI [of _ ?hi])
  next
    case Expiration_Timer
    then show ?thesis
      using handle_expiration_ok [OF hi(1) cfg] ev hi now bytes acked by (fastforce simp: system_ok_def)
  next
    case (Data_Arrives i e)
    let ?r = "receiver n"
    obtain as r where run: "receive_data nack (packetSize cfg) e (data n ! i) ?r = (as, r)" by fastforce
    have k: "data n ! i < hi" using hi(2) ev Data_Arrives by simp
    have r: "as = [] \<and> lastReceivedSeqNo r = lastReceivedSeqNo ?r \<and> goodBytes r = goodBytes ?r \<or>
        as = [lastReceivedSeqNo ?r + 1] \<and> lastReceivedSeqNo r = lastReceivedSeqNo ?r \<and> goodBytes r = goodBytes ?r \<or>
        as = [lastReceivedSeqNo ?r + 2] \<and> lastReceivedSeqNo r = lastReceivedSeqNo ?r + 1 \<and>
          goodBytes r = goodBytes ?r + packetSize cfg div 8 \<and> data n ! i = lastReceivedSeqNo ?r + 1"
      using run by (auto simp: receive_data_def Let_def split: if_splits)
    then have "lastAckSeqNo (sender n) \<le> lastReceivedSeqNo r + 1" "\<forall>a \<in> set (acks n @ as). a \<le> lastReceivedSeqNo r + 1"
      using acked by (elim disjE; force)+
    moreover have "lastReceivedSeqNo r + 1 \<le> hi" using r hi(3) k by auto
    moreover have "goodBytes r = packetSize cfg div 8 * (lastReceivedSeqNo r + 1)"
      using r bytes(1) by (elim disjE) (auto simp: algebra_simps)
    ultimately show ?thesis using Data_Arrives run hi now bytes by (auto simp: system_ok_def)
  next
    case (Ack_Arrives i e)
    define a where "a = acks n ! i"
    have a: "a \<le> lastReceivedSeqNo (receiver n) + 1" using acked(2) ev Ack_Arrives by (simp add: a_def)
    note a = a order_trans [OF a hi(3)]
    consider "e" | "\<not> e" "a < lastAckSeqNo (sender n)" | "\<not> e" "a = lastAckSeqNo (sender n)"
      | "\<not> e" "lastAckSeqNo (sender n) < a" "a < nextSendSeqNo (sender n) \<and> expiry (sender n) a = At (clock n)"
      | "\<not> e" "lastAckSeqNo (sender n) < a" "\<not> (a < nextSendSeqNo (sender n) \<and> expiry (sender n) a = At (clock n))"
      by (meson linorder_less_linear)
    then show ?thesis
    proof cases
      case 1
      then show ?thesis
        using Ack_Arrives hi now bytes acked by (auto simp: system_ok_def handle_acknowledgement_def)
    next
      case 2
      then show ?thesis using Ack_Arrives by (simp add: a_def handle_acknowledgement_def assert_c_def)
    next
      case 3
      then obtain s' where "handle_acknowledgement cfg (clock n) False a (sender n) = Inr s'" "arq_ok cfg (clock n) hi s'"
          "lastAckSeqNo s' = lastAckSeqNo (sender n)" "sentBytes s' = sentBytes (sender n)" "ackBytes s' = ackBytes (sender n)"
        using handle_reject_ok [OF hi(1) cfg] by auto
      then show ?thesis using 3 Ack_Arrives hi now bytes acked by (auto simp: system_ok_def a_def)
    next
      case 4
      then show ?thesis using Ack_Arrives handle_new_ack_fails [OF hi(1), of a] a(2) by (simp add: a_def)
    next
      case 5
      obtain s' where "handle_acknowledgement cfg (clock n) False a (sender n) = Inr s'" "arq_ok cfg (clock n) hi s'"
          "lastAckSeqNo s' = a" "sentBytes s' = sentBytes (sender n)"
          "ackBytes s' = ackBytes (sender n) + packetSize cfg div 8 * (a - lastAckSeqNo (sender n))"
        using handle_new_ack_ok [OF hi(1) cfg 5(2) a(2) now 5(3)] by auto
      then show ?thesis
        using 5 Ack_Arrives hi now bytes acked a(1) by (auto simp: system_ok_def a_def algebra_simps)
    qed
  next
    case (Ack_Lost i)
    then show ?thesis using ev hi now bytes acked by (auto simp: system_ok_def dest: in_set_takeD in_set_dropD)
  qed
qed

lemma reached_ok: "reached cfg nack n \<Longrightarrow> params_ok cfg \<Longrightarrow> system_ok cfg n"
proof (induction rule: reached.induct)
  case (step n ev n')
  then show ?case using system_step [of cfg n ev nack] by (auto split: if_splits)
qed (rule system_start)

lemma trips_when_due:
  assumes "system_ok cfg n" and "ack_trips n (Ack_Arrives i e)" and "lastAckSeqNo (sender n) \<le> acks n ! i"
  shows "expirationTimer (sender n) = Some (clock n)"
proof -
  obtain hi where D: "arq_ok cfg (clock n) hi (sender n)" using assms(1) unfolding system_ok_def by blast
  let ?a = "acks n ! i"
  have a: "lastAckSeqNo (sender n) \<le> ?a" "?a < nextSendSeqNo (sender n)" "expiry (sender n) ?a = At (clock n)"
    using assms(2,3) by auto
  then obtain d where "timerExpiration (sender n) = At d" "d \<le> clock n"
    using arq_okD(12) [OF D] by fastforce
  then show ?thesis using arq_okD(10) [OF D] by (auto simp: timer_ok_def)
qed

text \<open>
  C35: Whatever happens to packets and acknowledgements, loss, bit errors, delay, repetition and any order, no step of the
  simulated sender sets a timer twice or for the past, and its assertions fail in exactly two cases: when an
  acknowledgement arrives that is older than one handled before, and when one is handled at the very time the
  retransmission timer is due, before it goes off, and the packet behind it expires then, too. At most a window of packets
  is buffered; and the counters agree: what has been acknowledged has been received in order, and what has been
  received has been sent.
\<close>

theorem simulated_arq_safe:
  assumes "params_ok cfg" and "reached cfg nack n"
  shows "(\<forall>ev. possible n ev \<longrightarrow>
      (if ack_trips n ev then perform cfg nack n ev = Inl Assertion else \<exists>n'. perform cfg nack n ev = Inr n')) \<and>
    (\<forall>i e. ack_trips n (Ack_Arrives i e) \<and> lastAckSeqNo (sender n) \<le> acks n ! i \<longrightarrow>
      expirationTimer (sender n) = Some (clock n)) \<and>
    int (length (packetBuffer (sender n))) \<le> window cfg \<and>
    lastAckSeqNo (sender n) \<le> lastReceivedSeqNo (receiver n) + 1 \<and>
    goodBytes (receiver n) = packetSize cfg div 8 * (lastReceivedSeqNo (receiver n) + 1) \<and>
    ackBytes (sender n) \<le> goodBytes (receiver n) \<and> goodBytes (receiver n) \<le> sentBytes (sender n)"
proof -
  have ok: "system_ok cfg n" using reached_ok assms by blast
  then obtain hi where hi: "arq_ok cfg (clock n) hi (sender n)"
      "lastReceivedSeqNo (receiver n) + 1 \<le> hi" "packetSize cfg div 8 * hi \<le> sentBytes (sender n)"
    and acked: "lastAckSeqNo (sender n) \<le> lastReceivedSeqNo (receiver n) + 1"
    and bytes: "goodBytes (receiver n) = packetSize cfg div 8 * (lastReceivedSeqNo (receiver n) + 1)"
      "ackBytes (sender n) = packetSize cfg div 8 * lastAckSeqNo (sender n)"
    unfolding system_ok_def by auto
  have p: "0 \<le> packetSize cfg div 8" using assms(1) by (simp add: params_ok_def pos_imp_zdiv_nonneg_iff)
  have "packetSize cfg div 8 * lastAckSeqNo (sender n) \<le> packetSize cfg div 8 * (lastReceivedSeqNo (receiver n) + 1)"
    "packetSize cfg div 8 * (lastReceivedSeqNo (receiver n) + 1) \<le> packetSize cfg div 8 * hi"
    using mult_left_mono [OF acked p] mult_left_mono [OF hi(2) p] .
  moreover have "int (length (packetBuffer (sender n))) \<le> window cfg"
    using card_keys [OF arq_okD(1) [OF hi(1)]] arq_okD(2,5,6,7) [OF hi(1)] assms(1) by (simp add: params_ok_def)
  moreover have "if ack_trips n ev then perform cfg nack n ev = Inl Assertion else \<exists>n'. perform cfg nack n ev = Inr n'"
    if "possible n ev" for ev
    using system_step [OF ok assms(1) that, of nack] by (auto split: if_splits)
  ultimately show ?thesis using trips_when_due [OF ok] acked bytes hi(3) by auto
qed


fun perform_all :: "arq_params \<Rightarrow> bool \<Rightarrow> arq_system \<Rightarrow> event list \<Rightarrow> fault + arq_system" where
  "perform_all cfg nack n [] = Inr n"
| "perform_all cfg nack n (ev # evs) =
     (if possible n ev then bind_res (perform cfg nack n ev) (\<lambda>n. perform_all cfg nack n evs) else Inl Blocked)"

lemma reached_all: "perform_all cfg nack n evs = Inr n' \<Longrightarrow> reached cfg nack n \<Longrightarrow> reached cfg nack n'"
  by (induction evs arbitrary: n) (auto simp: fault_simps split: if_splits intro: reached.step)

definition demo_params :: arq_params where
  "demo_params = \<lparr>packetSize = 800, timeout = 10, interval = 0, window = 2\<rparr>"

definition demo_start :: arq_system where
  "demo_start = \<lparr>clock = 0, sender = \<lparr>packetBuffer = [], lastAckSeqNo = 0, nextSendSeqNo = 0, nextSendTime = At 0, timerExpiration = Never,
    nextSendTimer = Some 0, expirationTimer = None, sentBytes = 0, ackBytes = 0\<rparr>, receiver = start_receiver, data = [], acks = []\<rparr>"

lemma demo_reached: "reached demo_params nack demo_start"
  unfolding demo_start_def
  by (rule reached.start) (simp add: initialize_def demo_params_def scheduleAt_def)

text \<open>Two packets are sent at once, both are received and the first acknowledgement arrives, just before the timer.\<close>

definition demo_events :: "event list" where
  "demo_events = [Send_Timer, Send_Timer, Tick 5, Data_Arrives 1 False, Data_Arrives 0 False, Tick 9, Ack_Arrives 0 False]"

lemmas demo_eval = demo_start_def demo_params_def start_receiver_def handle_send_def getDataPacket_def subscript_def new_info_def
  scheduleAt_def receive_data_def handle_acknowledgement_def freeBuffers_def free_from.simps erase_def resume_def Let_def

lemma simulated_arq_safe_witness:
  "\<exists>n. perform_all demo_params True demo_start demo_events = Inr n \<and> lastAckSeqNo (sender n) = 1 \<and>
    lastAckSeqNo (sender n) \<le> lastReceivedSeqNo (receiver n) + 1 \<and> ackBytes (sender n) \<le> goodBytes (receiver n)"
proof -
  have "\<exists>n. perform_all demo_params True demo_start demo_events = Inr n \<and> lastAckSeqNo (sender n) = 1"
    by (simp add: demo_eval demo_events_def)
  then obtain n where n: "perform_all demo_params True demo_start demo_events = Inr n" "lastAckSeqNo (sender n) = 1" by blast
  have "params_ok demo_params" by (simp add: params_ok_def demo_params_def)
  then show ?thesis using simulated_arq_safe [OF _ reached_all [OF n(1) demo_reached]] n by blast
qed

text \<open>
  A packet that comes again is not acknowledged again. So once the receiver has a whole window and its acknowledgements are
  lost, none is ever sent, and the sender repeats the window for ever.
\<close>

lemma lost_window_stalls:
  assumes "params_ok cfg" and "reached cfg nack n" and "acks n = []"
    and "lastReceivedSeqNo (receiver n) + 1 = lastAckSeqNo (sender n) + window cfg"
    and "perform_all cfg nack n evs = Inr n'"
  shows "acks n' = [] \<and> lastAckSeqNo (sender n') = lastAckSeqNo (sender n)"
  using assms(2-5)
proof (induction evs arbitrary: n)
  case (Cons ev evs)
  have ok: "system_ok cfg n" using reached_ok Cons.prems(1) assms(1) by blast
  then obtain hi where hi: "arq_ok cfg (clock n) hi (sender n)" and data: "\<forall>k \<in> set (data n). k < hi"
    unfolding system_ok_def by auto
  have old: "\<forall>k \<in> set (data n). k \<le> lastReceivedSeqNo (receiver n)"
    using data arq_okD(7) [OF hi] Cons.prems(3) by fastforce
  obtain m where m: "possible n ev" "perform cfg nack n ev = Inr m" "perform_all cfg nack m evs = Inr n'"
    using Cons.prems(4) by (auto simp: fault_simps split: if_splits)
  have "acks m = [] \<and> lastAckSeqNo (sender m) = lastAckSeqNo (sender n) \<and>
      lastReceivedSeqNo (receiver m) = lastReceivedSeqNo (receiver n)"
  proof (cases ev)
    case Send_Timer
    then show ?thesis using handle_send_ok [OF hi assms(1)] m(1,2) Cons.prems(2) by fastforce
  next
    case Expiration_Timer
    then show ?thesis using handle_expiration_ok [OF hi assms(1)] m(1,2) Cons.prems(2) by fastforce
  next
    case (Data_Arrives i e)
    then have "data n ! i \<le> lastReceivedSeqNo (receiver n)" using old m(1) by simp
    then show ?thesis using Data_Arrives m(2) Cons.prems(2) by (auto simp: receive_data_def Let_def split: if_splits)
  qed (use m(1,2) Cons.prems(2) in auto)
  then show ?case using Cons.IH [of m] reached.step [OF Cons.prems(1) m(1,2)] Cons.prems(3) m(3) by simp
qed simp

text \<open>
  But when the acknowledgement is handled at the very moment the timer is due, and before it goes off, the packet behind it,
  sent at the same time, expires now as well, and the assertion that it does so later fails.
\<close>

lemma ack_at_expiration:
  "\<exists>n. perform_all demo_params True demo_start
      [Send_Timer, Send_Timer, Tick 5, Data_Arrives 1 False, Data_Arrives 0 False, Tick 10] = Inr n \<and>
    perform demo_params True n (Ack_Arrives 0 False) = Inl Assertion"
  by (simp add: demo_eval)

end
