(* ===== verification/Sim_Queue.thy ===== *)
theory Sim_Queue
  imports Sim_Time "HOL-Library.Sublist"
begin

text \<open>
  The queue in front of a link, \<open>GoBackN/protsim/support/InterfaceQueue.cc\<close>, and the proof that it sends what a
  queue with one server and a bounded waiting room sends.
\<close>

section \<open>Statistics\<close>

text \<open>
  OMNeT++ collects what is handed to it. A statistic is the list of its observations since it was cleared, a weighted one with their weights; an
  output vector is a switch and the list of what was recorded while it was on.
\<close>

type_synonym 'a out_vector = "bool \<times> 'a list"

definition record_vec :: "'a \<Rightarrow> 'a out_vector \<Rightarrow> 'a out_vector" where
  "record_vec x v = (fst v, if fst v then snd v @ [x] else snd v)"

definition enable :: "'a out_vector \<Rightarrow> 'a out_vector" where
  "enable v = (True, snd v)"

record queue_params =
  maxQueueLength :: int
  transientRemoval :: int
  batchLength :: int

record batch =
  batch_no :: int
  batch_utilization :: "(int \<times> int) list"
  batch_length :: "(int \<times> int) list"
  batch_waiting :: "int list"
  batch_hist :: "int list"

text \<open>
  \<open>finishes\<close> is \<open>watchedGate->transmissionFinishes()\<close>, \<open>due\<close> the message \<open>timeout\<close>, \<open>sent\<close> what went through the gate and when,
  and \<open>batches\<close> what was recorded of each batch. Messages wait with their arrival time.
\<close>

record 'm interface_queue =
  transientOver :: bool
  batchNum :: int
  queueLengthVector :: "int out_vector"
  waitingTimeVector :: "int out_vector"
  waitingTimeSumVector :: "(int \<times> int) out_vector"
  lastUtilChange :: int
  lastQueueChange :: int
  linkUtilizationStat :: "(int \<times> int) list"
  queueLengthStat :: "(int \<times> int) list"
  waitingTimeStat :: "int list"
  queueLengthHist :: "int list"
  totalMessages :: int
  droppedMessages :: int
  waiting :: "('m \<times> int) list"
  finishes :: int
  due :: "int option"
  sent :: "(int \<times> 'm) list"
  batches :: "batch list"

definition initialize_queue :: "queue_params \<Rightarrow> 'm interface_queue" where
  "initialize_queue cfg =
     (let over = transientRemoval cfg \<le> 0
      in \<lparr>transientOver = over, batchNum = 0,
          queueLengthVector = (over, []), waitingTimeVector = (over, []), waitingTimeSumVector = (over, []),
          lastUtilChange = 0, lastQueueChange = 0,
          linkUtilizationStat = [], queueLengthStat = [], waitingTimeStat = [], queueLengthHist = [],
          totalMessages = 0, droppedMessages = 0, waiting = [], finishes = 0, due = None, sent = [], batches = []\<rparr>)"

section \<open>End of the transient phase and of batches\<close>

definition resetStatistics :: "int \<Rightarrow> 'm interface_queue \<Rightarrow> 'm interface_queue" where
  "resetStatistics now q =
     q\<lparr>lastUtilChange := now, lastQueueChange := now, linkUtilizationStat := [], queueLengthStat := [],
       waitingTimeStat := [], queueLengthHist := [], totalMessages := 0, droppedMessages := 0\<rparr>"

definition recordStatistics :: "int \<Rightarrow> int \<Rightarrow> 'm interface_queue \<Rightarrow> 'm interface_queue" where
  "recordStatistics batch now q =
     (let busy = (if finishes q < now then 0 else 1);
          q = q\<lparr>linkUtilizationStat := linkUtilizationStat q @ [(busy, now - lastUtilChange q)],
                queueLengthStat := queueLengthStat q @ [(int (length (waiting q)), now - lastQueueChange q)],
                lastUtilChange := now, lastQueueChange := now\<rparr>
      in q\<lparr>batches := batches q @ [\<lparr>batch_no = batch, batch_utilization = linkUtilizationStat q,
              batch_length = queueLengthStat q, batch_waiting = waitingTimeStat q, batch_hist = queueLengthHist q\<rparr>]\<rparr>)"

definition detectTransient :: "queue_params \<Rightarrow> int \<Rightarrow> 'm interface_queue \<Rightarrow> fault + 'm interface_queue" where
  "detectTransient cfg now q =
     (let q = (if \<not> transientOver q \<and> transientRemoval cfg \<le> int (length (waitingTimeStat q))
               then resetStatistics now
                 (q\<lparr>transientOver := True, queueLengthVector := enable (queueLengthVector q),
                    waitingTimeVector := enable (waitingTimeVector q), waitingTimeSumVector := enable (waitingTimeSumVector q)\<rparr>)
               else q)
      in bind_res (assert_c (transientOver q \<or> int (length (waitingTimeStat q)) < transientRemoval cfg)) (\<lambda>_. Inr q))"

definition detectBatch :: "queue_params \<Rightarrow> int \<Rightarrow> 'm interface_queue \<Rightarrow> fault + 'm interface_queue" where
  "detectBatch cfg now q =
     (let q = (if transientOver q \<and> 0 < batchLength cfg \<and> batchLength cfg \<le> int (length (waitingTimeStat q))
               then (let q = resetStatistics now (recordStatistics (batchNum q) now q) in q\<lparr>batchNum := batchNum q + 1\<rparr>)
               else q)
      in bind_res (assert_c (batchLength cfg \<le> 0 \<or> int (length (waitingTimeStat q)) < batchLength cfg)) (\<lambda>_. Inr q))"

definition detect :: "queue_params \<Rightarrow> int \<Rightarrow> 'm interface_queue \<Rightarrow> fault + 'm interface_queue" where
  "detect cfg now q = bind_res (detectTransient cfg now q) (detectBatch cfg now)"

section \<open>Messages\<close>

text \<open>
  A message sent while the link is busy waits for it inside the channel, as the manual of OMNeT++ 3 describes; \<open>duration\<close> is how
  long a message takes at the data rate of the link.
\<close>

definition send_out :: "('m \<Rightarrow> int) \<Rightarrow> int \<Rightarrow> 'm \<Rightarrow> 'm interface_queue \<Rightarrow> 'm interface_queue" where
  "send_out duration now m q =
     q\<lparr>finishes := max now (finishes q) + duration m, sent := sent q @ [(now, m)]\<rparr>"

text \<open>What both branches that send do last.\<close>

definition transmit :: "queue_params \<Rightarrow> ('m \<Rightarrow> int) \<Rightarrow> int \<Rightarrow> 'm \<Rightarrow> 'm interface_queue \<Rightarrow> fault + 'm interface_queue" where
  "transmit cfg duration now m q =
     bind_res (detect cfg now q) (\<lambda>q.
     let q = send_out duration now m q
     in bind_res (scheduleAt now (At (finishes q)) (due q)) (\<lambda>timer. Inr (q\<lparr>due := timer\<rparr>)))"

text \<open>The waiting time of a message goes into a vector, the statistic and the vector of their sums.\<close>

definition collect_waiting :: "int \<Rightarrow> 'm interface_queue \<Rightarrow> 'm interface_queue" where
  "collect_waiting w q =
     (let q = q\<lparr>waitingTimeVector := record_vec w (waitingTimeVector q), waitingTimeStat := waitingTimeStat q @ [w]\<rparr>
      in q\<lparr>waitingTimeSumVector :=
             record_vec (int (length (waitingTimeStat q)), sum_list (waitingTimeStat q)) (waitingTimeSumVector q)\<rparr>)"

text \<open>\<open>handleMessage\<close> for \<open>timeout\<close>, which has just gone off\<close>

definition handle_due :: "queue_params \<Rightarrow> ('m \<Rightarrow> int) \<Rightarrow> int \<Rightarrow> 'm interface_queue \<Rightarrow> fault + 'm interface_queue" where
  "handle_due cfg duration now q =
     (let q = q\<lparr>due := None\<rparr>
      in case waiting q of
           [] \<Rightarrow> Inr (q\<lparr>linkUtilizationStat := linkUtilizationStat q @ [(1, now - lastUtilChange q)], lastUtilChange := now\<rparr>)
         | (m, arrival) # ms \<Rightarrow>
             let n = int (length (waiting q));
                 q = q\<lparr>queueLengthVector := record_vec (n - 1) (record_vec n (queueLengthVector q)),
                       queueLengthStat := queueLengthStat q @ [(n, now - lastQueueChange q)], lastQueueChange := now,
                       waiting := ms, queueLengthHist := queueLengthHist q @ [n - 1]\<rparr>
             in transmit cfg duration now m (collect_waiting (now - arrival) q))"

text \<open>\<open>handleMessage\<close> for a message that arrives\<close>

definition handle_arrival :: "queue_params \<Rightarrow> ('m \<Rightarrow> int) \<Rightarrow> int \<Rightarrow> 'm \<Rightarrow> 'm interface_queue \<Rightarrow> fault + 'm interface_queue" where
  "handle_arrival cfg duration now m q =
     (let q = q\<lparr>totalMessages := totalMessages q + 1\<rparr>
      in if waiting q = [] \<and> finishes q \<le> now then
           let q = collect_waiting 0
                 (q\<lparr>linkUtilizationStat := linkUtilizationStat q @ [(0, now - lastUtilChange q)], lastUtilChange := now\<rparr>)
           in transmit cfg duration now m
                (q\<lparr>queueLengthVector := record_vec 0 (queueLengthVector q), queueLengthHist := queueLengthHist q @ [0]\<rparr>)
         else if int (length (waiting q)) < maxQueueLength cfg then
           let n = int (length (waiting q))
           in Inr (q\<lparr>queueLengthStat := queueLengthStat q @ [(n, now - lastQueueChange q)], lastQueueChange := now,
                queueLengthVector := record_vec (n + 1) (record_vec n (queueLengthVector q)),
                waiting := waiting q @ [(m, now)], queueLengthHist := queueLengthHist q @ [n + 1]\<rparr>)
         else Inr (q\<lparr>droppedMessages := droppedMessages q + 1\<rparr>))"

section \<open>The simulation\<close>

text \<open>
  The simulator delivers the events in the order of their times; \<open>timeout\<close> has the highest priority and so comes before a message that arrives
  at the same time. \<open>run_timer\<close> lets it go off as long as it is due by \<open>until\<close>.
\<close>

lemma transmit_waiting: "transmit cfg duration now m q = Inr q' \<Longrightarrow> waiting q' = waiting q"
  by (auto simp: transmit_def detect_def detectTransient_def detectBatch_def send_out_def resetStatistics_def
      recordStatistics_def Let_def fault_simps split: if_splits)

lemma collect_waiting_kept [simp]:
  "waiting (collect_waiting w q) = waiting q" "due (collect_waiting w q) = due q" "finishes (collect_waiting w q) = finishes q"
  "sent (collect_waiting w q) = sent q" "transientOver (collect_waiting w q) = transientOver q"
  "waitingTimeStat (collect_waiting w q) = waitingTimeStat q @ [w]"
  by (simp_all add: collect_waiting_def Let_def)

definition work_left :: "'m interface_queue \<Rightarrow> nat" where
  "work_left q = 2 * length (waiting q) + (if due q = None then 0 else 1)"

lemma handle_due_works:
  assumes "handle_due cfg duration now q = Inr q'" and "due q = Some a"
  shows "work_left q' < work_left q"
proof (cases "waiting q")
  case Nil
  then show ?thesis using assms by (auto simp: handle_due_def work_left_def)
next
  case (Cons m ms)
  then have "waiting q' = ms"
    using assms(1) transmit_waiting by (fastforce simp: handle_due_def Let_def split: prod.splits)
  then show ?thesis using Cons assms(2) by (simp add: work_left_def)
qed

function run_timer :: "queue_params \<Rightarrow> ('m \<Rightarrow> int) \<Rightarrow> sim_time \<Rightarrow> 'm interface_queue \<Rightarrow> fault + 'm interface_queue" where
  "run_timer cfg duration until q =
     (case due q of
        None \<Rightarrow> Inr q
      | Some a \<Rightarrow>
          if earlier until (At a) then Inr q
          else
            case handle_due cfg duration a q of
              Inl e \<Rightarrow> Inl e
            | Inr q' \<Rightarrow> run_timer cfg duration until q')"
  by pat_completeness auto
termination
  by (relation "measure (\<lambda>(cfg, duration, until, q). work_left q)") (auto dest: handle_due_works)

declare run_timer.simps [simp del]

fun run_queue :: "queue_params \<Rightarrow> ('m \<Rightarrow> int) \<Rightarrow> 'm interface_queue \<Rightarrow> (int \<times> 'm) list \<Rightarrow> fault + 'm interface_queue" where
  "run_queue cfg duration q [] = run_timer cfg duration Never q"
| "run_queue cfg duration q ((t, m) # arrivals) =
     bind_res (run_timer cfg duration (At t) q) (\<lambda>q.
     bind_res (handle_arrival cfg duration t m q) (\<lambda>q. run_queue cfg duration q arrivals))"

section \<open>The queue it should be\<close>

text \<open>
  \<open>starts\<close> are the messages accepted so far with the times their transmissions start, the last of which ends at \<open>free\<close>. A message that
  finds the link free starts at once; otherwise it starts when the link gets free, provided that fewer than \<open>room\<close> others are waiting
  to start.
\<close>

fun single_server :: "int \<Rightarrow> ('m \<Rightarrow> int) \<Rightarrow> (int \<times> 'm) list \<Rightarrow> int \<Rightarrow> (int \<times> 'm) list \<Rightarrow> (int \<times> 'm) list" where
  "single_server room duration starts free [] = starts"
| "single_server room duration starts free ((t, m) # arrivals) =
     (if free \<le> t then single_server room duration (starts @ [(t, m)]) (t + duration m) arrivals
      else if int (length (filter (\<lambda>(s, _). t < s) starts)) < room
           then single_server room duration (starts @ [(free, m)]) (free + duration m) arrivals
           else single_server room duration starts free arrivals)"

text \<open>The starts of the messages that wait for a link free at \<open>f\<close>, and when it is free after them.\<close>

fun plan :: "('m \<Rightarrow> int) \<Rightarrow> int \<Rightarrow> ('m \<times> int) list \<Rightarrow> (int \<times> 'm) list" where
  "plan duration f [] = []"
| "plan duration f ((m, a) # ms) = (f, m) # plan duration (f + duration m) ms"

definition free_after :: "('m \<Rightarrow> int) \<Rightarrow> int \<Rightarrow> ('m \<times> int) list \<Rightarrow> int" where
  "free_after duration f ms = f + (\<Sum>(m, a) \<leftarrow> ms. duration m)"

text \<open>
  At time \<open>now\<close>: the timer is set for the end of the transmission exactly as long as the link is busy, and the statistics are
  too short to end a phase.
\<close>

definition queue_ok :: "queue_params \<Rightarrow> int \<Rightarrow> 'm interface_queue \<Rightarrow> bool" where
  "queue_ok cfg now q \<longleftrightarrow>
     (case due q of None \<Rightarrow> waiting q = [] \<and> finishes q \<le> now | Some a \<Rightarrow> a = finishes q \<and> now \<le> a) \<and>
     (\<forall>(s, m) \<in> set (sent q). s \<le> now) \<and>
     (transientOver q \<or> int (length (waitingTimeStat q)) < transientRemoval cfg) \<and>
     (batchLength cfg \<le> 0 \<or> int (length (waitingTimeStat q)) < batchLength cfg)"

definition batches_ok :: "queue_params \<Rightarrow> bool" where
  "batches_ok cfg \<longleftrightarrow> batchLength cfg \<le> 0 \<or> transientRemoval cfg \<le> batchLength cfg"

lemma transmit_ok:
  assumes "batches_ok cfg"
    and "transientOver q \<or> int (length (waitingTimeStat q)) \<le> transientRemoval cfg"
    and "batchLength cfg \<le> 0 \<or> int (length (waitingTimeStat q)) \<le> batchLength cfg"
    and "due q = None" "finishes q \<le> now" "0 \<le> duration m" "\<forall>(s, m) \<in> set (sent q). s \<le> now"
  shows "\<exists>q'. transmit cfg duration now m q = Inr q' \<and> sent q' = sent q @ [(now, m)] \<and> waiting q' = waiting q \<and>
    finishes q' = now + duration m \<and> due q' = Some (finishes q') \<and> queue_ok cfg now q'"
  using assms
  by (auto simp: transmit_def detect_def detectTransient_def detectBatch_def send_out_def resetStatistics_def
      recordStatistics_def scheduleAt_def queue_ok_def batches_ok_def Let_def fault_simps)

text \<open>What has been sent and what will be, and when the link is free after that, are the same in two states.\<close>

definition same_plan :: "('m \<Rightarrow> int) \<Rightarrow> 'm interface_queue \<Rightarrow> 'm interface_queue \<Rightarrow> bool" where
  "same_plan duration q q' \<longleftrightarrow>
     sent q' @ plan duration (finishes q') (waiting q') = sent q @ plan duration (finishes q) (waiting q) \<and>
     free_after duration (finishes q') (waiting q') = free_after duration (finishes q) (waiting q)"

lemma same_plan_trans: "same_plan duration q q' \<Longrightarrow> same_plan duration q' q'' \<Longrightarrow> same_plan duration q q''"
  by (simp add: same_plan_def)

lemma handle_due_ok:
  assumes "queue_ok cfg now q" and "due q = Some a" and "batches_ok cfg" and "\<forall>m. 0 \<le> duration m"
  shows "\<exists>q'. handle_due cfg duration a q = Inr q' \<and> queue_ok cfg a q' \<and> same_plan duration q q'"
proof (cases "waiting q")
  case Nil
  then show ?thesis using assms(1,2) by (fastforce simp: handle_due_def queue_ok_def same_plan_def)
next
  case (Cons w ms)
  then obtain m arrival where w: "waiting q = (m, arrival) # ms" by (cases w) simp
  define n where "n = int (length (waiting q))"
  define p where "p = collect_waiting (a - arrival)
      (q\<lparr>due := None, queueLengthVector := record_vec (n - 1) (record_vec n (queueLengthVector q)),
         queueLengthStat := queueLengthStat q @ [(n, a - lastQueueChange q)], lastQueueChange := a,
         waiting := ms, queueLengthHist := queueLengthHist q @ [n - 1]\<rparr>)"
  have p: "due p = None" "waiting p = ms" "finishes p = finishes q" "sent p = sent q" "transientOver p = transientOver q"
    "waitingTimeStat p = waitingTimeStat q @ [a - arrival]"
    by (simp_all add: p_def)
  have "\<exists>q'. transmit cfg duration a m p = Inr q' \<and> sent q' = sent p @ [(a, m)] \<and> waiting q' = waiting p \<and>
      finishes q' = a + duration m \<and> due q' = Some (finishes q') \<and> queue_ok cfg a q'"
    using assms p by (intro transmit_ok) (auto simp: queue_ok_def)
  moreover have "handle_due cfg duration a q = transmit cfg duration a m p"
    by (simp add: handle_due_def w p_def n_def Let_def)
  moreover have "finishes q = a" using assms(1,2) by (simp add: queue_ok_def)
  ultimately show ?thesis using w p by (fastforce simp: same_plan_def free_after_def)
qed

lemma queue_ok_later:
  "queue_ok cfg now q \<Longrightarrow> now \<le> u \<Longrightarrow> (\<And>a. due q = Some a \<Longrightarrow> u \<le> a) \<Longrightarrow> queue_ok cfg u q"
  by (fastforce simp: queue_ok_def split: option.splits)

lemma queue_ok_idle: "queue_ok cfg now q \<Longrightarrow> due q = None \<Longrightarrow> waiting q = []"
  by (simp add: queue_ok_def)

lemma run_timer_ok:
  assumes "queue_ok cfg now q" and "batches_ok cfg" and "\<forall>m. 0 \<le> duration m" and "\<forall>u. until = At u \<longrightarrow> now \<le> u"
  shows "\<exists>q'. run_timer cfg duration until q = Inr q' \<and> same_plan duration q q' \<and>
    (case until of Never \<Rightarrow> waiting q' = [] | At u \<Rightarrow> queue_ok cfg u q' \<and> (\<forall>a. due q' = Some a \<longrightarrow> u < a))"
  using assms
proof (induction cfg duration until q arbitrary: now rule: run_timer.induct)
  case (1 cfg duration until q)
  show ?case
  proof (cases "due q")
    case None
    then have "run_timer cfg duration until q = Inr q" by (simp add: run_timer.simps)
    then show ?thesis
      using None 1(5) queue_ok_idle [OF 1(2) None] queue_ok_later [OF 1(2)] by (cases until) (auto simp: same_plan_def)
  next
    case (Some a)
    show ?thesis
    proof (cases "earlier until (At a)")
      case True
      then obtain u where u: "until = At u" "u < a" by (cases until) simp_all
      have "run_timer cfg duration until q = Inr q" using Some True by (simp add: run_timer.simps)
      then show ?thesis using queue_ok_later [OF 1(2)] 1(5) u Some by (auto simp: same_plan_def)
    next
      case False
      obtain q' where q': "handle_due cfg duration a q = Inr q'" "queue_ok cfg a q'" "same_plan duration q q'"
        using handle_due_ok [OF 1(2) Some 1(3,4)] by blast
      have "\<forall>u. until = At u \<longrightarrow> a \<le> u" using False by auto
      then obtain q'' where "run_timer cfg duration until q' = Inr q''" "same_plan duration q' q''"
          "case until of Never \<Rightarrow> waiting q'' = [] | At u \<Rightarrow> queue_ok cfg u q'' \<and> (\<forall>a. due q'' = Some a \<longrightarrow> u < a)"
        using 1(1) [OF Some False q'(1,2) 1(3,4)] by blast
      then show ?thesis
        using q' Some False same_plan_trans by (fastforce simp: run_timer.simps [of _ _ _ q])
    qed
  qed
qed

lemma plan_append: "plan duration f (ms @ [(m, a)]) = plan duration f ms @ [(free_after duration f ms, m)]"
  by (induction duration f ms rule: plan.induct) (auto simp: free_after_def)

lemma free_after_append: "free_after duration f (ms @ [(m, a)]) = free_after duration f ms + duration m"
  by (simp add: free_after_def)

lemma plan_later:
  assumes "\<forall>m. 0 \<le> duration m"
  shows "f \<le> free_after duration f ms" and "(s, m) \<in> set (plan duration f ms) \<Longrightarrow> f \<le> s"
proof -
  show "f \<le> free_after duration f ms" using assms by (induction ms) (auto simp: free_after_def add_increasing)
  show "(s, m) \<in> set (plan duration f ms) \<Longrightarrow> f \<le> s" using assms
  proof (induction duration f ms rule: plan.induct)
    case (2 duration f m' a ms)
    have "0 \<le> duration m'" using 2(3) by blast
    show ?case
    proof (cases "(s, m) \<in> set (plan duration (f + duration m') ms)")
      case True
      then have "f + duration m' \<le> s" using 2(1,3) by blast
      then show ?thesis using \<open>0 \<le> duration m'\<close> by simp
    next
      case False
      then show ?thesis using 2(2) by simp
    qed
  qed simp
qed

lemma length_plan: "length (plan duration f ms) = length ms"
  by (induction duration f ms rule: plan.induct) auto

text \<open>A message that arrives once all earlier timeouts have gone off is treated as by \<open>single_server\<close>.\<close>

lemma arrival_ok:
  assumes ok: "queue_ok cfg t q" and busy: "\<forall>a. due q = Some a \<longrightarrow> t < a" and "batches_ok cfg" and dur: "\<forall>m. 0 \<le> duration m"
  defines "starts \<equiv> sent q @ plan duration (finishes q) (waiting q)" and "free \<equiv> free_after duration (finishes q) (waiting q)"
  shows "\<exists>q'. handle_arrival cfg duration t m q = Inr q' \<and> queue_ok cfg t q' \<and>
    single_server (maxQueueLength cfg) duration (sent q' @ plan duration (finishes q') (waiting q'))
      (free_after duration (finishes q') (waiting q')) arrivals =
    single_server (maxQueueLength cfg) duration starts free ((t, m) # arrivals)"
proof (cases "due q")
  case None
  define p where "p = (let q = q\<lparr>totalMessages := totalMessages q + 1\<rparr>;
      q = collect_waiting 0 (q\<lparr>linkUtilizationStat := linkUtilizationStat q @ [(0, t - lastUtilChange q)], lastUtilChange := t\<rparr>)
    in q\<lparr>queueLengthVector := record_vec 0 (queueLengthVector q), queueLengthHist := queueLengthHist q @ [0]\<rparr>)"
  have p: "due p = None" "waiting p = waiting q" "finishes p = finishes q" "sent p = sent q" "transientOver p = transientOver q"
    "waitingTimeStat p = waitingTimeStat q @ [0]"
    using None by (simp_all add: p_def Let_def)
  have q: "waiting q = []" "finishes q \<le> t" using ok None by (simp_all add: queue_ok_def)
  have "\<exists>q'. transmit cfg duration t m p = Inr q' \<and> sent q' = sent p @ [(t, m)] \<and> waiting q' = waiting p \<and>
      finishes q' = t + duration m \<and> due q' = Some (finishes q') \<and> queue_ok cfg t q'"
    using assms p None by (intro transmit_ok) (auto simp: queue_ok_def)
  moreover have "handle_arrival cfg duration t m q = transmit cfg duration t m p"
    using q by (simp add: handle_arrival_def p_def Let_def)
  ultimately show ?thesis using p q by (fastforce simp: starts_def free_def free_after_def)
next
  case (Some a)
  then have a: "finishes q = a" "t < a" using ok busy by (simp_all add: queue_ok_def)
  have "filter (\<lambda>(s, _). t < s) (sent q) = []" using ok by (fastforce simp: queue_ok_def filter_empty_conv)
  moreover have "filter (\<lambda>(s, _). t < s) (plan duration a (waiting q)) = plan duration a (waiting q)"
    using plan_later(2) [OF dur] a(2) by (fastforce simp: filter_id_conv)
  ultimately have n: "length (filter (\<lambda>(s, _). t < s) starts) = length (waiting q)"
    by (simp add: starts_def a(1) length_plan)
  have f: "t < free" using plan_later(1) [OF dur, of a "waiting q"] a by (simp add: free_def)
  show ?thesis
    using ok a f n Some
    by (auto simp: handle_arrival_def queue_ok_def Let_def starts_def free_def plan_append free_after_append)
qed

lemma run_queue_ok:
  assumes "queue_ok cfg now q" and "sorted (now # map fst arrivals)" and "batches_ok cfg" and dur: "\<forall>m. 0 \<le> duration m"
  shows "\<exists>q'. run_queue cfg duration q arrivals = Inr q' \<and> waiting q' = [] \<and>
    sent q' = single_server (maxQueueLength cfg) duration (sent q @ plan duration (finishes q) (waiting q))
      (free_after duration (finishes q) (waiting q)) arrivals"
  using assms(1,2)
proof (induction arrivals arbitrary: now q)
  case Nil
  then show ?case using run_timer_ok [OF _ assms(3,4), of now q Never] by (fastforce simp: same_plan_def)
next
  case (Cons arrival arrivals)
  obtain t m where tm: "arrival = (t, m)" by (cases arrival)
  obtain q1 where q1: "run_timer cfg duration (At t) q = Inr q1" "same_plan duration q q1" "queue_ok cfg t q1"
      "\<forall>a. due q1 = Some a \<longrightarrow> t < a"
    using run_timer_ok [OF Cons.prems(1) assms(3,4), of "At t"] Cons.prems(2) tm by auto
  obtain q2 where q2: "handle_arrival cfg duration t m q1 = Inr q2" "queue_ok cfg t q2"
      "single_server (maxQueueLength cfg) duration (sent q2 @ plan duration (finishes q2) (waiting q2))
        (free_after duration (finishes q2) (waiting q2)) arrivals =
       single_server (maxQueueLength cfg) duration (sent q1 @ plan duration (finishes q1) (waiting q1))
        (free_after duration (finishes q1) (waiting q1)) ((t, m) # arrivals)"
    using arrival_ok [OF q1(3,4) assms(3,4)] by blast
  show ?case
    using Cons.IH [OF q2(2)] Cons.prems(2) q1(1,2) q2(1,3) tm by (auto simp: same_plan_def simp del: single_server.simps)
qed

lemma single_server_spaced:
  assumes "successively (\<lambda>p p'. fst p + duration (snd p) \<le> fst p') starts"
    and "starts \<noteq> [] \<Longrightarrow> fst (last starts) + duration (snd (last starts)) \<le> free"
  shows "successively (\<lambda>p p'. fst p + duration (snd p) \<le> fst p') (single_server room duration starts free arrivals)"
  using assms
proof (induction room duration starts free arrivals rule: single_server.induct)
  case (2 room duration starts free t m arrivals)
  then show ?case by (cases "starts = []") (auto simp: successively_append_iff)
qed simp

text \<open>The messages \<open>rest\<close> are some of the arrivals in their order, each no earlier than it arrived.\<close>

definition accepted_of :: "(int \<times> 'm) list \<Rightarrow> (int \<times> 'm) list \<Rightarrow> bool" where
  "accepted_of arrivals rest \<longleftrightarrow>
     subseq (map snd rest) (map snd arrivals) \<and> (\<forall>p \<in> set rest. \<exists>t \<le> fst p. (t, snd p) \<in> set arrivals)"

lemma accepted_Nil: "accepted_of [] []"
  by (simp add: accepted_of_def)

lemma accepted_Cons: "accepted_of arrivals rest \<Longrightarrow> t \<le> s \<Longrightarrow> accepted_of ((t, m) # arrivals) ((s, m) # rest)"
  by (fastforce simp: accepted_of_def)

lemma accepted_drop: "accepted_of arrivals rest \<Longrightarrow> accepted_of ((t, m) # arrivals) rest"
  by (fastforce simp: accepted_of_def)

lemma single_server_order:
  "\<exists>rest. single_server room duration starts free arrivals = starts @ rest \<and> accepted_of arrivals rest"
proof (induction room duration starts free arrivals rule: single_server.induct)
  case (2 room duration starts free t m arrivals)
  consider "free \<le> t" | "\<not> free \<le> t" "int (length (filter (\<lambda>(s, _). t < s) starts)) < room"
    | "\<not> free \<le> t" "\<not> int (length (filter (\<lambda>(s, _). t < s) starts)) < room" by blast
  then show ?case
  proof cases
    case 1
    then show ?thesis using 2(1) [OF 1] accepted_Cons [of arrivals _ t t m] by fastforce
  next
    case 2
    then show ?thesis using "2.IH"(2) [OF 2] accepted_Cons [of arrivals _ t free m] by fastforce
  next
    case 3
    then show ?thesis using "2.IH"(3) [OF 3] accepted_drop by fastforce
  qed
qed (simp add: accepted_Nil)

text \<open>
  C37: The queue of a link sends exactly what a single server with \<open>maxQueueLength\<close> places to wait sends, and when, if the batches are not
  shorter than the transient phase. No assertion fails, and \<open>timeout\<close> is never scheduled twice. So messages leave in the
  order they came in, each at its arrival or later, and no transmission starts before the one before it has ended.
\<close>

theorem queue_is_single_server:
  assumes "batchLength cfg \<le> 0 \<or> transientRemoval cfg \<le> batchLength cfg"
    and "sorted (0 # map fst arrivals)" and "\<forall>m. 0 \<le> duration m"
  shows "\<exists>q. run_queue cfg duration (initialize_queue cfg) arrivals = Inr q \<and> waiting q = [] \<and>
    sent q = single_server (maxQueueLength cfg) duration [] 0 arrivals \<and>
    subseq (map snd (sent q)) (map snd arrivals) \<and> (\<forall>p \<in> set (sent q). \<exists>t \<le> fst p. (t, snd p) \<in> set arrivals) \<and>
    successively (\<lambda>p p'. fst p + duration (snd p) \<le> fst p') (sent q)"
proof -
  have "queue_ok cfg 0 (initialize_queue cfg :: 'a interface_queue)"
    by (auto simp: queue_ok_def initialize_queue_def Let_def)
  moreover have "batches_ok cfg" using assms(1) by (simp add: batches_ok_def)
  ultimately obtain q where q: "run_queue cfg duration (initialize_queue cfg) arrivals = Inr q" "waiting q = []"
      "sent q = single_server (maxQueueLength cfg) duration [] 0 arrivals"
    using run_queue_ok [OF _ assms(2) _ assms(3)] by (fastforce simp: initialize_queue_def Let_def free_after_def)
  then show ?thesis
    using single_server_order [of "maxQueueLength cfg" duration "[]" 0 arrivals]
      single_server_spaced [of duration "[]" 0 "maxQueueLength cfg" arrivals] by (auto simp: accepted_of_def)
qed

text \<open>Four messages that take ten ticks each, the third of which finds the only place taken and the last of which comes as the link gets free\<close>

lemma queue_is_single_server_witness:
  "\<exists>q. run_queue \<lparr>maxQueueLength = 1, transientRemoval = 0, batchLength = 2\<rparr> (\<lambda>_. 10)
      (initialize_queue \<lparr>maxQueueLength = 1, transientRemoval = 0, batchLength = 2\<rparr>)
      [(0, CHR ''a''), (5, CHR ''b''), (7, CHR ''c''), (20, CHR ''d'')] = Inr q \<and>
    sent q = [(0, CHR ''a''), (10, CHR ''b''), (20, CHR ''d'')]"
  using queue_is_single_server [of "\<lparr>maxQueueLength = 1, transientRemoval = 0, batchLength = 2\<rparr>"
      "[(0, CHR ''a''), (5, CHR ''b''), (7, CHR ''c''), (20, CHR ''d'')]" "\<lambda>_. 10"]
  by auto

text \<open>If the batches are shorter than the transient phase, the assertion of \<open>detectBatch\<close> fails at the end of the first one.\<close>

lemma batch_in_transient_phase:
  assumes "\<not> transientOver q" "0 < batchLength cfg" "batchLength cfg < transientRemoval cfg"
    and "int (length (waitingTimeStat q)) = batchLength cfg"
  shows "transmit cfg duration now m q = Inl Assertion"
  using assms by (simp add: transmit_def detect_def detectTransient_def detectBatch_def)

end
