(* ===== verification/Sim_Topology.thy ===== *)
theory Sim_Topology
  imports Std_Map
begin

text \<open>
  The topology of the simulated network, \<open>GoBackN/protsim/support/Topology.cc\<close>: nodes and their links by address, both in
  a \<open>std::map\<close>. A pointer to a node is modelled by the address of the node, which is unique in a topology, a
  change through it by a change of the topology.
\<close>

record 'w topo_link =
  weight :: 'w
  srcNode :: int
  destNode :: int

record 'w topo_node =
  addr :: int
  links :: "(int, 'w topo_link) std_map"

type_synonym 'w topology = "(int, 'w topo_node) std_map"

section \<open>Operations\<close>

definition getNumNodes :: "'w topology \<Rightarrow> nat" where
  "getNumNodes t = length t"

text \<open>Advancing an iterator past the end is undefined.\<close>

definition getNode :: "'w topology \<Rightarrow> nat \<Rightarrow> fault + 'w topo_node" where
  "getNode t index = (if index < length t then Inr (snd (t ! index)) else Inl Undefined)"

definition getNodeByAddr :: "'w topology \<Rightarrow> int \<Rightarrow> 'w topo_node option" where
  "getNodeByAddr t a = map_of t a"

definition getNodes :: "'w topology \<Rightarrow> int list" where
  "getNodes t = keys t"

definition addNodeFor :: "int \<Rightarrow> 'w topology \<Rightarrow> 'w topology" where
  "addNodeFor a t =
     (case map_of t a of
        None \<Rightarrow> assign a \<lparr>addr = a, links = []\<rparr> t
      | Some _ \<Rightarrow> t)"

definition getNumLinks :: "'w topo_node \<Rightarrow> nat" where
  "getNumLinks n = length (links n)"

definition getLink :: "'w topo_node \<Rightarrow> nat \<Rightarrow> fault + 'w topo_link" where
  "getLink n index = (if index < length (links n) then Inr (snd (links n ! index)) else Inl Undefined)"

definition getLinkTo :: "'w topo_node \<Rightarrow> int \<Rightarrow> 'w topo_link option" where
  "getLinkTo n a = map_of (links n) a"

definition addLinkTo :: "int \<Rightarrow> 'w \<Rightarrow> 'w topo_node \<Rightarrow> 'w topo_node" where
  "addLinkTo dest w n =
     (case map_of (links n) dest of
        None \<Rightarrow> n\<lparr>links := assign dest \<lparr>weight = w, srcNode = addr n, destNode = dest\<rparr> (links n)\<rparr>
      | Some l \<Rightarrow> n\<lparr>links := assign dest (l\<lparr>weight := w\<rparr>) (links n)\<rparr>)"

text \<open>\<open>newNode->addLinkTo(addNodeFor(dest), w)\<close> for the node at \<open>a\<close>.\<close>

definition connect :: "int \<Rightarrow> 'w topology \<Rightarrow> int \<times> 'w \<Rightarrow> 'w topology" where
  "connect a t = (\<lambda>(dest, w).
     let t = addNodeFor dest t
     in case map_of t a of None \<Rightarrow> t | Some n \<Rightarrow> assign a (addLinkTo dest w n) t)"

text \<open>
  The constructor from an OMNeT++ topology, which is given by the addresses of the nodes and of their neighbours with
  the weights.
\<close>

definition of_cTopology :: "(int \<times> (int \<times> 'w) list) list \<Rightarrow> 'w topology" where
  "of_cTopology topo = foldl (\<lambda>t (a, outs). foldl (connect a) (addNodeFor a t) outs) [] topo"

definition copy :: "'w topology \<Rightarrow> 'w topology \<Rightarrow> 'w topology" where
  "copy this topo =
     foldl (\<lambda>t (a, n). foldl (\<lambda>t (_, l). connect a t (destNode l, weight l)) (addNodeFor a t) (links n)) this topo"

text \<open>\<open>operator=\<close>; \<open>same\<close> is whether both are the same object.\<close>

definition copy_assign :: "bool \<Rightarrow> 'w topology \<Rightarrow> 'w topology \<Rightarrow> 'w topology" where
  "copy_assign same this topo = (if same then this else copy [] topo)"

section \<open>Well-formed topologies\<close>

text \<open>The address of a node is its key, links start at their node and lead to a node of the topology.\<close>

definition wf_node :: "int set \<Rightarrow> int \<Rightarrow> 'w topo_node \<Rightarrow> bool" where
  "wf_node N a n \<longleftrightarrow> addr n = a \<and> ascending (links n) \<and>
     (\<forall>d l. map_of (links n) d = Some l \<longrightarrow> srcNode l = a \<and> destNode l = d \<and> d \<in> N)"

definition wf_topology :: "'w topology \<Rightarrow> bool" where
  "wf_topology t \<longleftrightarrow> ascending t \<and> (\<forall>a n. map_of t a = Some n \<longrightarrow> wf_node (dom (map_of t)) a n)"

definition edge :: "'w topology \<Rightarrow> int \<Rightarrow> int \<rightharpoonup> 'w" where
  "edge t a = (case map_of t a of None \<Rightarrow> Map.empty | Some n \<Rightarrow> map_option weight \<circ> map_of (links n))"

lemma wf_node_mono: "wf_node N a n \<Longrightarrow> N \<subseteq> M \<Longrightarrow> wf_node M a n"
  by (auto simp: wf_node_def)

lemma dom_addNodeFor [simp]: "dom (map_of (addNodeFor a t)) = insert a (dom (map_of t))"
  by (auto simp: addNodeFor_def map_of_assign split: option.splits)

lemma edge_addNodeFor [simp]: "edge (addNodeFor a t) = edge t"
  by (auto simp: edge_def addNodeFor_def map_of_assign fun_eq_iff split: option.splits)

lemma wf_addNodeFor: "wf_topology t \<Longrightarrow> wf_topology (addNodeFor a t)"
  by (cases "map_of t a")
    (auto simp: wf_topology_def wf_node_def addNodeFor_def ascending_assign map_of_assign split: if_splits)

lemma wf_addLinkTo: "wf_node N a n \<Longrightarrow> d \<in> N \<Longrightarrow> wf_node N a (addLinkTo d w n)"
  by (cases "map_of (links n) d")
    (auto simp: wf_node_def addLinkTo_def ascending_assign map_of_assign split: if_splits)

lemma edge_addLinkTo: "map_option weight \<circ> map_of (links (addLinkTo d w n)) = (map_option weight \<circ> map_of (links n))(d \<mapsto> w)"
  by (cases "map_of (links n) d") (auto simp: addLinkTo_def map_of_assign)

lemma edge_assign: "edge (assign a n t) = (edge t)(a := map_option weight \<circ> map_of (links n))"
  by (auto simp: edge_def map_of_assign fun_eq_iff)

lemma connect_ok:
  assumes "wf_topology t" and "a \<in> dom (map_of t)"
  shows "wf_topology (connect a t (d, w))" (is ?wf)
    and "dom (map_of (connect a t (d, w))) = insert d (dom (map_of t))" (is ?dom)
    and "edge (connect a t (d, w)) = (edge t)(a := (edge t a)(d \<mapsto> w))" (is ?edge)
proof -
  let ?t = "addNodeFor d t"
  have "a \<in> dom (map_of ?t)" using assms(2) by simp
  then obtain n where n: "map_of ?t a = Some n" by blast
  have c: "connect a t (d, w) = assign a (addLinkTo d w n) ?t" by (simp add: connect_def n)
  have wf: "wf_topology ?t" by (rule wf_addNodeFor [OF assms(1)])
  then have nw: "wf_node (dom (map_of ?t)) a n" using n by (simp add: wf_topology_def)
  show dom: ?dom using assms(2) by (auto simp: c map_of_assign)
  show ?wf
    unfolding wf_topology_def dom
  proof (intro conjI allI impI)
    show "ascending (connect a t (d, w))" using wf by (simp add: c ascending_assign wf_topology_def)
    fix b m assume m: "map_of (connect a t (d, w)) b = Some m"
    have "wf_node (dom (map_of ?t)) b m"
    proof (cases "b = a")
      case True
      then show ?thesis using m nw wf_addLinkTo [OF nw, of d w] by (simp add: c map_of_assign)
    next
      case False
      then show ?thesis using m wf by (simp add: c map_of_assign wf_topology_def)
    qed
    then show "wf_node (insert d (dom (map_of t))) b m" by simp
  qed
  have "edge t a = map_option weight \<circ> map_of (links n)" 
    unfolding edge_addNodeFor [of d t, symmetric] by (simp add: edge_def n del: edge_addNodeFor)
  then show ?edge by (simp add: c edge_assign edge_addLinkTo)
qed

lemma connects_ok:
  assumes "wf_topology t" and "a \<in> dom (map_of t)"
  shows "wf_topology (foldl (connect a) t outs) \<and>
    dom (map_of (foldl (connect a) t outs)) = fst ` set outs \<union> dom (map_of t) \<and>
    edge (foldl (connect a) t outs) = (edge t)(a := edge t a ++ map_of (rev outs))"
  using assms
proof (induction outs arbitrary: t)
  case (Cons dw outs)
  obtain d w where dw: "dw = (d, w)" by (cases dw)
  note c = connect_ok [OF Cons.prems, of d w]
  have "a \<in> dom (map_of (connect a t (d, w)))" using Cons.prems(2) unfolding c(2) by simp
  note IH = Cons.IH [OF c(1) this]
  show ?case using IH c by (auto simp: dw map_add_def fun_eq_iff split: option.split)
qed simp


lemma wf_topology_eqI:
  assumes "wf_topology t" and "wf_topology t'" and dom: "dom (map_of t) = dom (map_of t')" and edge: "edge t = edge t'"
  shows "t = t'"
proof (rule ascending_unique)
  show "map_of t = map_of t'"
  proof
    fix a
    show "map_of t a = map_of t' a"
    proof (cases "a \<in> dom (map_of t)")
      case True
      then obtain n n' where n: "map_of t a = Some n" "map_of t' a = Some n'" using dom by blast
      then have wf: "wf_node (dom (map_of t)) a n" "wf_node (dom (map_of t)) a n'"
        using assms by (auto simp: wf_topology_def)
      have "map_of (links n) = map_of (links n')"
      proof
        fix d
        have e: "map_option weight (map_of (links n) d) = map_option weight (map_of (links n') d)"
          using fun_cong [OF fun_cong [OF edge, of a], of d] n by (simp add: edge_def)
        show "map_of (links n) d = map_of (links n') d"
        proof (cases "map_of (links n) d")
          case (Some l)
          then obtain l' where l': "map_of (links n') d = Some l'" using e by (cases "map_of (links n') d") auto
          then have "l = l'" using Some e wf by (auto simp: wf_node_def)
          then show ?thesis using Some l' by simp
        qed (use e in simp)
      qed
      then have "links n = links n'" using wf by (auto simp: wf_node_def intro: ascending_unique)
      then have "n = n'" using wf by (simp add: wf_node_def)
      then show ?thesis using n by simp
    next
      case False
      then have "map_of t a = None" "map_of t' a = None" using dom by blast+
      then show ?thesis by simp
    qed
  qed
qed (use assms in \<open>simp_all add: wf_topology_def\<close>)

section \<open>Building and copying\<close>

definition extend_with :: "'w topology \<Rightarrow> int \<times> (int \<times> 'w) list \<Rightarrow> 'w topology" where
  "extend_with t = (\<lambda>(a, outs). foldl (connect a) (addNodeFor a t) outs)"

lemma extend_ok:
  assumes "wf_topology t"
  shows "wf_topology (extend_with t (a, outs)) \<and>
    dom (map_of (extend_with t (a, outs))) = insert a (fst ` set outs \<union> dom (map_of t)) \<and>
    edge (extend_with t (a, outs)) = (edge t)(a := edge t a ++ map_of (rev outs))"
  using connects_ok [OF wf_addNodeFor [OF assms], of a a outs] by (simp add: extend_with_def)

lemma extend_all_ok:
  assumes "wf_topology t"
  shows "wf_topology (foldl extend_with t topo) \<and>
    dom (map_of (foldl extend_with t topo)) = (\<Union>p \<in> set topo. insert (fst p) (fst ` set (snd p))) \<union> dom (map_of t) \<and>
    edge (foldl extend_with t topo) b =
      foldl (\<lambda>e (a, outs). if a = b then e ++ map_of (rev outs) else e) (edge t b) topo"
  using assms
proof (induction topo arbitrary: t)
  case (Cons p topo)
  obtain a outs where p: "p = (a, outs)" by (cases p)
  note e = extend_ok [OF Cons.prems, of a outs]
  note IH = Cons.IH [OF conjunct1 [OF e]]
  have "((edge t)(a := edge t a ++ map_of (rev outs))) b = (if a = b then edge t b ++ map_of (rev outs) else edge t b)" by simp
  then show ?case using e IH by (simp add: p Un_ac)
qed simp

lemma of_cTopology_extend: "of_cTopology topo = foldl extend_with [] topo"
  by (simp add: of_cTopology_def extend_with_def [abs_def])

lemma wf_Nil: "wf_topology []"
  by (simp add: wf_topology_def)

lemma edge_Nil: "edge [] a = Map.empty"
  by (simp add: edge_def)

lemma wf_of_cTopology: "wf_topology (of_cTopology topo)"
  using extend_all_ok [OF wf_Nil, of topo] by (simp add: of_cTopology_extend)

lemma copy_extend: "copy this topo = foldl extend_with this (map (\<lambda>(a, n). (a, map (\<lambda>(_, l). (destNode l, weight l)) (links n))) topo)"
proof -
  have "foldl (\<lambda>t (_, l). connect a t (destNode l, weight l)) t ls = foldl (connect a) t (map (\<lambda>(_, l). (destNode l, weight l)) ls)"
    for a t and ls :: "(int, 'a topo_link) std_map"
    by (simp add: foldl_map case_prod_unfold)
  then show ?thesis by (simp add: copy_def extend_with_def foldl_map case_prod_unfold)
qed

lemma edges_once:
  "distinct (keys topo) \<Longrightarrow>
    foldl (\<lambda>e (a, outs). if a = b then e ++ map_of (rev outs) else e) e topo =
      (case map_of topo b of None \<Rightarrow> e | Some outs \<Rightarrow> e ++ map_of (rev outs))"
proof (induction topo arbitrary: e)
  case (Cons p topo)
  obtain a outs where p: "p = (a, outs)" by (cases p)
  show ?case
  proof (cases "a = b")
    case True
    then have "map_of topo b = None" using Cons.prems by (simp add: p keys_def map_of_eq_None_iff)
    then show ?thesis using True Cons by (simp add: p keys_def)
  qed (use Cons in \<open>simp add: p keys_def\<close>)
qed simp

lemma map_of_links:
  assumes "wf_node N a n"
  shows "map_of (rev (map (\<lambda>(_, l). (destNode l, weight l)) (links n))) = map_option weight \<circ> map_of (links n)"
proof -
  have d: "\<forall>(d, l) \<in> set (links n). destNode l = d"
    using assms ascending_distinct [of "links n"] by (auto simp: wf_node_def keys_def)
  then have m: "map (\<lambda>(_, l). (destNode l, weight l)) (links n) = map (\<lambda>(d, l). (d, weight l)) (links n)" by auto
  have "distinct (keys (map (\<lambda>(d, l). (d, weight l)) (links n)))"
    using assms ascending_distinct [of "links n"] by (simp add: wf_node_def keys_def comp_def case_prod_unfold)
  then have "map_of (rev (map (\<lambda>(d, l). (d, weight l)) (links n))) = map_of (map (\<lambda>(d, l). (d, weight l)) (links n))"
    by (rule map_of_rev_keys)
  then show ?thesis by (simp add: m map_of_map)
qed

text \<open>A copy is the same topology.\<close>

theorem copy_topology:
  assumes "wf_topology t"
  shows "copy [] t = t"
proof (rule wf_topology_eqI)
  let ?f = "\<lambda>(a :: int, n). (a, map (\<lambda>(_, l). (destNode l, weight l)) (links n))"
  note all = extend_all_ok [OF wf_Nil, of "map ?f t", folded copy_extend]
  show "wf_topology (copy [] t)" using all by blast
  have asc: "distinct (keys t)" using assms ascending_distinct by (auto simp: wf_topology_def)
  have node: "wf_node (dom (map_of t)) a n" if "(a, n) \<in> set t" for a n
    using assms that asc by (simp add: wf_topology_def keys_def)
  have "\<exists>n. map_of t (destNode l) = Some n" if "(a, n) \<in> set t" "(d, l) \<in> set (links n)" for a n d l
    using node [OF that(1)] that(2) ascending_distinct [of "links n"] by (auto simp: wf_node_def keys_def)
  then have dests: "destNode l \<in> fst ` set t" if "(a, n) \<in> set t" "(d, l) \<in> set (links n)" for a n d l
    using that by (metis domI dom_map_of_conv_image_fst)
  have "dom (map_of (copy [] t)) = (\<Union>p \<in> set t. insert (fst p) (fst ` set (snd (?f p))))"
    using all by (simp add: case_prod_unfold)
  also have "\<dots> = dom (map_of t)"
    using dests by (auto simp: dom_map_of_conv_image_fst)
  finally show "dom (map_of (copy [] t)) = dom (map_of t)" .
  show "edge (copy [] t) = edge t"
  proof
    fix b
    have k: "keys (map ?f t) = keys t" by (simp add: keys_def comp_def case_prod_unfold)
    have m: "map_of (map ?f t) b = map_option (\<lambda>n. map (\<lambda>(_, l). (destNode l, weight l)) (links n)) (map_of t b)"
      by (simp add: map_of_map)
    have "edge (copy [] t) b = foldl (\<lambda>e (a, outs). if a = b then e ++ map_of (rev outs) else e) (edge [] b) (map ?f t)"
      using all by blast
    also have "\<dots> = (case map_of (map ?f t) b of None \<Rightarrow> Map.empty | Some outs \<Rightarrow> map_of (rev outs))"
      using edges_once [of "map ?f t" b "edge [] b"] asc k by (simp add: edge_Nil cong: option.case_cong)
    also have "\<dots> = edge t b"
    proof (cases "map_of t b")
      case (Some n)
      then have "wf_node (dom (map_of t)) b n" using assms by (simp add: wf_topology_def)
      then show ?thesis using map_of_links Some unfolding m by (simp add: edge_def)
    qed (simp add: m edge_def)
    finally show "edge (copy [] t) b = edge t b" .
  qed
qed (rule assms)

end
