(* ===== verification/Sim_Dijkstra.thy ===== *)
theory Sim_Dijkstra
  imports Sim_Topology "HOL-Library.Extended_Nat"
begin

text \<open>
  \<open>doDijkstra\<close> of \<open>GoBackN/protsim/routing/Dijkstra.cc\<close>, which computes for a node the first link to each
  destination. Distances are doubles; their addition, zero and infinity are a parameter of the model, of which the theorems
  use that adding is monotone and adding a weight does not make less, as it does not for doubles that are not negative.
\<close>

record 'w arith =
  zero :: 'w
  plus :: "'w \<Rightarrow> 'w \<Rightarrow> 'w"
  INFINITY :: 'w

type_synonym 'w path_map = "(int, 'w topo_link option) std_map"

section \<open>The algorithm\<close>

text \<open>Reading \<open>D[v]\<close> of a node that has no entry would create one with 0.\<close>

definition distance :: "'w arith \<Rightarrow> (int, 'w) std_map \<Rightarrow> int \<Rightarrow> 'w" where
  "distance ar D v = (case map_of D v of Some d \<Rightarrow> d | None \<Rightarrow> zero ar)"

text \<open>The loop over the links of the current node.\<close>

fun relax_links ::
  "('w :: linorder) arith \<Rightarrow> int \<Rightarrow> int \<Rightarrow> int list \<Rightarrow> 'w topo_link list \<Rightarrow>
    (int, 'w) std_map \<times> 'w path_map \<Rightarrow> (int, 'w) std_map \<times> 'w path_map" where
  "relax_links ar src current N [] (D, P) = (D, P)"
| "relax_links ar src current N (link # ls) (D, P) =
     (let remote = destNode link;
          d = plus ar (distance ar D current) (weight link)
      in if remote \<in> set N \<and> d < distance ar D remote then
           let D = assign remote d D
           in if current = src then relax_links ar src current N ls (D, assign remote (Some link) P)
              else
                let (l, P) = subscript None current P
                in relax_links ar src current N ls (D, assign remote l P)
         else relax_links ar src current N ls (D, P))"

text \<open>The loop that looks for the closest node not handled yet.\<close>

fun closest :: "('w :: linorder) arith \<Rightarrow> (int, 'w) std_map \<Rightarrow> int list \<Rightarrow> 'w \<Rightarrow> int \<Rightarrow> int" where
  "closest ar D [] minDist closestNode = closestNode"
| "closest ar D (v # N) minDist closestNode =
     (if distance ar D v < minDist then closest ar D N (distance ar D v) v else closest ar D N minDist closestNode)"

function dijkstra_loop ::
  "('w :: linorder) arith \<Rightarrow> 'w topology \<Rightarrow> int \<Rightarrow> int list \<Rightarrow> (int, 'w) std_map \<Rightarrow> 'w path_map \<Rightarrow> int \<Rightarrow>
    fault + 'w path_map" where
  "dijkstra_loop ar t src N D P current =
     (if N = [] then Inr P
      else if current \<notin> set N then Inl Assertion
      else
        let N = filter (\<lambda>v. v \<noteq> current) N;
            ls = (case getNodeByAddr t current of None \<Rightarrow> [] | Some n \<Rightarrow> map snd (links n));
            (D, P) = relax_links ar src current N ls (D, P)
        in dijkstra_loop ar t src N D P (closest ar D N (INFINITY ar) current))"
  by pat_completeness auto
termination
  by (relation "measure (\<lambda>(ar, t, src, N, D, P, current). length N)") (auto simp: length_filter_less)

declare dijkstra_loop.simps [simp del]

text \<open>\<open>src\<close> is the result of \<open>getNodeByAddr\<close>, a null pointer if there is no such node.\<close>

definition doDijkstra :: "('w :: linorder) arith \<Rightarrow> 'w topology \<Rightarrow> int \<Rightarrow> fault + 'w path_map" where
  "doDijkstra ar t src =
     (case getNodeByAddr t src of
        None \<Rightarrow> Inl Undefined
      | Some _ \<Rightarrow>
          let N = getNodes t;
              D = foldl (\<lambda>D v. assign v (INFINITY ar) D) [] N;
              D = assign src (zero ar) D
          in dijkstra_loop ar t src N D [] src)"

section \<open>Walks\<close>

definition out_link :: "'w topology \<Rightarrow> int \<Rightarrow> 'w topo_link \<Rightarrow> bool" where
  "out_link t u l \<longleftrightarrow> (\<exists>n. map_of t u = Some n \<and> l \<in> set (map snd (links n)))"

text \<open>The links of a walk from \<open>s\<close>, where it ends and its length, added up from the start.\<close>

inductive walk :: "'w arith \<Rightarrow> 'w topology \<Rightarrow> int \<Rightarrow> 'w topo_link list \<Rightarrow> int \<Rightarrow> 'w \<Rightarrow> bool"
  for ar t s where
  walk_start: "s \<in> dom (map_of t) \<Longrightarrow> walk ar t s [] s (zero ar)"
| walk_link: "walk ar t s ls u d \<Longrightarrow> out_link t u l \<Longrightarrow> walk ar t s (ls @ [l]) (destNode l) (plus ar d (weight l))"


definition reachable :: "('w :: linorder) arith \<Rightarrow> 'w topology \<Rightarrow> int \<Rightarrow> int \<Rightarrow> bool" where
  "reachable ar t s v \<longleftrightarrow> (\<exists>ls d. walk ar t s ls v d \<and> d < INFINITY ar)"

text \<open>What the theorems use of doubles and of the weights in the topology.\<close>

definition arith_ok :: "('w :: linorder) arith \<Rightarrow> 'w topology \<Rightarrow> bool" where
  "arith_ok ar t \<longleftrightarrow> zero ar < INFINITY ar \<and> (\<forall>a. a \<le> INFINITY ar) \<and>
     (\<forall>u l. out_link t u l \<longrightarrow>
       (\<forall>a. a \<le> plus ar a (weight l)) \<and> (\<forall>a b. a \<le> b \<longrightarrow> plus ar a (weight l) \<le> plus ar b (weight l)))"

lemma out_link_node:
  assumes "wf_topology t" and "out_link t u l"
  shows "srcNode l = u \<and> destNode l \<in> dom (map_of t) \<and> u \<in> dom (map_of t)"
proof -
  obtain n where n: "map_of t u = Some n" and l: "l \<in> set (map snd (links n))" using assms(2) by (auto simp: out_link_def)
  then have wf: "wf_node (dom (map_of t)) u n" using assms(1) by (simp add: wf_topology_def)
  obtain d where "(d, l) \<in> set (links n)" using l by auto
  then have "map_of (links n) d = Some l" using wf ascending_distinct [of "links n"] by (simp add: wf_node_def keys_def)
  then show ?thesis using wf n by (auto simp: wf_node_def)
qed

lemma walk_ends: "wf_topology t \<Longrightarrow> walk ar t s ls v d \<Longrightarrow> s \<in> dom (map_of t) \<and> v \<in> dom (map_of t)"
  by (rotate_tac 1, induction rule: walk.induct) (auto dest: out_link_node)

section \<open>The links of one node\<close>

text \<open>What is known of the distances and paths found so far.\<close>

definition found :: "('w :: linorder) arith \<Rightarrow> 'w topology \<Rightarrow> int \<Rightarrow> (int, 'w) std_map \<Rightarrow> 'w path_map \<Rightarrow> bool" where
  "found ar t s D P \<longleftrightarrow> dom (map_of D) = dom (map_of t) \<and> distance ar D s = zero ar \<and>
     (\<forall>v \<in> dom (map_of t). v \<noteq> s \<longrightarrow>
       (if distance ar D v < INFINITY ar
        then \<exists>l ls. walk ar t s (l # ls) v (distance ar D v) \<and> map_of P v = Some (Some l)
        else map_of P v = None)) \<and>
     map_of P s = None \<and> dom (map_of P) \<subseteq> dom (map_of t) \<and> ascending P"

lemma distance_assign: "distance ar (assign v d D) w = (if w = v then d else distance ar D w)"
  by (simp add: distance_def map_of_assign)

lemma found_walk:
  assumes "found ar t s D P" and "v \<in> dom (map_of t)" and "distance ar D v < INFINITY ar" and "s \<in> dom (map_of t)"
  shows "\<exists>ls. walk ar t s ls v (distance ar D v)"
proof (cases "v = s")
  case True
  then show ?thesis using assms walk_start [of s t ar] by (auto simp: found_def)
next
  case False
  then have "\<exists>l ls. walk ar t s (l # ls) v (distance ar D v)" using assms(1-3) unfolding found_def by metis
  then show ?thesis by blast
qed

lemma found_step:
  assumes F: "found ar t s D P" and s: "s \<in> dom (map_of t)" and ok: "arith_ok ar t" and wf: "wf_topology t"
    and l: "out_link t c l" and c: "distance ar D c < INFINITY ar" and ne: "destNode l \<noteq> s"
    and less: "plus ar (distance ar D c) (weight l) < distance ar D (destNode l)"
    and via: "via = (if c = s then Some l else the (map_of P c))"
  shows "found ar t s (assign (destNode l) (plus ar (distance ar D c) (weight l)) D) (assign (destNode l) via P)"
proof -
  let ?r = "destNode l" and ?d = "plus ar (distance ar D c) (weight l)"
  note ln = out_link_node [OF wf l]
  have fin: "?d < INFINITY ar" using less ok by (meson arith_ok_def less_le_trans)
  have "\<exists>m ms. walk ar t s (m # ms) ?r ?d \<and> via = Some m"
  proof (cases "c = s")
    case True
    then have "walk ar t s ([] @ [l]) ?r ?d"
      using walk_link [OF walk_start [OF s] l [unfolded True], of ar] F by (simp add: found_def)
    then show ?thesis using via True by auto
  next
    case False
    then obtain m ms where m: "walk ar t s (m # ms) c (distance ar D c)" "map_of P c = Some (Some m)"
      using F c ln unfolding found_def by meson
    then have "walk ar t s (m # (ms @ [l])) ?r ?d" using walk_link [OF m(1) l] by simp
    then show ?thesis using via False m(2) by auto
  qed
  then show ?thesis
    using F ne ln fin unfolding found_def by (auto simp: distance_assign map_of_assign ascending_assign)
qed

lemma relax_links_found:
  assumes "found ar t s D P" and "s \<in> dom (map_of t)" and "arith_ok ar t" and "wf_topology t"
    and "\<forall>l \<in> set ls. out_link t c l" and "distance ar D c < INFINITY ar" and "c \<in> dom (map_of t)" and "c \<notin> set N" and "s \<notin> set N"
    and "relax_links ar s c N ls (D, P) = (D', P')"
  shows "found ar t s D' P' \<and> (\<forall>v. v \<notin> set N \<longrightarrow> distance ar D' v = distance ar D v) \<and>
    (\<forall>v. distance ar D' v \<le> distance ar D v) \<and>
    (\<forall>l \<in> set ls. destNode l \<in> set N \<longrightarrow> distance ar D' (destNode l) \<le> plus ar (distance ar D c) (weight l))"
  using assms
proof (induction ls arbitrary: D P)
  case (Cons l ls)
  let ?r = "destNode l" and ?d = "plus ar (distance ar D c) (weight l)"
  show ?case
  proof (cases "?r \<in> set N \<and> ?d < distance ar D ?r")
    case True
    let ?D = "assign ?r ?d D" and ?P = "assign ?r (if c = s then Some l else the (map_of P c)) P"
    have ne: "?r \<noteq> s" "?r \<noteq> c" using True Cons.prems by auto
    have F: "found ar t s ?D ?P"
      using found_step [OF Cons.prems(1-4) _ Cons.prems(6) ne(1)] True Cons.prems(5) by simp
    have "relax_links ar s c N ls (?D, ?P) = (D', P')"
    proof (cases "c = s")
      case False
      then obtain m where "map_of P c = Some (Some m)" using Cons.prems(1,6,7) unfolding found_def by meson
      then show ?thesis using Cons.prems(10) True False by (simp add: Let_def subscript_found)
    qed (use Cons.prems(10) True in \<open>simp add: Let_def\<close>)
    moreover have "distance ar ?D c = distance ar D c" using ne by (simp add: distance_assign)
    ultimately have IH: "found ar t s D' P' \<and> (\<forall>v. v \<notin> set N \<longrightarrow> distance ar D' v = distance ar ?D v) \<and>
        (\<forall>v. distance ar D' v \<le> distance ar ?D v) \<and>
        (\<forall>l \<in> set ls. destNode l \<in> set N \<longrightarrow> distance ar D' (destNode l) \<le> plus ar (distance ar D c) (weight l))"
      using Cons.IH [OF F Cons.prems(2-4)] Cons.prems(5-9) by simp
    have "distance ar ?D v \<le> distance ar D v" for v using True by (auto simp: distance_assign)
    moreover have "distance ar D' ?r \<le> ?d" using IH by (metis distance_assign)
    ultimately show ?thesis using IH True by (auto simp: distance_assign intro: order_trans)
  next
    case False
    then have "relax_links ar s c N ls (D, P) = (D', P')" using Cons.prems(10) by (simp add: Let_def del: de_Morgan_conj)
    then have IH: "found ar t s D' P' \<and> (\<forall>v. v \<notin> set N \<longrightarrow> distance ar D' v = distance ar D v) \<and>
        (\<forall>v. distance ar D' v \<le> distance ar D v) \<and>
        (\<forall>l \<in> set ls. destNode l \<in> set N \<longrightarrow> distance ar D' (destNode l) \<le> plus ar (distance ar D c) (weight l))"
      using Cons.IH [OF Cons.prems(1-4)] Cons.prems(5-9) by simp
    then show ?thesis using False by (auto intro: order_trans)
  qed
qed simp


section \<open>The closest node\<close>

lemma closest_least:
  "closest ar D N m c = c \<and> (\<forall>v \<in> set N. m \<le> distance ar D v) \<or>
    closest ar D N m c \<in> set N \<and> distance ar D (closest ar D N m c) < m \<and>
    (\<forall>v \<in> set N. distance ar D (closest ar D N m c) \<le> distance ar D v)"
proof (induction N arbitrary: m c)
  case (Cons v N)
  show ?case
  proof (cases "distance ar D v < m")
    case True
    then show ?thesis using Cons.IH [of "distance ar D v" v] by (auto intro: order_trans less_imp_le less_trans)
  next
    case False
    then show ?thesis using Cons.IH [of m c] by auto
  qed
qed simp

section \<open>The main loop\<close>

text \<open>
  Before a round: nodes no longer in \<open>N\<close> have their final distance, and their links have been followed; \<open>current\<close> is a
  closest one of the others, or none of these has been reached.
\<close>

definition dijkstra_inv ::
  "('w :: linorder) arith \<Rightarrow> 'w topology \<Rightarrow> int \<Rightarrow> int list \<Rightarrow> (int, 'w) std_map \<Rightarrow> 'w path_map \<Rightarrow> int \<Rightarrow> bool" where
  "dijkstra_inv ar t s N D P c \<longleftrightarrow> found ar t s D P \<and> set N \<subseteq> dom (map_of t) \<and>
     (\<forall>u \<in> dom (map_of t) - set N. distance ar D u < INFINITY ar \<and>
       (\<forall>ls d. walk ar t s ls u d \<longrightarrow> distance ar D u \<le> d) \<and>
       (\<forall>l. out_link t u l \<longrightarrow> distance ar D (destNode l) \<le> plus ar (distance ar D u) (weight l))) \<and>
     (s \<in> set N \<longrightarrow> set N = dom (map_of t)) \<and>
     (if c \<in> set N then distance ar D c < INFINITY ar \<and> (\<forall>v \<in> set N. distance ar D c \<le> distance ar D v)
      else \<forall>v \<in> set N. distance ar D v = INFINITY ar)"

text \<open>No walk gets to a node that has not been handled with less than the least distance of these.\<close>

lemma walk_lower:
  assumes H: "dijkstra_inv ar t s N D P c" and ok: "arith_ok ar t" and wf: "wf_topology t" and w: "walk ar t s ls v d"
  shows "v \<notin> set N \<and> distance ar D v \<le> d \<or> (\<exists>y \<in> set N. distance ar D y \<le> d)"
  using w
proof (induction rule: walk.induct)
  case walk_start
  have "distance ar D s = zero ar" using H by (simp add: dijkstra_inv_def found_def)
  then show ?case by (cases "s \<in> set N") (auto intro: bexI [of _ s])
next
  case (walk_link ls u d l)
  have grow: "d \<le> plus ar d (weight l)" and mono: "a \<le> d \<Longrightarrow> plus ar a (weight l) \<le> plus ar d (weight l)" for a
    using ok walk_link.hyps(2) unfolding arith_ok_def by blast+
  from walk_link.IH show ?case
  proof
    assume u: "u \<notin> set N \<and> distance ar D u \<le> d"
    have "u \<in> dom (map_of t)" using out_link_node [OF wf walk_link.hyps(2)] by simp
    then have "distance ar D (destNode l) \<le> plus ar (distance ar D u) (weight l)"
      using H u walk_link.hyps(2) unfolding dijkstra_inv_def by blast
    also have "\<dots> \<le> plus ar d (weight l)" using mono u by simp
    finally show ?thesis by (cases "destNode l \<in> set N") auto
  next
    assume "\<exists>y \<in> set N. distance ar D y \<le> d"
    then show ?thesis using grow order_trans by blast
  qed
qed

lemma handled_current:
  assumes "dijkstra_inv ar t s N D P c" and "arith_ok ar t" and "wf_topology t" and "c \<in> set N" and "walk ar t s ls c d"
  shows "distance ar D c \<le> d"
proof -
  obtain y where y: "y \<in> set N" "distance ar D y \<le> d" using walk_lower [OF assms(1-3,5)] assms(4) by blast
  then have "distance ar D c \<le> distance ar D y" using assms(1,4) unfolding dijkstra_inv_def by simp
  then show ?thesis using y(2) by simp
qed

lemma handled_unreachable:
  assumes "dijkstra_inv ar t s N D P c" and "arith_ok ar t" and "wf_topology t" and "c \<notin> set N" and "v \<in> set N"
  shows "\<not> reachable ar t s v"
proof
  assume "reachable ar t s v"
  then obtain ls d where "walk ar t s ls v d" "d < INFINITY ar" by (auto simp: reachable_def)
  moreover have "distance ar D y = INFINITY ar" if "y \<in> set N" for y using assms(1,4) that unfolding dijkstra_inv_def by simp
  ultimately show False using walk_lower [OF assms(1-3)] assms(5) by fastforce
qed

lemma handled_step:
  assumes H: "dijkstra_inv ar t s N D P c" and s: "s \<in> dom (map_of t)" and ok: "arith_ok ar t" and wf: "wf_topology t"
    and c: "c \<in> set N" and start: "s \<in> set N \<Longrightarrow> c = s"
    and N': "N' = filter (\<lambda>v. v \<noteq> c) N" and n: "map_of t c = Some n"
    and r: "relax_links ar s c N' (map snd (links n)) (D, P) = (D', P')"
  shows "dijkstra_inv ar t s N' D' P' (closest ar D' N' (INFINITY ar) c)"
proof -
  note Hs = H [unfolded dijkstra_inv_def]
  have fin: "distance ar D c < INFINITY ar" and cN': "c \<notin> set N'" and sN': "s \<notin> set N'" and ct: "c \<in> dom (map_of t)"
    using Hs c start N' n by auto
  have out: "out_link t c l \<longleftrightarrow> l \<in> set (map snd (links n))" for l using n by (simp add: out_link_def)
  have F: "found ar t s D P" using Hs by blast
  have R: "found ar t s D' P' \<and> (\<forall>v. v \<notin> set N' \<longrightarrow> distance ar D' v = distance ar D v) \<and>
      (\<forall>v. distance ar D' v \<le> distance ar D v) \<and>
      (\<forall>l \<in> set (map snd (links n)). destNode l \<in> set N' \<longrightarrow> distance ar D' (destNode l) \<le> plus ar (distance ar D c) (weight l))"
    by (rule relax_links_found [OF F s ok wf _ fin ct cN' sN' r]) (simp add: out)
  have same: "distance ar D' u = distance ar D u" if "u \<notin> set N'" for u using R that by blast
  have low: "distance ar D u \<le> d" if "u \<in> dom (map_of t) - set N'" "walk ar t s ls u d" for u ls d
    using that Hs handled_current [OF H ok wf c] N' by (cases "u = c") auto
  have rel: "distance ar D' (destNode l) \<le> plus ar (distance ar D' u) (weight l)"
    if u: "u \<in> dom (map_of t) - set N'" and l: "out_link t u l" for u l
  proof (cases "u = c")
    case True
    show ?thesis
    proof (cases "destNode l \<in> set N'")
      case False
      obtain ls where "walk ar t s ls c (distance ar D c)" using found_walk [OF F ct fin s] by blast
      then have "walk ar t s (ls @ [l]) (destNode l) (plus ar (distance ar D c) (weight l))"
        by (rule walk_link) (use l True in simp)
      then have "distance ar D (destNode l) \<le> plus ar (distance ar D c) (weight l)"
        using low out_link_node [OF wf l] False by blast
      then show ?thesis using same [OF False] same [OF cN'] True by simp
    qed (use R l True same [OF cN'] out in auto)
  next
    case False
    then have "distance ar D (destNode l) \<le> plus ar (distance ar D u) (weight l)" using Hs u l N' by auto
    moreover have "distance ar D' (destNode l) \<le> distance ar D (destNode l)" using R by blast
    ultimately show ?thesis using same [of u] u by auto
  qed
  let ?c = "closest ar D' N' (INFINITY ar) c"
  have "if ?c \<in> set N' then distance ar D' ?c < INFINITY ar \<and> (\<forall>v \<in> set N'. distance ar D' ?c \<le> distance ar D' v)
      else \<forall>v \<in> set N'. distance ar D' v = INFINITY ar"
    using closest_least [of ar D' N' "INFINITY ar" c] cN' ok by (auto simp: arith_ok_def intro: antisym)
  moreover have "distance ar D' u < INFINITY ar" if "u \<in> dom (map_of t) - set N'" for u
    using that Hs fin same [of u] N' by (cases "u = c") auto
  moreover have "\<forall>ls d. walk ar t s ls u d \<longrightarrow> distance ar D' u \<le> d" if "u \<in> dom (map_of t) - set N'" for u
    using low [OF that] same [of u] that by auto
  moreover have "set N' \<subseteq> dom (map_of t)" using Hs N' by auto
  moreover have "found ar t s D' P'" using R by blast
  ultimately show ?thesis using rel sN' unfolding dijkstra_inv_def by blast
qed


text \<open>The result: the first link of a shortest walk to every other node.\<close>

definition shortest_paths :: "('w :: linorder) arith \<Rightarrow> 'w topology \<Rightarrow> int \<Rightarrow> 'w path_map \<Rightarrow> bool" where
  "shortest_paths ar t s P \<longleftrightarrow> ascending P \<and> dom (map_of P) = dom (map_of t) - {s} \<and>
     (\<forall>v \<in> dom (map_of t) - {s}. \<exists>l ls d. map_of P v = Some (Some l) \<and> walk ar t s (l # ls) v d \<and>
       d < INFINITY ar \<and> (\<forall>ls' d'. walk ar t s ls' v d' \<longrightarrow> d \<le> d'))"

lemma handled_done:
  assumes "dijkstra_inv ar t s [] D P c" and "s \<in> dom (map_of t)"
  shows "shortest_paths ar t s P" and "\<forall>v \<in> dom (map_of t). reachable ar t s v"
proof -
  have F: "found ar t s D P" and fin: "\<And>v. v \<in> dom (map_of t) \<Longrightarrow> distance ar D v < INFINITY ar"
    and low: "\<And>v ls d. v \<in> dom (map_of t) \<Longrightarrow> walk ar t s ls v d \<Longrightarrow> distance ar D v \<le> d"
    using assms(1) by (auto simp: dijkstra_inv_def)
  have path: "\<exists>l ls. walk ar t s (l # ls) v (distance ar D v) \<and> map_of P v = Some (Some l)"
    if "v \<in> dom (map_of t) - {s}" for v
    using F fin [of v] that unfolding found_def by (metis DiffE singletonI)
  have sub: "dom (map_of P) \<subseteq> dom (map_of t) - {s}" using F unfolding found_def by auto
  have asc: "ascending P" using F unfolding found_def by blast
  have "dom (map_of t) - {s} \<subseteq> dom (map_of P)" using path by blast
  then have "dom (map_of P) = dom (map_of t) - {s}" using sub by blast
  moreover have "\<exists>l ls d. map_of P v = Some (Some l) \<and> walk ar t s (l # ls) v d \<and>
      d < INFINITY ar \<and> (\<forall>ls' d'. walk ar t s ls' v d' \<longrightarrow> d \<le> d')" if v: "v \<in> dom (map_of t) - {s}" for v
    using path [OF v] fin [of v] low [of v] v by blast
  ultimately show "shortest_paths ar t s P" using asc unfolding shortest_paths_def by blast
  show "\<forall>v \<in> dom (map_of t). reachable ar t s v"
    unfolding reachable_def using found_walk [OF F _ fin assms(2)] fin by blast
qed

lemma dijkstra_loop_result:
  assumes "dijkstra_inv ar t s N D P c" and "s \<in> set N \<Longrightarrow> c = s" and "s \<in> dom (map_of t)" and "arith_ok ar t" and "wf_topology t"
  shows "if \<forall>v \<in> dom (map_of t). reachable ar t s v
    then \<exists>P'. dijkstra_loop ar t s N D P c = Inr P' \<and> shortest_paths ar t s P'
    else dijkstra_loop ar t s N D P c = Inl Assertion"
  using assms
proof (induction ar t s N D P c rule: dijkstra_loop.induct)
  case (1 ar t s N D P c)
  show ?case
  proof (cases "N = []")
    case True
    then show ?thesis using handled_done [of ar t s D P c] "1.prems"(1,3) by (simp add: dijkstra_loop.simps)
  next
    case ne: False
    show ?thesis
    proof (cases "c \<in> set N")
      case False
      have "\<not> reachable ar t s (List.hd N)"
        using handled_unreachable [OF "1.prems"(1,4,5) False] ne by simp
      moreover have "List.hd N \<in> dom (map_of t)"
        using "1.prems"(1) list.set_sel(1) [OF ne] unfolding dijkstra_inv_def by blast
      ultimately show ?thesis using ne False by (auto simp: dijkstra_loop.simps [of ar t s N])
    next
      case True
      then have "c \<in> dom (map_of t)" using "1.prems"(1) unfolding dijkstra_inv_def by auto
      then obtain n where n: "map_of t c = Some n" by blast
      let ?N = "filter (\<lambda>v. v \<noteq> c) N"
      obtain D' P' where r: "relax_links ar s c ?N (map snd (links n)) (D, P) = (D', P')" by fastforce
      let ?c = "closest ar D' ?N (INFINITY ar) c"
      have H: "dijkstra_inv ar t s ?N D' P' ?c"
        by (rule handled_step [OF "1.prems"(1,3,4,5) True "1.prems"(2) refl n r])
      have "dijkstra_loop ar t s N D P c = dijkstra_loop ar t s ?N D' P' ?c"
        using ne True r n by (simp add: dijkstra_loop.simps [of ar t s N] getNodeByAddr_def Let_def)
      moreover have start: "s \<in> set ?N \<Longrightarrow> ?c = s" using "1.prems"(2) by auto
      have "if \<forall>v \<in> dom (map_of t). reachable ar t s v
        then \<exists>P''. dijkstra_loop ar t s ?N D' P' ?c = Inr P'' \<and> shortest_paths ar t s P''
        else dijkstra_loop ar t s ?N D' P' ?c = Inl Assertion"
        by (rule "1.IH" [OF ne _ refl refl _ refl H start "1.prems"(3-5)]) (use True r n in \<open>simp_all add: getNodeByAddr_def\<close>)
      ultimately show ?thesis by simp
    qed
  qed
qed

lemma map_of_inits: "map_of (foldl (\<lambda>D v. assign v d D) D N) = map_of D ++ (\<lambda>v. if v \<in> set N then Some d else None)"
  by (induction N arbitrary: D) (auto simp: map_of_assign map_add_def fun_eq_iff)

lemma handled_start:
  assumes "s \<in> dom (map_of t)" and "arith_ok ar t"
  shows "dijkstra_inv ar t s (getNodes t) (assign s (zero ar) (foldl (\<lambda>D v. assign v (INFINITY ar) D) [] (getNodes t))) [] s"
proof -
  have N: "set (getNodes t) = dom (map_of t)" by (simp add: getNodes_def keys_def dom_map_of_conv_image_fst)
  let ?D = "assign s (zero ar) (foldl (\<lambda>D v. assign v (INFINITY ar) D) [] (getNodes t))"
  have D: "map_of ?D v = (if v = s then Some (zero ar) else if v \<in> dom (map_of t) then Some (INFINITY ar) else None)" for v
    by (simp add: map_of_assign map_of_inits N)
  have "distance ar ?D v = (if v \<noteq> s \<and> v \<in> dom (map_of t) then INFINITY ar else zero ar)" for v
    by (simp add: distance_def D)
  moreover have "dom (map_of ?D) = dom (map_of t)" using assms(1) by (auto simp: D dom_def split: if_splits)
  ultimately show ?thesis
    using assms by (auto simp: dijkstra_inv_def found_def N arith_ok_def less_imp_le)
qed

lemma doDijkstra_start:
  "s \<in> dom (map_of t) \<Longrightarrow> doDijkstra ar t s =
    dijkstra_loop ar t s (getNodes t) (assign s (zero ar) (foldl (\<lambda>D v. assign v (INFINITY ar) D) [] (getNodes t))) [] s"
  by (auto simp: doDijkstra_def getNodeByAddr_def Let_def)

text \<open>
  C33: If every node can be reached, \<open>doDijkstra\<close> finds for each other node the first link of a walk of the least length,
  where lengths are added up from the start as the code does, whatever the rounding. If some
  node cannot be reached, the assertion in the loop fails.
\<close>

theorem dijkstra_shortest:
  assumes "wf_topology t" and "s \<in> dom (map_of t)" and "arith_ok ar t"
  shows "if \<forall>v \<in> dom (map_of t). reachable ar t s v
    then \<exists>P. doDijkstra ar t s = Inr P \<and> shortest_paths ar t s P
    else doDijkstra ar t s = Inl Assertion"
  unfolding doDijkstra_start [OF assms(2)]
  by (rule dijkstra_loop_result [OF handled_start [OF assms(2,3)] refl assms(2,3,1)])

definition enat_arith :: "enat arith" where
  "enat_arith = \<lparr>zero = 0, plus = (+), INFINITY = \<infinity>\<rparr>"

lemma enat_arith_ok: "arith_ok enat_arith t"
proof -
  have "a \<le> a + w" for a w :: enat by (rule add_increasing2) simp_all
  then show ?thesis unfolding arith_ok_def enat_arith_def by (auto intro: add_right_mono)
qed

lemma dijkstra_shortest_witness:
  "shortest_paths enat_arith (of_cTopology [(1, [(2, 1), (3, 5)]), (2, [(3, 1)]), (3, [(1, 1)])]) 1
     [(2, Some \<lparr>weight = 1, srcNode = 1, destNode = 2\<rparr>), (3, Some \<lparr>weight = 1, srcNode = 1, destNode = 2\<rparr>)] \<and>
   \<not> (\<forall>v \<in> {1, 2, 3}. reachable enat_arith (of_cTopology [(1, [(2, 1)]), (2, [(1, 1)]), (3, [])]) 1 v)"
proof -
  let ?t = "of_cTopology [(1, [(2, 1), (3, 5)]), (2, [(3, 1)]), (3, [(1, 1)])] :: enat topology"
  let ?u = "of_cTopology [(1, [(2, 1)]), (2, [(1, 1)]), (3, [])] :: enat topology"
  note ev = of_cTopology_def connect_def addNodeFor_def addLinkTo_def doDijkstra_def getNodeByAddr_def getNodes_def
    dijkstra_loop.simps enat_arith_def distance_def subscript_def Let_def
  have "doDijkstra enat_arith ?t 1 = Inr [(2, Some \<lparr>weight = 1, srcNode = 1, destNode = 2\<rparr>), (3, Some \<lparr>weight = 1, srcNode = 1, destNode = 2\<rparr>)]"
    by (simp add: ev del: not_infinity_eq)
  moreover have "doDijkstra enat_arith ?u 1 = Inl Assertion" by (simp add: ev)
  moreover have "dom (map_of ?u) = {1, 2, 3}" "1 \<in> dom (map_of ?t)" by (auto simp: ev)
  ultimately show ?thesis
    using dijkstra_shortest [OF wf_of_cTopology _ enat_arith_ok, of 1 "[(1, [(2, 1), (3, 5)]), (2, [(3, 1)]), (3, [(1, 1)])]"]
      dijkstra_shortest [OF wf_of_cTopology _ enat_arith_ok, of 1 "[(1, [(2, 1)]), (2, [(1, 1)]), (3, [])]"]
    by (simp split: if_splits)
qed

end
