(* ===== verification/Sim_Network.thy ===== *)
theory Sim_Network
  imports Sim_Dijkstra
begin

text \<open>
  The network layer of the simulated nodes, \<open>GoBackN/protsim/common/NetworkStack.cc\<close> with its \<open>ForwardingTable\<close>s, and the
  routing daemon \<open>routing/FakedRoutingDaemon.cc\<close>, which fills the forwarding tables with the shortest paths. Gates are numbered;
  \<open>peers ! i\<close> is the address of the node behind \<open>netOut[i]\<close>.
\<close>

section \<open>Addresses and tables\<close>

abbreviation (input) PS_NODE_UNKNOWN :: int where "PS_NODE_UNKNOWN \<equiv> -1"
abbreviation (input) PS_DEST_BROADCAST_ALL :: int where "PS_DEST_BROADCAST_ALL \<equiv> -2"
abbreviation (input) PS_DEST_BROADCAST_LIMIT :: int where "PS_DEST_BROADCAST_LIMIT \<equiv> -3"
abbreviation (input) PS_APP_UNKNOWN :: int where "PS_APP_UNKNOWN \<equiv> -1"

datatype gate = netOut nat | toAppl nat

type_synonym forwarding_table = "(int, gate) std_map"

record net_stack =
  nodeAddr :: int
  routes :: forwarding_table
  neighbors :: forwarding_table
  applications :: forwarding_table
  peers :: "int list"
  maxTTL :: int

record net_packet =
  src_node :: int
  src_appl :: int
  dest_node :: int
  dest_appl :: int
  last_node :: int
  TTL :: int
  alert :: bool

definition lookup_peer :: "net_stack \<Rightarrow> gate \<Rightarrow> fault + int" where
  "lookup_peer s g =
     (case g of
        toAppl i \<Rightarrow> Inl Assertion
      | netOut i \<Rightarrow> if i < length (peers s) then Inr (peers s ! i) else Inl Assertion)"

text \<open>\<open>addRoute(dest, outputgate)\<close> and \<open>addRoute(dest, nextHop)\<close>\<close>

definition addRoute_gate :: "int \<Rightarrow> gate option \<Rightarrow> net_stack \<Rightarrow> fault + net_stack" where
  "addRoute_gate dest outputgate s =
     (case outputgate of
        Some (netOut i) \<Rightarrow> Inr (s\<lparr>routes := assign dest (netOut i) (routes s)\<rparr>)
      | _ \<Rightarrow> Inl Assertion)"

definition addRoute :: "int \<Rightarrow> int \<Rightarrow> net_stack \<Rightarrow> fault + net_stack" where
  "addRoute dest nextHop s = addRoute_gate dest (map_of (neighbors s) nextHop) s"

definition removeRoute :: "int \<Rightarrow> net_stack \<Rightarrow> net_stack" where
  "removeRoute dest s = s\<lparr>routes := erase dest (routes s)\<rparr>"

definition isNeighbor :: "int \<Rightarrow> net_stack \<Rightarrow> fault + bool" where
  "isNeighbor dest s =
     (case map_of (neighbors s) dest of
        None \<Rightarrow> Inr False
      | Some g \<Rightarrow> bind_res (lookup_peer s g) (\<lambda>a. Inr (a = dest)))"

text \<open>Stage 1 of \<open>initialize\<close>: the tables of neighbors and applications, by the order of the gates.\<close>

definition detect_neighbors :: "net_stack \<Rightarrow> net_stack" where
  "detect_neighbors s =
     s\<lparr>neighbors := foldl (\<lambda>tbl (a, g). assign a g tbl) (neighbors s) (zip (peers s) (map netOut [0..<length (peers s)]))\<rparr>"

definition detect_applications :: "int list \<Rightarrow> net_stack \<Rightarrow> net_stack" where
  "detect_applications appls s =
     s\<lparr>applications := foldl (\<lambda>tbl (a, g). if a \<noteq> -1 then assign a g tbl else tbl) (applications s)
        (zip appls (map toAppl [0..<length appls]))\<rparr>"

section \<open>Packets\<close>

text \<open>What a node sends: packets with the gates they leave by. Dropping a packet sends nothing.\<close>

type_synonym sends = "(net_packet \<times> gate) list"

definition deliverLocally :: "net_stack \<Rightarrow> net_packet \<Rightarrow> sends" where
  "deliverLocally s p =
     (case map_of (applications s) (dest_appl p) of
        None \<Rightarrow> []
      | Some local_out \<Rightarrow>
          [(if dest_node p = nodeAddr s then p\<lparr>dest_node := PS_NODE_UNKNOWN, dest_appl := PS_APP_UNKNOWN\<rparr> else p, local_out)])"

text \<open>The loop over the neighbors; \<open>lastNode\<close> is the last hop before this node has put itself into the packet.\<close>

fun broadcast :: "net_stack \<Rightarrow> int \<Rightarrow> net_packet \<Rightarrow> nat list \<Rightarrow> sends" where
  "broadcast s lastNode p [] = []"
| "broadcast s lastNode p (i # is) =
     (if dest_node p = PS_DEST_BROADCAST_ALL \<or> peers s ! i \<noteq> lastNode
      then (p, netOut i) # broadcast s lastNode p is
      else broadcast s lastNode p is)"

definition sendOut :: "net_stack \<Rightarrow> net_packet \<Rightarrow> sends" where
  "sendOut s p =
     (if maxTTL s \<le> TTL p then []
      else if dest_node p = PS_NODE_UNKNOWN then []
      else if dest_node p = PS_DEST_BROADCAST_ALL \<or> dest_node p = PS_DEST_BROADCAST_LIMIT then
        broadcast s (last_node p) (p\<lparr>last_node := nodeAddr s, TTL := TTL p + 1\<rparr>) [0..<length (peers s)]
      else
        (case map_of (routes s) (dest_node p) of
           None \<Rightarrow> []
         | Some output \<Rightarrow> [(p\<lparr>last_node := nodeAddr s, TTL := TTL p + 1\<rparr>, output)]))"

text \<open>
  \<open>local_msg\<close> is whether the message has the kind of a local one, \<open>from_appl\<close> the address of the application it comes from,
  if it does not come from the network.
\<close>

definition handleMessage :: "net_stack \<Rightarrow> bool \<Rightarrow> int option \<Rightarrow> net_packet \<Rightarrow> sends" where
  "handleMessage s local_msg from_appl p =
     (let locally_originated = from_appl \<noteq> None;
          p = (if locally_originated \<and> (\<not> alert p \<or> src_node p = PS_NODE_UNKNOWN)
               then p\<lparr>src_node := nodeAddr s, TTL := 0\<rparr> else p);
          p = (if locally_originated \<and> (\<not> alert p \<or> src_appl p = PS_APP_UNKNOWN)
               then p\<lparr>src_appl := the from_appl\<rparr> else p)
      in if local_msg \<or> alert p \<and> \<not> locally_originated \<or> dest_node p = nodeAddr s
         then deliverLocally s p
         else sendOut s p)"

section \<open>Routing\<close>

text \<open>The weight of a link: its \<open>cost\<close>, if it has one that is positive.\<close>

definition getMetric :: "('w :: linorder) arith \<Rightarrow> 'w \<Rightarrow> 'w option \<Rightarrow> 'w" where
  "getMetric ar one cost =
     (let retval = (case cost of None \<Rightarrow> one | Some c \<Rightarrow> c)
      in if retval \<le> zero ar then one else retval)"

fun set_routes :: "'w path_map \<Rightarrow> net_stack \<Rightarrow> fault + net_stack" where
  "set_routes [] s = Inr s"
| "set_routes ((dest, link) # P) s =
     (case link of
        None \<Rightarrow> Inl Undefined
      | Some l \<Rightarrow>
          bind_res (addRoute dest (destNode l) s) (\<lambda>s. set_routes P s))"

definition calculateRoutes :: "('w :: linorder) arith \<Rightarrow> (int \<times> (int \<times> 'w) list) list \<Rightarrow> net_stack \<Rightarrow> fault + net_stack" where
  "calculateRoutes ar topo s =
     bind_res (doDijkstra ar (of_cTopology topo) (nodeAddr s)) (\<lambda>P. set_routes P s)"


section \<open>Walks and their parts\<close>

text \<open>Addition of lengths without rounding, as of small whole numbers, and links that cost something.\<close>

locale exact_arith =
  fixes ar :: "('w :: linorder) arith"
  assumes zero_finite: "zero ar < INFINITY ar"
    and zero_least: "zero ar \<le> a"
    and infinity_greatest: "a \<le> INFINITY ar"
    and plus_zero: "plus ar (zero ar) a = a"
    and plus_commute: "plus ar a b = plus ar b a"
    and plus_assoc: "plus ar (plus ar a b) c = plus ar a (plus ar b c)"
    and plus_mono: "a \<le> b \<Longrightarrow> plus ar a c \<le> plus ar b c"
    and plus_strict: "a < b \<Longrightarrow> c < INFINITY ar \<Longrightarrow> plus ar a c < plus ar b c"

definition positive_links :: "('w :: linorder) arith \<Rightarrow> 'w topology \<Rightarrow> bool" where
  "positive_links ar t \<longleftrightarrow> (\<forall>u l. out_link t u l \<longrightarrow> zero ar < weight l)"

text \<open>The least length of the walks between two nodes.\<close>

definition least_walk :: "('w :: linorder) arith \<Rightarrow> 'w topology \<Rightarrow> int \<Rightarrow> int \<Rightarrow> 'w \<Rightarrow> bool" where
  "least_walk ar t x v d \<longleftrightarrow> (\<exists>ls. walk ar t x ls v d) \<and> (\<forall>ls' d'. walk ar t x ls' v d' \<longrightarrow> d \<le> d')"

lemma least_walk_unique: "least_walk ar t x v d \<Longrightarrow> least_walk ar t x v d' \<Longrightarrow> d = d'"
  unfolding least_walk_def by (meson antisym)

context exact_arith
begin

lemma plus_ge: "a \<le> plus ar a b"
proof -
  have "plus ar (zero ar) a \<le> plus ar b a" by (rule plus_mono [OF zero_least])
  then show ?thesis by (simp only: plus_zero plus_commute [of b a])
qed

lemma plus_ge_right: "b \<le> plus ar a b"
  unfolding plus_commute [of a b] by (rule plus_ge)

lemma exact_arith_ok: "arith_ok ar t"
  unfolding arith_ok_def by (intro conjI allI impI zero_finite infinity_greatest plus_ge plus_mono)

lemma walk_prepend:
  assumes "wf_topology t" and "walk ar t x ls v d" and "out_link t u l" and "destNode l = x"
  shows "walk ar t u (l # ls) v (plus ar (weight l) d)"
  using assms(2)
proof (induction rule: walk.induct)
  case walk_start
  have "u \<in> dom (map_of t)" using out_link_node [OF assms(1,3)] by simp
  then have "walk ar t u ([] @ [l]) (destNode l) (plus ar (zero ar) (weight l))"
    by (intro walk.walk_link [OF walk.walk_start] assms(3))
  then show ?case using assms(4) unfolding plus_commute [of "zero ar"] by simp
next
  case (walk_link ls w d l')
  have "walk ar t u ((l # ls) @ [l']) (destNode l') (plus ar (plus ar (weight l) d) (weight l'))"
    by (rule walk.walk_link [OF walk_link.IH walk_link.hyps(2)])
  then show ?case unfolding plus_assoc by simp
qed

lemma walk_tail:
  assumes "wf_topology t" and "walk ar t u ls v d" and "ls = l # ms"
  shows "out_link t u l \<and> (\<exists>d'. walk ar t (destNode l) ms v d' \<and> d = plus ar (weight l) d')"
  using assms(2,3)
proof (induction arbitrary: ms rule: walk.induct)
  case (walk_link ls w d l')
  show ?case
  proof (cases ls)
    case Nil
    then have "w = u" "d = zero ar" using walk_link.hyps(1) by (auto elim: walk.cases)
    moreover have "walk ar t (destNode l') [] (destNode l') (zero ar)"
      using out_link_node [OF assms(1) walk_link.hyps(2)] by (intro walk_start) simp
    ultimately show ?thesis using walk_link.hyps(2) walk_link.prems Nil plus_commute by auto
  next
    case (Cons m ks)
    then have m: "m = l" "ms = ks @ [l']" using walk_link.prems by auto
    then obtain d' where d': "out_link t u l" "walk ar t (destNode l) ks w d'" "d = plus ar (weight l) d'"
      using walk_link.IH [of ks] Cons by auto
    have "walk ar t (destNode l) (ks @ [l']) (destNode l') (plus ar d' (weight l'))"
      by (rule walk.walk_link [OF d'(2) walk_link.hyps(2)])
    then show ?thesis using d'(1,3) m plus_assoc by auto
  qed
qed simp

lemma least_walk_self: "v \<in> dom (map_of t) \<Longrightarrow> least_walk ar t v v (zero ar)"
  unfolding least_walk_def using walk_start zero_least by blast

text \<open>The node behind the link that \<open>doDijkstra\<close> finds is closer to the destination.\<close>

lemma next_hop_closer:
  assumes pos: "positive_links ar t" and wf: "wf_topology t" and P: "shortest_paths ar t u P"
    and v: "v \<in> dom (map_of t)" "v \<noteq> u"
  shows "\<exists>l d d'. map_of P v = Some (Some l) \<and> out_link t u l \<and> least_walk ar t u v d \<and>
    least_walk ar t (destNode l) v d' \<and> d' < d"
proof -
  have "v \<in> dom (map_of t) - {u}" using v by simp
  then obtain l ls d where l: "map_of P v = Some (Some l)" "walk ar t u (l # ls) v d" "d < INFINITY ar"
    and least: "\<And>ls' d'. walk ar t u ls' v d' \<Longrightarrow> d \<le> d'"
    using P [unfolded shortest_paths_def, THEN conjunct2, THEN conjunct2] by (elim ballE) auto
  obtain d' where out: "out_link t u l" and d': "walk ar t (destNode l) ls v d'" "d = plus ar (weight l) d'"
    using walk_tail [OF wf l(2) refl] by blast
  have fin: "weight l < INFINITY ar" "d' < INFINITY ar"
    using plus_ge [THEN le_less_trans] plus_ge_right [THEN le_less_trans] l(3) unfolding d'(2) by blast+
  have "d' \<le> d''" if w: "walk ar t (destNode l) ls'' v d''" for ls'' d''
  proof (rule ccontr)
    assume "\<not> d' \<le> d''"
    then have "plus ar d'' (weight l) < plus ar d' (weight l)" using plus_strict fin(1) by simp
    moreover have "d \<le> plus ar (weight l) d''" by (rule least [OF walk_prepend [OF wf w out refl]])
    ultimately show False using d'(2) unfolding plus_commute [of _ "weight l"] by simp
  qed
  then have "least_walk ar t (destNode l) v d'" using d'(1) unfolding least_walk_def by blast
  moreover have "least_walk ar t u v d" using l(2) least unfolding least_walk_def by blast
  moreover have "plus ar (zero ar) d' < plus ar (weight l) d'"
    using plus_strict fin(2) pos out unfolding positive_links_def by blast
  then have "d' < d" unfolding d'(2) plus_zero .
  ultimately show ?thesis using l(1) out by blast
qed

end

text \<open>Whole numbers and infinity, as they come of the number of hops and small whole costs.\<close>

interpretation hops: exact_arith enat_arith
  by unfold_locales (auto simp: enat_arith_def add.commute add.assoc intro: add_right_mono enat_add_left_cancel_less [THEN iffD2])


section \<open>The tables\<close>

lemma detect_neighbors_lookup:
  assumes "a \<in> set (peers s)"
  shows "\<exists>i < length (peers s). map_of (neighbors (detect_neighbors s)) a = Some (netOut i) \<and> peers s ! i = a"
proof -
  let ?z = "zip (peers s) (map netOut [0..<length (peers s)])"
  have "map_of (neighbors (detect_neighbors s)) = map_of (neighbors s) ++ map_of (rev ?z)"
    by (simp add: detect_neighbors_def std.find_puts)
  moreover have "a \<in> fst ` set (rev ?z)" using assms by (simp add: set_map [symmetric] del: set_map)
  then obtain g where g: "map_of (rev ?z) a = Some g" by (metis map_of_eq_None_iff option.exhaust)
  then have "(a, g) \<in> set ?z" by (metis map_of_SomeD set_rev)
  then obtain i where "i < length (peers s)" "peers s ! i = a" "g = netOut i" by (auto simp: in_set_zip)
  ultimately show ?thesis using g by auto
qed

text \<open>A path map whose links all lead to neighbors puts a route for each of its destinations into the table.\<close>

lemma set_routes_ok:
  assumes "\<forall>(v, l) \<in> set P. \<exists>m i. l = Some m \<and> map_of (neighbors s) (destNode m) = Some (netOut i)"
    and "distinct (keys P)"
  shows "\<exists>r. set_routes P s = Inr (s\<lparr>routes := r\<rparr>) \<and>
    (\<forall>v l. map_of P v = Some (Some l) \<longrightarrow> map_of r v = map_of (neighbors s) (destNode l)) \<and>
    (\<forall>v. map_of P v = None \<longrightarrow> map_of r v = map_of (routes s) v)"
  using assms
proof (induction P arbitrary: s)
  case Nil
  show ?case by (rule exI [of _ "routes s"]) simp
next
  case (Cons p P)
  obtain v m i where p: "p = (v, Some m)" and i: "map_of (neighbors s) (destNode m) = Some (netOut i)"
    using Cons.prems(1) by (cases p) auto
  let ?s = "s\<lparr>routes := assign v (netOut i) (routes s)\<rparr>"
  have "set_routes (p # P) s = set_routes P ?s" by (simp add: p addRoute_def addRoute_gate_def i)
  moreover obtain r where r: "set_routes P ?s = Inr (?s\<lparr>routes := r\<rparr>)"
      "\<forall>v l. map_of P v = Some (Some l) \<longrightarrow> map_of r v = map_of (neighbors s) (destNode l)"
      "\<forall>v. map_of P v = None \<longrightarrow> map_of r v = map_of (routes ?s) v"
    using Cons.IH [of ?s] Cons.prems by (auto simp: p)
  moreover have "map_of P v = None" using Cons.prems(2) by (simp add: p map_of_keys)
  ultimately show ?case using i by (auto simp: p map_of_assign intro!: exI [of _ r])
qed

text \<open>The topology has a link exactly where the description has one, with one of its weights.\<close>

lemma out_link_described:
  assumes "distinct (keys topo)" and "map_of topo u = Some outs" and "out_link (of_cTopology topo) u l"
  shows "(destNode l, weight l) \<in> set outs"
proof -
  let ?t = "of_cTopology topo"
  obtain n where n: "map_of ?t u = Some n" "l \<in> set (map snd (links n))" using assms(3) by (auto simp: out_link_def)
  then have wf: "wf_node (dom (map_of ?t)) u n" using wf_of_cTopology [of topo] by (simp add: wf_topology_def)
  obtain d where "(d, l) \<in> set (links n)" using n(2) by auto
  then have dl: "map_of (links n) d = Some l" using wf ascending_distinct [of "links n"] by (simp add: wf_node_def keys_def)
  then have "d = destNode l" using wf by (auto simp: wf_node_def)
  then have "edge ?t u (destNode l) = Some (weight l)" using dl n(1) by (simp add: edge_def)
  moreover have "edge ?t u = map_of (rev outs)"
    using extend_all_ok [OF wf_Nil, of topo u] edges_once [OF assms(1), of u "edge [] u"] assms(2)
    by (simp add: of_cTopology_extend edge_Nil)
  ultimately show ?thesis by (metis map_of_SomeD set_rev)
qed

lemma nodes_described:
  assumes "\<forall>(a, outs) \<in> set topo. fst ` set outs \<subseteq> set (keys topo)"
  shows "dom (map_of (of_cTopology topo)) = set (keys topo)"
  using extend_all_ok [OF wf_Nil, of topo] assms by (force simp: of_cTopology_extend keys_def)


section \<open>Delivery\<close>

text \<open>
  A packet on its way: the nodes of \<open>net\<close> handle it in turn until one hands it to an application, at most \<open>n\<close> of them.
\<close>

fun carry :: "nat \<Rightarrow> (int \<Rightarrow> net_stack) \<Rightarrow> int \<Rightarrow> int option \<Rightarrow> net_packet \<Rightarrow> (int \<times> nat \<times> net_packet) option" where
  "carry 0 net u from_appl p = None"
| "carry (Suc n) net u from_appl p =
     (case handleMessage (net u) False from_appl p of
        [(p, toAppl i)] \<Rightarrow> Some (u, i, p)
      | [(p, netOut i)] \<Rightarrow> if i < length (peers (net u)) then carry n net (peers (net u) ! i) None p else None
      | _ \<Rightarrow> None)"

text \<open>Each node but \<open>v\<close> has a route for \<open>v\<close> to a neighbor that is closer to \<open>v\<close>, as \<open>h\<close> measures it.\<close>

definition routes_to :: "int set \<Rightarrow> (int \<Rightarrow> net_stack) \<Rightarrow> int \<Rightarrow> (int \<Rightarrow> 'w :: linorder) \<Rightarrow> bool" where
  "routes_to V net v h \<longleftrightarrow> (\<forall>u \<in> V. nodeAddr (net u) = u \<and> int (card V) - 1 \<le> maxTTL (net u) \<and>
     (u \<noteq> v \<longrightarrow> (\<exists>i < length (peers (net u)). map_of (routes (net u)) v = Some (netOut i) \<and>
       peers (net u) ! i \<in> V \<and> h (peers (net u) ! i) < h u)))"

lemma carry_delivers:
  assumes R: "routes_to V net v h" and "finite V" and v: "v \<in> V" "0 \<le> v"
    and appl: "map_of (applications (net v)) (dest_appl p) = Some (toAppl i)"
    and "u \<in> V" and "\<not> alert p" and "dest_node p = v" and "0 \<le> TTL p"
    and "TTL p + int (card {x \<in> V. h x < h u}) \<le> int (card V) - 1" and "card {x \<in> V. h x < h u} < n"
  shows "\<exists>p'. carry n net u None p = Some (v, i, p') \<and> src_node p' = src_node p \<and> src_appl p' = src_appl p \<and>
    0 \<le> TTL p' \<and> TTL p' \<le> int (card V) - 1"
  using assms(5-11)
proof (induction n arbitrary: u p)
  case (Suc n)
  note node = R [unfolded routes_to_def, rule_format, OF Suc.prems(2)]
  show ?case
  proof (cases "u = v")
    case True
    then have "handleMessage (net u) False None p = [(p\<lparr>dest_node := -1, dest_appl := -1\<rparr>, toAppl i)]"
      using Suc.prems node by (simp add: handleMessage_def deliverLocally_def)
    then show ?thesis using True Suc.prems by simp
  next
    case False
    then obtain j where j: "j < length (peers (net u))" "map_of (routes (net u)) v = Some (netOut j)"
        "peers (net u) ! j \<in> V" "h (peers (net u) ! j) < h u"
      using node by blast
    let ?x = "peers (net u) ! j" and ?p = "p\<lparr>last_node := u, TTL := TTL p + 1\<rparr>"
    have "{x \<in> V. h x < h ?x} \<subset> {x \<in> V. h x < h u}" using j(3,4) by auto
    then have less: "card {x \<in> V. h x < h ?x} < card {x \<in> V. h x < h u}"
      using psubset_card_mono assms(2) by (metis (no_types, lifting) finite_subset mem_Collect_eq subsetI)
    then have "TTL p < maxTTL (net u)" using Suc.prems(6) node by linarith
    then have "handleMessage (net u) False None p = [(?p, netOut j)]"
      using Suc.prems(3,4) False node j(2) v(2) by (simp add: handleMessage_def sendOut_def)
    then have "carry (Suc n) net u None p = carry n net ?x None ?p" using j(1) by simp
    then show ?thesis using Suc.IH [of ?p ?x] Suc.prems j(3) less by simp
  qed
qed simp

lemma carry_from:
  assumes "routes_to V net v h" and "u \<in> V" and "\<not> alert p"
  shows "carry n net u (Some a) p = carry n net u None (p\<lparr>src_node := u, TTL := 0, src_appl := a\<rparr>)"
proof (cases n)
  case (Suc m)
  have "nodeAddr (net u) = u" using assms(1,2) by (simp add: routes_to_def)
  then have "handleMessage (net u) False (Some a) p = handleMessage (net u) False None (p\<lparr>src_node := u, TTL := 0, src_appl := a\<rparr>)"
    using assms(3) by (simp add: handleMessage_def)
  then show ?thesis by (simp add: Suc)
qed simp

text \<open>A node of the network described by \<open>topo\<close> whose neighbors have been detected.\<close>

definition stack_ok :: "(int \<times> (int \<times> 'w) list) list \<Rightarrow> int \<Rightarrow> net_stack \<Rightarrow> bool" where
  "stack_ok topo u s \<longleftrightarrow> nodeAddr s = u \<and> (\<exists>outs. map_of topo u = Some outs \<and> peers s = map fst outs) \<and>
     detect_neighbors s = s \<and> int (length topo) - 1 \<le> maxTTL s"

text \<open>Links lead to nodes of the network, cost something, and connect every node to every other.\<close>

definition network_ok :: "('w :: linorder) arith \<Rightarrow> (int \<times> (int \<times> 'w) list) list \<Rightarrow> bool" where
  "network_ok ar topo \<longleftrightarrow> distinct (keys topo) \<and>
     (\<forall>(a, outs) \<in> set topo. \<forall>(b, w) \<in> set outs. b \<in> set (keys topo) \<and> zero ar < w) \<and>
     (\<forall>u \<in> set (keys topo). \<forall>v \<in> set (keys topo). reachable ar (of_cTopology topo) u v)"

context exact_arith
begin

lemma network_okD:
  assumes "network_ok ar topo"
  shows "dom (map_of (of_cTopology topo)) = set (keys topo)" and "positive_links ar (of_cTopology topo)"
proof -
  show "dom (map_of (of_cTopology topo)) = set (keys topo)"
    by (rule nodes_described) (use assms in \<open>fastforce simp: network_ok_def\<close>)
  then have "\<exists>outs. map_of topo u = Some outs" if "out_link (of_cTopology topo) u l" for u l
    using out_link_node [OF wf_of_cTopology that] by (simp add: keys_def dom_map_of_conv_image_fst [symmetric] domIff)
  then show "positive_links ar (of_cTopology topo)"
    unfolding positive_links_def
    using out_link_described assms unfolding network_ok_def by (metis (no_types, lifting) case_prodD map_of_SomeD)
qed

lemma calculateRoutes_ok:
  assumes net: "network_ok ar topo" and s: "stack_ok topo u s" and u: "u \<in> set (keys topo)"
  shows "\<exists>r. calculateRoutes ar topo s = Inr (s\<lparr>routes := r\<rparr>) \<and>
    (\<forall>v \<in> set (keys topo) - {u}. \<exists>i < length (peers s). map_of r v = Some (netOut i) \<and> peers s ! i \<in> set (keys topo) \<and>
      (\<exists>d d'. least_walk ar (of_cTopology topo) u v d \<and> least_walk ar (of_cTopology topo) (peers s ! i) v d' \<and> d' < d))"
proof -
  let ?t = "of_cTopology topo"
  note nodes = network_okD(1) [OF net] and pos = network_okD(2) [OF net] and wf = wf_of_cTopology [of topo]
  obtain outs where outs: "map_of topo u = Some outs" "peers s = map fst outs" and dist: "distinct (keys topo)"
    and addr: "nodeAddr s = u" and det: "detect_neighbors s = s"
    using s net by (auto simp: stack_ok_def network_ok_def)
  have ut: "u \<in> dom (map_of ?t)" using u nodes by simp
  have all: "\<forall>v \<in> dom (map_of ?t). reachable ar ?t u v" using net u nodes by (simp add: network_ok_def)
  obtain P where P: "doDijkstra ar ?t u = Inr P" "shortest_paths ar ?t u P"
    using dijkstra_loop_result [OF handled_start [OF ut exact_arith_ok] refl ut exact_arith_ok wf]
    unfolding doDijkstra_start [OF ut] if_P [OF all] by blast
  have hop: "\<exists>i < length (peers s). map_of (neighbors s) (destNode l) = Some (netOut i) \<and> peers s ! i = destNode l"
    if "out_link ?t u l" for l
  proof -
    have "(destNode l, weight l) \<in> set outs" by (rule out_link_described [OF dist outs(1) that])
    then have "destNode l \<in> set (peers s)" unfolding outs(2) by force
    then show ?thesis using detect_neighbors_lookup [of "destNode l" s] det by simp
  qed
  have closer: "\<exists>l d d'. map_of P v = Some (Some l) \<and> out_link ?t u l \<and> least_walk ar ?t u v d \<and>
      least_walk ar ?t (destNode l) v d' \<and> d' < d" if "v \<in> set (keys topo) - {u}" for v
    using next_hop_closer [OF pos wf P(2), of v] that nodes by auto
  have dom: "dom (map_of P) = set (keys topo) - {u}" and asc: "ascending P" using P(2) nodes by (simp_all add: shortest_paths_def)
  have "\<exists>m i. l = Some m \<and> map_of (neighbors s) (destNode m) = Some (netOut i)" if "(v, l) \<in> set P" for v l
  proof -
    have "map_of P v = Some l" using that asc ascending_distinct [of P] by (simp add: keys_def)
    then show ?thesis using closer [of v] dom hop by fastforce
  qed
  then obtain r where r: "set_routes P s = Inr (s\<lparr>routes := r\<rparr>)"
      "\<forall>v l. map_of P v = Some (Some l) \<longrightarrow> map_of r v = map_of (neighbors s) (destNode l)"
    using set_routes_ok [of P s] ascending_distinct [OF asc] by blast
  moreover have "\<exists>i < length (peers s). map_of r v = Some (netOut i) \<and> peers s ! i \<in> set (keys topo) \<and>
      (\<exists>d d'. least_walk ar ?t u v d \<and> least_walk ar ?t (peers s ! i) v d' \<and> d' < d)" if v: "v \<in> set (keys topo) - {u}" for v
  proof -
    obtain l d d' where l: "map_of P v = Some (Some l)" "out_link ?t u l" "least_walk ar ?t u v d"
        "least_walk ar ?t (destNode l) v d'" "d' < d"
      using closer [OF v] by blast
    moreover obtain i where "i < length (peers s)" "map_of (neighbors s) (destNode l) = Some (netOut i)" "peers s ! i = destNode l"
      using hop [OF l(2)] by blast
    moreover have "destNode l \<in> set (keys topo)" using out_link_node [OF wf l(2)] nodes by simp
    ultimately show ?thesis using r(2) by auto
  qed
  moreover have "calculateRoutes ar topo s = Inr (s\<lparr>routes := r\<rparr>)" using P(1) addr r(1) by (simp add: calculateRoutes_def)
  ultimately show ?thesis by blast
qed

end


lemma calculated_routes:
  fixes ar :: "('w :: linorder) arith"
  assumes "exact_arith ar" and "network_ok ar topo" and "\<forall>x \<in> set (keys topo). stack_ok topo x (stacks x)"
  obtains net where "\<forall>x \<in> set (keys topo). calculateRoutes ar topo (stacks x) = Inr (net x)"
    "\<forall>x. applications (net x) = applications (stacks x)"
    "\<forall>v \<in> set (keys topo). \<exists>h :: int \<Rightarrow> 'w. routes_to (set (keys topo)) net v h"
proof -
  let ?V = "set (keys topo)" and ?t = "of_cTopology topo"
  note calc = exact_arith.calculateRoutes_ok [OF assms(1,2)]
  have "\<forall>x \<in> ?V. \<exists>r. calculateRoutes ar topo (stacks x) = Inr (stacks x\<lparr>routes := r\<rparr>) \<and>
      (\<forall>y \<in> ?V - {x}. \<exists>i < length (peers (stacks x)). map_of r y = Some (netOut i) \<and> peers (stacks x) ! i \<in> ?V \<and>
        (\<exists>d d'. least_walk ar ?t x y d \<and> least_walk ar ?t (peers (stacks x) ! i) y d' \<and> d' < d))"
    using calc assms(3) by blast
  from bchoice [OF this] obtain r where r: "\<And>x. x \<in> ?V \<Longrightarrow> calculateRoutes ar topo (stacks x) = Inr (stacks x\<lparr>routes := r x\<rparr>)"
    "\<And>x y. x \<in> ?V \<Longrightarrow> y \<in> ?V - {x} \<Longrightarrow> \<exists>i < length (peers (stacks x)). map_of (r x) y = Some (netOut i) \<and>
        peers (stacks x) ! i \<in> ?V \<and>
        (\<exists>d d'. least_walk ar ?t x y d \<and> least_walk ar ?t (peers (stacks x) ! i) y d' \<and> d' < d)"
    by blast
  let ?net = "\<lambda>x. stacks x\<lparr>routes := r x\<rparr>"
  have card: "card ?V = length topo"
    using assms(2) distinct_card [of "keys topo"] by (simp add: network_ok_def keys_def)
  have "\<exists>h :: int \<Rightarrow> 'w. routes_to ?V ?net v h" if v: "v \<in> ?V" for v
  proof -
    define h where "h x = (THE d. least_walk ar ?t x v d)" for x
    have h: "least_walk ar ?t x v d \<Longrightarrow> h x = d" for x d
      unfolding h_def by (blast intro: the_equality least_walk_unique)
    have "routes_to ?V ?net v h"
      unfolding routes_to_def
    proof (intro ballI conjI impI)
      fix x assume x: "x \<in> ?V"
      show "nodeAddr (?net x) = x" "int (card ?V) - 1 \<le> maxTTL (?net x)"
        using assms(3) x by (simp_all add: stack_ok_def card)
      show "\<exists>i < length (peers (?net x)). map_of (routes (?net x)) v = Some (netOut i) \<and> peers (?net x) ! i \<in> ?V \<and>
          h (peers (?net x) ! i) < h x" if "x \<noteq> v"
        using r(2) [OF x, of v] that v h by auto
    qed
    then show ?thesis by blast
  qed
  then show thesis using that [of ?net] r(1) by simp
qed

text \<open>A packet that a node \<open>u\<close> originates reaches \<open>v\<close>, if all routes lead closer to it.\<close>

lemma routed_delivery:
  assumes R: "routes_to V net v h" and "finite V" "card V = n" and "u \<in> V" "v \<in> V" "0 \<le> v"
    and "map_of (applications (net v)) (dest_appl p) = Some (toAppl i)" and "dest_node p = v" and "\<not> alert p"
  shows "\<exists>p'. carry n net u (Some a) p = Some (v, i, p') \<and> src_node p' = u \<and> src_appl p' = a \<and> 0 \<le> TTL p' \<and> TTL p' < int n"
proof -
  have sub: "{x \<in> V. h x < h u} \<subseteq> V - {u}" by auto
  then have "card {x \<in> V. h x < h u} < card V"
    using assms(2,4) by (metis (no_types, lifting) card_Diff1_less card_mono finite_Diff le_less_trans)
  then have "\<exists>p'. carry n net u None (p\<lparr>src_node := u, TTL := 0, src_appl := a\<rparr>) = Some (v, i, p') \<and>
      src_node p' = u \<and> src_appl p' = a \<and> 0 \<le> TTL p' \<and> TTL p' \<le> int (card V) - 1"
    using carry_delivers [OF R _ assms(5,6), of "p\<lparr>src_node := u, TTL := 0, src_appl := a\<rparr>" i u n] assms by simp
  then show ?thesis using carry_from [OF R assms(4,9), of n a] assms(3) by auto
qed

text \<open>
  C34: When the routing daemons of all nodes have computed their routes, in whatever state their tables were, a packet that
  an application sends to an application of another node, or of its own, arrives there, over no more links
  than there are other nodes, with the addresses of its sender, provided \<open>maxTTL\<close> allows for so many hops.
\<close>

theorem packets_are_delivered:
  assumes "exact_arith ar" and "network_ok ar topo" and "\<forall>x \<in> set (keys topo). stack_ok topo x (stacks x)"
    and "u \<in> set (keys topo)" and "v \<in> set (keys topo)" and "0 \<le> v"
    and "map_of (applications (stacks v)) (dest_appl p) = Some (toAppl i)" and "dest_node p = v" and "\<not> alert p"
  shows "\<exists>net. (\<forall>x \<in> set (keys topo). calculateRoutes ar topo (stacks x) = Inr (net x)) \<and>
    (\<exists>p'. carry (length topo) net u (Some a) p = Some (v, i, p') \<and> src_node p' = u \<and> src_appl p' = a \<and>
      0 \<le> TTL p' \<and> TTL p' < int (length topo))"
proof -
  obtain net where net: "\<forall>x \<in> set (keys topo). calculateRoutes ar topo (stacks x) = Inr (net x)"
      "\<forall>x. applications (net x) = applications (stacks x)"
      "\<forall>v \<in> set (keys topo). \<exists>h :: int \<Rightarrow> 'a. routes_to (set (keys topo)) net v h"
    using calculated_routes [OF assms(1-3)] by blast
  then obtain h :: "int \<Rightarrow> 'a" where "routes_to (set (keys topo)) net v h" using assms(5) by blast
  moreover have "card (set (keys topo)) = length topo"
    using assms(2) distinct_card [of "keys topo"] by (simp add: network_ok_def keys_def)
  ultimately have "\<exists>p'. carry (length topo) net u (Some a) p = Some (v, i, p') \<and> src_node p' = u \<and> src_appl p' = a \<and>
      0 \<le> TTL p' \<and> TTL p' < int (length topo)"
    using assms(4-9) net(2) by (intro routed_delivery) simp_all
  then show ?thesis using net(1) by blast
qed

definition demo_topo :: "(int \<times> (int \<times> enat) list) list" where
  "demo_topo = [(1, [(2, 1)]), (2, [(1, 1), (3, 1)]), (3, [(2, 1)])]"

definition demo_stack :: "int \<Rightarrow> net_stack" where
  "demo_stack x = detect_neighbors
     \<lparr>nodeAddr = x, routes = [], neighbors = [], applications = [(7, toAppl 0)], peers = map fst (the (map_of demo_topo x)), maxTTL = 2\<rparr>"


lemma reachable_ahead:
  assumes "walk ar t s ls v d" and "d < INFINITY ar"
  shows "reachable ar t s v"
  using assms by (auto simp: reachable_def)

lemma demo_nodes: "dom (map_of (of_cTopology demo_topo)) = {1, 2, 3}"
  by (subst nodes_described) (auto simp: demo_topo_def)

lemma demo_links:
  "out_link (of_cTopology demo_topo) 1 \<lparr>weight = 1, srcNode = 1, destNode = 2\<rparr>"
  "out_link (of_cTopology demo_topo) 2 \<lparr>weight = 1, srcNode = 2, destNode = 1\<rparr>"
  "out_link (of_cTopology demo_topo) 2 \<lparr>weight = 1, srcNode = 2, destNode = 3\<rparr>"
  "out_link (of_cTopology demo_topo) 3 \<lparr>weight = 1, srcNode = 3, destNode = 2\<rparr>"
  by (simp_all add: out_link_def demo_topo_def of_cTopology_def connect_def addNodeFor_def addLinkTo_def)

lemma demo_network: "network_ok enat_arith demo_topo"
proof -
  let ?t = "of_cTopology demo_topo" and ?ar = enat_arith
  have ar: "zero ?ar = 0" "plus ?ar = (+)" "INFINITY ?ar = \<infinity>" by (simp_all add: enat_arith_def)
  have w0: "walk ?ar ?t s [] s 0" if "s \<in> {1, 2, 3}" for s
    using walk_start [of s ?t ?ar] that demo_nodes by (simp add: ar)
  have step: "walk ?ar ?t s ls u d \<Longrightarrow> out_link ?t u \<lparr>weight = 1, srcNode = u, destNode = x\<rparr> \<Longrightarrow> \<exists>ls. walk ?ar ?t s ls x (d + 1)" for s ls u d x
    by (drule (1) walk_link) (auto simp: ar)
  have fin: "0 < (\<infinity> :: enat)" "0 + 1 < (\<infinity> :: enat)" "0 + 1 + 1 < (\<infinity> :: enat)"
    by (simp_all add: one_enat_def)
  have r: "walk ?ar ?t s ls v d \<Longrightarrow> d < \<infinity> \<Longrightarrow> reachable ?ar ?t s v" for s ls v d
    by (rule reachable_ahead) (simp_all add: ar)
  have "reachable ?ar ?t s v" if "s \<in> {1, 2, 3}" "v \<in> {1, 2, 3}" for s v
  proof -
    obtain ls1 where 1: "walk ?ar ?t 1 ls1 2 (0 + 1)" using step [OF w0 demo_links(1)] by blast
    obtain ls2 where 2: "walk ?ar ?t 1 ls2 3 (0 + 1 + 1)" using step [OF 1 demo_links(3)] by blast
    obtain ls3 where 3: "walk ?ar ?t 2 ls3 1 (0 + 1)" using step [OF w0 demo_links(2)] by blast
    obtain ls4 where 4: "walk ?ar ?t 2 ls4 3 (0 + 1)" using step [OF w0 demo_links(3)] by blast
    obtain ls5 where 5: "walk ?ar ?t 3 ls5 2 (0 + 1)" using step [OF w0 demo_links(4)] by blast
    obtain ls6 where 6: "walk ?ar ?t 3 ls6 1 (0 + 1 + 1)" using step [OF 5 demo_links(2)] by blast
    show ?thesis
      using that r [OF w0 fin(1)] r [OF 1 fin(2)] r [OF 2 fin(3)] r [OF 3 fin(2)] r [OF 4 fin(2)]
        r [OF 5 fin(2)] r [OF 6 fin(3)] by auto
  qed
  then show ?thesis by (simp add: network_ok_def demo_topo_def [THEN arg_cong [where f = keys]] keys_def ar)
     (simp add: demo_topo_def)
qed

lemma packets_are_delivered_witness:
  "\<exists>net p'. (\<forall>x \<in> {1, 2, 3}. calculateRoutes enat_arith demo_topo (demo_stack x) = Inr (net x)) \<and>
    carry 3 net 1 (Some 9) \<lparr>src_node = -1, src_appl = -1, dest_node = 3, dest_appl = 7, last_node = -1, TTL = 0, alert = False\<rparr> =
      Some (3, 0, p') \<and> src_node p' = 1 \<and> src_appl p' = 9 \<and> TTL p' < 3"
proof -
  have s: "\<forall>x \<in> set (keys demo_topo). stack_ok demo_topo x (demo_stack x)"
    by (simp add: demo_topo_def stack_ok_def demo_stack_def detect_neighbors_def)
  let ?p = "\<lparr>src_node = -1, src_appl = -1, dest_node = 3, dest_appl = 7, last_node = -1, TTL = 0, alert = False\<rparr>"
  have "map_of (applications (demo_stack 3)) 7 = Some (toAppl 0)" "length demo_topo = 3" "1 \<in> set (keys demo_topo)" "3 \<in> set (keys demo_topo)"
    by (simp_all add: demo_topo_def demo_stack_def detect_neighbors_def)
  moreover have "set (keys demo_topo) = {1, 2, 3}" by (simp add: demo_topo_def keys_def)
  ultimately obtain net p' where "\<forall>x \<in> {1, 2, 3}. calculateRoutes enat_arith demo_topo (demo_stack x) = Inr (net x)"
      "carry 3 net 1 (Some 9) ?p = Some (3, 0, p')" "src_node p' = 1" "src_appl p' = 9" "TTL p' < 3"
    using packets_are_delivered [OF hops.exact_arith_axioms demo_network s, of 1 3 ?p 0 9] by (auto simp del: carry.simps)
  then show ?thesis by blast
qed

end
