(* ===== verification/Sim_Parser.thy ===== *)
theory Sim_Parser
  imports Net_Prelude
begin

text \<open>
  The parser of commands of the simulator, \<open>GoBackN/protsim/support/Parser.cc\<close>: a line is a keyword and up to 16 arguments, which may be
  quoted. The line buffer is its contents up to the first NUL, which the input has only at its end; \<open>keyword\<close> and \<open>args\<close>, which point into it, are the texts found there.
\<close>

section \<open>Errors\<close>

datatype error_code =
  eNO_ERROR | eIO_ERROR | eSYNTAX_ERROR | eARGUMENT_COUNT_ERROR | eUNKNOWN_KEYWORD_ERROR | eINDEX_ERROR | eCONVERSION_ERROR | eMISC_ERROR

fun getCodeStr :: "error_code \<Rightarrow> string" where
  "getCodeStr eNO_ERROR = ''Okay''"
| "getCodeStr eIO_ERROR = ''IO error''"
| "getCodeStr eSYNTAX_ERROR = ''Syntax error''"
| "getCodeStr eARGUMENT_COUNT_ERROR = ''Invalid number of arguments''"
| "getCodeStr eUNKNOWN_KEYWORD_ERROR = ''Unknown keyword''"
| "getCodeStr eINDEX_ERROR = ''Invalid index''"
| "getCodeStr eCONVERSION_ERROR = ''Conversion error''"
| "getCodeStr eMISC_ERROR = ''Miscellaneous error''"

text \<open>A thrown \<open>Parser::Error\<close> with its code, text and line, or a fault of the program.\<close>

datatype parser_error = Thrown error_code string u32 | Fault fault

definition throw :: "error_code \<Rightarrow> u32 \<Rightarrow> parser_error + 'a" where
  "throw code lineno = Inl (Thrown code (getCodeStr code) lineno)"

definition throw_text :: "error_code \<Rightarrow> string \<Rightarrow> u32 \<Rightarrow> parser_error + 'a" where
  "throw_text code msg lineno = Inl (Thrown code msg lineno)"

section \<open>The parser of strings\<close>

record translation =
  tr_keyword :: string
  tr_token :: int
  min_arg :: int
  max_arg :: int

record string_parser =
  transtable :: "translation list"
  lineno :: u32
  argcount :: int
  token :: int
  keyword :: "string option"
  args :: "string list"
  contents :: string
  infinite :: bool
  finished :: bool

definition new_parser :: "string \<Rightarrow> translation list \<Rightarrow> bool \<Rightarrow> parser_error + string_parser" where
  "new_parser s table forever =
     (if \<exists>t \<in> set table. min_arg t < 0 \<or> 16 < max_arg t
      then throw_text eMISC_ERROR ''Argument count must be between 0 and 16'' 0
      else Inr \<lparr>transtable = table, lineno = 0, argcount = 0, token = 0, keyword = None, args = [], contents = s, infinite = forever,
          finished = False\<rparr>)"

definition dummy_table :: "translation list" where
  "dummy_table = [\<lparr>tr_keyword = ''dummy'', tr_token = 1, min_arg = 1, max_arg = 1\<rparr>]"

definition argument_parser :: "string \<Rightarrow> bool \<Rightarrow> parser_error + string_parser" where
  "argument_parser arg forever = new_parser (''dummy: '' @ (if arg = [] then ''@empty@'' else arg)) dummy_table forever"

text \<open>\<open>StringParser::readLine\<close>: the line read, empty at the end.\<close>

definition readLine :: "string_parser \<Rightarrow> string \<times> string_parser" where
  "readLine p =
     (if finished p then ([], p) else (contents p, if infinite p then p else p\<lparr>finished := True\<rparr>))"

section \<open>Quoted strings\<close>

abbreviation DQ :: char where "DQ \<equiv> CHR 0x22"
abbreviation SQ :: char where "SQ \<equiv> CHR 0x27"
abbreviation BS :: char where "BS \<equiv> CHR 0x5C"

definition is_quote :: "char \<Rightarrow> bool" where
  "is_quote c \<longleftrightarrow> c = SQ \<or> c = DQ"

text \<open>The text up to the quote that closes a string, which no backslash precedes, and what follows it.\<close>

fun find_end :: "char \<Rightarrow> char \<Rightarrow> string \<Rightarrow> (string \<times> string) option" where
  "find_end del prev [] = None"
| "find_end del prev (c # cs) =
     (if c = del \<and> prev \<noteq> BS then Some ([], cs)
      else map_option (\<lambda>(inside, rest). (c # inside, rest)) (find_end del c cs))"

definition save_char :: "char \<Rightarrow> char" where
  "save_char c = (if c = CHR '' '' then CHR 0x01 else if c = CHR 0x09 then CHR 0x02 else if c = CHR '','' then CHR 0x03 else c)"

definition restore_char :: "char \<Rightarrow> char" where
  "restore_char c = (if c = CHR 0x01 then CHR '' '' else if c = CHR 0x02 then CHR 0x09 else if c = CHR 0x03 then CHR '','' else c)"

lemma find_end_shorter: "find_end del prev cs = Some (inside, rest) \<Longrightarrow> length rest < length cs"
  by (induction del prev cs arbitrary: inside rest rule: find_end.induct) (fastforce split: if_splits)+

text \<open>\<open>None\<close> is the error that a string is not terminated.\<close>

function save_separators :: "string \<Rightarrow> string option" where
  "save_separators [] = Some []"
| "save_separators (c # cs) =
     (if is_quote c then
        (case find_end c c cs of
           None \<Rightarrow> None
         | Some (inside, rest) \<Rightarrow> map_option (\<lambda>r. c # map save_char inside @ c # r) (save_separators rest))
      else map_option ((#) c) (save_separators cs))"
  by pat_completeness auto
termination
  by (relation "measure length") (auto dest: find_end_shorter)

section \<open>Reading a line\<close>

text \<open>\<open>strtok\<close>: the token and where the next call continues\<close>

definition strtok_set :: "string \<Rightarrow> string \<Rightarrow> (string \<times> string) option" where
  "strtok_set delims s =
     (let s = dropWhile (\<lambda>c. c \<in> set delims) s
      in if s = [] then None
         else Some (takeWhile (\<lambda>c. c \<notin> set delims) s, drop 1 (dropWhile (\<lambda>c. c \<notin> set delims) s)))"

definition KEYWORD_DELIMS :: string where
  "KEYWORD_DELIMS = [CHR '' '', CHR 0x09, CHR '':'', CHR ''='']"

definition ARG_DELIMS :: string where
  "ARG_DELIMS = [CHR '' '', CHR 0x09, CHR '','']"

text \<open>What \<open>nextLine\<close> does with a line before it looks for tokens\<close>

definition strip_line :: "string \<Rightarrow> string" where
  "strip_line line =
     takeWhile (\<lambda>c. c \<noteq> CHR ''#'') (if line \<noteq> [] \<and> last line = CHR 0x0A then butlast line else line)"

text \<open>The first loop, for at most \<open>rounds\<close> lines; \<open>None\<close> is the end of the input, otherwise the rest behind the keyword comes with the parser.\<close>

fun read_keyword :: "nat \<Rightarrow> string_parser \<Rightarrow> parser_error + (string option \<times> string_parser)" where
  "read_keyword 0 p = Inl (Fault Blocked)"
| "read_keyword (Suc rounds) p =
     (let (line, p) = readLine p
      in if line = [] then Inr (None, p)
         else
           let p = p\<lparr>lineno := lineno p + 1\<rparr>;
               line = strip_line line
           in if \<exists>c \<in> set line. c = CHR 0x01 \<or> c = CHR 0x02 \<or> c = CHR 0x03
              then throw_text eSYNTAX_ERROR ''ASCII codes 1-3 are reserved'' (lineno p)
              else
                case save_separators line of
                  None \<Rightarrow> throw_text eSYNTAX_ERROR ''String not terminated'' (lineno p)
                | Some line \<Rightarrow>
                    (case strtok_set KEYWORD_DELIMS line of
                       None \<Rightarrow> read_keyword rounds p
                     | Some (k, rest) \<Rightarrow> Inr (Some rest, p\<lparr>keyword := Some k\<rparr>)))"

text \<open>The quotes around an argument. Nothing is left of a quote alone, and the byte before it is overwritten.\<close>

definition unquote :: "string \<Rightarrow> parser_error + string" where
  "unquote arg =
     (if is_quote (hd arg) then
        if last arg \<noteq> hd arg then Inl (Fault Assertion)
        else if tl arg = [] then Inl (Fault Undefined)
        else Inr (butlast (tl arg))
      else Inr arg)"

text \<open>The loop over the arguments, of which at most \<open>n\<close> may still come: the arguments and where it stops.\<close>

fun read_args :: "nat \<Rightarrow> string \<Rightarrow> parser_error + string list \<times> string" where
  "read_args 0 s = Inr ([], s)"
| "read_args (Suc n) s =
     (case strtok_set ARG_DELIMS s of
        None \<Rightarrow> Inr ([], [])
      | Some (arg, rest) \<Rightarrow>
          bind_res (unquote arg) (\<lambda>arg. bind_res (read_args n rest) (\<lambda>(as, rest). Inr (arg # as, rest))))"

definition to_lower :: "char \<Rightarrow> char" where
  "to_lower c = (let n = of_char c :: nat in if 65 \<le> n \<and> n \<le> 90 then char_of (n + 32) else c)"

definition same_text :: "string \<Rightarrow> string \<Rightarrow> bool" where
  "same_text s t \<longleftrightarrow> map to_lower s = map to_lower t"

text \<open>The loop that determines the token: 0 if there is none, an error if the arguments are too few or too many.\<close>

fun find_token :: "string \<Rightarrow> int \<Rightarrow> u32 \<Rightarrow> translation list \<Rightarrow> parser_error + int" where
  "find_token k n l [] = Inr 0"
| "find_token k n l (t # ts) =
     (if same_text k (tr_keyword t) then
        if n < min_arg t \<or> max_arg t < n then throw eARGUMENT_COUNT_ERROR l else Inr (tr_token t)
      else find_token k n l ts)"

text \<open>\<open>nextLine\<close>: the number of the line, 0 at the end\<close>

definition nextLine :: "nat \<Rightarrow> string_parser \<Rightarrow> parser_error + u32 \<times> string_parser" where
  "nextLine rounds p =
     bind_res (read_keyword rounds (p\<lparr>argcount := 0, token := 0, keyword := None\<rparr>)) (\<lambda>(rest, p).
     case rest of
       None \<Rightarrow> Inr (0, p)
     | Some rest \<Rightarrow>
         bind_res (read_args 16 rest) (\<lambda>(as, rest).
         if length as = 16 \<and> strtok_set ARG_DELIMS rest \<noteq> None
         then throw_text eARGUMENT_COUNT_ERROR ''Too many arguments'' (lineno p)
         else
           bind_res (find_token (the (keyword p)) (int (length as)) (lineno p) (transtable p)) (\<lambda>tok.
           if tok = 0 then throw eUNKNOWN_KEYWORD_ERROR (lineno p)
           else Inr (lineno p, p\<lparr>argcount := int (length as), token := tok,
                     keyword := map_option (map restore_char) (keyword p), args := map (map restore_char) as\<rparr>))))"

section \<open>Arguments\<close>

definition arg_at :: "string_parser \<Rightarrow> int \<Rightarrow> parser_error + string" where
  "arg_at p i = (if i < 0 \<or> argcount p \<le> i then throw eINDEX_ERROR (lineno p) else Inr (args p ! nat i))"

definition getString :: "string_parser \<Rightarrow> int \<Rightarrow> parser_error + string" where
  "getString p i = bind_res (arg_at p i) (\<lambda>s. Inr (if s = ''@empty@'' then [] else s))"

definition getCString :: "string_parser \<Rightarrow> int \<Rightarrow> nat \<Rightarrow> parser_error + string" where
  "getCString p i n =
     bind_res (arg_at p i) (\<lambda>s.
     if n \<le> length s then throw_text eCONVERSION_ERROR ''String too long'' (lineno p)
     else Inr (if s = ''@empty@'' then [] else s))"

text \<open>
  \<open>sscanf\<close> of an integer in a base: white space, a sign and digits; what follows is ignored.
\<close>

definition digit_value :: "char \<Rightarrow> nat" where
  "digit_value c =
     (let n = of_char c :: nat
      in if 48 \<le> n \<and> n \<le> 57 then n - 48 else if 97 \<le> n \<and> n \<le> 102 then n - 87 else if 65 \<le> n \<and> n \<le> 70 then n - 55 else 16)"

definition scan_digits :: "nat \<Rightarrow> string \<Rightarrow> nat option" where
  "scan_digits base s =
     (let ds = takeWhile (\<lambda>c. digit_value c < base) s
      in if ds = [] then None else Some (foldl (\<lambda>n c. n * base + digit_value c) 0 ds))"

definition blank_char :: "char \<Rightarrow> bool" where
  "blank_char c \<longleftrightarrow> c = CHR '' '' \<or> 9 \<le> (of_char c :: nat) \<and> (of_char c :: nat) \<le> 13"

definition scan_int :: "nat \<Rightarrow> string \<Rightarrow> int option" where
  "scan_int base s =
     (let s = dropWhile blank_char s
      in case s of
           [] \<Rightarrow> None
         | c # cs \<Rightarrow>
             if c = CHR ''-'' then map_option (\<lambda>n. - int n) (scan_digits base cs)
             else map_option int (scan_digits base (if c = CHR ''+'' then cs else s)))"

text \<open>The choice of the base that \<open>getInt\<close>, \<open>getUInt\<close> and \<open>getUShort\<close> make. The prefix \<open>0x\<close> is part of what \<open>sscanf\<close> reads.\<close>

definition scan_number :: "string \<Rightarrow> int option" where
  "scan_number s =
     (if take 2 s = ''0x'' then map_option int (scan_digits 16 (drop 2 s))
      else if take 1 s = ''0'' then scan_int 8 s
      else scan_int 10 s)"

text \<open>A value outside the type is undefined; the conversions to unsigned types negate in the type.\<close>

definition getInt :: "string_parser \<Rightarrow> int \<Rightarrow> parser_error + int" where
  "getInt p i =
     bind_res (arg_at p i) (\<lambda>s.
     case scan_number s of
       None \<Rightarrow> throw_text eCONVERSION_ERROR ''Integer expected'' (lineno p)
     | Some n \<Rightarrow> if - (2 ^ 31) \<le> n \<and> n < 2 ^ 31 then Inr n else Inl (Fault Undefined))"

definition getUInt :: "string_parser \<Rightarrow> int \<Rightarrow> parser_error + u32" where
  "getUInt p i =
     bind_res (arg_at p i) (\<lambda>s.
     case scan_number s of
       None \<Rightarrow> throw_text eCONVERSION_ERROR ''Unsigned integer expected'' (lineno p)
     | Some n \<Rightarrow> if \<bar>n\<bar> < 2 ^ 32 then Inr (word_of_int n) else Inl (Fault Undefined))"

definition getUShort :: "string_parser \<Rightarrow> int \<Rightarrow> parser_error + u16" where
  "getUShort p i =
     bind_res (arg_at p i) (\<lambda>s.
     case scan_number s of
       None \<Rightarrow> throw_text eCONVERSION_ERROR ''Integer between 0 and 65535 expected'' (lineno p)
     | Some n \<Rightarrow> if \<bar>n\<bar> < 2 ^ 16 then Inr (word_of_int n) else Inl (Fault Undefined))"

text \<open>\<open>scanf_double\<close> is \<open>sscanf\<close> with \<open>%lf\<close>.\<close>

definition getDouble :: "(string \<Rightarrow> 'd option) \<Rightarrow> string_parser \<Rightarrow> int \<Rightarrow> parser_error + 'd" where
  "getDouble scanf_double p i =
     bind_res (arg_at p i) (\<lambda>s.
     case scanf_double s of
       None \<Rightarrow> throw_text eCONVERSION_ERROR ''Double floating point value expected'' (lineno p)
     | Some d \<Rightarrow> Inr d)"

definition getBool :: "string_parser \<Rightarrow> int \<Rightarrow> parser_error + bool" where
  "getBool p i =
     bind_res (arg_at p i) (\<lambda>s.
     if same_text s ''true'' \<or> same_text s ''yes'' \<or> same_text s ''1'' then Inr True
     else if same_text s ''false'' \<or> same_text s ''no'' \<or> same_text s ''0'' then Inr False
     else throw_text eCONVERSION_ERROR ''Boolean (1/0, Yes/No, True/False) expected'' (lineno p))"

definition close :: "string_parser \<Rightarrow> string_parser" where
  "close p = p\<lparr>transtable := [], argcount := 0, token := 0\<rparr>"

section \<open>Reading back a line\<close>

text \<open>An argument is written as it is or between quotes.\<close>

fun written_arg :: "char option \<times> string \<Rightarrow> string" where
  "written_arg (None, a) = a"
| "written_arg (Some q, a) = q # a @ [q]"

definition reserved :: "char \<Rightarrow> bool" where
  "reserved c \<longleftrightarrow> c = CHR ''#'' \<or> c = CHR 0x01 \<or> c = CHR 0x02 \<or> c = CHR 0x03"

fun arg_ok :: "char option \<times> string \<Rightarrow> bool" where
  "arg_ok (None, a) \<longleftrightarrow>
     a \<noteq> [] \<and> (\<forall>c \<in> set a. \<not> reserved c \<and> \<not> is_quote c \<and> c \<noteq> CHR 0x0A \<and> c \<notin> set ARG_DELIMS)"
| "arg_ok (Some q, a) \<longleftrightarrow>
     is_quote q \<and> (\<forall>c \<in> set a. \<not> reserved c \<and> c \<noteq> q) \<and> (a \<noteq> [] \<longrightarrow> last a \<noteq> BS)"

definition keyword_ok :: "string \<Rightarrow> bool" where
  "keyword_ok k \<longleftrightarrow> k \<noteq> [] \<and> (\<forall>c \<in> set k. \<not> reserved c \<and> \<not> is_quote c \<and> c \<noteq> CHR 0x0A \<and> c \<notin> set KEYWORD_DELIMS)"

definition command_line :: "string \<Rightarrow> (char option \<times> string) list \<Rightarrow> string" where
  "command_line k as = k @ concat (map (\<lambda>a. CHR '' '' # written_arg a) as)"

text \<open>The same after \<open>saveSeparatorsInStrings\<close>, and what \<open>unquote\<close> leaves of an argument.\<close>

fun saved :: "char option \<times> string \<Rightarrow> string" where
  "saved (None, a) = a"
| "saved (Some q, a) = q # map save_char a @ [q]"

fun unquoted :: "char option \<times> string \<Rightarrow> string" where
  "unquoted (None, a) = a"
| "unquoted (Some q, a) = map save_char a"

definition saved_args :: "(char option \<times> string) list \<Rightarrow> string" where
  "saved_args as = concat (map (\<lambda>a. CHR '' '' # saved a) as)"

lemma find_end_ok: "q \<notin> set a \<Longrightarrow> last (prev # a) \<noteq> BS \<Longrightarrow> find_end q prev (a @ q # rest) = Some (a, rest)"
  by (induction a arbitrary: prev) auto

lemma save_no_quotes:
  "\<forall>c \<in> set xs. \<not> is_quote c \<Longrightarrow> save_separators (xs @ ys) = map_option ((@) xs) (save_separators ys)"
  by (cases "save_separators ys"; induction xs) auto

lemma save_written:
  assumes "arg_ok a"
  shows "save_separators (written_arg a @ ys) = map_option ((@) (saved a)) (save_separators ys)"
proof (cases a)
  case (Pair q t)
  show ?thesis
  proof (cases q)
    case None
    then show ?thesis using assms Pair save_no_quotes by simp
  next
    case (Some c)
    then have "find_end c c (t @ c # ys) = Some (t, ys)"
      using assms Pair by (intro find_end_ok) (auto simp: is_quote_def)
    then show ?thesis using assms Pair Some by (cases "save_separators ys") simp_all
  qed
qed

lemma save_args: "\<forall>a \<in> set as. arg_ok a \<Longrightarrow> save_separators (concat (map (\<lambda>a. CHR '' '' # written_arg a) as)) = Some (saved_args as)"
  by (induction as) (simp_all add: saved_args_def is_quote_def save_written)

lemma save_line: "keyword_ok k \<Longrightarrow> \<forall>a \<in> set as. arg_ok a \<Longrightarrow> save_separators (command_line k as) = Some (k @ saved_args as)"
  by (simp add: command_line_def keyword_ok_def save_no_quotes save_args)

text \<open>The tokens of the line\<close>

lemma strtok_token:
  assumes "tok \<noteq> []" and "\<forall>c \<in> set tok. c \<notin> set delims" and "rest = [] \<or> hd rest \<in> set delims"
  shows "strtok_set delims (tok @ rest) = Some (tok, drop 1 rest)"
proof -
  have "dropWhile (\<lambda>c. c \<in> set delims) (tok @ rest) = tok @ rest" using assms(1,2) by (cases tok) simp_all
  moreover have "takeWhile (\<lambda>c. c \<notin> set delims) (tok @ rest) = tok" "dropWhile (\<lambda>c. c \<notin> set delims) (tok @ rest) = rest"
    using assms(2,3) by (cases rest; simp add: takeWhile_append dropWhile_append)+
  ultimately show ?thesis using assms(1) by (simp add: strtok_set_def)
qed

lemma save_char_delim: "save_char c \<notin> set ARG_DELIMS"
  by (simp add: save_char_def ARG_DELIMS_def)

lemma saved_token: "arg_ok a \<Longrightarrow> saved a \<noteq> [] \<and> (\<forall>c \<in> set (saved a). c \<notin> set ARG_DELIMS)"
proof (induction a rule: saved.induct)
  case (2 q a)
  then have "q \<notin> set ARG_DELIMS" by (auto simp: is_quote_def ARG_DELIMS_def)
  then show ?case using save_char_delim by auto
qed simp

lemma unquote_saved: "arg_ok a \<Longrightarrow> unquote (saved a) = Inr (unquoted a)"
  by (induction a rule: saved.induct) (auto simp: unquote_def)

lemma saved_args_hd: "saved_args as = [] \<or> hd (saved_args as) = CHR '' ''"
  by (cases as) (simp_all add: saved_args_def)

lemma read_args_ok:
  "\<forall>a \<in> set as. arg_ok a \<Longrightarrow> length as \<le> n \<Longrightarrow> read_args n (drop 1 (saved_args as)) = Inr (map unquoted as, [])"
proof (induction as arbitrary: n)
  case Nil
  then show ?case by (cases n) (simp_all add: saved_args_def strtok_set_def)
next
  case (Cons a as)
  then obtain m where n: "n = Suc m" by (cases n) auto
  have "strtok_set ARG_DELIMS (saved a @ saved_args as) = Some (saved a, drop 1 (saved_args as))"
    using saved_token [of a] saved_args_hd [of as] Cons.prems(1) by (intro strtok_token) (auto simp: ARG_DELIMS_def)
  moreover have "drop 1 (saved_args (a # as)) = saved a @ saved_args as" by (simp add: saved_args_def)
  ultimately show ?case using Cons n by (simp add: unquote_saved)
qed

lemma restore_save: "\<not> reserved c \<Longrightarrow> restore_char (save_char c) = c"
  by (auto simp: restore_char_def save_char_def reserved_def)

lemma restore_id: "\<not> reserved c \<Longrightarrow> restore_char c = c"
  by (simp add: restore_char_def reserved_def)

lemma restore_unquoted: "arg_ok a \<Longrightarrow> map restore_char (unquoted a) = snd a"
  by (induction a rule: unquoted.induct) (simp_all add: restore_save restore_id map_idI)

text \<open>The characters of the line\<close>

lemma command_line_chars:
  assumes "keyword_ok k" and "\<forall>a \<in> set as. arg_ok a"
  shows "\<forall>c \<in> set (command_line k as). \<not> reserved c" and "command_line k as \<noteq> []" "last (command_line k as) \<noteq> CHR 0x0A"
proof -
  have a: "\<forall>c \<in> set (written_arg a). \<not> reserved c" "written_arg a \<noteq> []" "last (written_arg a) \<noteq> CHR 0x0A" if "arg_ok a" for a
    using that by (cases a; cases "fst a"; auto simp: is_quote_def reserved_def dest: last_in_set)+
  show "\<forall>c \<in> set (command_line k as). \<not> reserved c"
    using assms a(1) by (auto simp: command_line_def keyword_ok_def reserved_def)
  show "command_line k as \<noteq> []" using assms by (simp add: command_line_def keyword_ok_def)
  show "last (command_line k as) \<noteq> CHR 0x0A"
  proof (cases as rule: rev_cases)
    case Nil
    then show ?thesis using assms(1) by (auto simp: command_line_def keyword_ok_def)
  next
    case (snoc bs b)
    then show ?thesis using a [of b] assms(2) by (simp add: command_line_def)
  qed
qed

lemma strip_command_line:
  assumes "keyword_ok k" and "\<forall>a \<in> set as. arg_ok a"
  shows "strip_line (command_line k as) = command_line k as"
proof -
  have "takeWhile (\<lambda>c. c \<noteq> CHR ''#'') (command_line k as) = command_line k as"
    using command_line_chars(1) [OF assms] by (auto simp: takeWhile_eq_all_conv reserved_def)
  then show ?thesis using command_line_chars(3) [OF assms] by (simp add: strip_line_def)
qed

lemma read_keyword_ok:
  assumes "keyword_ok k" and "\<forall>a \<in> set as. arg_ok a" and "contents p = command_line k as" and "\<not> finished p"
  shows "read_keyword (Suc n) p = Inr (Some (drop 1 (saved_args as)),
    p\<lparr>finished := \<not> infinite p, lineno := lineno p + 1, keyword := Some k\<rparr>)"
proof -
  have "strtok_set KEYWORD_DELIMS (k @ saved_args as) = Some (k, drop 1 (saved_args as))"
    using assms(1) saved_args_hd [of as] by (intro strtok_token) (auto simp: keyword_ok_def KEYWORD_DELIMS_def)
  moreover have "\<not> (\<exists>c \<in> set (command_line k as). c = CHR 0x01 \<or> c = CHR 0x02 \<or> c = CHR 0x03)"
    using command_line_chars(1) [OF assms(1,2)] by (auto simp: reserved_def)
  ultimately show ?thesis
    using assms(3,4) command_line_chars(2) [OF assms(1,2)]
    by (cases p) (simp add: readLine_def strip_command_line [OF assms(1,2)] save_line [OF assms(1,2)])
qed

lemma find_token_ok:
  assumes "find (\<lambda>t. same_text k (tr_keyword t)) ts = Some t" and "min_arg t \<le> n" "n \<le> max_arg t"
  shows "find_token k n l ts = Inr (tr_token t)"
  using assms by (induction ts) (auto split: if_splits)

text \<open>
  \<open>nextLine\<close> reads a line back. Of a keyword and at most 16 arguments, each written as it is, if it needs no quotes, or between
  quotes of a kind it does not contain, the parser gets the token of the keyword in its table and exactly the
  arguments, with separators and quotes of the other kind; \<open>getString\<close> gives each of them but for \<open>@empty@\<close>.
\<close>

lemma nextLine_reads_back:
  assumes "contents p = command_line k as" and "\<not> finished p" and "keyword_ok k" and "\<forall>a \<in> set as. arg_ok a"
    and "length as \<le> 16" and "find (\<lambda>t. same_text k (tr_keyword t)) (transtable p) = Some t"
    and "tr_token t \<noteq> 0" "min_arg t \<le> int (length as)" "int (length as) \<le> max_arg t"
  shows "\<exists>p'. nextLine (Suc n) p = Inr (lineno p + 1, p') \<and> token p' = tr_token t \<and> keyword p' = Some k \<and>
    transtable p' = transtable p \<and> contents p' = contents p \<and> finished p' = (\<not> infinite p) \<and>
    argcount p' = int (length as) \<and> args p' = map snd as \<and>
    (\<forall>i < length as. getString p' (int i) = Inr (if snd (as ! i) = ''@empty@'' then [] else snd (as ! i)))"
proof -
  let ?p = "p\<lparr>argcount := 0, token := 0, keyword := None\<rparr>"
  have "read_keyword (Suc n) ?p = Inr (Some (drop 1 (saved_args as)),
      ?p\<lparr>finished := \<not> infinite ?p, lineno := lineno ?p + 1, keyword := Some k\<rparr>)"
    using assms(1-4) by (intro read_keyword_ok) simp_all
  moreover have "read_args 16 (drop 1 (saved_args as)) = Inr (map unquoted as, [])"
    using read_args_ok assms(4,5) by simp
  moreover have "map (map restore_char) (map unquoted as) = map snd as"
    using restore_unquoted assms(4) by simp
  moreover have "map restore_char k = k" using assms(3) restore_id by (simp add: keyword_ok_def map_idI)
  moreover have "find_token k (int (length as)) (lineno p + 1) (transtable p) = Inr (tr_token t)"
    using find_token_ok assms(6,8,9) by blast
  ultimately have "nextLine (Suc n) p = Inr (lineno p + 1,
      ?p\<lparr>finished := \<not> infinite p, lineno := lineno p + 1, argcount := int (length as), token := tr_token t,
         keyword := Some k, args := map snd as\<rparr>)"
    using assms(7) by (simp add: nextLine_def strtok_set_def del: read_keyword.simps map_map)
  then show ?thesis by (simp add: getString_def arg_at_def)
qed

definition demo_args :: "(char option \<times> string) list" where
  "demo_args = [(None, ''cost''), (Some SQ, ''a, b''), (Some DQ, [])]"

definition demo_parser :: string_parser where
  "demo_parser =
     \<lparr>transtable = [\<lparr>tr_keyword = ''conpar'', tr_token = 1, min_arg = 3, max_arg = 3\<rparr>], lineno = 0, argcount = 0, token = 0,
      keyword = None, args = [], contents = command_line ''ConPar'' demo_args, infinite = False, finished = False\<rparr>"

lemma nextLine_reads_back_witness:
  "\<exists>p'. nextLine 1 demo_parser = Inr (1, p') \<and> args p' = [''cost'', ''a, b'', []] \<and> getString p' 1 = Inr ''a, b''"
proof -
  have "find (\<lambda>t. same_text ''ConPar'' (tr_keyword t)) (transtable demo_parser) =
      Some \<lparr>tr_keyword = ''conpar'', tr_token = 1, min_arg = 3, max_arg = 3\<rparr>"
    by (simp add: demo_parser_def same_text_def to_lower_def char_of_def bit_0)
  moreover have "keyword_ok ''ConPar''" "\<forall>a \<in> set demo_args. arg_ok a"
    by (simp_all add: keyword_ok_def KEYWORD_DELIMS_def ARG_DELIMS_def reserved_def is_quote_def demo_args_def)
  ultimately obtain p' where p': "nextLine (Suc 0) demo_parser = Inr (lineno demo_parser + 1, p')" "args p' = map snd demo_args"
      "argcount p' = int (length demo_args)"
    using nextLine_reads_back [of demo_parser "''ConPar''" demo_args _ 0] by (auto simp: demo_parser_def demo_args_def)
  then show ?thesis by (simp add: demo_parser_def demo_args_def getString_def arg_at_def)
qed

text \<open>A parser that gives its line again and again never returns if there is no keyword on it.\<close>

lemma blank_line_forever:
  assumes "infinite p" "\<not> finished p" "contents p \<noteq> []" and "set (contents p) \<subseteq> set KEYWORD_DELIMS"
  shows "nextLine n p = Inl (Fault Blocked)"
proof -
  have s: "strip_line (contents p) = contents p"
  proof -
    have "last (contents p) \<in> set KEYWORD_DELIMS" using assms(3,4) last_in_set by blast
    then have "last (contents p) \<noteq> CHR 0x0A" by (auto simp: KEYWORD_DELIMS_def)
    moreover have "CHR ''#'' \<notin> set (contents p)" using assms(4) by (auto simp: KEYWORD_DELIMS_def)
    ultimately show ?thesis by (auto simp: strip_line_def takeWhile_eq_all_conv)
  qed
  have "save_separators (contents p @ []) = Some (contents p)"
    using assms(4) by (subst save_no_quotes) (auto simp: is_quote_def KEYWORD_DELIMS_def)
  moreover have "dropWhile (\<lambda>c. c \<in> set KEYWORD_DELIMS) (contents p) = []" using assms(4) by auto
  moreover have "\<not> (\<exists>c \<in> set (contents p). c = CHR 0x01 \<or> c = CHR 0x02 \<or> c = CHR 0x03)"
    using assms(4) by (auto simp: KEYWORD_DELIMS_def)
  ultimately have "read_keyword n q = Inl (Fault Blocked)"
    if "contents q = contents p" "infinite q" "\<not> finished q" for q
    using that assms(3) s by (induction n arbitrary: q) (simp_all add: readLine_def strtok_set_def)
  then show ?thesis using assms(1,2) by (simp add: nextLine_def)
qed

text \<open>Text behind a closing quote is not refused: the assertion on the last character fails.\<close>

lemma text_behind_quote:
  "nextLine (Suc n) (demo_parser\<lparr>contents := ''conpar '' @ DQ # ''a'' @ DQ # ''b 1 2''\<rparr>) = Inl (Fault Assertion)"
  by (simp add: nextLine_def demo_parser_def readLine_def strip_line_def is_quote_def strtok_set_def unquote_def save_char_def
      KEYWORD_DELIMS_def ARG_DELIMS_def eval_nat_numeral)

text \<open>Numbers are read as far as they go, and a leading zero makes them octal.\<close>

lemma numbers_with_a_tail: "scan_number ''12abc'' = Some 12" "scan_number ''08'' = Some 0" "scan_number ''0x1F'' = Some 31"
  by (simp_all add: scan_number_def scan_int_def scan_digits_def digit_value_def blank_char_def)

end
