(* ===== verification/Sim_Shell.thy ===== *)
theory Sim_Shell
  imports Sim_Network Sim_Parser
begin

text \<open>
  Commands for a node of the simulation: \<open>shell\<close> and \<open>handleParameterChange\<close> of \<open>GoBackN/protsim/common/NetworkStack.cc\<close>, which change
  parameters of the links of the node and tell the routing daemon about changed costs.
\<close>

text \<open>The message \<open>LocalLinkChangeNotif\<close>\<close>

record 'd link_change =
  linkIndex :: nat
  nextHop :: int
  oldCost :: 'd
  newCost :: 'd

text \<open>
  The channel behind each gate \<open>netOut[i]\<close> with its parameters, the costs the node keeps of them and the notifications
  scheduled for now.
\<close>

record 'd shell_stack = net_stack +
  channels :: "(string \<rightharpoonup> 'd) list"
  costs :: "'d list"
  notifs :: "'d link_change list"

definition notify_change :: "nat \<Rightarrow> 'd \<Rightarrow> 'd \<Rightarrow> 'd shell_stack \<Rightarrow> 'd shell_stack" where
  "notify_change i old new s =
     s\<lparr>notifs := notifs s @ [\<lparr>linkIndex = i, nextHop = peers s ! i, oldCost = old, newCost = new\<rparr>]\<rparr>"

definition conpar_table :: "translation list" where
  "conpar_table = [\<lparr>tr_keyword = ''conpar'', tr_token = 1, min_arg = 3, max_arg = 3\<rparr>]"

text \<open>The case \<open>eCONNECTION_PAR\<close>: the new result. \<open>one\<close> is the number 1, the old value of a parameter that is new.\<close>

definition connection_par ::
  "(string \<Rightarrow> 'd option) \<Rightarrow> 'd \<Rightarrow> string_parser \<Rightarrow> 'd shell_stack \<Rightarrow> parser_error + string \<times> 'd shell_stack" where
  "connection_par scanf_double one p s =
     bind_res (getString p 0) (\<lambda>parName.
     bind_res (getUInt p 1) (\<lambda>index.
     bind_res (getDouble scanf_double p 2) (\<lambda>value.
     let i = unat index
     in if i < length (peers s) then
          let channel = channels s ! i;
              oldval = (case channel parName of Some v \<Rightarrow> v | None \<Rightarrow> one);
              s = s\<lparr>channels := (channels s)[i := channel(parName \<mapsto> value)]\<rparr>
          in Inr (''okay'', if parName = ''cost'' then notify_change i oldval value (s\<lparr>costs := (costs s)[i := value]\<rparr>) else s)
        else Inr (''out of bounds'', s))))"

text \<open>
  The loop over the lines, for at most \<open>n\<close> of them, with the last result. An error that is thrown ends it, and its text is the result.
\<close>

fun shell_loop ::
  "(string \<Rightarrow> 'd option) \<Rightarrow> 'd \<Rightarrow> nat \<Rightarrow> string_parser \<Rightarrow> string option \<Rightarrow> 'd shell_stack \<Rightarrow> fault + string option \<times> 'd shell_stack" where
  "shell_loop scanf_double one 0 p r s = Inl Blocked"
| "shell_loop scanf_double one (Suc n) p r s =
     (case nextLine 2 p of
        Inl (Fault f) \<Rightarrow> Inl f
      | Inl (Thrown code msg l) \<Rightarrow> Inr (Some msg, s)
      | Inr (l, p) \<Rightarrow>
          if l = 0 then Inr (r, s)
          else if token p \<noteq> 1 then Inl Assertion
          else
            (case connection_par scanf_double one p s of
               Inl (Fault f) \<Rightarrow> Inl f
             | Inl (Thrown code msg l) \<Rightarrow> Inr (Some msg, s)
             | Inr (r, s) \<Rightarrow> shell_loop scanf_double one n p (Some r) s))"

definition shell :: "(string \<Rightarrow> 'd option) \<Rightarrow> 'd \<Rightarrow> string \<Rightarrow> 'd shell_stack \<Rightarrow> fault + string option \<times> 'd shell_stack" where
  "shell scanf_double one command s =
     (case new_parser command conpar_table False of
        Inl (Fault f) \<Rightarrow> Inl f
      | Inl (Thrown code msg l) \<Rightarrow> Inr (Some msg, s)
      | Inr p \<Rightarrow> shell_loop scanf_double one 2 p None s)"

text \<open>
  \<open>handleParameterChange\<close>: the result of the shell, if it was called, and the state. \<open>value\<close> is what \<open>par(parname)\<close> is as a text and as a
  double. A channel without a cost ends the simulation; a gate that is not there is a null pointer.
\<close>

definition handleParameterChange ::
  "(string \<Rightarrow> 'd option) \<Rightarrow> 'd \<Rightarrow> string \<Rightarrow> string \<times> 'd \<Rightarrow> 'd shell_stack \<Rightarrow> fault + string option \<times> 'd shell_stack" where
  "handleParameterChange scanf_double one parname = (\<lambda>(txt, value) s.
     if parname = ''shell'' \<and> txt \<noteq> [] then shell scanf_double one txt s
     else if take 5 parname = ''cost['' then
       (case scan_int 10 (drop 5 parname) of
          None \<Rightarrow> Inl Undefined
        | Some i \<Rightarrow>
            if i < 0 \<or> int (length (peers s)) \<le> i then Inl Undefined
            else
              let i = nat i; channel = channels s ! i
              in (case channel ''cost'' of
                    None \<Rightarrow> Inl (Exit 1)
                  | Some old \<Rightarrow> Inr (None, notify_change i old value (s\<lparr>channels := (channels s)[i := channel(''cost'' \<mapsto> value)]\<rparr>))))
     else Inr (None, s))"

lemma nextLine_end: "finished p \<Longrightarrow> \<exists>p'. nextLine (Suc n) p = Inr (0, p')"
  by (simp add: nextLine_def readLine_def)

lemma shell_loop_end: "finished p \<Longrightarrow> shell_loop scanf_double one (Suc n) p r s = Inr (r, s)"
  using nextLine_end [of p 1] by (fastforce simp: numeral_2_eq_2)

lemma getUInt_ok:
  assumes "args p = as" "argcount p = int (length as)" "i < length as" and "scan_number (as ! i) = Some (int n)" "n < 2 ^ 32"
  shows "getUInt p (int i) = Inr (word_of_int (int n))" "unat (word_of_int (int n) :: u32) = n"
  using assms by (simp_all add: getUInt_def arg_at_def unsigned_of_nat take_bit_nat_eq_self)

lemma getDouble_ok:
  "args p = as \<Longrightarrow> argcount p = int (length as) \<Longrightarrow> i < length as \<Longrightarrow> scanf_double (as ! i) = Some v \<Longrightarrow>
    getDouble scanf_double p (int i) = Inr v"
  by (simp add: getDouble_def arg_at_def)

text \<open>
  C38: The command \<open>conpar name index value\<close>, in any case and with any quotes. If there is such a link, it sets this parameter of this
  link to the value and changes no other parameter and nothing the node knows of its network; a new cost is also kept by the node
  and told to the routing daemon, once and with the old one. If there is no such link, it changes nothing and says so.
\<close>

theorem shell_sets_link_parameter:
  assumes "same_text k ''conpar''" "keyword_ok k" and "arg_ok a" "arg_ok b" "arg_ok c"
    and "scan_number (snd b) = Some (int i)" "i < 2 ^ 32" and "scanf_double (snd c) = Some v"
    and "snd a \<noteq> ''@empty@''" and "length (channels s) = length (peers s)"
  shows "\<exists>r s'. shell scanf_double one (command_line k [a, b, c]) s = Inr (Some r, s') \<and>
    (i < length (peers s) \<longrightarrow> r = ''okay'' \<and> net_stack.truncate s' = net_stack.truncate s \<and>
       (\<forall>j name. j < length (peers s) \<longrightarrow>
         (channels s' ! j) name = (if j = i \<and> name = snd a then Some v else (channels s ! j) name)) \<and>
       costs s' = (if snd a = ''cost'' then (costs s)[i := v] else costs s) \<and>
       notifs s' = notifs s @ (if snd a = ''cost''
         then [\<lparr>linkIndex = i, nextHop = peers s ! i, oldCost = (case (channels s ! i) ''cost'' of Some w \<Rightarrow> w | None \<Rightarrow> one), newCost = v\<rparr>] else [])) \<and>
    (length (peers s) \<le> i \<longrightarrow> r = ''out of bounds'' \<and> s' = s)"
proof -
  let ?as = "[a, b, c]"
  let ?p = "\<lparr>transtable = conpar_table, lineno = 0, argcount = 0, token = 0, keyword = None, args = [],
    contents = command_line k ?as, infinite = False, finished = False\<rparr>"
  have p: "new_parser (command_line k ?as) conpar_table False = Inr ?p" by (simp add: new_parser_def conpar_table_def)
  have "\<exists>p'. nextLine (Suc 1) ?p = Inr (lineno ?p + 1, p') \<and> token p' = 1 \<and> keyword p' = Some k \<and>
      transtable p' = transtable ?p \<and> contents p' = contents ?p \<and> finished p' = (\<not> infinite ?p) \<and>
      argcount p' = int (length ?as) \<and> args p' = map snd ?as \<and>
      (\<forall>i < length ?as. getString p' (int i) = Inr (if snd (?as ! i) = ''@empty@'' then [] else snd (?as ! i)))"
    using assms(1-5) nextLine_reads_back [of ?p k ?as "\<lparr>tr_keyword = ''conpar'', tr_token = 1, min_arg = 3, max_arg = 3\<rparr>" 1]
    by (simp add: conpar_table_def)
  then obtain p' where p': "nextLine 2 ?p = Inr (1, p')" "token p' = 1" "finished p'" "argcount p' = int (length ?as)"
      "args p' = map snd ?as" "getString p' 0 = Inr (snd a)"
    using assms(9) by (auto simp: numeral_2_eq_2)
  have "getUInt p' (int 1) = Inr (word_of_int (int i))" and i: "unat (word_of_int (int i) :: u32) = i"
    using getUInt_ok [of p' "map snd ?as" 1 i] assms(6,7) p'(4,5) by simp_all
  moreover have "getDouble scanf_double p' (int 2) = Inr v"
    using getDouble_ok [of p' "map snd ?as" 2 scanf_double v] assms(8) p'(4,5) by simp
  ultimately have get: "getUInt p' 1 = Inr (word_of_int (int i))" "getDouble scanf_double p' 2 = Inr v" by simp_all
  have run: "shell scanf_double one (command_line k ?as) s =
      (case connection_par scanf_double one p' s of
         Inl (Fault f) \<Rightarrow> Inl f | Inl (Thrown code msg l) \<Rightarrow> Inr (Some msg, s) | Inr (r, s) \<Rightarrow> Inr (Some r, s))"
    using p'(1,2) shell_loop_end [OF p'(3), of scanf_double one 0]
    by (simp add: shell_def p numeral_2_eq_2 split: sum.splits parser_error.splits prod.splits)
  show ?thesis
  proof (cases "i < length (peers s)")
    case True
    then show ?thesis
      using assms(10) get i p'(6) run
      by (auto simp: connection_par_def notify_change_def Let_def net_stack.truncate_def nth_list_update split: option.splits)
  next
    case False
    then show ?thesis using get i p'(6) run by (simp add: connection_par_def Let_def)
  qed
qed

definition demo_shell_stack :: "int shell_stack" where
  "demo_shell_stack = \<lparr>nodeAddr = 0, routes = [], neighbors = [], applications = [], peers = [4, 5], maxTTL = 9,
    channels = [[''cost'' \<mapsto> 2], [''cost'' \<mapsto> 3]], costs = [2, 3], notifs = []\<rparr>"

lemma shell_sets_link_parameter_witness:
  "\<exists>s'. shell (scan_int 10) 1 (command_line ''conpar'' [(None, ''cost''), (None, ''1''), (Some DQ, ''7'')]) demo_shell_stack = Inr (Some ''okay'', s') \<and>
    costs s' = [2, 7] \<and> notifs s' = [\<lparr>linkIndex = 1, nextHop = 5, oldCost = 3, newCost = 7\<rparr>]"
proof -
  have "scan_number (snd (None :: char option, ''1'')) = Some (int 1)" "scan_int 10 (snd (Some DQ, ''7'')) = Some 7"
    by (simp_all add: scan_number_def scan_int_def scan_digits_def digit_value_def blank_char_def)
  moreover have "keyword_ok ''conpar''" "arg_ok (None, ''cost'')" "arg_ok (None, ''1'')" "arg_ok (Some DQ, ''7'')"
    by (simp_all add: keyword_ok_def KEYWORD_DELIMS_def ARG_DELIMS_def reserved_def is_quote_def)
  ultimately show ?thesis
    using shell_sets_link_parameter [of "''conpar''" "(None, ''cost'')" "(None, ''1'')" "(Some DQ, ''7'')" 1 "scan_int 10" 7 demo_shell_stack 1]
    by (auto simp: demo_shell_stack_def same_text_def)
qed

text \<open>A command that is not carried out changes nothing.\<close>

lemma connection_par_refuses:
  "connection_par scanf_double one p s = Inr (r, s') \<Longrightarrow> r = ''okay'' \<or> s' = s"
  by (auto simp: connection_par_def Let_def fault_simps split: if_splits)

lemma read_keyword_finishes: "read_keyword m q = Inr (x, q') \<Longrightarrow> \<not> infinite q \<Longrightarrow> finished q'"
proof (induction m arbitrary: q)
  case (Suc m)
  obtain line q1 where q1: "readLine q = (line, q1)" by fastforce
  then have f: "finished q1" "\<not> infinite q1" using Suc.prems(2) by (auto simp: readLine_def split: if_splits)
  show ?case
  proof (cases "line = []")
    case True
    then show ?thesis using Suc.prems(1) q1 f by simp
  next
    case False
    let ?q = "q1\<lparr>lineno := lineno q1 + 1\<rparr>"
    obtain l where l: "save_separators (strip_line line) = Some l"
      and run: "(case strtok_set KEYWORD_DELIMS l of None \<Rightarrow> read_keyword m ?q
        | Some (k, rest) \<Rightarrow> Inr (Some rest, ?q\<lparr>keyword := Some k\<rparr>)) = Inr (x, q')"
      using Suc.prems(1) q1 False by (simp add: Let_def throw_text_def split: if_splits option.splits)
    show ?thesis
    proof (cases "strtok_set KEYWORD_DELIMS l")
      case None
      then show ?thesis using run Suc.IH [of ?q] f by simp
    next
      case (Some kr)
      then show ?thesis using run f by (cases kr) auto
    qed
  qed
qed simp

lemma nextLine_finishes:
  assumes "nextLine n p = Inr (l, p')" "\<not> infinite p"
  shows "finished p'"
proof -
  obtain rest q where q: "read_keyword n (p\<lparr>argcount := 0, token := 0, keyword := None\<rparr>) = Inr (rest, q)"
    using assms(1) by (auto simp: nextLine_def fault_simps)
  then have "finished q" using read_keyword_finishes assms(2) by fastforce
  then show ?thesis
    using assms(1) q by (cases rest) (auto simp: nextLine_def fault_simps throw_text_def throw_def split: if_splits)
qed

lemma shell_loop_refuses:
  assumes "shell_loop scanf_double one 2 p None s = Inr (r, s')" and "\<not> infinite p"
  shows "r = Some ''okay'' \<or> s' = s"
proof (cases "nextLine 2 p")
  case (Inl e)
  then show ?thesis using assms(1) by (cases e) (simp_all add: numeral_2_eq_2)
next
  case (Inr x)
  then obtain l p' where p': "nextLine 2 p = Inr (l, p')" by (cases x) simp
  have "shell_loop scanf_double one 1 p' r s = Inr (r, s)" for r s
    using shell_loop_end [of p' scanf_double one 0] nextLine_finishes [OF p' assms(2)] by simp
  then show ?thesis
    using assms(1) p' connection_par_refuses [of scanf_double one p' s]
    by (auto simp: numeral_2_eq_2 split: if_splits sum.splits parser_error.splits)
qed

lemma shell_refuses: "shell scanf_double one command s = Inr (r, s') \<Longrightarrow> r = Some ''okay'' \<or> s' = s"
  using shell_loop_refuses by (fastforce simp: shell_def new_parser_def throw_text_def conpar_table_def)

end
