(* ===== verification/Sim_Proxy.thy ===== *)
theory Sim_Proxy
  imports Gbn_Receiver Sim_Network
begin

text \<open>
  \<open>GoBackN/protsim/techgi4/ErrorControlProxy.cc\<close>, which stands for the go-back-N programs of \<open>src.task\<close> inside the simulated network: it
  turns their messages into packets, and packets that arrive into messages, which it damages as the packets are.
\<close>

section \<open>Packets and messages\<close>

text \<open>
  The packets of \<open>ARQMessage.msg\<close>. A data packet carries the message it was made of; \<open>length_bits\<close> and \<open>bit_error\<close> are those
  of the simulator's message.
\<close>

datatype arq_body = ARQData int | ARQAck int

record arq_packet = net_packet +
  body :: arq_body
  length_bits :: int
  bit_error :: bool
  chunk :: "gbn_msg option"

text \<open>The sequence numbers recorded by the proxy\<close>

record proxy =
  sentData :: "int list"
  sentAck :: "int list"
  receivedAck :: "int list"
  receivedData :: "int list"
  corruptedData :: "int list"
  corruptedAck :: "int list"

definition init_proxy :: proxy where
  "init_proxy = \<lparr>sentData = [], sentAck = [], receivedAck = [], receivedData = [], corruptedData = [], corruptedAck = []\<rparr>"

text \<open>
  The branch \<open>eEXTERNAL_MSG\<close> at the node and application of these addresses, for a message of which \<open>bytes\<close> bytes were received. An
  acknowledgement does not take its message along.
\<close>

definition from_external :: "int \<Rightarrow> int \<Rightarrow> gbn_msg \<times> nat \<Rightarrow> proxy \<Rightarrow> fault + arq_packet \<times> proxy" where
  "from_external nodeAddress applAddress = (\<lambda>(ext, bytes) s.
     let p = \<lparr>src_node = nodeAddress, src_appl = applAddress, dest_node = gbn_msg.dest_node ext, dest_appl = gbn_msg.dest_appl ext,
              last_node = PS_NODE_UNKNOWN, TTL = 0, alert = False,
              body = ARQData (seq_no ext), length_bits = int bytes * 8, bit_error = False, chunk = Some ext\<rparr>
     in if seq_no ext \<noteq> -1 then Inr (p, s\<lparr>sentData := sentData s @ [seq_no ext]\<rparr>)
        else if seq_expected ext \<noteq> -1 then
          Inr (p\<lparr>body := ARQAck (seq_expected ext), chunk := None\<rparr>, s\<lparr>sentAck := sentAck s @ [seq_expected ext]\<rparr>)
        else Inl Assertion)"

definition byteLength :: "arq_packet \<Rightarrow> nat" where
  "byteLength p = nat ((length_bits p + 7) div 8)"

text \<open>
  The assignments that data and acknowledgements share. A message of \<open>long\<close> numbers becomes one of \<open>int32_t\<close> numbers.
\<close>

definition fill_message :: "arq_packet \<Rightarrow> int \<Rightarrow> int \<Rightarrow> gbn_msg \<Rightarrow> gbn_msg" where
  "fill_message p seqNo expected ext =
     ext\<lparr>gbn_msg.src_node := to_int32 (src_node p), gbn_msg.src_appl := to_int32 (src_appl p),
         gbn_msg.dest_node := to_int32 (dest_node p), gbn_msg.dest_appl := to_int32 (dest_appl p),
         seq_no := to_int32 seqNo, seq_expected := to_int32 expected,
         msg_size := byteLength p, has_errors := bit_error p\<rparr>"

text \<open>\<open>introduce errors\<close>: the first byte of the data is inverted, or the low byte of the sequence numbers if there is none.\<close>

definition introduce_errors :: "gbn_msg \<Rightarrow> fault + gbn_msg" where
  "introduce_errors ext =
     (if HDR < msg_size ext then
        (case payload ext of
           [] \<Rightarrow> Inl Undefined
         | c # cs \<Rightarrow> Inr (ext\<lparr>payload := (c XOR 0xFF) # cs\<rparr>))
      else Inr (ext\<lparr>seq_no := to_int32 (seq_no ext XOR 0xFF), seq_expected := to_int32 (seq_expected ext XOR 0xFF)\<rparr>))"

text \<open>
  The branches for packets that arrive: the message and how many bytes of it are sent. A packet without a message comes from a sender
  inside the simulation; its message is \<open>fresh\<close> memory, with the lines of \<open>dummy_data\<close> written into it if it is for data.
\<close>

definition to_external :: "gbn_msg \<Rightarrow> byte list \<Rightarrow> arq_packet \<Rightarrow> proxy \<Rightarrow> fault + (gbn_msg \<times> nat) \<times> proxy" where
  "to_external fresh dummy_data p s =
     (case body p of
        ARQData seqNo \<Rightarrow>
          let ext = fill_message p seqNo (-1) (case chunk p of None \<Rightarrow> fresh\<lparr>payload := dummy_data\<rparr> | Some ext \<Rightarrow> ext)
          in if bit_error p then
               bind_res (introduce_errors ext) (\<lambda>ext.
               Inr ((ext, HDR + length (payload ext)), s\<lparr>corruptedData := corruptedData s @ [seqNo]\<rparr>))
             else Inr ((ext, HDR + length (payload ext)), s\<lparr>receivedData := receivedData s @ [seqNo]\<rparr>)
      | ARQAck expected \<Rightarrow>
          let ext = fill_message p (-1) expected (case chunk p of None \<Rightarrow> fresh\<lparr>payload := []\<rparr> | Some ext \<Rightarrow> ext)
          in Inr ((ext, HDR + length (payload ext)),
               if bit_error p then s\<lparr>corruptedAck := corruptedAck s @ [expected]\<rparr>
               else s\<lparr>receivedAck := receivedAck s @ [expected]\<rparr>))"

section \<open>From program to program\<close>

text \<open>
  What the network may do to a packet on its way: nothing but its hops, its destination, which is wiped on delivery, and bit errors.
\<close>

definition travels :: "arq_packet \<Rightarrow> arq_packet \<Rightarrow> bool" where
  "travels p q \<longleftrightarrow> src_node q = src_node p \<and> src_appl q = src_appl p \<and> body q = body p \<and>
     length_bits q = length_bits p \<and> chunk q = chunk p"

text \<open>The message for the \<open>k\<close>-th chunk of a transfer, as the sender hands it to its socket\<close>

definition chunk_message :: "byte list list \<Rightarrow> nat \<Rightarrow> gbn_msg \<Rightarrow> bool" where
  "chunk_message cs k m \<longleftrightarrow> k < length cs \<and> seq_no m = int k \<and> payload m = cs ! k \<and> msg_size m = HDR + length (cs ! k)"

text \<open>\<open>passes\<close>: the message of the one program and what the other one receives of it, through two proxies and the network\<close>

definition passes :: "int \<Rightarrow> int \<Rightarrow> gbn_msg \<Rightarrow> gbn_msg \<times> nat \<Rightarrow> bool" where
  "passes node appl m out \<longleftrightarrow>
     (\<exists>p s s' q fresh dummy_data t t'. from_external node appl (m, msg_size m) s = Inr (p, s') \<and> travels p q \<and>
       to_external fresh dummy_data q t = Inr (out, t'))"

lemma byteLength_of_bytes: "length_bits p = int n * 8 \<Longrightarrow> byteLength p = n"
  by (simp add: byteLength_def)

lemma chunk_passes:
  assumes "chunk_message cs k m" and "chunks_ok cs"
  shows "\<exists>p s'. from_external node appl (m, msg_size m) s = Inr (p, s') \<and>
    (\<forall>q t. travels p q \<longrightarrow> (\<exists>out t'. to_external fresh dummy_data q t = Inr (out, t') \<and> has_errors (fst out) = bit_error q))"
  using assms
  by (auto simp: chunk_message_def from_external_def to_external_def travels_def introduce_errors_def fill_message_def Let_def
      byteLength_of_bytes split: list.splits)

lemma passed_chunk_carries:
  assumes "chunk_message cs k m" and "chunks_ok cs" and "passes node appl m out"
  shows "carries cs out"
proof -
  have m: "k < length cs" "seq_no m = int k" "payload m = cs ! k" "msg_size m = HDR + length (cs ! k)"
    using assms(1) by (simp_all add: chunk_message_def)
  have k: "length (cs ! k) \<le> DEFAULT_PAYLOAD_SIZE" "to_int32 (int k) = int k"
    using assms(2) m(1) by (simp_all add: chunks_ok_def to_int32_id)
  obtain p s s' q fresh dummy_data t t' where run: "from_external node appl (m, msg_size m) s = Inr (p, s')" "travels p q"
      "to_external fresh dummy_data q t = Inr (out, t')"
    using assms(3) unfolding passes_def by blast
  then have q: "body q = ARQData (int k)" "chunk q = Some m" "byteLength q = HDR + length (cs ! k)"
    using m by (auto simp: from_external_def travels_def Let_def intro!: byteLength_of_bytes split: if_splits)
  show ?thesis
  proof (cases "bit_error q")
    case True
    then show ?thesis
      using run(3) q m k by (cases "cs ! k") (auto simp: to_external_def introduce_errors_def fill_message_def Let_def)
  next
    case False
    then show ?thesis using run(3) q m k by (auto simp: to_external_def fill_message_def Let_def)
  qed
qed

lemma passed_ack:
  assumes "is_ack n m" and "n \<le> 2 ^ 20" and "passes node appl m out"
  shows "seq_no (fst out) = -1 \<and> seq_expected (fst out) = int n \<and> snd out = HDR"
proof -
  have n: "to_int32 (int n) = int n" "to_int32 (-1) = -1" using assms(2) by (simp_all add: to_int32_id)
  obtain p s s' q fresh dummy_data t t' where run: "from_external node appl (m, msg_size m) s = Inr (p, s')" "travels p q"
      "to_external fresh dummy_data q t = Inr (out, t')"
    using assms(3) unfolding passes_def by blast
  then have "body q = ARQAck (int n)" "chunk q = None"
    using assms(1) by (auto simp: is_ack_def from_external_def travels_def Let_def split: if_splits)
  then show ?thesis using run(3) n by (auto simp: to_external_def fill_message_def Let_def)
qed

text \<open>
  C36: The go-back-N programs joined by the simulated network. Every message of the sender gets through its proxy, and whatever
  becomes of its packet on the network, the other proxy hands on a message. If the receiver gets any sequence of such
  messages, some damaged, repeated or lost, its file is a prefix of the chunks, complete exactly when it closes it, and each of its
  acknowledgements that gets back through the proxies is the one it sent: the number of the chunk it expects next.
\<close>

theorem transfer_through_proxies:
  assumes "chunks_ok cs" and "\<forall>out \<in> set outs. \<exists>k m. chunk_message cs k m \<and> passes node appl m out"
  shows "(\<forall>k m s. chunk_message cs k m \<longrightarrow>
      (\<exists>p s'. from_external node appl (m, msg_size m) s = Inr (p, s') \<and>
        (\<forall>q t fresh dummy_data. travels p q \<longrightarrow> (\<exists>out t'. to_external fresh dummy_data q t = Inr (out, t'))))) \<and>
    (\<exists>r acks n. receive_all init_receiver outs = Inr (r, acks) \<and> n \<le> length cs \<and> out_file r = concat (take n cs) \<and>
      (out_closed r \<longleftrightarrow> n = length cs) \<and> length acks = n \<and>
      (\<forall>i < n. \<forall>out. passes node' appl' (acks ! i) out \<longrightarrow>
        seq_no (fst out) = -1 \<and> seq_expected (fst out) = int (Suc i) \<and> snd out = HDR))"
proof
  show "\<forall>k m s. chunk_message cs k m \<longrightarrow>
      (\<exists>p s'. from_external node appl (m, msg_size m) s = Inr (p, s') \<and>
        (\<forall>q t fresh dummy_data. travels p q \<longrightarrow> (\<exists>out t'. to_external fresh dummy_data q t = Inr (out, t'))))"
    using chunk_passes [OF _ assms(1)] by (metis Pair_inject sum.inject(2))
next
  have "\<forall>out \<in> set outs. carries cs out" using assms passed_chunk_carries by blast
  then obtain r acks where r: "receive_all init_receiver outs = Inr (r, acks)" "holds_prefix cs (taken 0 outs) r"
      "list_all2 is_ack [Suc 0..<Suc (taken 0 outs)] acks"
    using receive_all_carries [OF assms(1) holds_prefix_init] assms(1) by (metis chunks_ok_def)
  let ?n = "taken 0 outs"
  have n: "?n \<le> length cs" "?n \<le> 2 ^ 20" using r(2) assms(1) by (simp_all add: holds_prefix_def chunks_ok_def)
  have len: "length acks = ?n" using list_all2_lengthD [OF r(3)] by (simp del: upt_Suc)
  have "is_ack (Suc i) (acks ! i)" "Suc i \<le> 2 ^ 20" if "i < ?n" for i
    using that r(3) n(2) by (simp_all add: list_all2_conv_all_nth del: upt_Suc)
  then have "\<forall>i < ?n. \<forall>out. passes node' appl' (acks ! i) out \<longrightarrow>
      seq_no (fst out) = -1 \<and> seq_expected (fst out) = int (Suc i) \<and> snd out = HDR"
    using passed_ack by blast
  then show "\<exists>r acks n. receive_all init_receiver outs = Inr (r, acks) \<and> n \<le> length cs \<and> out_file r = concat (take n cs) \<and>
      (out_closed r \<longleftrightarrow> n = length cs) \<and> length acks = n \<and>
      (\<forall>i < n. \<forall>out. passes node' appl' (acks ! i) out \<longrightarrow>
        seq_no (fst out) = -1 \<and> seq_expected (fst out) = int (Suc i) \<and> snd out = HDR)"
    using r n(1) len by (intro exI [of _ r] exI [of _ acks] exI [of _ ?n]) (simp add: holds_prefix_def del: upt_Suc)
qed

text \<open>A file of one byte: its packet arrives damaged, then intact, then the empty one.\<close>

definition demo_chunk :: gbn_msg where
  "demo_chunk = \<lparr>msg_size = 33, src_node = 0, src_appl = 0, dest_node = 2, dest_appl = 7, seq_no = 0, seq_expected = -1,
     has_errors = False, payload = [65]\<rparr>"

definition demo_end :: gbn_msg where
  "demo_end = \<lparr>msg_size = 32, src_node = 0, src_appl = 0, dest_node = 2, dest_appl = 7, seq_no = 1, seq_expected = -1,
     has_errors = False, payload = []\<rparr>"

definition arrived :: "gbn_msg \<Rightarrow> bool \<Rightarrow> byte list \<Rightarrow> gbn_msg \<times> nat" where
  "arrived m e bytes =
     (m\<lparr>gbn_msg.src_node := 1, gbn_msg.src_appl := 9, gbn_msg.dest_node := -1, gbn_msg.dest_appl := -1, seq_expected := to_int32 (-1), has_errors := e, payload := bytes\<rparr>,
      msg_size m)"

definition demo_packet :: "gbn_msg \<Rightarrow> bool \<Rightarrow> arq_packet" where
  "demo_packet m e = \<lparr>src_node = 1, src_appl = 9, dest_node = -1, dest_appl = -1, last_node = 4, TTL = 2, alert = False,
     body = ARQData (seq_no m), length_bits = int (msg_size m) * 8, bit_error = e, chunk = Some m\<rparr>"

lemma demo_int32: "to_int32 0 = 0" "to_int32 1 = 1" "to_int32 9 = 9" "to_int32 (-1) = -1"
  by (simp_all add: to_int32_id)

lemma passes_demo:
  assumes "\<exists>t'. to_external demo_end [] (demo_packet m e) init_proxy = Inr (out, t')" and "seq_no m \<noteq> -1"
  shows "passes 1 9 m out"
proof -
  have "\<exists>p s'. from_external 1 9 (m, msg_size m) init_proxy = Inr (p, s') \<and> travels p (demo_packet m e)"
    using assms(2) by (simp add: from_external_def travels_def demo_packet_def)
  then show ?thesis using assms(1) unfolding passes_def by blast
qed

lemma transfer_through_proxies_witness:
  "\<exists>r acks n. receive_all init_receiver [arrived demo_chunk True [190], arrived demo_chunk False [65], arrived demo_end False []] = Inr (r, acks) \<and>
    n \<le> 2 \<and> out_file r = concat (take n [[65], []]) \<and> (out_closed r \<longleftrightarrow> n = 2) \<and> length acks = n"
proof -
  have ok: "chunks_ok [[65], []]" by (simp add: chunks_ok_def DEFAULT_PAYLOAD_SIZE_def)
  have c: "chunk_message [[65], []] 0 demo_chunk" "chunk_message [[65], []] 1 demo_end"
    by (simp_all add: chunk_message_def demo_chunk_def demo_end_def HDR_def)
  have p: "passes 1 9 demo_chunk (arrived demo_chunk True [190])" "passes 1 9 demo_chunk (arrived demo_chunk False [65])"
    "passes 1 9 demo_end (arrived demo_end False [])"
    by (rule passes_demo [of _ True] passes_demo [of _ False];
        simp add: to_external_def introduce_errors_def fill_message_def byteLength_def arrived_def demo_packet_def demo_chunk_def demo_end_def
          HDR_def demo_int32)+
  show ?thesis
    using transfer_through_proxies [OF ok, of "[arrived demo_chunk True [190], arrived demo_chunk False [65], arrived demo_end False []]" 1 9 0 0]
      c p by fastforce
qed

end
