(* ===== verification/Sim_Ping.thy ===== *)
theory Sim_Ping
  imports Sim_Network Sim_Time
begin

text \<open>
  The application \<open>GoBackN/protsim/userapps/PingPongAppl.cc\<close>, which sends pings to another node and answers those it gets, over
  the network of \<open>Sim_Network\<close>.
\<close>

text \<open>A ping or its answer is a sequence number and a flag next to the addresses every packet has.\<close>

record ping_message =
  header :: net_packet
  ping_seq :: int
  is_reply :: bool

record ping_params =
  ping_node :: int
  ping_appl :: int
  ping_interval :: int

record pinger =
  next_send :: sim_time
  lastSentSeqNo :: int
  pings_sent :: int
  pongs_received :: int
  pingTTLs :: "int list"
  pongTTLs :: "int list"

text \<open>\<open>activity\<close> up to its loop; \<open>delay\<close> is drawn below the interval.\<close>

definition start_pinger :: "ping_params \<Rightarrow> int \<Rightarrow> int \<Rightarrow> pinger" where
  "start_pinger cfg now delay =
     \<lparr>next_send = (if ping_interval cfg \<le> 0 then Never else At (now + delay)), lastSentSeqNo = -1,
      pings_sent = 0, pongs_received = 0, pingTTLs = [], pongTTLs = []\<rparr>"

text \<open>A message that is received while the application waits: the answer, if there is one\<close>

definition receive_ping :: "ping_message \<Rightarrow> pinger \<Rightarrow> ping_message option \<times> pinger" where
  "receive_ping m s =
     (if is_reply m then
        (None, s\<lparr>pongTTLs := pongTTLs s @ [TTL (header m)], pongs_received := pongs_received s + 1\<rparr>)
      else
        (Some (m\<lparr>header := (header m)\<lparr>dest_node := src_node (header m), dest_appl := src_appl (header m)\<rparr>, is_reply := True\<rparr>),
         s\<lparr>pingTTLs := pingTTLs s @ [TTL (header m)]\<rparr>))"

text \<open>The rest of the loop, once it is time to send\<close>

definition send_ping :: "ping_params \<Rightarrow> int \<Rightarrow> pinger \<Rightarrow> fault + ping_message \<times> pinger" where
  "send_ping cfg now s =
     bind_res (assert_c (0 < ping_interval cfg)) (\<lambda>_.
     Inr (\<lparr>header = \<lparr>src_node = PS_NODE_UNKNOWN, src_appl = PS_APP_UNKNOWN, dest_node = ping_node cfg, dest_appl = ping_appl cfg,
             last_node = PS_NODE_UNKNOWN, TTL = 0, alert = False\<rparr>, ping_seq = lastSentSeqNo s + 1, is_reply = False\<rparr>,
          s\<lparr>next_send := At (now + ping_interval cfg), lastSentSeqNo := lastSentSeqNo s + 1, pings_sent := pings_sent s + 1\<rparr>))"

text \<open>The network carries the message with its header.\<close>

definition carry_ping :: "nat \<Rightarrow> (int \<Rightarrow> net_stack) \<Rightarrow> int \<Rightarrow> int \<Rightarrow> ping_message \<Rightarrow> (int \<times> nat \<times> ping_message) option" where
  "carry_ping n net u a m =
     map_option (\<lambda>(v, i, p). (v, i, m\<lparr>header := p\<rparr>)) (carry n net u (Some a) (header m))"

lemma broadcast_alert: "x \<in> set (broadcast s l p js) \<Longrightarrow> alert (fst x) = alert p"
  by (induction s l p js rule: broadcast.induct) (auto split: if_splits)

lemma sendOut_alert: "x \<in> set (sendOut s p) \<Longrightarrow> alert (fst x) = alert p"
  using broadcast_alert [of x s] by (fastforce simp: sendOut_def split: if_splits option.splits)

lemma deliverLocally_alert: "x \<in> set (deliverLocally s p) \<Longrightarrow> alert (fst x) = alert p"
  by (auto simp: deliverLocally_def split: option.splits if_splits)

lemma handleMessage_alert:
  assumes "handleMessage s local_msg from_appl p = [(q, g)]"
  shows "alert q = alert p"
proof -
  have "(q, g) \<in> set (handleMessage s local_msg from_appl p)" using assms by simp
  then show ?thesis
    using sendOut_alert [of "(q, g)" s] deliverLocally_alert [of "(q, g)" s]
    by (fastforce simp: handleMessage_def Let_def split: if_splits)
qed

lemma carry_alert: "carry n net u from_appl p = Some (v, i, q) \<Longrightarrow> alert q = alert p"
proof (induction n net u from_appl p rule: carry.induct)
  case (2 n net u from_appl p)
  then show ?case
    by (auto simp: handleMessage_alert split: list.splits prod.splits gate.splits if_splits dest!: handleMessage_alert)
qed simp

text \<open>
  With the routes the daemons compute a ping comes back. It is answered by the application it is sent to, whatever else
  that one does, and the answer is delivered to the application it came from, where it counts as received; neither takes as
  many hops as there are nodes.
\<close>

lemma ping_is_answered:
  assumes "exact_arith ar" and "network_ok ar topo" and "\<forall>x \<in> set (keys topo). stack_ok topo x (stacks x)"
    and "u \<in> set (keys topo)" "v \<in> set (keys topo)" "0 \<le> u" "0 \<le> v"
    and "map_of (applications (stacks u)) a = Some (toAppl j)" "map_of (applications (stacks v)) b = Some (toAppl i)"
    and "ping_node cfg = v" "ping_appl cfg = b" "0 < ping_interval cfg"
  shows "\<exists>net. (\<forall>x \<in> set (keys topo). calculateRoutes ar topo (stacks x) = Inr (net x)) \<and>
    (\<forall>s now. \<exists>ping s' ping'. send_ping cfg now s = Inr (ping, s') \<and> pings_sent s' = pings_sent s + 1 \<and>
      carry_ping (length topo) net u a ping = Some (v, i, ping') \<and>
      (\<forall>t. \<exists>pong t' pong'. receive_ping ping' t = (Some pong, t') \<and> carry_ping (length topo) net v b pong = Some (u, j, pong') \<and>
        ping_seq pong' = lastSentSeqNo s' \<and> 0 \<le> TTL (header pong') \<and> TTL (header pong') < int (length topo) \<and>
        (\<forall>s. fst (receive_ping pong' s) = None \<and> pongs_received (snd (receive_ping pong' s)) = pongs_received s + 1)))"
proof -
  obtain net where net: "\<forall>x \<in> set (keys topo). calculateRoutes ar topo (stacks x) = Inr (net x)"
      "\<forall>x. applications (net x) = applications (stacks x)"
      "\<forall>v \<in> set (keys topo). \<exists>h :: int \<Rightarrow> 'a. routes_to (set (keys topo)) net v h"
    using calculated_routes [OF assms(1-3)] by blast
  have card: "card (set (keys topo)) = length topo"
    using assms(2) distinct_card [of "keys topo"] by (simp add: network_ok_def keys_def)
  have deliver: "\<exists>p'. carry (length topo) net x (Some c) p = Some (y, k, p') \<and> src_node p' = x \<and> src_appl p' = c \<and>
      0 \<le> TTL p' \<and> TTL p' < int (length topo)"
    if "x \<in> set (keys topo)" "y \<in> set (keys topo)" "0 \<le> y" "map_of (applications (stacks y)) (dest_appl p) = Some (toAppl k)"
      "dest_node p = y" "\<not> alert p" for x y c k p
  proof -
    obtain h :: "int \<Rightarrow> 'a" where "routes_to (set (keys topo)) net y h" using net(3) \<open>y \<in> _\<close> by blast
    then show ?thesis using that net(2) card by (intro routed_delivery) simp_all
  qed
  have "\<exists>ping s' ping'. send_ping cfg now s = Inr (ping, s') \<and> pings_sent s' = pings_sent s + 1 \<and>
      carry_ping (length topo) net u a ping = Some (v, i, ping') \<and>
      (\<forall>t. \<exists>pong t' pong'. receive_ping ping' t = (Some pong, t') \<and> carry_ping (length topo) net v b pong = Some (u, j, pong') \<and>
        ping_seq pong' = lastSentSeqNo s' \<and> 0 \<le> TTL (header pong') \<and> TTL (header pong') < int (length topo) \<and>
        (\<forall>s. fst (receive_ping pong' s) = None \<and> pongs_received (snd (receive_ping pong' s)) = pongs_received s + 1))" for s now
  proof -
    obtain ping s' where send: "send_ping cfg now s = Inr (ping, s')" "pings_sent s' = pings_sent s + 1"
        "ping_seq ping = lastSentSeqNo s'" "\<not> is_reply ping" "dest_node (header ping) = v" "dest_appl (header ping) = b" "\<not> alert (header ping)"
      using assms(10-12) by (simp add: send_ping_def)
    then obtain p where p: "carry (length topo) net u (Some a) (header ping) = Some (v, i, p)" "src_node p = u" "src_appl p = a"
      using deliver [OF assms(4,5,7), of "header ping" i a] assms(9) by auto
    let ?q = "p\<lparr>dest_node := u, dest_appl := a\<rparr>"
    have "\<not> alert ?q" using carry_alert [OF p(1)] send(7) by simp
    then obtain q where q: "carry (length topo) net v (Some b) ?q = Some (u, j, q)" "0 \<le> TTL q" "TTL q < int (length topo)"
      using deliver [OF assms(5,4,6), of ?q j b] assms(8) by auto
    show ?thesis
      using send(1-4) p q by (auto simp: carry_ping_def receive_ping_def)
  qed
  then show ?thesis using net(1) by blast
qed

end
