(* ===== verification/Sim_External.thy ===== *)
theory Sim_External
  imports Std_Map "HOL-Library.Signed_Division"
begin

text \<open>
  How programs outside join the simulation: \<open>GoBackN/protsim/emulation/ProtSimSocketRTScheduler.cc\<close> with \<open>createApplication\<close> and
  \<open>deleteApplication\<close> of \<open>common/NetworkStack.cc\<close>. For each connection there is an \<open>ApplicationDesc\<close> on the heap and a module at some
  node; an exception thrown ends the simulation with \<open>Exit 1\<close>.
\<close>

section \<open>State\<close>

record appl_desc =
  ad_module :: "nat option"
  ad_node :: int
  ad_appl :: int
  ad_socket :: int
  ad_ip :: int
  ad_port :: int

text \<open>
  \<open>nodes\<close> has the application table of each registered node. Modules are known by their numbers, which are never used again; \<open>descs\<close> are
  the descriptions on the heap and \<open>modules\<close> the modules that exist.
\<close>

record rt_scheduler =
  nodes :: "(int, (int, nat) std_map) std_map"
  applBySocket :: "(int, nat) std_map"
  applByModule :: "(nat, nat) std_map"
  descs :: "nat \<rightharpoonup> appl_desc"
  modules :: "nat set"
  next_desc :: nat
  next_module :: nat
  numApplPerNode :: int
  numNodes :: int

definition registerNode :: "int \<Rightarrow> (int, nat) std_map \<Rightarrow> rt_scheduler \<Rightarrow> rt_scheduler" where
  "registerNode node table s = s\<lparr>nodes := assign node table (nodes s)\<rparr>"

definition delete_desc :: "nat \<Rightarrow> rt_scheduler \<Rightarrow> fault + rt_scheduler" where
  "delete_desc d s = (if descs s d = None then Inl Undefined else Inr (s\<lparr>descs := (descs s)(d := None)\<rparr>))"

definition load_desc :: "nat \<Rightarrow> rt_scheduler \<Rightarrow> fault + appl_desc" where
  "load_desc d s = (case descs s d of None \<Rightarrow> Inl Undefined | Some a \<Rightarrow> Inr a)"

text \<open>
  \<open>applByModule\<close> compares modules by their numbers, which it reads from the modules that are its keys. It must not have
  deleted ones.
\<close>

definition compare_modules :: "rt_scheduler \<Rightarrow> fault + unit" where
  "compare_modules s = (if \<forall>m \<in> set (keys (applByModule s)). m \<in> modules s then Inr () else Inl Undefined)"

section \<open>Connecting\<close>

definition mapApplAddr :: "int \<Rightarrow> rt_scheduler \<Rightarrow> fault + int \<times> int" where
  "mapApplAddr port s =
     (if numApplPerNode s = 0 \<or> numNodes s = 0 then Inl Undefined
      else Inr ((port sdiv numApplPerNode s) smod numNodes s, port smod numApplPerNode s))"

text \<open>\<open>NetworkStack::createApplication\<close> at a node with a table; the module is connected and initialised.\<close>

definition stack_createApplication :: "nat \<Rightarrow> (int, nat) std_map \<Rightarrow> rt_scheduler \<Rightarrow> fault + rt_scheduler" where
  "stack_createApplication d table s =
     bind_res (load_desc d s) (\<lambda>a.
     if map_of table (ad_appl a) \<noteq> None then Inl (Exit 1)
     else
       let m = next_module s
       in Inr (s\<lparr>nodes := assign (ad_node a) (assign (ad_appl a) m table) (nodes s), modules := insert m (modules s),
            next_module := m + 1, descs := (descs s)(d \<mapsto> a\<lparr>ad_module := Some m\<rparr>)\<rparr>))"

text \<open>
  \<open>createApplication\<close> and the \<open>catch\<close> of \<open>acceptConnection\<close> around it. If the node is not there, the description is deleted before the
  exception is thrown and deleted again when it is caught.
\<close>

definition createApplication :: "nat \<Rightarrow> rt_scheduler \<Rightarrow> fault + rt_scheduler" where
  "createApplication d s =
     bind_res (load_desc d s) (\<lambda>a.
     case map_of (nodes s) (ad_node a) of
       None \<Rightarrow> bind_res (delete_desc d s) (\<lambda>s. bind_res (delete_desc d s) (\<lambda>s. Inl (Exit 1)))
     | Some table \<Rightarrow>
         (case stack_createApplication d table s of
            Inl e \<Rightarrow> bind_res (delete_desc d s) (\<lambda>s. Inl e)
          | Inr s \<Rightarrow> Inr s))"

definition registerApplication :: "nat \<Rightarrow> rt_scheduler \<Rightarrow> fault + rt_scheduler" where
  "registerApplication d s =
     bind_res (load_desc d s) (\<lambda>a.
     case ad_module a of
       None \<Rightarrow> Inl Assertion
     | Some m \<Rightarrow>
         bind_res (compare_modules s) (\<lambda>_.
         Inr (s\<lparr>applBySocket := assign (ad_socket a) d (applBySocket s), applByModule := assign m d (applByModule s)\<rparr>)))"

text \<open>A connection that is accepted on a socket, from an address and a port\<close>

definition acceptConnection :: "int \<Rightarrow> int \<Rightarrow> int \<Rightarrow> rt_scheduler \<Rightarrow> fault + rt_scheduler" where
  "acceptConnection socket ip port s =
     bind_res (mapApplAddr port s) (\<lambda>(node, appl).
     let d = next_desc s;
         s = s\<lparr>next_desc := d + 1,
               descs := (descs s)(d \<mapsto> \<lparr>ad_module = None, ad_node = node, ad_appl = appl, ad_socket = socket, ad_ip = ip, ad_port = port\<rparr>)\<rparr>
     in bind_res (createApplication d s) (registerApplication d))"

section \<open>Disconnecting\<close>

text \<open>\<open>NetworkStack::deleteApplication\<close>; \<open>nodes[...]\<close> of a node that is not there is a null pointer.\<close>

definition deleteApplication :: "nat \<Rightarrow> rt_scheduler \<Rightarrow> fault + rt_scheduler" where
  "deleteApplication d s =
     bind_res (load_desc d s) (\<lambda>a.
     case map_of (nodes s) (ad_node a) of
       None \<Rightarrow> Inl Undefined
     | Some table \<Rightarrow>
         if map_of table (ad_appl a) = None then Inl (Exit 1)
         else
           (case ad_module a of
              None \<Rightarrow> Inl Undefined
            | Some m \<Rightarrow> Inr (s\<lparr>descs := (descs s)(d \<mapsto> a\<lparr>ad_module := None\<rparr>),
                nodes := assign (ad_node a) (erase (ad_appl a) table) (nodes s), modules := modules s - {m}\<rparr>)))"

text \<open>Erasing a null pointer from \<open>applByModule\<close> finds nothing and looks into no module.\<close>

definition deregisterApplication :: "nat \<Rightarrow> rt_scheduler \<Rightarrow> fault + rt_scheduler" where
  "deregisterApplication d s =
     bind_res (load_desc d s) (\<lambda>a.
     let s = s\<lparr>applBySocket := erase (ad_socket a) (applBySocket s)\<rparr>
     in case ad_module a of
          None \<Rightarrow> Inr s
        | Some m \<Rightarrow> bind_res (compare_modules s) (\<lambda>_. Inr (s\<lparr>applByModule := erase m (applByModule s)\<rparr>)))"

definition shutdownApplication :: "nat \<Rightarrow> rt_scheduler \<Rightarrow> fault + rt_scheduler" where
  "shutdownApplication d s =
     bind_res (deleteApplication d s) (\<lambda>s. bind_res (deregisterApplication d s) (delete_desc d))"

section \<open>Messages\<close>

text \<open>Sending to the program behind a module: its socket.\<close>

definition sendBytes :: "nat \<Rightarrow> rt_scheduler \<Rightarrow> fault + int" where
  "sendBytes m s =
     bind_res (compare_modules s) (\<lambda>_.
     case map_of (applByModule s) m of
       None \<Rightarrow> Inl (Exit 1)
     | Some d \<Rightarrow> bind_res (load_desc d s) (\<lambda>a. Inr (ad_socket a)))"

text \<open>What a socket that is ready gives: an error, at peeking or later, the end of the connection, or so many bytes.\<close>

datatype incoming = Peek_Error | Recv_Error | Closed | Bytes nat

definition MAX_RECEIVE_SIZE :: nat where "MAX_RECEIVE_SIZE = 65536"

text \<open>
  The loop over the connections of \<open>receiveWithTimeout\<close>: the module and the length of the message for it, if there is one. A connection that ends
  is erased from the map that is iterated over, and the iterator is advanced from there.
\<close>

fun poll_sockets :: "(int \<rightharpoonup> incoming) \<Rightarrow> (int, nat) std_map \<Rightarrow> rt_scheduler \<Rightarrow> fault + (nat \<times> nat) option \<times> rt_scheduler" where
  "poll_sockets ready [] s = Inr (None, s)"
| "poll_sockets ready ((socket, d) # rest) s =
     (case ready socket of
        None \<Rightarrow> poll_sockets ready rest s
      | Some (Bytes n) \<Rightarrow>
          if MAX_RECEIVE_SIZE < n then Inl Undefined
          else
            bind_res (load_desc d s) (\<lambda>a.
            case ad_module a of None \<Rightarrow> Inl Undefined | Some m \<Rightarrow> Inr (Some (m, n), s))
      | Some _ \<Rightarrow> bind_res (shutdownApplication d s) (\<lambda>s. Inl Undefined))"

definition receiveWithTimeout ::
  "(int \<times> int \<times> int) option \<Rightarrow> (int \<rightharpoonup> incoming) \<Rightarrow> rt_scheduler \<Rightarrow> fault + (nat \<times> nat) option \<times> rt_scheduler" where
  "receiveWithTimeout connection ready s =
     (case connection of
        Some (socket, ip, port) \<Rightarrow> bind_res (acceptConnection socket ip port s) (\<lambda>s. Inr (None, s))
      | None \<Rightarrow> poll_sockets ready (applBySocket s) s)"

text \<open>\<open>endRun\<close> iterates over the map in the same way.\<close>

definition endRun :: "rt_scheduler \<Rightarrow> fault + rt_scheduler" where
  "endRun s =
     (case applBySocket s of [] \<Rightarrow> Inr s | (socket, d) # _ \<Rightarrow> bind_res (shutdownApplication d s) (\<lambda>s. Inl Undefined))"

section \<open>Connections\<close>

lemma sdiv_nonneg: "0 \<le> x \<Longrightarrow> 0 < y \<Longrightarrow> x sdiv y = (x :: int) div y" "0 \<le> x \<Longrightarrow> 0 < y \<Longrightarrow> x smod y = x mod y"
  by (cases "x = 0"; simp add: signed_divide_int_def signed_modulo_int_def minus_div_mult_eq_mod)+

text \<open>The program on a port acts for the application whose address the port encodes.\<close>

lemma mapApplAddr_inverse:
  assumes "0 \<le> appl" "appl < numApplPerNode s" "0 \<le> node" "node < numNodes s"
  shows "mapApplAddr (node * numApplPerNode s + appl) s = Inr (node, appl)"
proof -
  let ?n = "numApplPerNode s"
  have "0 \<le> node * ?n + appl" using assms by simp
  then have "(node * ?n + appl) sdiv ?n = (node * ?n + appl) div ?n" "(node * ?n + appl) smod ?n = (node * ?n + appl) mod ?n"
    using assms sdiv_nonneg by simp_all
  moreover have "(node * ?n + appl) div ?n = node" "(node * ?n + appl) mod ?n = appl" using assms by simp_all
  moreover have "node smod numNodes s = node" using assms sdiv_nonneg(2) by simp
  ultimately show ?thesis using assms by (simp add: mapApplAddr_def)
qed

text \<open>Sockets, descriptions, modules and the tables of the nodes agree.\<close>

definition module_ok :: "rt_scheduler \<Rightarrow> nat \<Rightarrow> nat \<Rightarrow> bool" where
  "module_ok s m d \<longleftrightarrow> m \<in> modules s \<and> m < next_module s \<and> d < next_desc s \<and>
     (\<exists>a table. descs s d = Some a \<and> ad_module a = Some m \<and> map_of (nodes s) (ad_node a) = Some table \<and> map_of table (ad_appl a) = Some m)"

definition sched_ok :: "rt_scheduler \<Rightarrow> bool" where
  "sched_ok s \<longleftrightarrow>
     (\<forall>socket d. map_of (applBySocket s) socket = Some d \<longrightarrow>
       (\<exists>a m. descs s d = Some a \<and> ad_socket a = socket \<and> ad_module a = Some m \<and> map_of (applByModule s) m = Some d)) \<and>
     (\<forall>m d. map_of (applByModule s) m = Some d \<longrightarrow> module_ok s m d)"

lemma compare_modules_ok: "sched_ok s \<Longrightarrow> compare_modules s = Inr ()"
  by (force simp: compare_modules_def sched_ok_def module_ok_def keys_def dom_map_of_conv_image_fst [symmetric])

text \<open>A connection to a node that is there, for an application that is not yet, is accepted, and the others stay.\<close>

lemma acceptConnection_ok:
  assumes ok: "sched_ok s" and "mapApplAddr port s = Inr (node, appl)" and "map_of (nodes s) node = Some table" "map_of table appl = None"
    and "map_of (applBySocket s) socket = None"
  shows "\<exists>s'. acceptConnection socket ip port s = Inr s' \<and> sched_ok s' \<and> sendBytes (next_module s) s' = Inr socket \<and>
    (\<forall>m d. map_of (applByModule s) m = Some d \<longrightarrow> sendBytes m s' = sendBytes m s)"
proof -
  let ?d = "next_desc s" and ?m = "next_module s"
  let ?a = "\<lparr>ad_module = Some ?m, ad_node = node, ad_appl = appl, ad_socket = socket, ad_ip = ip, ad_port = port\<rparr>"
  define t where "t = s\<lparr>next_desc := ?d + 1, nodes := assign node (assign appl ?m table) (nodes s),
    modules := insert ?m (modules s), next_module := ?m + 1, descs := (descs s)(?d \<mapsto> ?a)\<rparr>"
  define s' where "s' = t\<lparr>applBySocket := assign socket ?d (applBySocket t), applByModule := assign ?m ?d (applByModule t)\<rparr>"
  have old: "module_ok t m d" if "map_of (applByModule s) m = Some d" for m d
  proof -
    obtain a tab where a: "descs s d = Some a" "ad_module a = Some m" "map_of (nodes s) (ad_node a) = Some tab"
        "map_of tab (ad_appl a) = Some m" "m \<in> modules s" "m < ?m" "d < ?d"
      using ok \<open>map_of (applByModule s) m = Some d\<close> unfolding sched_ok_def module_ok_def by blast
    then have "ad_node a \<noteq> node \<or> ad_appl a \<noteq> appl \<and> tab = table" using assms(3,4) by auto
    then show ?thesis using a by (auto simp: module_ok_def t_def map_of_assign)
  qed
  have new: "module_ok t ?m ?d" by (simp add: module_ok_def t_def map_of_assign)
  have t: "applByModule t = applByModule s" "applBySocket t = applBySocket s" "modules t = insert ?m (modules s)" "descs t ?d = Some ?a"
    by (simp_all add: t_def)
  have "compare_modules t = Inr ()"
    using compare_modules_ok [OF ok] t by (auto simp: compare_modules_def split: if_splits)
  then have "acceptConnection socket ip port s = Inr s'"
    using assms(2-4) t
    by (simp add: acceptConnection_def createApplication_def stack_createApplication_def registerApplication_def load_desc_def Let_def
        s'_def t_def)
  moreover have s': "sched_ok s'"
    unfolding sched_ok_def
  proof (intro conjI allI impI)
    fix so d assume "map_of (applBySocket s') so = Some d"
    then have "so = socket \<and> d = ?d \<or> so \<noteq> socket \<and> map_of (applBySocket s) so = Some d"
      using t by (auto simp: s'_def map_of_assign split: if_splits)
    then show "\<exists>a m. descs s' d = Some a \<and> ad_socket a = so \<and> ad_module a = Some m \<and> map_of (applByModule s') m = Some d"
    proof
      assume "so = socket \<and> d = ?d"
      then show ?thesis using t by (simp add: s'_def map_of_assign)
    next
      assume "so \<noteq> socket \<and> map_of (applBySocket s) so = Some d"
      then obtain a m where a: "descs s d = Some a" "ad_socket a = so" "ad_module a = Some m" "map_of (applByModule s) m = Some d"
        using ok unfolding sched_ok_def by blast
      moreover have "m < ?m" "d < ?d" using a(4) ok unfolding sched_ok_def module_ok_def by blast+
      ultimately show ?thesis using t by (auto simp: s'_def t_def map_of_assign)
    qed
  next
    fix m d assume "map_of (applByModule s') m = Some d"
    then have "module_ok t m d" using t old new by (auto simp: s'_def map_of_assign split: if_splits)
    then show "module_ok s' m d" by (simp add: module_ok_def s'_def)
  qed
  moreover have "sendBytes ?m s' = Inr socket"
    using compare_modules_ok [OF s'] by (simp add: sendBytes_def load_desc_def s'_def t_def map_of_assign)
  moreover have "sendBytes m s' = sendBytes m s" if "map_of (applByModule s) m = Some d" for m d
  proof -
    have "m < ?m" "d < ?d" using ok that unfolding sched_ok_def module_ok_def by blast+
    then show ?thesis
      using compare_modules_ok [OF s'] compare_modules_ok [OF ok] that
      by (simp add: sendBytes_def load_desc_def s'_def t_def map_of_assign)
  qed
  ultimately show ?thesis by blast
qed

text \<open>For a node that is not there the description is deleted twice.\<close>

lemma unknown_node_deletes_twice:
  assumes "mapApplAddr port s = Inr (node, appl)" and "map_of (nodes s) node = None"
  shows "acceptConnection socket ip port s = Inl Undefined"
  using assms by (simp add: acceptConnection_def createApplication_def load_desc_def delete_desc_def Let_def)

text \<open>
  When a program disconnects, its module stays in \<open>applByModule\<close> although it is deleted, since the description has forgotten it: the next
  comparison reads the deleted module. And the loop that found out goes on from an element it has erased.
\<close>

lemma shutdown_leaves_module:
  assumes ok: "sched_ok s" and "map_of (applBySocket s) socket = Some d"
  shows "\<exists>s'. shutdownApplication d s = Inr s' \<and> map_of (applBySocket s') socket = None \<and> compare_modules s' = Inl Undefined"
proof -
  obtain a m where a: "descs s d = Some a" "ad_socket a = socket" "ad_module a = Some m" "map_of (applByModule s) m = Some d"
    using assms unfolding sched_ok_def by blast
  obtain table where "map_of (nodes s) (ad_node a) = Some table" "map_of table (ad_appl a) = Some m"
    using ok a unfolding sched_ok_def module_ok_def by fastforce
  moreover have "m \<in> set (keys (applByModule s))"
    using a(4) by (simp add: keys_def dom_map_of_conv_image_fst [symmetric] domI)
  ultimately show ?thesis
    using a by (auto simp: shutdownApplication_def deleteApplication_def deregisterApplication_def load_desc_def delete_desc_def
        compare_modules_def map_of_erase)
qed

lemma disconnect_stops_polling:
  assumes "applBySocket s = pre @ (socket, d) # rest" and "\<forall>x \<in> set pre. ready (fst x) = None"
    and "ready socket = Some Closed \<or> ready socket = Some Recv_Error \<or> ready socket = Some Peek_Error"
  shows "isl (receiveWithTimeout None ready s)"
proof -
  have "isl (poll_sockets ready (pre @ (socket, d) # rest) s)"
    using assms(2,3)
  proof (induction pre)
    case Nil
    then show ?case by (cases "shutdownApplication d s") auto
  qed auto
  then show ?thesis by (simp add: receiveWithTimeout_def assms(1))
qed

end
