(* ===== verification/Spec2Isabelle.thy ===== *)
theory Spec2Isabelle
  imports Dht_Ring Tcp_Server Udp_Client Film_Csv Gbn_Sender CJson_Minify Film_Server Ntp_Client Http_Reader Quote_Server Sim_Arq Sim_Queue Sim_Shell Sim_Proxy Sim_Ping Sim_External
begin

text \<open>
  Verification library of C-Computer-Networking, the programs of a course on computer networks: hash table servers
  over UDP and TCP with their clients, a film service on HTTP with its JSON library, go-back-N over a simulated
  network together with the simulator's own nodes, an NTP client, and exercises with datagrams and streams. The
  root theory only collects the others; every theory opens with what it holds.

  \<^bold>\<open>How programs are modelled.\<close> A struct is a record, a call a function of the state it reads that returns the state it
  leaves. A computation of type \<open>fault + 'a\<close> (\<open>Net_Prelude\<close>) is \<open>Inl\<close> when the C program would fail an assertion, exit,
  run into undefined behaviour or wait for ever. Machine integers are words; \<open>size_t\<close> counters that never wrap are
  naturals, with the wrap written out where one may. Memory that was never written comes from parameters (\<open>junk\<close>), over
  which the theorems are quantified. What comes from the network is the list of datagrams or received pieces that
  the calls of the sockets return. Allocation succeeds.

  \<^bold>\<open>The hash tables\<close> (directories \<open>Hash Table\<close>, \<open>Distributed Hash Table\<close>, \<open>Simple Hash Table Client Server\<close>).
  \<^item> \<open>Kv_Store\<close> is the interface the servers rely on: locale \<open>kv_store\<close>, a store that stands for a finite map.
  \<^item> \<open>Hash_Table\<close> is \<open>hash_table.c\<close>: buckets of chains, \<open>resize\<close>, \<open>ht_destroy\<close>, over the hash function, in which the
    copies of the file differ. It interprets \<open>kv_store\<close> for every hash function.
  \<^item> \<open>Kv_Protocol\<close> is the request format and the processing of the action bits that both servers share;
    \<open>spec_request\<close> is its meaning for a finite map.
  \<^item> \<open>Tcp_Server\<close> is \<open>Distributed Hash Table/server.c\<close>: \<open>serve\<close> with the partial \<open>recv\<close> calls and \<open>run_server\<close>.
  \<^item> \<open>Dht_Node\<close>, \<open>Dht_Ring\<close> and \<open>Dht_Ext\<close> are \<open>Hash Table/server.c\<close>: the handlers of the internal messages (join, notify,
    stabilize) at one node; rings of nodes, forwarding along successors and the network of members and
    messages; the requests of clients, relaying and the main loop. The copy of the file in \<open>Simple Hash Table Client
    Server\<close> has the same code with three functions renamed and one table allocated that is never used.
  \<^item> \<open>Udp_Client\<close> is \<open>client.c\<close> of both directories, composed with the server into one exchange.

  Shown: every sequence of operations on the table is that of a map and its blocks are freed once; both servers
  answer every sequence of requests as a map, the UDP server also consuming them all; a ring assigns each key to one
  node, which forwarding finds within as many hops as there are nodes, and a join keeps this exactly if the newcomer has an
  identifier of its own; loss, duplication and reordering break no assertion. The errors shown are the newcomer with
  the identifier of a member, the reply of the forward branch, which is sized by the request, the short datagram that stops
  the server, and the client's output, which ends at a NUL in the value.

  \<^bold>\<open>The film client\<close> (\<open>Movie Parser\<close>, \<open>client_malte.c\<close>). \<open>Movie_Client\<close> has marshalling and the retried remote calls, whose
  answers may be lost; \<open>Film_Csv\<close> reads the file of films. Shown: the round trip of a film through set and get, calls
  at least once, and that a well-formed file is read back.

  \<^bold>\<open>The film server\<close> (\<open>Onion Movie Hash Table Databse\<close>).
  \<^item> \<open>CJson_Text\<close>, \<open>CJson_Parse\<close>, \<open>CJson_Print\<close>, \<open>CJson_Buffer\<close>, \<open>CJson_Roundtrip\<close> and \<open>CJson_Minify\<close> are the parser, the
    printers and the minifier of \<open>cJSON.c\<close> on trees of items. Doubles are a parameter (\<open>doubles\<close>), with a conversion to
    \<open>int\<close> that is undefined outside \<open>int\<close>; where numbers are to be read back, arithmetic that is exact on integers is a
    hypothesis, which \<open>exact_doubles\<close> satisfies.
  \<^item> \<open>CJson_Heap\<close>, \<open>CJson_Links\<close>, \<open>CJson_Tree\<close>, \<open>CJson_Items\<close>, \<open>CJson_Arrays\<close> and \<open>CJson_Objects\<close> are the operations of
    \<open>cJSON.c\<close> on items in memory, linked by \<open>next\<close>, \<open>prev\<close> and \<open>child\<close>, with allocation and \<open>free\<close> explicit.
  \<^item> \<open>Film_Db\<close> is \<open>film.c\<close>, \<open>database.c\<close> and the handlers of \<open>block5.c\<close>, with a response as the list of the calls made on it
    and the logging of client data as a format string; \<open>Film_Shop\<close> and \<open>Film_Server\<close> give and prove the
    specification, a sequence of slots with an index of titles.

  Shown: the parser returns on every text, within its blocks, and its items are well formed, with undefined behaviour only
  at exponents and numbers outside \<open>int\<close>; items with integers are parsed back from what is printed; unicode escapes decode to
  UTF-8 or are rejected; the three printers agree; array and object operations in memory are those of lists and free
  each block once; the server makes on every fair sequence of requests the calls of the specification, where fair
  excludes numbers outside \<open>int\<close>, conversions of \<open>printf\<close> in logged texts, and what the lemmas
  \<open>second_put_after_retitle\<close> and \<open>bad_put_blocks_title\<close> show to go wrong.

  \<^bold>\<open>Go-back-N\<close> (\<open>GoBackN/src.task\<close>). \<open>Data_Buffer\<close> is the ring buffer, with its interface as locale \<open>seq_buffer\<close>;
  \<open>Gbn_Receiver\<close> and \<open>Gbn_Sender\<close> are the two programs. Shown: the buffer is a queue of numbered packets; whatever the
  network does, the receiver writes a prefix of the file and acknowledges exactly that; how the sender cuts the file into
  packets; that without acknowledgements it never retransmits, and what a late acknowledgement does after a timeout.

  \<^bold>\<open>The simulator\<close> (\<open>GoBackN/protsim\<close>).
  \<^item> \<open>Std_Map\<close> is \<open>std::map\<close> behind the locale \<open>assoc_container\<close>; \<open>Sim_Time\<close> has timers.
  \<^item> \<open>Sim_Topology\<close> is \<open>Topology.cc\<close>; \<open>Sim_Dijkstra\<close> is \<open>Dijkstra.cc\<close> over an arithmetic of lengths; \<open>Sim_Network\<close> is the network layer of a
    node with its forwarding tables and the daemon that fills them. The locale \<open>exact_arith\<close> says what is needed of
    lengths, and hop counts interpret it.
  \<^item> \<open>Sim_Queue\<close> is the queue in front of a link, \<open>InterfaceQueue.cc\<close>, with its statistics.
  \<^item> \<open>Sim_Arq\<close> and \<open>Sim_Ping\<close> are the applications of the simulator: go-back-N with its timers, and pings.
  \<^item> \<open>Sim_Parser\<close> and \<open>Sim_Shell\<close> are the commands for a node, \<open>Parser.cc\<close> and the shell of \<open>NetworkStack.cc\<close>.
  \<^item> \<open>Sim_External\<close> and \<open>Sim_Proxy\<close> join the programs of \<open>src.task\<close> to the simulation: the connections of the scheduler
    \<open>ProtSimSocketRTScheduler.cc\<close> and the translation of messages and packets in \<open>ErrorControlProxy.cc\<close>.

  Shown: \<open>doDijkstra\<close> gives first links of shortest walks; with the tables the daemons fill, packets reach their application before their time
  to live ends, and pings come back; the queue of a link is a single server; the simulated go-back-N sender trips an
  assertion only on an acknowledgement that was overtaken or is handled when the timer is due; a command sets just the parameter it names; and a transfer of the programs of \<open>src.task\<close> through two proxies
  leaves a prefix of the file. The lemmas of \<open>Sim_External\<close> show what goes wrong when a program disconnects.

  \<^bold>\<open>The small programs.\<close> \<open>Ntp_Client\<close> is \<open>NTP Time Server/client.c\<close>; \<open>Http_Reader\<close> is the news reader \<open>ex7.c\<close> and \<open>Quote_Server\<close> the
  quote of the day of \<open>ex5.c\<close> and \<open>ex4.c\<close> in \<open>TCP_IP_and_Drgramms\<close>. Shown: the error of the measured clock offset and the
  choice of the server; which ends of a header are found and what is read of a chunked body; what a client of the quote server prints.

  \<^bold>\<open>Bounds and fuel.\<close>
  \<^item> \<open>parse_value\<close> recurses on a depth of calls, one more than the length of the text, and every call consumes a byte:
    property \<open>parse_value_terminates\<close>.
  \<^item> \<open>cJSON_Delete\<close>, \<open>cJSON_Duplicate\<close> and the walks along a list take the number of blocks or twice that, and the lemmas on items
    in memory show that an item that is well linked needs no more.
  \<^item> \<open>route\<close> and the carrying of a packet through the simulated network take the number of nodes; the properties are that this is enough.
  \<^item> A parser of commands reads at most two lines for one keyword and \<open>shell\<close> takes at most two rounds: its text is one line, and the second
    call finds the end. \<open>run_timer\<close> needs no bound, as each timeout sends a message that waits or is not set again.
  \<^item> Loops that may run for ever end in \<open>Inl Blocked\<close>, when their input is used up, or are step relations.

  \<^bold>\<open>Not modelled.\<close> Set-up of sockets, name resolution, options and printing; failing allocation; freeing by the film handlers, whose
  films are values. The onion library, OMNeT++, Tcl and the generated classes of messages and modules are not part of the
  program's logic; requests, timers and messages are records of what the code uses of them, responses the calls made on them. In the simulator
  watches, output of statistics, the real clock and the reading of parameters, and in \<open>TCP_IP_and_Drgramms\<close> the measuring loops of
  \<open>ex6\<close>, which repeat \<open>ex4.c\<close> under a clock, are left out, as are the tests, \<open>by_chirs/tcpVideoServer.c\<close>, which prints what it
  receives, and \<open>filmParser.c\<close>, which does not compile.
\<close>

end
